(* ===== verification/Prelude.thy ===== *)
theory Prelude
  imports Main "HOL-Library.Word"
begin

text \<open>
  Types, byte order and list lemmas shared by every component of the QuantumCache
  verification library.

  A \<^verbatim>\<open>std::vector<std::uint8_t>\<close> and a \<^verbatim>\<open>std::string\<close> are both lists of bytes
  (\<open>8 word\<close>): the sources copy one into the other without any conversion.  Integers of a
  fixed width that are stored, compared or counted with wrap-around are words of that width;
  file offsets, container sizes and \<^verbatim>\<open>std::size_t\<close> buffer offsets are \<open>nat\<close>.

  \<^verbatim>\<open>AppendRaw\<close> and \<^verbatim>\<open>ReadRaw\<close> copy the object representation of an integer.  Both
  supported targets (x86-64 Windows and the x86-64 Linux test host) are little endian, which is
  what \<open>le_bytes\<close> and \<open>le_word\<close> write out.
\<close>

unbundle bit_operations_syntax

section \<open>Types\<close>

type_synonym byte = "8 word"
type_synonym bytes = "byte list"
type_synonym u32 = "32 word"
type_synonym u64 = "64 word"
type_synonym cstring = "bytes"
type_synonym key = "cstring"
type_synonym "value" = "bytes"

text \<open>The bytes of a string literal.\<close>

definition str :: "string \<Rightarrow> cstring" where
  "str s = map of_char s"

named_theorems io_simps \<open>how an operation of a component acts on the abstract state\<close>
named_theorems inv_intros \<open>an operation keeps the invariant of its component\<close>

section \<open>Little-endian object representation\<close>

fun le_bytes :: "nat \<Rightarrow> 'a::len word \<Rightarrow> bytes" where
  "le_bytes 0 w = []"
| "le_bytes (Suc n) w = ucast w # le_bytes n (drop_bit 8 w)"

fun le_word :: "bytes \<Rightarrow> 'a::len word" where
  "le_word [] = 0"
| "le_word (b # bs) = ucast b OR push_bit 8 (le_word bs)"

lemma length_le_bytes [simp]: "length (le_bytes n w) = n"
  by (induction n arbitrary: w) auto

lemma le_word_le_bytes_bits:
  fixes w :: "'a::len word"
  shows "bit (le_word (le_bytes n w) :: 'a word) i \<longleftrightarrow> i < 8 * n \<and> bit w i"
proof (induction n arbitrary: w i)
  case 0
  then show ?case by simp
next
  case (Suc n)
  show ?case
    by (cases "i < 8") (auto simp: bit_or_iff bit_push_bit_iff bit_drop_bit_eq bit_ucast_iff Suc
        dest: bit_imp_le_length)
qed

lemma le_word_le_bytes:
  fixes w :: "'a::len word"
  assumes "LENGTH('a) \<le> 8 * n"
  shows "le_word (le_bytes n w) = w"
  by (rule bit_word_eqI) (use assms in \<open>auto simp: le_word_le_bytes_bits\<close>)

lemma le_word_le_bytes_32 [simp]: "le_word (le_bytes 4 (w :: u32)) = w"
  by (rule le_word_le_bytes) simp

lemma le_word_le_bytes_64 [simp]: "le_word (le_bytes 8 (w :: u64)) = w"
  by (rule le_word_le_bytes) simp

lemma le_word_le_bytes_8 [simp]: "le_word (le_bytes 1 (w :: byte)) = w"
  by (rule le_word_le_bytes) simp

lemma bit_le_word_cons_low:
  fixes b :: byte
  assumes "i < 8" and "8 * Suc (length bs) \<le> LENGTH('a)"
  shows "bit (le_word (b # bs) :: 'a::len word) i \<longleftrightarrow> bit b i"
  using assms by (auto simp: bit_or_iff bit_push_bit_iff bit_ucast_iff)

lemma drop_bit_le_word_cons:
  fixes b :: byte
  assumes "8 * Suc (length bs) \<le> LENGTH('a)"
  shows "drop_bit 8 (le_word (b # bs) :: 'a::len word) = le_word bs"
proof (rule bit_word_eqI)
  fix i assume "i < LENGTH('a)"
  have small: "bit (le_word cs :: 'a word) j \<Longrightarrow> j < 8 * length cs" for cs :: bytes and j
  proof (induction cs arbitrary: j)
    case (Cons c cs)
    then show ?case
      by (cases "j < 8") (auto simp: bit_or_iff bit_push_bit_iff bit_ucast_iff
          dest!: Cons.IH dest: bit_imp_le_length)
  qed simp
  show "bit (drop_bit 8 (le_word (b # bs) :: 'a word)) i = bit (le_word bs :: 'a word) i"
    using small [of bs i] assms
    by (auto simp: bit_drop_bit_eq bit_or_iff bit_push_bit_iff bit_ucast_iff
        dest: bit_imp_le_length)
qed

lemma le_bytes_le_word:
  assumes "8 * length bs \<le> LENGTH('a)"
  shows "le_bytes (length bs) (le_word bs :: 'a::len word) = bs"
  using assms
proof (induction bs)
  case (Cons b bs)
  have "ucast (le_word (b # bs) :: 'a word) = b"
  proof (rule bit_word_eqI)
    fix i assume "i < LENGTH(8)"
    then show "bit (ucast (le_word (b # bs) :: 'a word) :: byte) i = bit b i"
      using Cons.prems bit_le_word_cons_low [of i bs b, where 'a = 'a]
      by (simp add: bit_ucast_iff del: le_word.simps)
  qed
  moreover have "drop_bit 8 (le_word (b # bs) :: 'a word) = le_word bs"
    using Cons.prems by (intro drop_bit_le_word_cons) simp
  ultimately show ?case
    using Cons by (simp del: le_word.simps)
qed simp

lemma le_bytes_le_word_32: "length bs = 4 \<Longrightarrow> le_bytes 4 (le_word bs :: u32) = bs"
  using le_bytes_le_word [of bs, where 'a = 32] by simp

lemma le_bytes_le_word_64: "length bs = 8 \<Longrightarrow> le_bytes 8 (le_word bs :: u64) = bs"
  using le_bytes_le_word [of bs, where 'a = 64] by simp

lemma le_bytes_le_word_8: "length bs = 1 \<Longrightarrow> le_bytes 1 (le_word bs :: byte) = bs"
  using le_bytes_le_word [of bs, where 'a = 8] by simp

lemma le_bytes_inject_32 [simp]: "le_bytes 4 (a :: u32) = le_bytes 4 b \<longleftrightarrow> a = b"
  by (metis le_word_le_bytes_32)

lemma le_bytes_inject_64 [simp]: "le_bytes 8 (a :: u64) = le_bytes 8 b \<longleftrightarrow> a = b"
  by (metis le_word_le_bytes_64)

section \<open>Lists\<close>

lemma take_append_le [simp]: "n \<le> length xs \<Longrightarrow> take n (xs @ ys) = take n xs"
  by simp

lemma take_drop_append_split:
  "take (a + b) xs = take a xs @ take b (drop a xs)"
  by (simp add: take_add)

lemma unat_of_nat_u32 [simp]: "n < 4294967296 \<Longrightarrow> unat (of_nat n :: u32) = n"
  by (simp add: unat_of_nat)

text \<open>Incrementing a word that is not the largest one.\<close>

lemma unat_plus_one:
  fixes w :: "'a::len word"
  assumes "w \<noteq> - 1"
  shows "unat (w + 1) = Suc (unat w)"
  using unatSuc [of w] max_word_wrap [of w] assms by (auto simp: add.commute)

lemma word_less_plus_one:
  fixes w :: "'a::len word"
  shows "w \<noteq> - 1 \<Longrightarrow> w < w + 1"
  by (simp add: word_less_nat_alt unat_plus_one)

end
