(* ===== verification/Common.thy ===== *)
theory Common
  imports Prelude
begin

text \<open>
  The component \<^verbatim>\<open>src/src/Common\<close>: the error taxonomy (\<^verbatim>\<open>ErrorCode.h\<close>) and the
  \<^verbatim>\<open>Result<T>\<close> type every operation returns (\<^verbatim>\<open>Result.h\<close>).  A \<^verbatim>\<open>Result<T>\<close> is
  \<open>Error + 'a\<close>: \<open>Inl\<close> is \<^verbatim>\<open>Failure\<close>, \<open>Inr\<close> is \<^verbatim>\<open>Success\<close>.
\<close>

section \<open>ErrorCode\<close>

datatype ErrorCode =
    Ok
  | Unknown
  | InvalidArgument
  | NotFound
  | AlreadyExists
  | PermissionDenied
  | IoError
  | Timeout
  | CorruptData
  | VersionMismatch
  | NotImplementedStage1
  | UncleanShutdownDetected
  | RecoveryFailed
  | JournalCorrupt
  | PlatformUnsupported
  | Win32ApiFailure
  | CapacityExceeded
  | RecoveryNotComplete
  | CacheDisabled
  | ServiceStopping
  | UnflushedDirtyData

text \<open>The numeric values of the enumerators, which travel over IPC.\<close>

fun ErrorCode_value :: "ErrorCode \<Rightarrow> u32" where
  "ErrorCode_value Ok = 0"
| "ErrorCode_value Unknown = 1"
| "ErrorCode_value InvalidArgument = 2"
| "ErrorCode_value NotFound = 3"
| "ErrorCode_value AlreadyExists = 4"
| "ErrorCode_value PermissionDenied = 5"
| "ErrorCode_value IoError = 6"
| "ErrorCode_value Timeout = 7"
| "ErrorCode_value CorruptData = 8"
| "ErrorCode_value VersionMismatch = 9"
| "ErrorCode_value NotImplementedStage1 = 100"
| "ErrorCode_value UncleanShutdownDetected = 200"
| "ErrorCode_value RecoveryFailed = 201"
| "ErrorCode_value JournalCorrupt = 202"
| "ErrorCode_value PlatformUnsupported = 300"
| "ErrorCode_value Win32ApiFailure = 301"
| "ErrorCode_value CapacityExceeded = 400"
| "ErrorCode_value RecoveryNotComplete = 401"
| "ErrorCode_value CacheDisabled = 402"
| "ErrorCode_value ServiceStopping = 403"
| "ErrorCode_value UnflushedDirtyData = 404"

lemma ErrorCode_value_inject: "ErrorCode_value a = ErrorCode_value b \<Longrightarrow> a = b"
  by (cases a; cases b) simp_all

section \<open>Error and Result\<close>

record Error =
  code :: ErrorCode
  message :: cstring
  platformErrorValue :: u32

text \<open>\<^verbatim>\<open>Error{code, message, 0}\<close>, the way the sources build almost every error.\<close>

definition mkError :: "ErrorCode \<Rightarrow> string \<Rightarrow> Error" where
  "mkError c m = \<lparr>code = c, message = str m, platformErrorValue = 0\<rparr>"

definition mkError_key :: "ErrorCode \<Rightarrow> string \<Rightarrow> cstring \<Rightarrow> string \<Rightarrow> Error" where
  "mkError_key c pre k post =
     \<lparr>code = c, message = str pre @ k @ str post, platformErrorValue = 0\<rparr>"

lemma code_mkError [simp]: "code (mkError c m) = c"
  by (simp add: mkError_def)

lemma code_mkError_key [simp]: "code (mkError_key c a k b) = c"
  by (simp add: mkError_key_def)

type_synonym 'a result = "Error + 'a"

abbreviation Failure :: "Error \<Rightarrow> 'a result" where
  "Failure e \<equiv> Inl e"

abbreviation Success :: "'a \<Rightarrow> 'a result" where
  "Success x \<equiv> Inr x"

definition IsOk :: "'a result \<Rightarrow> bool" where
  "IsOk r = (case r of Inl _ \<Rightarrow> False | Inr _ \<Rightarrow> True)"

lemma IsOk_simps [simp]: "IsOk (Inr x)" "\<not> IsOk (Inl e)"
  by (simp_all add: IsOk_def)

lemma IsOk_unit [simp]: "IsOk (r :: unit result) \<longleftrightarrow> r = Inr ()"
  by (cases r) auto

text \<open>
  \<^verbatim>\<open>Result<void>::Err()\<close>: a successful result carries a default \<^verbatim>\<open>Error{}\<close>, whose code
  is \<open>Ok\<close>.  The IPC handler reads it without testing for success first.
\<close>

definition Err_void :: "unit result \<Rightarrow> Error" where
  "Err_void r = (case r of Inl e \<Rightarrow> e | Inr _ \<Rightarrow> \<lparr>code = Ok, message = [], platformErrorValue = 0\<rparr>)"

lemma Err_void_simps [simp]:
  "Err_void (Inl e) = e"
  "code (Err_void (Inr ())) = Ok"
  by (simp_all add: Err_void_def)

end
