(* ===== verification/JournalRecordCodec.thy ===== *)
theory JournalRecordCodec
  imports Common
begin

text \<open>
  The cache-semantic records inside the journal frames: \<^verbatim>\<open>JournalRecords.h\<close> and
  \<^verbatim>\<open>JournalRecordCodec.cpp\<close>.  The buffer helpers \<open>ReadRaw\<close> and \<open>ReadBytes\<close> are the ones
  every codec of the program repeats; \<^verbatim>\<open>AppendRaw\<close> is concatenation with \<open>le_bytes\<close>.
\<close>

section \<open>Reading from a buffer\<close>

definition ReadRaw :: "nat \<Rightarrow> bytes \<Rightarrow> nat \<Rightarrow> (bytes \<times> nat) option" where
  "ReadRaw n buffer offset =
     (if offset + n > length buffer then None
      else Some (take n (drop offset buffer), offset + n))"

definition ReadBytes :: "bytes \<Rightarrow> nat \<Rightarrow> u32 \<Rightarrow> (bytes \<times> nat) option" where
  "ReadBytes buffer offset len =
     (if offset + unat len > length buffer then None
      else Some (take (unat len) (drop offset buffer), offset + unat len))"

section \<open>CacheJournalRecord\<close>

definition kCacheRecordFormatVersion :: u32 where
  "kCacheRecordFormatVersion = 1"

datatype CacheRecordType = Upsert | FlushIntent | FlushComplete | Invalidate

fun CacheRecordType_value :: "CacheRecordType \<Rightarrow> u32" where
  "CacheRecordType_value Upsert = 1"
| "CacheRecordType_value FlushIntent = 2"
| "CacheRecordType_value FlushComplete = 3"
| "CacheRecordType_value Invalidate = 4"

text \<open>\<^verbatim>\<open>static_cast<CacheRecordType>\<close>, used on values between 1 and 4 only.\<close>

definition CacheRecordType_cast :: "u32 \<Rightarrow> CacheRecordType" where
  "CacheRecordType_cast w =
     (if w = 1 then Upsert else if w = 2 then FlushIntent
      else if w = 3 then FlushComplete else Invalidate)"

record CacheJournalRecord =
  formatVersion :: u32
  recordType :: CacheRecordType
  rec_key :: key
  rec_value :: "value"
  entryVersion :: u64

section \<open>Encode and Decode\<close>

definition Encode :: "CacheJournalRecord \<Rightarrow> bytes" where
  "Encode record =
     le_bytes 4 (formatVersion record)
     @ le_bytes 4 (CacheRecordType_value (recordType record))
     @ le_bytes 8 (entryVersion record)
     @ le_bytes 4 (of_nat (length (rec_key record)) :: u32)
     @ rec_key record
     @ le_bytes 4 (of_nat (length (rec_value record)) :: u32)
     @ rec_value record"

definition kMaxReasonableLength :: u32 where
  "kMaxReasonableLength = 64 * 1024 * 1024"

definition decode_header :: "bytes \<Rightarrow> (u32 \<times> u32 \<times> u64 \<times> u32 \<times> nat) option" where
  "decode_header buffer =
     (case ReadRaw 4 buffer 0 of None \<Rightarrow> None | Some (version, offset) \<Rightarrow>
     (case ReadRaw 4 buffer offset of None \<Rightarrow> None | Some (typeRaw, offset) \<Rightarrow>
     (case ReadRaw 8 buffer offset of None \<Rightarrow> None | Some (entry, offset) \<Rightarrow>
     (case ReadRaw 4 buffer offset of None \<Rightarrow> None | Some (keyLength, offset) \<Rightarrow>
        Some (le_word version, le_word typeRaw, le_word entry, le_word keyLength, offset)))))"

definition Decode :: "bytes \<Rightarrow> CacheJournalRecord result" where
  "Decode buffer =
     (case decode_header buffer of
        None \<Rightarrow> Failure (mkError CorruptData ''cache journal record: header truncated'')
      | Some (version, typeRaw, entry, keyLength, offset) \<Rightarrow>
     if version \<noteq> kCacheRecordFormatVersion
     then Failure (mkError VersionMismatch ''cache journal record: unsupported formatVersion'')
     else if typeRaw < CacheRecordType_value Upsert \<or> typeRaw > CacheRecordType_value Invalidate
     then Failure (mkError CorruptData ''cache journal record: invalid record type'')
     else
     (case (if keyLength > kMaxReasonableLength then None else ReadBytes buffer offset keyLength) of
        None \<Rightarrow> Failure (mkError CorruptData ''cache journal record: key truncated or unreasonable'')
      | Some (k, offset) \<Rightarrow>
     (case ReadRaw 4 buffer offset of
        None \<Rightarrow> Failure (mkError CorruptData ''cache journal record: missing value length'')
      | Some (valueLength, offset) \<Rightarrow>
     (case (if (le_word valueLength :: u32) > kMaxReasonableLength then None
            else ReadBytes buffer offset (le_word valueLength)) of
        None \<Rightarrow> Failure (mkError CorruptData ''cache journal record: value truncated or unreasonable'')
      | Some (v, offset) \<Rightarrow>
          Success \<lparr>formatVersion = version, recordType = CacheRecordType_cast typeRaw,
                   rec_key = k, rec_value = v, entryVersion = entry\<rparr>))))"

section \<open>Lemmas\<close>

lemma CacheRecordType_cast_value [simp]: "CacheRecordType_cast (CacheRecordType_value t) = t"
  by (cases t) (simp_all add: CacheRecordType_cast_def)

lemma CacheRecordType_value_range:
  "\<not> CacheRecordType_value t < 1" "\<not> CacheRecordType_value t > 4"
  by (cases t; simp)+

lemma CacheRecordType_value_cast:
  assumes "\<not> w < CacheRecordType_value Upsert" and "\<not> w > CacheRecordType_value Invalidate"
  shows "CacheRecordType_value (CacheRecordType_cast w) = w"
proof -
  have "unat w = 1 \<or> unat w = 2 \<or> unat w = 3 \<or> unat w = 4"
    using assms by (simp add: word_less_nat_alt) arith
  then have "w = 1 \<or> w = 2 \<or> w = 3 \<or> w = 4"
    by (simp add: word_unat_eq_iff)
  then show ?thesis
    by (auto simp: CacheRecordType_cast_def)
qed

definition key_ok :: "key \<Rightarrow> bool" where
  "key_ok k \<longleftrightarrow> length k \<le> 64 * 1024 * 1024"

lemma kMax_word:
  "n < 4294967296 \<Longrightarrow> (of_nat n :: u32) > kMaxReasonableLength \<longleftrightarrow> n > 64 * 1024 * 1024"
  by (simp add: kMaxReasonableLength_def word_less_nat_alt)

lemma length_Encode [simp]:
  "length (Encode r) = 24 + length (rec_key r) + length (rec_value r)"
  by (simp add: Encode_def)

lemma decode_header_eq:
  "decode_header buffer =
     (if length buffer < 20 then None
      else Some (le_word (take 4 buffer), le_word (take 4 (drop 4 buffer)),
                 le_word (take 8 (drop 8 buffer)), le_word (take 4 (drop 16 buffer)), 20))"
  by (simp add: decode_header_def ReadRaw_def)

lemma decode_header_Encode:
  "decode_header (Encode r @ rest) =
     Some (formatVersion r, CacheRecordType_value (recordType r), entryVersion r,
           of_nat (length (rec_key r)), 20)"
  by (simp add: decode_header_eq) (simp add: Encode_def)

lemma drop_Encode_key:
  "drop 20 (Encode r) =
     rec_key r @ le_bytes 4 (of_nat (length (rec_value r)) :: u32) @ rec_value r"
  by (simp add: Encode_def)

lemma drop_Encode_value:
  "drop (20 + length (rec_key r)) (Encode r) =
     le_bytes 4 (of_nat (length (rec_value r)) :: u32) @ rec_value r"
  "drop (24 + length (rec_key r)) (Encode r) = rec_value r"
  by (simp_all add: Encode_def)

lemma Decode_Encode:
  assumes "formatVersion r = 1" and "key_ok (rec_key r)" and "key_ok (rec_value r)"
  shows "Decode (Encode r @ rest) = Success r"
proof -
  have k: "unat (of_nat (length (rec_key r)) :: u32) = length (rec_key r)"
      "\<not> (of_nat (length (rec_key r)) :: u32) > kMaxReasonableLength"
    using assms(2) by (simp_all add: key_ok_def kMax_word)
  have v: "unat (of_nat (length (rec_value r)) :: u32) = length (rec_value r)"
      "\<not> (of_nat (length (rec_value r)) :: u32) > kMaxReasonableLength"
    using assms(3) by (simp_all add: key_ok_def kMax_word)
  let ?b = "Encode r @ rest" and ?n = "length (rec_key r)"
  have kb: "ReadBytes ?b 20 (of_nat ?n) = Some (rec_key r, 20 + ?n)"
    using k by (simp add: ReadBytes_def drop_Encode_key)
  have vl: "ReadRaw 4 ?b (20 + ?n) = Some (le_bytes 4 (of_nat (length (rec_value r)) :: u32), 24 + ?n)"
    by (simp add: ReadRaw_def drop_Encode_value)
  have vb: "ReadBytes ?b (24 + ?n) (of_nat (length (rec_value r))) = Some (rec_value r, length (Encode r))"
    using v by (simp add: ReadBytes_def drop_Encode_value)
  show ?thesis
    unfolding Decode_def decode_header_Encode
    using assms(1) k v kb vl vb CacheRecordType_value_range [of "recordType r"]
    by (simp add: kCacheRecordFormatVersion_def)
qed

lemma ReadRaw_Some:
  "ReadRaw n b off = Some (x, off') \<longleftrightarrow> off + n \<le> length b \<and> x = take n (drop off b) \<and> off' = off + n"
  by (auto simp: ReadRaw_def)

lemma ReadBytes_Some:
  "ReadBytes b off len = Some (x, off') \<longleftrightarrow>
     off + unat len \<le> length b \<and> x = take (unat len) (drop off b) \<and> off' = off + unat len"
  by (auto simp: ReadBytes_def)

lemma decode_header_Some:
  assumes "decode_header b = Some (version, typeRaw, entry, keyLength, off)"
  shows "off = 20" and "20 \<le> length b"
    and "take 20 b = le_bytes 4 version @ le_bytes 4 typeRaw @ le_bytes 8 entry @ le_bytes 4 keyLength"
proof -
  show len: "off = 20" "20 \<le> length b"
    using assms by (auto simp: decode_header_eq split: if_splits)
  have "take 20 b = take 4 b @ take 4 (drop 4 b) @ take 8 (drop 8 b) @ take 4 (drop 16 b)"
    using take_drop_append_split [of 4 16 b] take_drop_append_split [of 4 12 "drop 4 b"]
      take_drop_append_split [of 8 4 "drop 8 b"] by simp
  then show "take 20 b = le_bytes 4 version @ le_bytes 4 typeRaw @ le_bytes 8 entry @ le_bytes 4 keyLength"
    using assms len by (auto simp: decode_header_eq le_bytes_le_word_32 le_bytes_le_word_64)
qed

text \<open>What a successful \<open>Decode\<close> has read.\<close>

lemma Decode_Success_fields:
  assumes "Decode b = Success r"
  obtains typeRaw keyLength valueLength where
    "decode_header b = Some (kCacheRecordFormatVersion, typeRaw, entryVersion r, keyLength, 20)"
    "formatVersion r = kCacheRecordFormatVersion"
    "\<not> typeRaw < CacheRecordType_value Upsert" "\<not> typeRaw > CacheRecordType_value Invalidate"
    "recordType r = CacheRecordType_cast typeRaw"
    "\<not> keyLength > kMaxReasonableLength"
    "ReadBytes b 20 keyLength = Some (rec_key r, 20 + unat keyLength)"
    "ReadRaw 4 b (20 + unat keyLength) = Some (le_bytes 4 valueLength, 24 + unat keyLength)"
    "\<not> (valueLength :: u32) > kMaxReasonableLength"
    "ReadBytes b (24 + unat keyLength) valueLength = Some (rec_value r, 24 + unat keyLength + unat valueLength)"
proof -
  obtain version typeRaw entry keyLength off where h:
    "decode_header b = Some (version, typeRaw, entry, keyLength, off)"
    using assms by (auto simp: Decode_def split: option.splits)
  have off: "off = 20" using decode_header_Some(1) [OF h] .
  obtain vb k v where f:
    "version = kCacheRecordFormatVersion"
    "\<not> typeRaw < CacheRecordType_value Upsert" "\<not> typeRaw > CacheRecordType_value Invalidate"
    "\<not> keyLength > kMaxReasonableLength"
    "ReadBytes b 20 keyLength = Some (k, 20 + unat keyLength)"
    "ReadRaw 4 b (20 + unat keyLength) = Some (vb, 24 + unat keyLength)"
    "\<not> (le_word vb :: u32) > kMaxReasonableLength"
    "ReadBytes b (24 + unat keyLength) (le_word vb) = Some (v, 24 + unat keyLength + unat (le_word vb :: u32))"
    "r = \<lparr>formatVersion = version, recordType = CacheRecordType_cast typeRaw,
          rec_key = k, rec_value = v, entryVersion = entry\<rparr>"
    using assms h off
    by (auto simp: Decode_def ReadBytes_Some ReadRaw_Some split: option.splits if_splits)
  have "length vb = 4"
    using f(6) by (auto simp: ReadRaw_Some)
  then have "vb = le_bytes 4 (le_word vb :: u32)"
    by (simp add: le_bytes_le_word_32)
  then show thesis
    using f h off by (intro that [of typeRaw keyLength "le_word vb"]) simp_all
qed

lemma Decode_Success_Encode:
  assumes "Decode b = Success r"
  shows "formatVersion r = 1 \<and> key_ok (rec_key r) \<and> key_ok (rec_value r) \<and> (\<exists>rest. b = Encode r @ rest)"
proof -
  obtain typeRaw keyLength valueLength where f:
    "decode_header b = Some (kCacheRecordFormatVersion, typeRaw, entryVersion r, keyLength, 20)"
    "formatVersion r = kCacheRecordFormatVersion"
    "\<not> typeRaw < CacheRecordType_value Upsert" "\<not> typeRaw > CacheRecordType_value Invalidate"
    "recordType r = CacheRecordType_cast typeRaw"
    "\<not> keyLength > kMaxReasonableLength"
    "ReadBytes b 20 keyLength = Some (rec_key r, 20 + unat keyLength)"
    "ReadRaw 4 b (20 + unat keyLength) = Some (le_bytes 4 valueLength, 24 + unat keyLength)"
    "\<not> (valueLength :: u32) > kMaxReasonableLength"
    "ReadBytes b (24 + unat keyLength) valueLength = Some (rec_value r, 24 + unat keyLength + unat valueLength)"
    by (rule Decode_Success_fields [OF assms])
  let ?k = "unat keyLength" and ?v = "unat valueLength"
  have lens: "length (rec_key r) = ?k" "length (rec_value r) = ?v"
    using f(7,10) by (auto simp: ReadBytes_Some)
  have ok: "key_ok (rec_key r)" "key_ok (rec_value r)"
    using f(6,9) lens by (simp_all add: key_ok_def kMaxReasonableLength_def word_less_nat_alt)
  have "b = take 20 b @ take ?k (drop 20 b) @ take 4 (drop (20 + ?k) b)
            @ take ?v (drop (24 + ?k) b) @ drop (24 + ?k + ?v) b"
  proof -
    have "drop (24 + ?k) b = take ?v (drop (24 + ?k) b) @ drop (24 + ?k + ?v) b"
      using append_take_drop_id [of ?v "drop (24 + ?k) b"] by (simp add: add.commute add.left_commute)
    moreover have "drop (20 + ?k) b = take 4 (drop (20 + ?k) b) @ drop (24 + ?k) b"
      using append_take_drop_id [of 4 "drop (20 + ?k) b"] by (simp add: add.commute add.left_commute)
    moreover have "drop 20 b = take ?k (drop 20 b) @ drop (20 + ?k) b"
      using append_take_drop_id [of ?k "drop 20 b"] by (simp add: add.commute)
    ultimately show ?thesis
      by (metis append_take_drop_id)
  qed
  moreover have "take ?k (drop 20 b) = rec_key r" "take 4 (drop (20 + ?k) b) = le_bytes 4 valueLength"
    "take ?v (drop (24 + ?k) b) = rec_value r"
    using f(7,8,10) by (auto simp: ReadBytes_Some ReadRaw_Some)
  moreover have "Encode r = take 20 b @ rec_key r @ le_bytes 4 valueLength @ rec_value r"
    using f(2,5) lens CacheRecordType_value_cast [OF f(3,4)] decode_header_Some(3) [OF f(1)]
    by (simp add: Encode_def)
  ultimately show ?thesis
    using ok f(2) by (auto simp: kCacheRecordFormatVersion_def intro!: exI [of _ "drop (24 + ?k + ?v) b"])
qed

lemma Decode_error_code:
  assumes "Decode b = Failure e"
  shows "code e = CorruptData \<or>
         code e = VersionMismatch \<and> 20 \<le> length b \<and> (le_word (take 4 b) :: u32) \<noteq> 1"
  using assms
  by (auto simp: Decode_def decode_header_eq kCacheRecordFormatVersion_def split: option.splits if_splits)

section \<open>Properties\<close>

text \<open>
  C29. \<^bold>\<open>A decoded record is the encoded one.\<close>  \<open>Decode\<close> accepts a buffer exactly when it starts
  with the encoding of a version 1 record whose key and value are at most 64 MiB long, and the
  record it returns is that one: the codec is a bijection between those records and the buffers
  accepted (up to ignored trailing bytes).
\<close>

theorem Decode_inverts_Encode:
  "Decode buffer = Success r \<longleftrightarrow>
     formatVersion r = 1 \<and> length (rec_key r) \<le> 67108864 \<and> length (rec_value r) \<le> 67108864 \<and>
     (\<exists>rest. buffer = Encode r @ rest)"
  using Decode_Success_Encode [of buffer r] Decode_Encode [of r]
  by (auto simp: key_ok_def)

text \<open>
  No proper prefix of a record decodes.  Cutting the encoding of a storable record anywhere
  gives \<open>CorruptData\<close>, never another record and never a wrong error.
\<close>

lemma Decode_strict_prefix:
  assumes "formatVersion r = 1" and "length (rec_key r) \<le> 67108864"
    and "length (rec_value r) \<le> 67108864" and "n < length (Encode r)"
  shows "\<exists>e. Decode (take n (Encode r)) = Failure e \<and> code e = CorruptData"
proof (cases "Decode (take n (Encode r))")
  case (Inl e)
  have "take 4 (take n (Encode r)) = le_bytes 4 (1 :: u32)" if "20 \<le> n"
    using that assms(1) by (simp add: Encode_def min_def)
  then show ?thesis
    using Inl Decode_error_code [OF Inl] by auto
next
  case (Inr s)
  then obtain rest where s: "formatVersion s = 1" "key_ok (rec_key s)" "key_ok (rec_value s)"
    "take n (Encode r) = Encode s @ rest"
    using Decode_Success_Encode by blast
  then have "Encode r = Encode s @ rest @ drop n (Encode r)"
    by (metis append.assoc append_take_drop_id)
  moreover have "Decode (Encode r @ []) = Success r"
    using assms by (intro Decode_Encode) (simp_all add: key_ok_def)
  ultimately have "Success r = Success s"
    using Decode_Encode [OF s(1-3), of "rest @ drop n (Encode r)"] by simp
  then have "r = s" by simp
  then have "length (take n (Encode r)) \<ge> length (Encode r)"
    using s(4) by simp
  then show ?thesis
    using assms(4) by simp
qed

definition sample_record :: CacheJournalRecord where
  "sample_record = \<lparr>formatVersion = 1, recordType = Upsert, rec_key = str ''k'',
                    rec_value = [1, 2, 3], entryVersion = 7\<rparr>"

text \<open>
  \<^bold>\<open>An oversized record cannot be read back.\<close>  \<open>Encode\<close> places no bound on the value, but
  \<open>Decode\<close> refuses one longer than 64 MiB: what \<open>Encode\<close> produces for it is reported as corrupt.
\<close>

theorem Decode_rejects_oversized_value:
  assumes "formatVersion r = 1" and "length (rec_key r) \<le> 67108864"
    and "67108864 < length (rec_value r)" and "length (rec_value r) < 4294967296"
  shows "\<exists>e. Decode (Encode r @ rest) = Failure e \<and> code e = CorruptData"
proof (cases "Decode (Encode r @ rest)")
  case (Inl e)
  have "take 4 (Encode r @ rest) = le_bytes 4 (1 :: u32)"
    using assms(1) by (simp add: Encode_def)
  then show ?thesis
    using Inl Decode_error_code [OF Inl] by auto
next
  case (Inr s)
  have False
  proof (rule Decode_Success_fields [OF Inr])
    fix typeRaw keyLength valueLength
    assume h: "decode_header (Encode r @ rest) = Some (kCacheRecordFormatVersion, typeRaw, entryVersion s, keyLength, 20)"
      and v: "ReadRaw 4 (Encode r @ rest) (20 + unat keyLength) = Some (le_bytes 4 valueLength, 24 + unat keyLength)"
      and b: "\<not> (valueLength :: u32) > kMaxReasonableLength"
    have "unat keyLength = length (rec_key r)"
      using h assms(2) by (auto simp: decode_header_Encode)
    then have "le_bytes 4 valueLength = le_bytes 4 (of_nat (length (rec_value r)) :: u32)"
      using v by (simp add: ReadRaw_Some drop_Encode_value)
    then have "\<not> length (rec_value r) > 64 * 1024 * 1024"
      using b kMax_word [OF assms(4)] by simp
    then show False
      using assms(3) by simp
  qed
  then show ?thesis ..
qed

theorem Decode_rejects_oversized_value_witness:
  "\<exists>e. Decode (Encode (sample_record \<lparr>rec_value := replicate 67108865 0\<rparr>) @ []) = Failure e
       \<and> code e = CorruptData"
  by (rule Decode_rejects_oversized_value) (simp_all add: sample_record_def str_def)

end
