(* ===== verification/MessageCodec.thy ===== *)
theory MessageCodec
  imports JournalRecordCodec "HOL-Library.Monad_Syntax"
begin

text \<open>
  The wire protocol between the GUI and the service: the message types and payloads of
  \<^verbatim>\<open>src/src/Ipc/include/QuantumCache/Ipc/Protocol.h\<close> and the codec of
  \<^verbatim>\<open>src/src/Ipc/src/MessageCodec.cpp\<close>.

  The encoders thread the frame under construction, the decoders the read offset, as the code
  does with its two reference parameters.  A read that runs off the buffer is \<open>None\<close>.
\<close>

section \<open>Protocol\<close>

text \<open>
  \<^verbatim>\<open>MessageType\<close> is an enum with a fixed underlying type: a \<^verbatim>\<open>static_cast\<close> may produce a value
  that no enumerator names, which is \<open>UnnamedType\<close>.
\<close>

datatype MessageType =
    GetStatusRequest
  | GetStatusResponse
  | RecoveryStateChanged
  | GetCacheStatisticsRequest
  | GetCacheStatisticsResponse
  | FlushAllRequest
  | FlushAllResponse
  | InvalidateKeyRequest
  | InvalidateKeyResponse
  | ProtocolError
  | UnnamedType u32

fun MessageType_value :: "MessageType \<Rightarrow> u32" where
  "MessageType_value GetStatusRequest = 1"
| "MessageType_value GetStatusResponse = 2"
| "MessageType_value RecoveryStateChanged = 3"
| "MessageType_value GetCacheStatisticsRequest = 4"
| "MessageType_value GetCacheStatisticsResponse = 5"
| "MessageType_value FlushAllRequest = 6"
| "MessageType_value FlushAllResponse = 7"
| "MessageType_value InvalidateKeyRequest = 8"
| "MessageType_value InvalidateKeyResponse = 9"
| "MessageType_value ProtocolError = 0xFFFFFFFF"
| "MessageType_value (UnnamedType w) = w"

definition MessageType_cast :: "u32 \<Rightarrow> MessageType" where
  "MessageType_cast w =
     (if w = 1 then GetStatusRequest else if w = 2 then GetStatusResponse
      else if w = 3 then RecoveryStateChanged else if w = 4 then GetCacheStatisticsRequest
      else if w = 5 then GetCacheStatisticsResponse else if w = 6 then FlushAllRequest
      else if w = 7 then FlushAllResponse else if w = 8 then InvalidateKeyRequest
      else if w = 9 then InvalidateKeyResponse else if w = 0xFFFFFFFF then ProtocolError
      else UnnamedType w)"

definition kProtocolVersion :: u32 where
  "kProtocolVersion = 2"

record StatusResponsePayload =
  recoveryState :: u32
  sessionGeneration :: u64
  cacheEngineActive :: bool

record CacheStatisticsPayload =
  ipc_hitCount :: u64
  ipc_missCount :: u64
  ipc_insertCount :: u64
  ipc_updateCount :: u64
  ipc_invalidationCount :: u64
  ipc_evictionCount :: u64
  ipc_flushSuccessCount :: u64
  ipc_flushFailureCount :: u64
  ipc_currentEntryCount :: u64
  ipc_currentMemoryBytes :: u64
  ipc_dirtyEntryCount :: u64
  ipc_dirtyBytes :: u64

record OperationResultPayload =
  succeeded :: bool
  errorCode :: u32
  resultMessage :: cstring

record InvalidateKeyRequestPayload =
  request_key :: key

section \<open>Buffers\<close>

definition AppendU8 :: "byte \<Rightarrow> bytes \<Rightarrow> bytes" where
  "AppendU8 w frame = frame @ le_bytes 1 w"

definition AppendU32 :: "u32 \<Rightarrow> bytes \<Rightarrow> bytes" where
  "AppendU32 w frame = frame @ le_bytes 4 w"

definition AppendU64 :: "u64 \<Rightarrow> bytes \<Rightarrow> bytes" where
  "AppendU64 w frame = frame @ le_bytes 8 w"

definition ReadU8 :: "bytes \<Rightarrow> nat \<Rightarrow> (byte \<times> nat) option" where
  "ReadU8 buffer offset = map_option (map_prod le_word id) (ReadRaw 1 buffer offset)"

definition ReadU32 :: "bytes \<Rightarrow> nat \<Rightarrow> (u32 \<times> nat) option" where
  "ReadU32 buffer offset = map_option (map_prod le_word id) (ReadRaw 4 buffer offset)"

definition ReadU64 :: "bytes \<Rightarrow> nat \<Rightarrow> (u64 \<times> nat) option" where
  "ReadU64 buffer offset = map_option (map_prod le_word id) (ReadRaw 8 buffer offset)"

definition AppendHeaderPlaceholder :: "MessageType \<Rightarrow> bytes \<Rightarrow> bytes" where
  "AppendHeaderPlaceholder type frame =
     (let frame = AppendU32 0 frame;
          frame = AppendU32 (MessageType_value type) frame;
          frame = AppendU32 kProtocolVersion frame
      in frame)"

text \<open>\<^verbatim>\<open>memcpy\<close> of the frame's size over its first four bytes.\<close>

definition PatchLength :: "bytes \<Rightarrow> bytes" where
  "PatchLength frame = le_bytes 4 (of_nat (length frame) :: u32) @ drop 4 frame"

definition AppendString :: "cstring \<Rightarrow> bytes \<Rightarrow> bytes" where
  "AppendString s frame = AppendU32 (of_nat (length s)) frame @ s"

definition kMaxStringLength :: u32 where
  "kMaxStringLength = 64 * 1024"

definition ReadString :: "bytes \<Rightarrow> nat \<Rightarrow> (cstring \<times> nat) option" where
  "ReadString frame offset =
     do {
       (len, offset) \<leftarrow> ReadU32 frame offset;
       if len > kMaxStringLength then None else ReadBytes frame offset len
     }"

text \<open>\<^verbatim>\<open>CheckHeader\<close> returns the offset after the header in place of \<^verbatim>\<open>void\<close>.\<close>

definition read_header :: "bytes \<Rightarrow> ((u32 \<times> u32 \<times> u32) \<times> nat) option" where
  "read_header frame =
     do {
       (totalLength, offset) \<leftarrow> ReadU32 frame 0;
       (typeRaw, offset) \<leftarrow> ReadU32 frame offset;
       (version, offset) \<leftarrow> ReadU32 frame offset;
       Some ((totalLength, typeRaw, version), offset)
     }"

definition CheckHeader :: "bytes \<Rightarrow> MessageType \<Rightarrow> nat result" where
  "CheckHeader frame expectedType =
     (case read_header frame of
        None \<Rightarrow> Failure (mkError CorruptData ''IPC frame too short for header'')
      | Some ((totalLength, typeRaw, version), offset) \<Rightarrow>
          if unat totalLength \<noteq> length frame
          then Failure (mkError CorruptData ''IPC frame length mismatch'')
          else if typeRaw \<noteq> MessageType_value expectedType
          then Failure (mkError InvalidArgument ''unexpected IPC message type for this decoder'')
          else if version \<noteq> kProtocolVersion
          then Failure (mkError VersionMismatch ''unsupported IPC protocol version'')
          else Success offset)"

section \<open>MessageCodec\<close>

definition EncodeStatusResponse :: "StatusResponsePayload \<Rightarrow> bytes" where
  "EncodeStatusResponse payload =
     (let frame = AppendU32 0 [];
          frame = AppendU32 (MessageType_value GetStatusResponse) frame;
          frame = AppendU32 kProtocolVersion frame;
          frame = AppendU32 (recoveryState payload) frame;
          frame = AppendU64 (sessionGeneration payload) frame;
          activeByte = (if cacheEngineActive payload then 1 else 0);
          frame = AppendU8 activeByte frame
      in PatchLength frame)"

definition DecodeStatusResponse :: "bytes \<Rightarrow> StatusResponsePayload result" where
  "DecodeStatusResponse frame =
     (case read_header frame of
        None \<Rightarrow> Failure (mkError CorruptData ''IPC frame too short for header'')
      | Some ((totalLength, typeRaw, version), offset) \<Rightarrow>
          if unat totalLength \<noteq> length frame
          then Failure (mkError CorruptData ''IPC frame length mismatch'')
          else if typeRaw \<noteq> MessageType_value GetStatusResponse
          then Failure (mkError InvalidArgument ''not a GetStatusResponse frame'')
          else if version \<noteq> kProtocolVersion
          then Failure (mkError VersionMismatch ''unsupported IPC protocol version'')
          else
            (case do { (state, offset) \<leftarrow> ReadU32 frame offset;
                       (generation, offset) \<leftarrow> ReadU64 frame offset;
                       (activeByte, offset) \<leftarrow> ReadU8 frame offset;
                       Some (state, generation, activeByte) } of
               None \<Rightarrow> Failure (mkError CorruptData ''IPC frame truncated payload'')
             | Some (state, generation, activeByte) \<Rightarrow>
                 Success \<lparr>recoveryState = state, sessionGeneration = generation,
                          cacheEngineActive = (activeByte \<noteq> 0)\<rparr>))"

definition EncodeEmpty :: "MessageType \<Rightarrow> bytes" where
  "EncodeEmpty type =
     (let frame = AppendU32 0 [];
          frame = AppendU32 (MessageType_value type) frame;
          frame = AppendU32 kProtocolVersion frame
      in PatchLength frame)"

definition PeekMessageType :: "bytes \<Rightarrow> MessageType result" where
  "PeekMessageType frame =
     (case do { (totalLength, offset) \<leftarrow> ReadU32 frame 0;
                (typeRaw, offset) \<leftarrow> ReadU32 frame offset;
                Some typeRaw } of
        None \<Rightarrow> Failure (mkError CorruptData ''IPC frame too short to contain a type'')
      | Some typeRaw \<Rightarrow> Success (MessageType_cast typeRaw))"

definition EncodeCacheStatisticsResponse :: "CacheStatisticsPayload \<Rightarrow> bytes" where
  "EncodeCacheStatisticsResponse payload =
     (let frame = AppendHeaderPlaceholder GetCacheStatisticsResponse [];
          frame = AppendU64 (ipc_hitCount payload) frame;
          frame = AppendU64 (ipc_missCount payload) frame;
          frame = AppendU64 (ipc_insertCount payload) frame;
          frame = AppendU64 (ipc_updateCount payload) frame;
          frame = AppendU64 (ipc_invalidationCount payload) frame;
          frame = AppendU64 (ipc_evictionCount payload) frame;
          frame = AppendU64 (ipc_flushSuccessCount payload) frame;
          frame = AppendU64 (ipc_flushFailureCount payload) frame;
          frame = AppendU64 (ipc_currentEntryCount payload) frame;
          frame = AppendU64 (ipc_currentMemoryBytes payload) frame;
          frame = AppendU64 (ipc_dirtyEntryCount payload) frame;
          frame = AppendU64 (ipc_dirtyBytes payload) frame
      in PatchLength frame)"

definition read_statistics :: "bytes \<Rightarrow> nat \<Rightarrow> CacheStatisticsPayload option" where
  "read_statistics frame offset =
     do {
       (hits, offset) \<leftarrow> ReadU64 frame offset;
       (misses, offset) \<leftarrow> ReadU64 frame offset;
       (inserts, offset) \<leftarrow> ReadU64 frame offset;
       (updates, offset) \<leftarrow> ReadU64 frame offset;
       (invalidations, offset) \<leftarrow> ReadU64 frame offset;
       (evictions, offset) \<leftarrow> ReadU64 frame offset;
       (flushed, offset) \<leftarrow> ReadU64 frame offset;
       (failed, offset) \<leftarrow> ReadU64 frame offset;
       (entries, offset) \<leftarrow> ReadU64 frame offset;
       (memory, offset) \<leftarrow> ReadU64 frame offset;
       (dirties, offset) \<leftarrow> ReadU64 frame offset;
       (dirty_size, offset) \<leftarrow> ReadU64 frame offset;
       Some \<lparr>ipc_hitCount = hits, ipc_missCount = misses, ipc_insertCount = inserts, ipc_updateCount = updates,
             ipc_invalidationCount = invalidations, ipc_evictionCount = evictions,
             ipc_flushSuccessCount = flushed, ipc_flushFailureCount = failed,
             ipc_currentEntryCount = entries, ipc_currentMemoryBytes = memory,
             ipc_dirtyEntryCount = dirties, ipc_dirtyBytes = dirty_size\<rparr>
     }"

definition DecodeCacheStatisticsResponse :: "bytes \<Rightarrow> CacheStatisticsPayload result" where
  "DecodeCacheStatisticsResponse frame =
     (case CheckHeader frame GetCacheStatisticsResponse of
        Inl e \<Rightarrow> Failure e
      | Inr offset \<Rightarrow>
          (case read_statistics frame offset of
             None \<Rightarrow> Failure (mkError CorruptData ''IPC frame truncated cache statistics payload'')
           | Some payload \<Rightarrow> Success payload))"

definition EncodeOperationResult :: "MessageType \<Rightarrow> OperationResultPayload \<Rightarrow> bytes" where
  "EncodeOperationResult type payload =
     (let frame = AppendHeaderPlaceholder type [];
          succeededByte = (if succeeded payload then 1 else 0);
          frame = AppendU8 succeededByte frame;
          frame = AppendU32 (errorCode payload) frame;
          frame = AppendString (resultMessage payload) frame
      in PatchLength frame)"

definition DecodeOperationResult :: "bytes \<Rightarrow> MessageType \<Rightarrow> OperationResultPayload result" where
  "DecodeOperationResult frame expectedType =
     (case CheckHeader frame expectedType of
        Inl e \<Rightarrow> Failure e
      | Inr offset \<Rightarrow>
          (case do { (succeededByte, offset) \<leftarrow> ReadU8 frame offset;
                     (ec, offset) \<leftarrow> ReadU32 frame offset;
                     (msg, offset) \<leftarrow> ReadString frame offset;
                     Some (succeededByte, ec, msg) } of
             None \<Rightarrow> Failure (mkError CorruptData ''IPC frame truncated operation-result payload'')
           | Some (succeededByte, ec, msg) \<Rightarrow>
               Success \<lparr>succeeded = (succeededByte \<noteq> 0), errorCode = ec, resultMessage = msg\<rparr>))"

definition EncodeInvalidateKeyRequest :: "InvalidateKeyRequestPayload \<Rightarrow> bytes" where
  "EncodeInvalidateKeyRequest payload =
     (let frame = AppendHeaderPlaceholder InvalidateKeyRequest [];
          frame = AppendString (request_key payload) frame
      in PatchLength frame)"

definition DecodeInvalidateKeyRequest :: "bytes \<Rightarrow> InvalidateKeyRequestPayload result" where
  "DecodeInvalidateKeyRequest frame =
     (case CheckHeader frame InvalidateKeyRequest of
        Inl e \<Rightarrow> Failure e
      | Inr offset \<Rightarrow>
          (case ReadString frame offset of
             None \<Rightarrow> Failure (mkError CorruptData ''IPC frame truncated invalidate-key payload'')
           | Some (k, offset) \<Rightarrow> Success \<lparr>request_key = k\<rparr>))"

section \<open>Lemmas\<close>

lemma MessageType_value_cast [simp]: "MessageType_value (MessageType_cast w) = w"
  by (simp add: MessageType_cast_def)

text \<open>A read at an offset splits the bytes ahead of it.\<close>

lemma ReadRaw_splits:
  assumes "0 < n"
  shows "ReadRaw n b off = Some (x, off') \<longleftrightarrow>
           off' = off + n \<and> length x = n \<and> drop off b = x @ drop off' b"
proof
  assume "ReadRaw n b off = Some (x, off')"
  then show "off' = off + n \<and> length x = n \<and> drop off b = x @ drop off' b"
    using append_take_drop_id [of n "drop off b"] by (auto simp: ReadRaw_Some add.commute)
next
  assume r: "off' = off + n \<and> length x = n \<and> drop off b = x @ drop off' b"
  then have "length b - off = n + (length b - (off + n))"
    by (metis length_append length_drop)
  moreover have "take n (drop off b) = x"
    using r by (metis append_eq_conv_conj)
  ultimately show "ReadRaw n b off = Some (x, off')"
    using r assms by (simp add: ReadRaw_Some)
qed

lemma ReadU8_Some:
  "ReadU8 b off = Some (w, off') \<longleftrightarrow> off' = off + 1 \<and> drop off b = le_bytes 1 w @ drop off' b"
proof -
  have "ReadU8 b off = Some (w, off') \<longleftrightarrow> ReadRaw 1 b off = Some (le_bytes 1 w, off')"
    by (auto simp: ReadU8_def ReadRaw_Some le_bytes_le_word_8 simp del: le_bytes.simps One_nat_def) (metis le_word_le_bytes_8)
  then show ?thesis
    by (simp add: ReadRaw_splits)
qed

lemma ReadU32_Some:
  "ReadU32 b off = Some (w, off') \<longleftrightarrow> off' = off + 4 \<and> drop off b = le_bytes 4 w @ drop off' b"
proof -
  have "ReadU32 b off = Some (w, off') \<longleftrightarrow> ReadRaw 4 b off = Some (le_bytes 4 w, off')"
    by (auto simp: ReadU32_def ReadRaw_Some le_bytes_le_word_32) (metis le_word_le_bytes_32)
  then show ?thesis
    by (simp add: ReadRaw_splits)
qed

lemma ReadU64_Some:
  "ReadU64 b off = Some (w, off') \<longleftrightarrow> off' = off + 8 \<and> drop off b = le_bytes 8 w @ drop off' b"
proof -
  have "ReadU64 b off = Some (w, off') \<longleftrightarrow> ReadRaw 8 b off = Some (le_bytes 8 w, off')"
    by (auto simp: ReadU64_def ReadRaw_Some le_bytes_le_word_64) (metis le_word_le_bytes_64)
  then show ?thesis
    by (simp add: ReadRaw_splits)
qed

lemma kMaxStringLength_iff: "w \<le> kMaxStringLength \<longleftrightarrow> unat w \<le> 65536"
  by (simp add: kMaxStringLength_def word_le_nat_alt)

lemma ReadBytes_splits:
  "ReadBytes b off len = Some (x, off') \<longleftrightarrow>
     off + unat len \<le> length b \<and> off' = off + unat len \<and> length x = unat len \<and>
     drop off b = x @ drop off' b"
proof
  assume "ReadBytes b off len = Some (x, off')"
  then show "off + unat len \<le> length b \<and> off' = off + unat len \<and> length x = unat len \<and>
     drop off b = x @ drop off' b"
    using append_take_drop_id [of "unat len" "drop off b"] by (auto simp: ReadBytes_Some add.commute)
next
  assume r: "off + unat len \<le> length b \<and> off' = off + unat len \<and> length x = unat len \<and>
     drop off b = x @ drop off' b"
  then have "take (unat len) (drop off b) = x"
    by (metis append_eq_conv_conj)
  then show "ReadBytes b off len = Some (x, off')"
    using r by (simp add: ReadBytes_Some)
qed

lemma ReadString_Some:
  "ReadString b off = Some (s, off') \<longleftrightarrow>
     length s \<le> 65536 \<and> off' = off + 4 + length s \<and>
     drop off b = le_bytes 4 (of_nat (length s) :: u32) @ s @ drop off' b" (is "?r = ?split")
proof
  assume ?r
  then obtain len where "ReadU32 b off = Some (len, off + 4)" "len \<le> kMaxStringLength"
    "ReadBytes b (off + 4) len = Some (s, off')"
    by (auto simp: ReadString_def ReadU32_Some bind_eq_Some_conv split: if_splits)
  moreover from this(3) have "(of_nat (length s) :: u32) = len"
    by (simp add: ReadBytes_splits)
  ultimately show ?split
    by (auto simp: ReadU32_Some ReadBytes_splits kMaxStringLength_iff)
next
  assume r: ?split
  let ?n = "of_nat (length s) :: u32"
  have n: "unat ?n = length s"
    using r by simp
  have four: "drop (off + 4) b = s @ drop off' b"
    using r by (metis drop_drop add.commute append_eq_conv_conj length_le_bytes)
  have "length (drop off b) = 4 + length s + length (drop off' b)"
    using r by simp
  then have "off + 4 + length s \<le> length b"
    by (auto simp: le_diff_conv2)
  then have "ReadU32 b off = Some (?n, off + 4)" "ReadBytes b (off + 4) ?n = Some (s, off')"
    using r four n by (simp_all add: ReadU32_Some ReadBytes_splits)
  moreover have "?n \<le> kMaxStringLength"
    using r n by (simp add: kMaxStringLength_iff)
  ultimately show ?r
    by (simp add: ReadString_def)
qed

subsection \<open>Headers\<close>

text \<open>A frame as its sender lays it out, with an arbitrary protocol version.\<close>

definition frame_with :: "u32 \<Rightarrow> MessageType \<Rightarrow> bytes \<Rightarrow> bytes" where
  "frame_with version type body =
     le_bytes 4 (of_nat (12 + length body) :: u32) @ le_bytes 4 (MessageType_value type)
     @ le_bytes 4 version @ body"

lemma length_frame_with [simp]: "length (frame_with v t body) = 12 + length body"
  by (simp add: frame_with_def)

lemma PatchLength_header:
  "PatchLength (AppendHeaderPlaceholder t [] @ body) = frame_with kProtocolVersion t body"
  by (simp add: PatchLength_def AppendHeaderPlaceholder_def AppendU32_def frame_with_def)

lemma PatchLength_extend: "PatchLength (frame_with v t body @ rest) = frame_with v t (body @ rest)"
  by (simp add: PatchLength_def frame_with_def add.assoc)

lemma drop_frame_with [simp]: "drop 12 (frame_with v t body) = body"
  by (simp add: frame_with_def)

lemma drop_frame_with_add [simp]: "drop (12 + n) (frame_with v t body) = drop n body"
  by (simp add: frame_with_def)

lemma read_header_Some:
  "read_header frame = Some ((totalLength, typeRaw, version), off) \<longleftrightarrow>
     off = 12 \<and>
     frame = le_bytes 4 totalLength @ le_bytes 4 typeRaw @ le_bytes 4 version @ drop 12 frame"
  (is "?r = ?split")
proof
  assume ?r
  then have "frame = le_bytes 4 totalLength @ drop 4 frame \<and> drop 4 frame = le_bytes 4 typeRaw @ drop 8 frame \<and>
    drop 8 frame = le_bytes 4 version @ drop 12 frame \<and> off = 12"
    unfolding read_header_def by (simp (no_asm_use) add: ReadU32_Some bind_eq_Some_conv)
  then show ?split
    by metis
next
  assume r: ?split
  define rest where "rest = drop 12 frame"
  have f: "frame = le_bytes 4 totalLength @ le_bytes 4 typeRaw @ le_bytes 4 version @ rest"
    using r by (simp add: rest_def)
  show ?r
    using r by (simp add: read_header_def f ReadU32_def ReadRaw_def)
qed

lemma read_header_frame_with:
  "read_header (frame_with v t body) =
     Some ((of_nat (12 + length body), MessageType_value t, v), 12)"
  by (simp add: read_header_Some frame_with_def)

text \<open>The verdict of \<open>CheckHeader\<close> on a frame, and what a frame it accepts looks like.\<close>

lemma CheckHeader_frame_with:
  assumes "12 + length body < 4294967296"
  shows "CheckHeader (frame_with v t body) t' =
     (if MessageType_value t \<noteq> MessageType_value t'
      then Failure (mkError InvalidArgument ''unexpected IPC message type for this decoder'')
      else if v \<noteq> kProtocolVersion
      then Failure (mkError VersionMismatch ''unsupported IPC protocol version'')
      else Success 12)"
  using assms unat_of_nat_u32 [OF assms]
  by (simp add: CheckHeader_def read_header_frame_with del: of_nat_add)

lemma CheckHeader_Success:
  "CheckHeader frame t = Success off \<longleftrightarrow>
     off = 12 \<and> length frame < 4294967296 \<and> (\<exists>body. frame = frame_with kProtocolVersion t body)"
  (is "?l = ?r")
proof
  assume ?l
  then obtain n where h: "read_header frame = Some ((n, MessageType_value t, kProtocolVersion), off)"
    and n: "unat n = length frame"
    by (auto simp: CheckHeader_def split: option.splits if_splits)
  have f: "frame = le_bytes 4 n @ le_bytes 4 (MessageType_value t) @ le_bytes 4 kProtocolVersion
                   @ drop 12 frame" and "off = 12"
    using h by (simp_all add: read_header_Some)
  have "length frame = 12 + length (drop 12 frame)"
    using arg_cong [OF f, of length] by simp
  moreover have "n = of_nat (length frame)"
    by (simp flip: n)
  ultimately have "frame = frame_with kProtocolVersion t (drop 12 frame)"
    using f by (metis frame_with_def)
  moreover have "unat n < 2 ^ LENGTH(32)"
    by (rule unsigned_less)
  then have "length frame < 4294967296"
    by (simp add: n)
  ultimately show ?r
    using \<open>off = 12\<close> by blast
next
  assume ?r
  then show ?l
    by (auto simp: CheckHeader_frame_with)
qed

lemma CheckHeader_Failure:
  "CheckHeader frame t = Failure e \<Longrightarrow>
     code e = CorruptData \<or> code e = InvalidArgument \<or> code e = VersionMismatch"
  by (auto simp: CheckHeader_def split: option.splits if_splits)

text \<open>A frame cut short is too short for its header or for the length it announces.\<close>

lemma CheckHeader_cut:
  assumes "n < length (frame_with v t body)" and "length (frame_with v t body) < 4294967296"
  shows "\<exists>e. CheckHeader (take n (frame_with v t body)) t' = Failure e \<and> code e = CorruptData"
proof (cases "read_header (take n (frame_with v t body))")
  case None
  then show ?thesis
    by (simp add: CheckHeader_def)
next
  case (Some h)
  then obtain l ty w off where h: "read_header (take n (frame_with v t body)) = Some ((l, ty, w), off)"
    by (metis prod.exhaust)
  let ?f = "take n (frame_with v t body)"
  have f: "?f = le_bytes 4 l @ le_bytes 4 ty @ le_bytes 4 w @ drop 12 ?f"
    using h by (simp add: read_header_Some)
  then have "4 \<le> length ?f"
    by (metis le_add1 length_append length_le_bytes)
  moreover have "take 4 ?f = le_bytes 4 l"
    using f by (metis append_eq_conv_conj length_le_bytes)
  ultimately have "le_bytes 4 l = le_bytes 4 (of_nat (12 + length body) :: u32)"
    by (simp add: frame_with_def min_def split: if_splits)
  then have "unat l = 12 + length body"
    using assms(2) by (simp del: of_nat_add)
  then show ?thesis
    using h assms(1) by (simp add: CheckHeader_def)
qed

subsection \<open>Encoders as frames\<close>

lemmas append_simps = AppendU8_def AppendU32_def AppendU64_def AppendString_def

lemma EncodeInvalidateKeyRequest_frame:
  "EncodeInvalidateKeyRequest p =
     frame_with kProtocolVersion InvalidateKeyRequest
       (le_bytes 4 (of_nat (length (request_key p)) :: u32) @ request_key p)"
  by (simp add: EncodeInvalidateKeyRequest_def append_simps flip: PatchLength_header)

definition result_body :: "byte \<Rightarrow> OperationResultPayload \<Rightarrow> bytes" where
  "result_body flag p =
     le_bytes 1 flag @ le_bytes 4 (errorCode p) @ le_bytes 4 (of_nat (length (resultMessage p)) :: u32)
     @ resultMessage p"

lemma EncodeOperationResult_frame:
  "EncodeOperationResult t p =
     frame_with kProtocolVersion t (result_body (if succeeded p then 1 else 0) p)"
  by (simp add: EncodeOperationResult_def append_simps result_body_def flip: PatchLength_header)

definition status_body :: "byte \<Rightarrow> StatusResponsePayload \<Rightarrow> bytes" where
  "status_body flag p = le_bytes 4 (recoveryState p) @ le_bytes 8 (sessionGeneration p) @ le_bytes 1 flag"

lemma EncodeStatusResponse_frame:
  "EncodeStatusResponse p =
     frame_with kProtocolVersion GetStatusResponse (status_body (if cacheEngineActive p then 1 else 0) p)"
  by (simp add: EncodeStatusResponse_def append_simps status_body_def AppendHeaderPlaceholder_def
      flip: PatchLength_header)

definition statistics_body :: "CacheStatisticsPayload \<Rightarrow> bytes" where
  "statistics_body p =
     le_bytes 8 (ipc_hitCount p) @ le_bytes 8 (ipc_missCount p) @ le_bytes 8 (ipc_insertCount p)
     @ le_bytes 8 (ipc_updateCount p) @ le_bytes 8 (ipc_invalidationCount p)
     @ le_bytes 8 (ipc_evictionCount p) @ le_bytes 8 (ipc_flushSuccessCount p)
     @ le_bytes 8 (ipc_flushFailureCount p) @ le_bytes 8 (ipc_currentEntryCount p)
     @ le_bytes 8 (ipc_currentMemoryBytes p) @ le_bytes 8 (ipc_dirtyEntryCount p)
     @ le_bytes 8 (ipc_dirtyBytes p)"

lemma EncodeCacheStatisticsResponse_frame:
  "EncodeCacheStatisticsResponse p =
     frame_with kProtocolVersion GetCacheStatisticsResponse (statistics_body p)"
  by (simp add: EncodeCacheStatisticsResponse_def append_simps statistics_body_def
      flip: PatchLength_header)

lemma EncodeEmpty_frame: "EncodeEmpty t = frame_with kProtocolVersion t []"
  by (simp add: EncodeEmpty_def append_simps AppendHeaderPlaceholder_def flip: PatchLength_header)

lemmas encoder_frames =
  EncodeInvalidateKeyRequest_frame EncodeOperationResult_frame EncodeStatusResponse_frame
  EncodeCacheStatisticsResponse_frame EncodeEmpty_frame

lemma length_bodies [simp]:
  "length (result_body b p) = 9 + length (resultMessage p)"
  "length (status_body b q) = 13"
  "length (statistics_body s) = 96"
  by (simp_all add: result_body_def status_body_def statistics_body_def)

subsection \<open>Decoders on bodies\<close>

lemma PeekMessageType_frame_with [simp]:
  "PeekMessageType (frame_with v t body) = Success (MessageType_cast (MessageType_value t))"
  by (simp add: PeekMessageType_def frame_with_def ReadU32_def ReadRaw_def)

lemma DecodeStatusResponse_CheckHeader:
  "DecodeStatusResponse frame =
     (case CheckHeader frame GetStatusResponse of
        Inl e \<Rightarrow> (if code e = InvalidArgument
                   then Failure (mkError InvalidArgument ''not a GetStatusResponse frame'') else Failure e)
      | Inr offset \<Rightarrow>
          (case do { (state, offset) \<leftarrow> ReadU32 frame offset;
                     (generation, offset) \<leftarrow> ReadU64 frame offset;
                     (activeByte, offset) \<leftarrow> ReadU8 frame offset;
                     Some (state, generation, activeByte) } of
             None \<Rightarrow> Failure (mkError CorruptData ''IPC frame truncated payload'')
           | Some (state, generation, activeByte) \<Rightarrow>
               Success \<lparr>recoveryState = state, sessionGeneration = generation,
                        cacheEngineActive = (activeByte \<noteq> 0)\<rparr>))"
  unfolding DecodeStatusResponse_def CheckHeader_def
  by (simp split: option.split)

lemma read_statistics_body [simp]:
  "read_statistics (frame_with v t (statistics_body p @ rest)) 12 = Some p"
  by (simp add: read_statistics_def frame_with_def statistics_body_def ReadU64_def ReadRaw_def)

lemma read_statistics_Some:
  assumes "read_statistics (frame_with v t body) 12 = Some p"
  shows "\<exists>rest. body = statistics_body p @ rest"
proof -
  obtain rest where "rest = drop 108 (frame_with v t body)" by blast
  with assms have "drop 12 (frame_with v t body) = statistics_body p @ rest"
    by (auto simp: read_statistics_def ReadU64_Some bind_eq_Some_conv statistics_body_def simp del: drop_frame_with)
  then show ?thesis by auto
qed

text \<open>Each decoder accepts the frames of its type whose body starts with an encoded payload.\<close>

lemma ReadString_frame:
  "ReadString (frame_with v t body) (12 + n) = Some (x, off) \<longleftrightarrow>
     off = 16 + n + length x \<and> length x \<le> 65536 \<and>
     (\<exists>rest. drop n body = le_bytes 4 (of_nat (length x) :: u32) @ x @ rest)"
proof -
  have tail: "drop (12 + n + 4 + length x) (frame_with v t body) = drop (4 + length x) (drop n body)"
    using drop_frame_with_add [of "n + 4 + length x" v t body] by (simp add: add_ac)
  have "ReadString (frame_with v t body) (12 + n) = Some (x, off) \<longleftrightarrow>
     length x \<le> 65536 \<and> off = 12 + n + 4 + length x \<and>
     drop n body = le_bytes 4 (of_nat (length x) :: u32) @ x @ drop (4 + length x) (drop n body)"
    unfolding ReadString_Some drop_frame_with_add tail [symmetric] by blast
  moreover have "drop n body = le_bytes 4 (of_nat (length x) :: u32) @ x @ drop (4 + length x) (drop n body)"
    if "drop n body = le_bytes 4 (of_nat (length x) :: u32) @ x @ rest" for rest
    by (simp only: that) simp
  moreover have "off = 12 + n + 4 + length x \<longleftrightarrow> off = 16 + n + length x"
    by auto
  ultimately show ?thesis
    by blast
qed

lemma DecodeInvalidateKeyRequest_iff:
  "DecodeInvalidateKeyRequest frame = Success p \<longleftrightarrow>
     length (request_key p) \<le> 65536 \<and> length frame < 4294967296 \<and>
     (\<exists>rest. frame = PatchLength (EncodeInvalidateKeyRequest p @ rest))"
  (is "?l = ?r")
proof
  assume ?l
  then obtain off off' where h: "CheckHeader frame InvalidateKeyRequest = Success off"
    and k: "ReadString frame off = Some (request_key p, off')"
    by (auto simp: DecodeInvalidateKeyRequest_def split: sum.splits option.splits)
  then obtain body where f: "frame = frame_with kProtocolVersion InvalidateKeyRequest body"
    "off = 12" "length frame < 4294967296"
    by (auto simp: CheckHeader_Success)
  then show ?r
    using k ReadString_frame [of kProtocolVersion InvalidateKeyRequest body 0 "request_key p" off']
    by (auto simp: encoder_frames PatchLength_extend)
next
  assume r: ?r
  then obtain rest where f: "frame = frame_with kProtocolVersion InvalidateKeyRequest
      ((le_bytes 4 (of_nat (length (request_key p)) :: u32) @ request_key p) @ rest)"
    by (auto simp: encoder_frames PatchLength_extend)
  then have "ReadString frame 12 = Some (request_key p, 16 + length (request_key p))"
    using r ReadString_frame [of kProtocolVersion InvalidateKeyRequest _ 0] by simp
  moreover have "CheckHeader frame InvalidateKeyRequest = Success 12"
    using r f by (auto simp: CheckHeader_Success)
  ultimately show ?l
    by (simp add: DecodeInvalidateKeyRequest_def)
qed

lemma DecodeCacheStatisticsResponse_iff:
  "DecodeCacheStatisticsResponse frame = Success p \<longleftrightarrow>
     length frame < 4294967296 \<and> (\<exists>rest. frame = PatchLength (EncodeCacheStatisticsResponse p @ rest))"
  by (auto simp: DecodeCacheStatisticsResponse_def encoder_frames PatchLength_extend CheckHeader_Success
      CheckHeader_frame_with dest: read_statistics_Some split: sum.splits option.splits)

lemma DecodeOperationResult_iff:
  "DecodeOperationResult frame t = Success p \<longleftrightarrow>
     length (resultMessage p) \<le> 65536 \<and> length frame < 4294967296 \<and>
     (\<exists>flag rest. (flag \<noteq> 0 \<longleftrightarrow> succeeded p) \<and>
        frame = frame_with kProtocolVersion t (result_body flag p @ rest))"
  (is "?l = ?r")
proof
  assume ?l
  then obtain off off1 off2 off3 flag where h: "CheckHeader frame t = Success off"
    and r: "ReadU8 frame off = Some (flag, off1)" "ReadU32 frame off1 = Some (errorCode p, off2)"
      "ReadString frame off2 = Some (resultMessage p, off3)" "succeeded p \<longleftrightarrow> flag \<noteq> 0"
    by (auto simp: DecodeOperationResult_def bind_eq_Some_conv split: sum.splits option.splits)
  obtain body where f: "frame = frame_with kProtocolVersion t body"
    "off = 12" "length frame < 4294967296"
    using h by (auto simp: CheckHeader_Success)
  have "off1 = 12 + 1" "off2 = 12 + 5"
    using r f by (simp_all add: ReadU8_Some ReadU32_Some)
  with r f have "drop 12 frame = le_bytes 1 flag @ drop (12 + 1) frame"
    "drop (12 + 1) frame = le_bytes 4 (errorCode p) @ drop (12 + 5) frame"
    "ReadString frame (12 + 5) = Some (resultMessage p, off3)"
    by (simp_all only: ReadU8_Some ReadU32_Some)
  then have b: "body = le_bytes 1 flag @ le_bytes 4 (errorCode p) @ drop 5 body"
    and m: "ReadString frame (12 + 5) = Some (resultMessage p, off3)"
    unfolding f(1) drop_frame_with drop_frame_with_add by metis+
  obtain rest where "length (resultMessage p) \<le> 65536"
    "drop 5 body = le_bytes 4 (of_nat (length (resultMessage p)) :: u32) @ resultMessage p @ rest"
    using m unfolding f(1) ReadString_frame by blast
  then show ?r
    using b r(4) f unfolding result_body_def by (metis append.assoc)
next
  assume ?r
  then obtain flag rest where r: "flag \<noteq> 0 \<longleftrightarrow> succeeded p" "length (resultMessage p) \<le> 65536"
    "length frame < 4294967296" and f: "frame = frame_with kProtocolVersion t (result_body flag p @ rest)"
    by blast
  have "ReadU8 frame 12 = Some (flag, 12 + 1)" "ReadU32 frame (12 + 1) = Some (errorCode p, 12 + 5)"
    by (simp_all add: f frame_with_def result_body_def ReadU8_def ReadU32_def ReadRaw_def del: One_nat_def)
  moreover have "ReadString frame (12 + 5) = Some (resultMessage p, 21 + length (resultMessage p))"
    using r ReadString_frame [of kProtocolVersion t "result_body flag p @ rest" 5]
    by (simp add: f result_body_def)
  moreover have "CheckHeader frame t = Success 12"
    using r f by (auto simp: CheckHeader_Success)
  ultimately show ?l
    using r by (simp add: DecodeOperationResult_def)
qed

lemma DecodeStatusResponse_iff:
  "DecodeStatusResponse frame = Success p \<longleftrightarrow>
     length frame < 4294967296 \<and>
     (\<exists>flag rest. (flag \<noteq> 0 \<longleftrightarrow> cacheEngineActive p) \<and>
        frame = frame_with kProtocolVersion GetStatusResponse (status_body flag p @ rest))"
  (is "?l = ?r")
proof
  assume ?l
  then obtain off off1 off2 off3 flag where h: "CheckHeader frame GetStatusResponse = Success off"
    and r: "ReadU32 frame off = Some (recoveryState p, off1)"
      "ReadU64 frame off1 = Some (sessionGeneration p, off2)"
      "ReadU8 frame off2 = Some (flag, off3)" "cacheEngineActive p \<longleftrightarrow> flag \<noteq> 0"
    by (auto simp: DecodeStatusResponse_CheckHeader bind_eq_Some_conv
        split: sum.splits option.splits if_splits)
  obtain body where f: "frame = frame_with kProtocolVersion GetStatusResponse body"
    "off = 12" "length frame < 4294967296"
    using h by (auto simp: CheckHeader_Success)
  have "off1 = 12 + 4" "off2 = 12 + 12" "off3 = 12 + 13"
    using r f by (simp_all add: ReadU8_Some ReadU32_Some ReadU64_Some)
  with r f have "drop 12 frame = le_bytes 4 (recoveryState p) @ drop (12 + 4) frame"
    "drop (12 + 4) frame = le_bytes 8 (sessionGeneration p) @ drop (12 + 12) frame"
    "drop (12 + 12) frame = le_bytes 1 flag @ drop (12 + 13) frame"
    by (simp_all only: ReadU8_Some ReadU32_Some ReadU64_Some)
  then have "body = status_body flag p @ drop 13 body"
    unfolding f(1) drop_frame_with drop_frame_with_add status_body_def by (metis append.assoc)
  then show ?r
    using r(4) f by metis
next
  assume ?r
  then obtain flag rest where r: "flag \<noteq> 0 \<longleftrightarrow> cacheEngineActive p" "length frame < 4294967296"
    and f: "frame = frame_with kProtocolVersion GetStatusResponse (status_body flag p @ rest)"
    by blast
  have "ReadU32 frame 12 = Some (recoveryState p, 16)" "ReadU64 frame 16 = Some (sessionGeneration p, 24)"
    "ReadU8 frame 24 = Some (flag, 25)"
    by (simp_all add: f frame_with_def status_body_def ReadU8_def ReadU32_def ReadU64_def ReadRaw_def
        del: One_nat_def)
  moreover have "CheckHeader frame GetStatusResponse = Success 12"
    using r f by (auto simp: CheckHeader_Success)
  ultimately show ?l
    using r by (simp add: DecodeStatusResponse_CheckHeader)
qed

lemma header_failure:
  "\<exists>e. CheckHeader f GetStatusResponse = Failure e \<and> code e = CorruptData \<Longrightarrow>
     \<exists>e. DecodeStatusResponse f = Failure e \<and> code e = CorruptData"
  "\<exists>e. CheckHeader f GetCacheStatisticsResponse = Failure e \<and> code e = c \<Longrightarrow>
     \<exists>e. DecodeCacheStatisticsResponse f = Failure e \<and> code e = c"
  "\<exists>e. CheckHeader f t = Failure e \<and> code e = c \<Longrightarrow>
     \<exists>e. DecodeOperationResult f t = Failure e \<and> code e = c"
  "\<exists>e. CheckHeader f InvalidateKeyRequest = Failure e \<and> code e = c \<Longrightarrow>
     \<exists>e. DecodeInvalidateKeyRequest f = Failure e \<and> code e = c"
  by (auto simp: DecodeOperationResult_def DecodeStatusResponse_CheckHeader
      DecodeCacheStatisticsResponse_def DecodeInvalidateKeyRequest_def)

section \<open>Properties\<close>

text \<open>
  C21. \<^bold>\<open>Messages survive the wire.\<close>  Every payload the service or the GUI sends decodes to itself,
  with strings of up to 64 KiB, and the receiver's dispatch on \<open>PeekMessageType\<close> selects the type
  the sender chose.
\<close>

theorem codec_round_trip:
  assumes "length (resultMessage r) \<le> 65536" and "length (request_key q) \<le> 65536"
  shows "DecodeStatusResponse (EncodeStatusResponse st) = Success st
    \<and> DecodeCacheStatisticsResponse (EncodeCacheStatisticsResponse cs) = Success cs
    \<and> DecodeOperationResult (EncodeOperationResult t r) t = Success r
    \<and> DecodeInvalidateKeyRequest (EncodeInvalidateKeyRequest q) = Success q
    \<and> PeekMessageType (EncodeStatusResponse st) = Success GetStatusResponse
    \<and> PeekMessageType (EncodeCacheStatisticsResponse cs) = Success GetCacheStatisticsResponse
    \<and> PeekMessageType (EncodeInvalidateKeyRequest q) = Success InvalidateKeyRequest
    \<and> PeekMessageType (EncodeOperationResult t r) = PeekMessageType (EncodeEmpty t)"
proof -
  have "DecodeStatusResponse (EncodeStatusResponse st) = Success st"
    by (force simp: DecodeStatusResponse_iff encoder_frames
        intro: exI [of _ "if cacheEngineActive st then 1 else 0"] exI [of _ "[]"])
  moreover have "DecodeCacheStatisticsResponse (EncodeCacheStatisticsResponse cs) = Success cs"
    by (auto simp: DecodeCacheStatisticsResponse_iff encoder_frames PatchLength_extend intro: exI [of _ "[]"])
  moreover have "DecodeOperationResult (EncodeOperationResult t r) t = Success r"
    using assms(1) by (force simp: DecodeOperationResult_iff encoder_frames
        intro: exI [of _ "if succeeded r then 1 else 0"] exI [of _ "[]"])
  moreover have "DecodeInvalidateKeyRequest (EncodeInvalidateKeyRequest q) = Success q"
    using assms(2) by (auto simp: DecodeInvalidateKeyRequest_iff encoder_frames PatchLength_extend
        intro: exI [of _ "[]"])
  ultimately show ?thesis
    by (simp add: encoder_frames MessageType_cast_def)
qed

definition sample_result :: OperationResultPayload where
  "sample_result = \<lparr>succeeded = False, errorCode = 3, resultMessage = str ''no such key''\<rparr>"

definition sample_request :: InvalidateKeyRequestPayload where
  "sample_request = \<lparr>request_key = str ''user:42''\<rparr>"

theorem codec_round_trip_witness:
  "DecodeOperationResult (EncodeOperationResult InvalidateKeyResponse sample_result) InvalidateKeyResponse
     = Success sample_result
   \<and> DecodeInvalidateKeyRequest (EncodeInvalidateKeyRequest sample_request) = Success sample_request"
  using codec_round_trip [of sample_result sample_request undefined undefined InvalidateKeyResponse]
  by (simp add: sample_result_def sample_request_def str_def)

text \<open>
  \<^bold>\<open>Only a well-formed request reaches the engine.\<close>  Whatever bytes arrive, the decoder of the one
  request that carries data accepts exactly the frames that start with the encoding of the key it
  returns, with the right length, type and version; the key is at most 64 KiB long and lies inside
  the frame.  Bytes after the key are ignored, but the length field must count them.
\<close>

theorem DecodeInvalidateKeyRequest_accepts:
  "DecodeInvalidateKeyRequest frame = Success p \<longleftrightarrow>
     length (request_key p) \<le> 65536 \<and> length frame < 2 ^ 32 \<and>
     (\<exists>rest. frame = PatchLength (EncodeInvalidateKeyRequest p @ rest))"
  using DecodeInvalidateKeyRequest_iff [of frame p] by simp

definition header_verdict :: "MessageType \<Rightarrow> MessageType \<Rightarrow> ErrorCode" where
  "header_verdict sent expected =
     (if MessageType_value sent \<noteq> MessageType_value expected then InvalidArgument else VersionMismatch)"

text \<open>
  \<^bold>\<open>Versions and types are checked before the payload.\<close>  A frame of another protocol version is
  rejected with \<open>VersionMismatch\<close> by every decoder, and a frame of another type with
  \<open>InvalidArgument\<close>, whatever the bytes of its body are.
\<close>

theorem decoders_check_header:
  assumes "12 + length body < 2 ^ 32"
    and "MessageType_value sent \<noteq> MessageType_value expected \<or> version \<noteq> kProtocolVersion"
  shows "(\<exists>e. DecodeOperationResult (frame_with version sent body) expected = Failure e \<and> code e = header_verdict sent expected)
    \<and> (expected = GetStatusResponse \<longrightarrow>
        (\<exists>e. DecodeStatusResponse (frame_with version sent body) = Failure e \<and> code e = header_verdict sent expected))
    \<and> (expected = GetCacheStatisticsResponse \<longrightarrow>
        (\<exists>e. DecodeCacheStatisticsResponse (frame_with version sent body) = Failure e \<and> code e = header_verdict sent expected))
    \<and> (expected = InvalidateKeyRequest \<longrightarrow>
        (\<exists>e. DecodeInvalidateKeyRequest (frame_with version sent body) = Failure e \<and> code e = header_verdict sent expected))"
proof -
  obtain e where "CheckHeader (frame_with version sent body) expected = Failure e" "code e = header_verdict sent expected"
    using assms by (cases "MessageType_value sent = MessageType_value expected")
      (simp_all add: CheckHeader_frame_with header_verdict_def)
  then show ?thesis
    by (auto simp: DecodeOperationResult_def DecodeStatusResponse_CheckHeader
        DecodeCacheStatisticsResponse_def DecodeInvalidateKeyRequest_def)
qed

theorem decoders_check_header_witness:
  "\<exists>e. DecodeInvalidateKeyRequest (frame_with 1 InvalidateKeyRequest (str ''k'')) = Failure e
       \<and> code e = VersionMismatch"
  using decoders_check_header [of "str ''k''" InvalidateKeyRequest InvalidateKeyRequest 1]
  by (simp add: kProtocolVersion_def header_verdict_def str_def)

text \<open>
  \<^bold>\<open>A frame cut in transit is detected.\<close>  No proper prefix of an encoded message decodes: every
  decoder answers \<open>CorruptData\<close>, wherever the cut is.
\<close>

theorem cut_frames_rejected:
  assumes "length (resultMessage r) \<le> 65536" and "length (request_key q) \<le> 65536"
  shows "(n < length (EncodeStatusResponse st) \<longrightarrow>
       (\<exists>e. DecodeStatusResponse (take n (EncodeStatusResponse st)) = Failure e \<and> code e = CorruptData))
    \<and> (n < length (EncodeCacheStatisticsResponse cs) \<longrightarrow>
       (\<exists>e. DecodeCacheStatisticsResponse (take n (EncodeCacheStatisticsResponse cs)) = Failure e
            \<and> code e = CorruptData))
    \<and> (n < length (EncodeOperationResult t r) \<longrightarrow>
       (\<exists>e. DecodeOperationResult (take n (EncodeOperationResult t r)) t = Failure e \<and> code e = CorruptData))
    \<and> (n < length (EncodeInvalidateKeyRequest q) \<longrightarrow>
       (\<exists>e. DecodeInvalidateKeyRequest (take n (EncodeInvalidateKeyRequest q)) = Failure e
            \<and> code e = CorruptData))"
proof -
  have cut: "\<exists>e. CheckHeader (take n (frame_with kProtocolVersion u body)) u = Failure e \<and> code e = CorruptData"
    if "n < length (frame_with kProtocolVersion u body)" "length body \<le> 70000" for u body
    using that by (intro CheckHeader_cut) auto
  have "\<exists>e. DecodeStatusResponse (take n (EncodeStatusResponse st)) = Failure e \<and> code e = CorruptData"
    if "n < length (EncodeStatusResponse st)"
    using cut that unfolding encoder_frames by (intro header_failure) auto
  moreover have "\<exists>e. DecodeCacheStatisticsResponse (take n (EncodeCacheStatisticsResponse cs)) = Failure e
      \<and> code e = CorruptData"
    if "n < length (EncodeCacheStatisticsResponse cs)"
    using cut that unfolding encoder_frames by (intro header_failure) auto
  moreover have "\<exists>e. DecodeOperationResult (take n (EncodeOperationResult t r)) t = Failure e \<and> code e = CorruptData"
    if "n < length (EncodeOperationResult t r)"
    using cut that assms unfolding encoder_frames by (intro header_failure) auto
  moreover have "\<exists>e. DecodeInvalidateKeyRequest (take n (EncodeInvalidateKeyRequest q)) = Failure e
      \<and> code e = CorruptData"
    if "n < length (EncodeInvalidateKeyRequest q)"
    using cut that assms unfolding encoder_frames by (intro header_failure) auto
  ultimately show ?thesis
    by blast
qed

theorem cut_frames_rejected_witness:
  "\<exists>e. DecodeInvalidateKeyRequest (take 20 (EncodeInvalidateKeyRequest sample_request)) = Failure e
       \<and> code e = CorruptData"
  using cut_frames_rejected [of sample_result sample_request 20]
  by (simp add: sample_request_def sample_result_def str_def encoder_frames)

text \<open>
  A long key can be sent but never invalidated.  The encoder puts no bound on the key, while the
  decoder refuses one of more than 64 KiB: the request it produces is reported as corrupt.
\<close>

lemma oversized_request_rejected:
  assumes "65536 < length (request_key q)" and "length (request_key q) < 4294967280"
  shows "\<exists>e. DecodeInvalidateKeyRequest (EncodeInvalidateKeyRequest q) = Failure e \<and> code e = CorruptData"
proof -
  let ?f = "EncodeInvalidateKeyRequest q"
  have n: "unat (of_nat (length (request_key q)) :: u32) = length (request_key q)"
    using assms by simp
  have "\<not> (of_nat (length (request_key q)) :: u32) \<le> kMaxStringLength"
    using assms(1) n unfolding kMaxStringLength_iff by simp
  moreover have "ReadU32 ?f 12 = Some (of_nat (length (request_key q)), 16)"
    by (simp add: encoder_frames ReadU32_def ReadRaw_def)
  ultimately have "ReadString ?f 12 = None"
    by (simp add: ReadString_def not_le)
  moreover have "CheckHeader ?f InvalidateKeyRequest = Success 12"
    using assms by (simp add: encoder_frames CheckHeader_frame_with)
  ultimately show ?thesis
    by (simp add: DecodeInvalidateKeyRequest_def)
qed

end
