(* ===== verification/NamedPipe.thy ===== *)
theory NamedPipe
  imports MessageCodec
begin

text \<open>
  The named-pipe transport (\<^verbatim>\<open>INamedPipeTransport.h\<close>, \<^verbatim>\<open>Win32NamedPipeTransport.cpp\<close>): sending
  and receiving a length-prefixed frame on a connected pipe, and the server's accept, which races a
  client's connection against a request to shut down.

  The Win32 calls below it are modelled by what they are documented to do.  A pipe in byte mode
  keeps no message boundaries: what a read returns depends on how much has arrived.  The model of a
  connected pipe has the bytes that wait in its buffer and the list of arrivals to come; a read takes
  from the buffer when it holds something and waits for the next arrival otherwise.  A read that
  waits for ever does not return, which is the value \<open>None\<close>.
\<close>

section \<open>A connected pipe\<close>

datatype arrival = Arrives bytes | Breaks_off u32

record Pipe =
  pipe_buffer :: bytes
  pipe_arrivals :: "arrival list"
  pipe_sent :: bytes
  pipe_writes :: "(u32 + nat) list"
  lastError :: u32

text \<open>
  \<^verbatim>\<open>ReadFile\<close>: the bytes read, or \<open>None\<close> for failure, with the error left for
  \<^verbatim>\<open>GetLastError\<close>.
\<close>

definition ReadFile :: "nat \<Rightarrow> Pipe \<Rightarrow> (bytes option \<times> Pipe) option" where
  "ReadFile n p =
     (if pipe_buffer p \<noteq> []
      then Some (Some (take n (pipe_buffer p)), p\<lparr>pipe_buffer := drop n (pipe_buffer p)\<rparr>)
      else case pipe_arrivals p of
             [] \<Rightarrow> None
           | Arrives bs # as \<Rightarrow>
               Some (Some (take n bs), p\<lparr>pipe_buffer := drop n bs, pipe_arrivals := as\<rparr>)
           | Breaks_off e # as \<Rightarrow>
               Some (None, p\<lparr>pipe_arrivals := as, lastError := e\<rparr>))"

text \<open>
  \<^verbatim>\<open>WriteFile\<close>: the number of bytes written.  \<open>pipe_writes\<close> says how the calls to come end:
  \<open>Inl\<close> is a failure, \<open>Inr k\<close> a write of at most \<open>k\<close> bytes; further calls write everything.
\<close>

definition WriteFile :: "bytes \<Rightarrow> Pipe \<Rightarrow> nat option \<times> Pipe" where
  "WriteFile bs p =
     (case pipe_writes p of
        [] \<Rightarrow> (Some (length bs), p\<lparr>pipe_sent := pipe_sent p @ bs\<rparr>)
      | Inl e # ws \<Rightarrow> (None, p\<lparr>pipe_writes := ws, lastError := e\<rparr>)
      | Inr k # ws \<Rightarrow>
          (Some (min k (length bs)), p\<lparr>pipe_sent := pipe_sent p @ take k bs, pipe_writes := ws\<rparr>))"

section \<open>Win32NamedPipeTransport\<close>

definition MakeWin32Error :: "string \<Rightarrow> u32 \<Rightarrow> Error" where
  "MakeWin32Error context err = \<lparr>code = Win32ApiFailure, message = str context, platformErrorValue = err\<rparr>"

text \<open>The \<^verbatim>\<open>DWORD\<close> count passed to \<^verbatim>\<open>WriteFile\<close> is the frame's size modulo \<open>2\<^sup>3\<^sup>2\<close>.\<close>

definition SendFrame :: "bytes \<Rightarrow> Pipe \<Rightarrow> unit result \<times> Pipe" where
  "SendFrame frame p =
     (case WriteFile (take (unat (of_nat (length frame) :: u32)) frame) p of
        (ok, p) \<Rightarrow>
          (if ok = Some (length frame) then (Success (), p)
           else (Failure (MakeWin32Error ''WriteFile on named pipe failed'' (lastError p)), p)))"

text \<open>
  The loop of \<^verbatim>\<open>ReceiveFrame\<close>: \<open>got\<close> is the part of the frame behind the length prefix that has
  been filled, so \<^verbatim>\<open>gotTotal\<close> is its length.
\<close>

function (sequential) receive_payload :: "nat \<Rightarrow> bytes \<Rightarrow> Pipe \<Rightarrow> (bytes result \<times> Pipe) option" where
  "receive_payload remaining got p =
     (if \<not> length got < remaining then Some (Success got, p)
      else case ReadFile (remaining - length got) p of
             None \<Rightarrow> None
           | Some (None, p) \<Rightarrow>
               Some (Failure (MakeWin32Error ''ReadFile (payload) on named pipe failed'' (lastError p)), p)
           | Some (Some bs, p) \<Rightarrow>
               (if bs = []
                then Some (Failure (MakeWin32Error ''ReadFile (payload) on named pipe failed'' (lastError p)), p)
                else receive_payload remaining (got @ bs) p))"
  by pat_completeness auto

termination
  by (relation "measure (\<lambda>(remaining, got, _). remaining - length got)") (auto simp: neq_Nil_conv)

declare receive_payload.simps [simp del]

definition kMaxFrameLength :: u32 where
  "kMaxFrameLength = 16 * 1024 * 1024"

definition ReceiveFrame :: "Pipe \<Rightarrow> (bytes result \<times> Pipe) option" where
  "ReceiveFrame p =
     (case ReadFile 4 p of
        None \<Rightarrow> None
      | Some (r, p) \<Rightarrow>
          (case r of
             None \<Rightarrow> Some (Failure (MakeWin32Error ''ReadFile (length prefix) on named pipe failed'' (lastError p)), p)
           | Some prefix \<Rightarrow>
               (if length prefix \<noteq> 4
                then Some (Failure (MakeWin32Error ''ReadFile (length prefix) on named pipe failed'' (lastError p)), p)
                else
                let totalLength = (le_word prefix :: u32) in
                if totalLength < 4 \<or> totalLength > kMaxFrameLength
                then Some (Failure (mkError CorruptData ''IPC frame length out of sane bounds''), p)
                else
                map_option (map_prod (map_sum id ((@) (le_bytes 4 totalLength))) id)
                  (receive_payload (unat (totalLength - 4)) [] p))))"

section \<open>Win32NamedPipeServer\<close>

text \<open>
  The calls \<^verbatim>\<open>AcceptOnce\<close> makes, with what each returns: the error of a call that fails, the
  outcome of \<^verbatim>\<open>ConnectNamedPipe\<close>, and which handle ended \<^verbatim>\<open>WaitForMultipleObjects\<close> (\<open>None\<close>
  when neither is ever signalled).  The server's state is its stop event (\<open>None\<close> when it could
  not be created, or whether it is signalled) and the handles that are open in the process.
\<close>

datatype connect_outcome = Connected | Connect_error u32

datatype wait_outcome = Wait_connect | Wait_stop | Wait_failed u32

record AcceptCalls =
  convert_descriptor :: "u32 option"
  create_pipe :: "u32 + nat"
  create_event :: "u32 + nat"
  connect_pipe :: connect_outcome
  wait_objects :: "wait_outcome option"
  overlapped_result :: "u32 option"

record Server =
  stopEvent :: "bool option"
  openHandles :: "nat set"

definition open_handle :: "nat \<Rightarrow> Server \<Rightarrow> Server" where
  "open_handle h s = s\<lparr>openHandles := insert h (openHandles s)\<rparr>"

definition CloseHandle :: "nat \<Rightarrow> Server \<Rightarrow> Server" where
  "CloseHandle h s = s\<lparr>openHandles := openHandles s - {h}\<rparr>"

definition ERROR_IO_PENDING :: u32 where
  "ERROR_IO_PENDING = 997"

definition ERROR_PIPE_CONNECTED :: u32 where
  "ERROR_PIPE_CONNECTED = 535"

text \<open>From \<^verbatim>\<open>ConnectNamedPipe\<close> on, with the pipe instance and the connect event open.\<close>

definition await_client :: "AcceptCalls \<Rightarrow> nat \<Rightarrow> nat \<Rightarrow> Server \<Rightarrow> (nat result \<times> Server) option" where
  "await_client c handle connectEvent s =
     (let give_up = (\<lambda>e. Some (Failure e, CloseHandle handle (CloseHandle connectEvent s)));
          connected = Some (Success handle, CloseHandle connectEvent s)
      in case connect_pipe c of
           Connected \<Rightarrow> connected
         | Connect_error e \<Rightarrow>
             (if e = ERROR_IO_PENDING then
                (case wait_objects c of
                   None \<Rightarrow> None
                 | Some Wait_stop \<Rightarrow>
                     give_up (mkError ServiceStopping ''AcceptOnce: shutdown requested while waiting for a client'')
                 | Some (Wait_failed w) \<Rightarrow>
                     give_up (MakeWin32Error ''AcceptOnce: WaitForMultipleObjects failed'' w)
                 | Some Wait_connect \<Rightarrow>
                     (case overlapped_result c of
                        Some r \<Rightarrow> give_up (MakeWin32Error ''AcceptOnce: GetOverlappedResult (connect) failed'' r)
                      | None \<Rightarrow> connected))
              else if e \<noteq> ERROR_PIPE_CONNECTED
                then give_up (MakeWin32Error ''ConnectNamedPipe failed'' e)
              else connected))"

definition AcceptOnce :: "AcceptCalls \<Rightarrow> Server \<Rightarrow> (nat result \<times> Server) option" where
  "AcceptOnce c s =
     (if stopEvent s = Some True
      then Some (Failure (mkError ServiceStopping ''AcceptOnce: shutdown already requested''), s)
      else case convert_descriptor c of
        Some e \<Rightarrow>
          Some (Failure (MakeWin32Error ''ConvertStringSecurityDescriptorToSecurityDescriptorW failed'' e), s)
      | None \<Rightarrow>
     (case create_pipe c of
        Inl e \<Rightarrow> Some (Failure (MakeWin32Error ''CreateNamedPipeW failed'' e), s)
      | Inr handle \<Rightarrow>
     (case create_event c of
        Inl e \<Rightarrow>
          Some (Failure (MakeWin32Error ''CreateEventW (connect) failed'' e),
                CloseHandle handle (open_handle handle s))
      | Inr connectEvent \<Rightarrow>
          await_client c handle connectEvent (open_handle connectEvent (open_handle handle s)))))"

definition RequestShutdown :: "Server \<Rightarrow> Server" where
  "RequestShutdown s = s\<lparr>stopEvent := map_option (\<lambda>_. True) (stopEvent s)\<rparr>"

text \<open>
  The constructor keeps whatever \<^verbatim>\<open>CreateEventW\<close> returns for the stop event, a null handle too.
\<close>

definition CreateNamedPipeServer :: "'a list \<Rightarrow> u32 + nat \<Rightarrow> nat set \<Rightarrow> Server result" where
  "CreateNamedPipeServer pipeName event handles =
     (if pipeName = [] then Failure (mkError InvalidArgument ''pipeName must not be empty'')
      else Success (case event of
        Inl _ \<Rightarrow> \<lparr>stopEvent = None, openHandles = handles\<rparr>
      | Inr h \<Rightarrow> \<lparr>stopEvent = Some False, openHandles = insert h handles\<rparr>))"

section \<open>What a receiver sees\<close>

text \<open>The bytes that still arrive before the pipe breaks off.\<close>

fun arriving :: "arrival list \<Rightarrow> bytes" where
  "arriving [] = []"
| "arriving (Arrives bs # as) = bs @ arriving as"
| "arriving (Breaks_off _ # as) = []"

definition incoming :: "Pipe \<Rightarrow> bytes" where
  "incoming p = pipe_buffer p @ arriving (pipe_arrivals p)"

definition breaks_off :: "arrival \<Rightarrow> bool" where
  "breaks_off a = (case a of Breaks_off _ \<Rightarrow> True | Arrives _ \<Rightarrow> False)"

text \<open>A pipe on which no read can wait for ever: it breaks off at some point.\<close>

definition ends :: "Pipe \<Rightarrow> bool" where
  "ends p \<longleftrightarrow> list_ex breaks_off (pipe_arrivals p)"

lemma ReadFile_Some:
  assumes "ReadFile n p = Some (Some bs, p')"
  shows "incoming p = bs @ incoming p'" "length bs \<le> n" "pipe_sent p' = pipe_sent p" "ends p \<Longrightarrow> ends p'"
  using assms
  by (auto simp: ReadFile_def incoming_def ends_def breaks_off_def split: if_splits list.splits arrival.splits)

lemma ReadFile_ends: "ends p \<Longrightarrow> \<exists>r p'. ReadFile n p = Some (r, p')"
  by (auto simp: ReadFile_def ends_def split: list.split arrival.split)

lemma receive_payload_Success:
  assumes "receive_payload remaining got p = Some (Success bs, p')" and "length got \<le> remaining"
  shows "length bs = remaining \<and> got @ incoming p = bs @ incoming p' \<and> pipe_sent p' = pipe_sent p"
  using assms
proof (induction remaining got p rule: receive_payload.induct)
  case (1 remaining got p)
  show ?case
  proof (cases "length got < remaining")
    case False
    then show ?thesis
      using 1 by (simp add: receive_payload.simps [of remaining got p])
  next
    case True
    then obtain r p1 where rd: "ReadFile (remaining - length got) p = Some (Some r, p1)" and "r \<noteq> []"
      and rest: "receive_payload remaining (got @ r) p1 = Some (Success bs, p')"
      using 1(2) by (auto simp: receive_payload.simps [of remaining got p] split: option.splits if_splits)
    then show ?thesis
      using 1(1) [OF _ rd] True ReadFile_Some [OF rd] by auto
  qed
qed

lemma receive_payload_returns: "ends p \<Longrightarrow> receive_payload remaining got p \<noteq> None"
proof (induction remaining got p rule: receive_payload.induct)
  case (1 remaining got p)
  obtain r p1 where rd: "ReadFile (remaining - length got) p = Some (r, p1)"
    using ReadFile_ends [OF 1(2)] by blast
  show ?case
  proof (cases r)
    case (Some bs)
    then show ?thesis
      using 1(1) [of "(r, p1)" r p1 bs] 1(2) rd ReadFile_Some(4) [of _ p bs p1]
      by (auto simp: receive_payload.simps [of remaining got p])
  qed (simp add: receive_payload.simps [of remaining got p] rd)
qed

text \<open>
  The chunks in which a stream arrives: reads return whatever part of them has come, so every split of the
  bytes into non-empty chunks is a behaviour of the pipe.
\<close>

definition pipe_output :: "Pipe \<Rightarrow> bytes \<times> (u32 + nat) list" where
  "pipe_output p = (pipe_sent p, pipe_writes p)"

lemma pipe_output_update [simp]:
  "pipe_output (p\<lparr>pipe_buffer := b\<rparr>) = pipe_output p" "pipe_output (p\<lparr>pipe_buffer := b, pipe_arrivals := as\<rparr>) = pipe_output p"
  by (simp_all add: pipe_output_def)

definition carries :: "bytes list \<Rightarrow> arrival list \<Rightarrow> Pipe \<Rightarrow> bool" where
  "carries cs as p \<longleftrightarrow> pipe_arrivals p = map Arrives cs @ as \<and> list_all (\<lambda>c. c \<noteq> []) cs"

lemma take_drop_append [simp]: "take n xs @ drop n xs @ ys = xs @ ys"
  by (simp flip: append.assoc)

lemma ReadFile_carries:
  assumes "carries cs as p" and "pipe_buffer p @ concat cs = need @ rest" and "need \<noteq> []" and "n = length need"
  shows "\<exists>bs p' cs'. ReadFile n p = Some (Some bs, p') \<and> bs \<noteq> [] \<and> carries cs' as p' \<and>
           need @ rest = bs @ pipe_buffer p' @ concat cs' \<and> length bs \<le> n \<and> pipe_output p' = pipe_output p"
proof (cases "pipe_buffer p")
  case Nil
  then obtain c cs1 where "cs = c # cs1"
    using assms by (cases cs) auto
  then show ?thesis
    using assms Nil by (intro exI [of _ "take n c"] exI exI [of _ cs1]) (auto simp: ReadFile_def carries_def)
next
  case (Cons b bs)
  then show ?thesis
    using assms
    by (intro exI [of _ "take n (pipe_buffer p)"] exI exI [of _ cs]) (auto simp: ReadFile_def carries_def)
qed

lemma receive_payload_carries:
  assumes "carries cs as p" and "pipe_buffer p @ concat cs = need @ rest" and "remaining = length got + length need"
  shows "\<exists>p' cs'. receive_payload remaining got p = Some (Success (got @ need), p') \<and> carries cs' as p' \<and>
           pipe_buffer p' @ concat cs' = rest \<and> pipe_output p' = pipe_output p"
  using assms
proof (induction remaining got p arbitrary: cs need rule: receive_payload.induct)
  case (1 remaining got p)
  show ?case
  proof (cases "need = []")
    case True
    then show ?thesis
      using 1 by (intro exI [of _ p] exI [of _ cs]) (simp add: receive_payload.simps [of "length got" got p])
  next
    case False
    obtain bs p1 cs1 where rd: "ReadFile (length need) p = Some (Some bs, p1)" and bs: "bs \<noteq> []" "length bs \<le> length need"
      and c: "carries cs1 as p1" "need @ rest = bs @ pipe_buffer p1 @ concat cs1" "pipe_output p1 = pipe_output p"
      using ReadFile_carries [OF 1(2,3) False refl] by blast
    define need1 where "need1 = drop (length bs) need"
    have need: "need = bs @ need1"
      using arg_cong [OF c(2), of "take (length bs)"] bs(2) by (metis append_eq_conv_conj append_take_drop_id need1_def take_append_le)
    have "\<exists>p' cs'. receive_payload remaining (got @ bs) p1 = Some (Success ((got @ bs) @ need1), p') \<and> carries cs' as p' \<and>
            pipe_buffer p' @ concat cs' = rest \<and> pipe_output p' = pipe_output p1"
      using 1(4) False rd bs c need by (intro 1(1) [OF _ _ refl refl]) auto
    moreover have "receive_payload remaining got p = receive_payload remaining (got @ bs) p1"
      using 1(4) False rd bs by (subst receive_payload.simps) simp
    ultimately show ?thesis
      using need c(3) by simp
  qed
qed

section \<open>Correctness of the transport\<close>

definition frame_ok :: "bytes \<Rightarrow> bool" where
  "frame_ok f \<longleftrightarrow> 4 \<le> length f \<and> length f \<le> 16777216 \<and> take 4 f = le_bytes 4 (of_nat (length f) :: u32)"

lemma frame_ok_totalLength:
  assumes "frame_ok f"
  shows "unat (of_nat (length f) :: u32) = length f" "\<not> (of_nat (length f) :: u32) < 4"
    "\<not> (of_nat (length f) :: u32) > kMaxFrameLength" "unat (of_nat (length f) - 4 :: u32) = length f - 4"
    "f = le_bytes 4 (of_nat (length f) :: u32) @ drop 4 f"
proof -
  show n: "unat (of_nat (length f) :: u32) = length f"
    using assms by (simp add: frame_ok_def)
  show le: "\<not> (of_nat (length f) :: u32) < 4" "\<not> (of_nat (length f) :: u32) > kMaxFrameLength"
    using assms n by (simp_all add: frame_ok_def word_less_nat_alt kMaxFrameLength_def)
  show "unat (of_nat (length f) - 4 :: u32) = length f - 4"
    using le(1) n by (simp add: unat_sub not_less)
  show "f = le_bytes 4 (of_nat (length f) :: u32) @ drop 4 f"
    using assms by (metis append_take_drop_id frame_ok_def)
qed

lemma ReceiveFrame_prefix:
  assumes "ReadFile 4 p = Some (Some (le_bytes 4 (of_nat (length f) :: u32)), p1)" and "frame_ok f"
  shows "ReceiveFrame p = map_option (map_prod (map_sum id ((@) (take 4 f))) id) (receive_payload (length f - 4) [] p1)"
  using assms frame_ok_totalLength [OF assms(2)]
  by (simp add: ReceiveFrame_def frame_ok_def Let_def)

lemma ReceiveFrame_carries:
  assumes f: "frame_ok f" and c: "carries cs as p" and s: "pipe_buffer p @ concat cs = f @ rest"
    and first: "4 \<le> length (if pipe_buffer p = [] then hd cs else pipe_buffer p)"
  shows "\<exists>p' cs'. ReceiveFrame p = Some (Success f, p') \<and> carries cs' as p' \<and>
           pipe_buffer p' @ concat cs' = rest \<and> pipe_output p' = pipe_output p"
proof -
  have prefix: "take 4 (pipe_buffer p @ concat cs) = take 4 f"
    using f s by (simp add: frame_ok_def)
  obtain p1 cs1 where rd: "ReadFile 4 p = Some (Some (take 4 f), p1)" and c1: "carries cs1 as p1"
    and s1: "pipe_buffer p1 @ concat cs1 = drop 4 f @ rest" and sent: "pipe_output p1 = pipe_output p"
  proof (cases "pipe_buffer p")
    case Nil
    then obtain x xs where "cs = x # xs"
      using s f by (cases cs) (auto simp: frame_ok_def)
    moreover have "drop 4 (concat cs) = drop 4 f @ rest"
      using s Nil f by (simp add: frame_ok_def)
    ultimately show ?thesis
      using that [of "p\<lparr>pipe_buffer := drop 4 x, pipe_arrivals := map Arrives xs @ as\<rparr>" xs] c Nil first prefix
      by (simp add: ReadFile_def carries_def)
  next
    case (Cons b bs)
    moreover have "drop 4 (pipe_buffer p @ concat cs) = drop 4 f @ rest"
      using s f by (simp add: frame_ok_def)
    ultimately show ?thesis
      using that [of "p\<lparr>pipe_buffer := drop 4 (pipe_buffer p)\<rparr>" cs] c first prefix
      by (simp add: ReadFile_def carries_def)
  qed
  obtain p2 cs2 where "receive_payload (length f - 4) [] p1 = Some (Success (drop 4 f), p2)" "carries cs2 as p2"
    "pipe_buffer p2 @ concat cs2 = rest" "pipe_output p2 = pipe_output p1"
    using receive_payload_carries [OF c1 s1, of "length f - 4" "[]"] by auto
  moreover have "take 4 f = le_bytes 4 (of_nat (length f) :: u32)"
    using f by (simp add: frame_ok_def)
  ultimately show ?thesis
    using ReceiveFrame_prefix [OF _ f, of p p1] rd sent
    by (auto simp: frame_ok_totalLength(5) [OF f, symmetric])
qed

text \<open>Every frame the codec builds, up to the receiver's bound of 16 MiB, is one the transport accepts.\<close>

lemma frame_ok_frame_with:
  assumes "length body \<le> 16777204"
  shows "frame_ok (frame_with v ty body)"
  using assms by (simp add: frame_ok_def frame_with_def)

lemma SendFrame_Success:
  assumes "SendFrame f p = (Success (), p')"
  shows "pipe_sent p' = pipe_sent p @ f" "pipe_buffer p' = pipe_buffer p" "pipe_arrivals p' = pipe_arrivals p"
proof -
  obtain n q where w: "WriteFile (take (unat (of_nat (length f) :: u32)) f) p = (n, q)"
    by fastforce
  then have "n = Some (length f)" "p' = q"
    using assms by (auto simp: SendFrame_def split: if_splits)
  then show "pipe_sent p' = pipe_sent p @ f" "pipe_buffer p' = pipe_buffer p" "pipe_arrivals p' = pipe_arrivals p"
    using w by (auto simp: WriteFile_def min_def split: list.splits sum.splits if_splits)
qed

lemma map_sum_Success: "map_sum id g x = Inr y \<longleftrightarrow> (\<exists>z. x = Inr z \<and> y = g z)"
  by (cases x) auto

lemma ReceiveFrame_SuccessE:
  assumes "ReceiveFrame p = Some (Success f, p')"
  obtains prefix p1 bs where "ReadFile 4 p = Some (Some prefix, p1)" "length prefix = 4"
    "\<not> (le_word prefix :: u32) < 4" "\<not> (le_word prefix :: u32) > kMaxFrameLength"
    "receive_payload (unat ((le_word prefix :: u32) - 4)) [] p1 = Some (Success bs, p')" "f = prefix @ bs"
  using assms
  by (auto simp: ReceiveFrame_def Let_def map_sum_Success le_bytes_le_word_32 split: option.splits if_splits)

section \<open>Properties\<close>

text \<open>
  C22. \<^bold>\<open>A frame arrives as it was sent.\<close>  When \<^verbatim>\<open>SendFrame\<close> reports success, the whole frame is on the
  wire, and in whatever chunks the bytes reach the other end, as long as the first one holds the length
  prefix, \<^verbatim>\<open>ReceiveFrame\<close> returns that frame and leaves what comes after it unread.
\<close>

theorem pipe_delivers_frame:
  assumes "frame_ok f" and "SendFrame f q = (Success (), q')"
    and "pipe_sent q' @ rest = pipe_sent q @ concat cs"
    and "list_all (\<lambda>c. c \<noteq> []) cs" and "4 \<le> length (hd cs)"
  shows "\<exists>p. ReceiveFrame \<lparr>pipe_buffer = [], pipe_arrivals = map Arrives cs @ as, pipe_sent = out,
                           pipe_writes = ws, lastError = e\<rparr> = Some (Success f, p)
              \<and> incoming p = rest @ arriving as \<and> pipe_sent p = out"
proof -
  let ?p = "\<lparr>pipe_buffer = [], pipe_arrivals = map Arrives cs @ as, pipe_sent = out, pipe_writes = ws, lastError = e\<rparr>"
  have "concat cs = f @ rest"
    using SendFrame_Success(1) [OF assms(2)] assms(3) by simp
  moreover have "arriving (map Arrives xs @ as) = concat xs @ arriving as" for xs
    by (induction xs) simp_all
  ultimately show ?thesis
    using ReceiveFrame_carries [OF assms(1), of cs as ?p rest] assms(4,5)
    by (auto simp: carries_def incoming_def pipe_output_def)
qed

theorem pipe_delivers_frame_witness:
  "\<exists>p. ReceiveFrame \<lparr>pipe_buffer = [], pipe_arrivals = map Arrives [[12, 0, 0, 0, 1], [0, 0, 0], [2, 0, 0, 0]],
                    pipe_sent = [], pipe_writes = [], lastError = 0\<rparr>
         = Some (Success (EncodeEmpty GetStatusRequest), p) \<and> incoming p = [] \<and> pipe_sent p = []"
proof -
  have f: "EncodeEmpty GetStatusRequest = [12, 0, 0, 0, 1, 0, 0, 0, 2, 0, 0, 0]"
  proof -
    have "le_bytes 4 (12 :: u32) = [12, 0, 0, 0]" "le_bytes 4 (1 :: u32) = [1, 0, 0, 0]" "le_bytes 4 (2 :: u32) = [2, 0, 0, 0]"
      by code_simp+
    then show ?thesis
      by (simp add: encoder_frames frame_with_def kProtocolVersion_def)
  qed
  have ok: "frame_ok (EncodeEmpty GetStatusRequest)"
    by (simp add: encoder_frames frame_ok_frame_with)
  show ?thesis
    using pipe_delivers_frame [OF ok, of "\<lparr>pipe_buffer = [], pipe_arrivals = [], pipe_sent = [], pipe_writes = [], lastError = 0\<rparr>"
        "\<lparr>pipe_buffer = [], pipe_arrivals = [], pipe_sent = EncodeEmpty GetStatusRequest, pipe_writes = [], lastError = 0\<rparr>"
        "[]" "[[12, 0, 0, 0, 1], [0, 0, 0], [2, 0, 0, 0]]" "[]" "[]" "[]" 0]
    by (simp add: f SendFrame_def WriteFile_def)
qed

text \<open>
  C33. \<^bold>\<open>What arrives cannot harm the receiver.\<close>  Whatever bytes a client sends and however the connection
  ends, \<^verbatim>\<open>ReceiveFrame\<close> accepts only a frame whose length field is its length and at most 16 MiB, takes
  exactly that frame from the stream, and returns once the connection breaks off.
\<close>

theorem ReceiveFrame_bounded:
  "(\<forall>f p'. ReceiveFrame p = Some (Success f, p') \<longrightarrow> frame_ok f \<and> incoming p = f @ incoming p') \<and>
   (ends p \<longrightarrow> ReceiveFrame p \<noteq> None)"
proof (intro conjI allI impI)
  fix f p' assume "ReceiveFrame p = Some (Success f, p')"
  then obtain prefix p1 bs where rd: "ReadFile 4 p = Some (Some prefix, p1)" and n: "length prefix = 4"
    and lim: "\<not> (le_word prefix :: u32) < 4" "\<not> (le_word prefix :: u32) > kMaxFrameLength"
    and rest: "receive_payload (unat ((le_word prefix :: u32) - 4)) [] p1 = Some (Success bs, p')" and f: "f = prefix @ bs"
    by (rule ReceiveFrame_SuccessE)
  have bs: "length bs = unat (le_word prefix :: u32) - 4" "incoming p1 = bs @ incoming p'"
    using receive_payload_Success [OF rest] lim(1) by (auto simp: unat_sub not_less)
  have "length f = unat (le_word prefix :: u32)"
    using bs(1) f lim(1) n by (simp add: not_less word_le_nat_alt)
  then show "frame_ok f" "incoming p = f @ incoming p'"
    using bs f lim n ReadFile_Some(1) [OF rd]
    by (simp_all add: frame_ok_def le_bytes_le_word_32 not_less word_le_nat_alt kMaxFrameLength_def)
next
  assume ends: "ends p"
  obtain r p1 where rd: "ReadFile 4 p = Some (r, p1)"
    using ReadFile_ends [OF ends] by blast
  show "ReceiveFrame p \<noteq> None"
  proof (cases r)
    case (Some prefix)
    then have "receive_payload (unat ((le_word prefix :: u32) - 4)) [] p1 \<noteq> None"
      using receive_payload_returns ReadFile_Some(4) [of 4 p _ p1] rd ends by blast
    then show ?thesis
      using rd Some by (simp add: ReceiveFrame_def Let_def del: not_None_eq)
  qed (simp add: ReceiveFrame_def rd)
qed

theorem ReceiveFrame_bounded_witness:
  "ReceiveFrame \<lparr>pipe_buffer = [], pipe_arrivals = [Arrives [255, 255, 255, 255], Breaks_off 109], pipe_sent = [],
                  pipe_writes = [], lastError = 0\<rparr> \<noteq> None"
  by (rule ReceiveFrame_bounded [THEN conjunct2, rule_format]) (simp add: ends_def breaks_off_def)

text \<open>
  \<^bold>\<open>Accepting leaks no handle and obeys a shutdown.\<close>  Whichever call fails, an \<^verbatim>\<open>AcceptOnce\<close> that
  returns an error has closed every handle it opened, and one that succeeds leaves exactly the pipe it
  returns.  After \<^verbatim>\<open>RequestShutdown\<close> it always returns \<open>ServiceStopping\<close>, and it returns that only
  when the stop event was signalled.
\<close>

theorem AcceptOnce_accounts:
  assumes fresh: "\<And>h. create_pipe c = Inr h \<Longrightarrow> h \<notin> openHandles s"
    "\<And>h ev. create_pipe c = Inr h \<Longrightarrow> create_event c = Inr ev \<Longrightarrow> ev \<notin> insert h (openHandles s)"
  shows "(\<forall>e s'. AcceptOnce c s = Some (Failure e, s') \<longrightarrow> s' = s \<and>
            (code e = ServiceStopping \<longrightarrow> stopEvent s = Some True \<or> wait_objects c = Some Wait_stop)) \<and>
         (\<forall>h s'. AcceptOnce c s = Some (Success h, s') \<longrightarrow> h \<notin> openHandles s \<and> s' = open_handle h s) \<and>
         (stopEvent s \<noteq> None \<longrightarrow>
            (\<exists>e. AcceptOnce c (RequestShutdown s) = Some (Failure e, RequestShutdown s) \<and> code e = ServiceStopping))"
proof (intro conjI)
  show "\<forall>e s'. AcceptOnce c s = Some (Failure e, s') \<longrightarrow> s' = s \<and>
          (code e = ServiceStopping \<longrightarrow> stopEvent s = Some True \<or> wait_objects c = Some Wait_stop)"
    using fresh
    by (auto simp: AcceptOnce_def await_client_def open_handle_def CloseHandle_def Let_def MakeWin32Error_def
        split: if_splits option.splits sum.splits connect_outcome.splits wait_outcome.splits intro!: Server.equality)
  show "\<forall>h s'. AcceptOnce c s = Some (Success h, s') \<longrightarrow> h \<notin> openHandles s \<and> s' = open_handle h s"
    using fresh
    by (auto simp: AcceptOnce_def await_client_def open_handle_def CloseHandle_def Let_def
        split: if_splits option.splits sum.splits connect_outcome.splits wait_outcome.splits intro!: Server.equality)
  show "stopEvent s \<noteq> None \<longrightarrow>
          (\<exists>e. AcceptOnce c (RequestShutdown s) = Some (Failure e, RequestShutdown s) \<and> code e = ServiceStopping)"
    by (auto simp: AcceptOnce_def RequestShutdown_def)
qed

definition sample_calls :: AcceptCalls where
  "sample_calls = \<lparr>convert_descriptor = None, create_pipe = Inr 7, create_event = Inr 8,
                   connect_pipe = Connect_error ERROR_IO_PENDING, wait_objects = Some Wait_stop, overlapped_result = None\<rparr>"

theorem AcceptOnce_accounts_witness:
  "\<exists>e. AcceptOnce sample_calls \<lparr>stopEvent = Some False, openHandles = {5}\<rparr>
         = Some (Failure e, \<lparr>stopEvent = Some False, openHandles = {5}\<rparr>) \<and> code e = ServiceStopping"
  using AcceptOnce_accounts [of sample_calls "\<lparr>stopEvent = Some False, openHandles = {5}\<rparr>"]
  by (simp add: sample_calls_def AcceptOnce_def await_client_def Let_def)

end
