(* ===== verification/File.thy ===== *)
theory File
  imports Common
begin

text \<open>
  The durable-file interface \<^verbatim>\<open>Storage::IFile\<close> (\<^verbatim>\<open>IFile.h\<close>) and its portable
  implementation (\<^verbatim>\<open>PortableFile.cpp\<close>).

  A C++ interface is a record of its virtual functions, each passing the implementation's state
  of type \<open>'f\<close>; an implementing class is a value of that record.  The clients (journal, session
  marker, backing store) take the record as an argument, as the C++ takes a pointer to the
  interface.  The locale \<open>file_contract\<close> states what they rely on; it is interpreted on the
  model of \<^verbatim>\<open>PortableFile\<close> here and on that of \<^verbatim>\<open>Win32File\<close> in its own theory.

  The C library and the operating system below \<^verbatim>\<open>PortableFile\<close> may fail at any call: the
  model of an open file carries the list of outcomes of the calls to come.  An exhausted list
  means that every further call works.
\<close>

section \<open>IFile\<close>

record 'f IFile =
  IFile_Read :: "nat \<Rightarrow> 'f \<Rightarrow> bytes result \<times> 'f"
  IFile_Write :: "bytes \<Rightarrow> 'f \<Rightarrow> nat result \<times> 'f"
  IFile_Seek :: "int \<Rightarrow> bool \<Rightarrow> 'f \<Rightarrow> nat result \<times> 'f"
  IFile_Size :: "'f \<Rightarrow> nat result \<times> 'f"
  IFile_SetLength :: "nat \<Rightarrow> 'f \<Rightarrow> unit result \<times> 'f"
  IFile_FlushDurable :: "'f \<Rightarrow> unit result \<times> 'f"

datatype OpenMode = OpenExisting | CreateNew | OpenOrCreate

text \<open>Writing \<open>bs\<close> at offset \<open>p\<close>; a gap past the end reads as zero bytes.\<close>

definition overwrite :: "bytes \<Rightarrow> nat \<Rightarrow> bytes \<Rightarrow> bytes" where
  "overwrite c p bs = take p c @ replicate (p - length c) 0 @ bs @ drop (p + length bs) c"

definition set_length :: "bytes \<Rightarrow> nat \<Rightarrow> bytes" where
  "set_length c n = take n c @ replicate (n - length c) 0"

lemma overwrite_end [simp]: "overwrite c (length c) bs = c @ bs"
  by (simp add: overwrite_def)

lemma overwrite_Nil [simp]: "p \<le> length c \<Longrightarrow> overwrite c p [] = c"
  by (simp add: overwrite_def)

lemma take_overwrite: "p \<le> length c \<Longrightarrow> take p (overwrite c p bs) = take p c"
  by (simp add: overwrite_def)

lemma overwrite_split:
  "p \<le> length c \<Longrightarrow> overwrite c p bs = take p c @ bs @ drop (p + length bs) c"
  by (simp add: overwrite_def)

lemma length_overwrite_ge: "p \<le> length c \<Longrightarrow> p + length bs \<le> length (overwrite c p bs)"
  by (simp add: overwrite_def)

lemma set_length_le [simp]: "n \<le> length c \<Longrightarrow> set_length c n = take n c"
  by (simp add: set_length_def)

section \<open>What a client may rely on\<close>

text \<open>
  \<open>content\<close> and \<open>position\<close> are the bytes of the open file and the file position,
  \<open>durable\<close> what stable storage holds, and \<open>healthy\<close> says that no later call fails.
  Reads and writes that fail say little: a failed write may have written a prefix.  A call transfers
  fewer than \<open>2\<^sup>3\<^sup>2\<close> bytes: the Windows implementation passes the count as a \<^verbatim>\<open>DWORD\<close>, so a longer
  transfer is cut.
\<close>

locale file_contract =
  fixes F :: "'f IFile"
    and content :: "'f \<Rightarrow> bytes"
    and position :: "'f \<Rightarrow> nat"
    and durable :: "'f \<Rightarrow> bytes"
    and healthy :: "'f \<Rightarrow> bool"
  assumes read_content: "IFile_Read F n f = (rr, f') \<Longrightarrow> content f' = content f"
    and read_durable: "IFile_Read F n f = (rr, f') \<Longrightarrow> durable f' = durable f"
    and read_ok: "IFile_Read F n f = (Inr bs, f') \<Longrightarrow> n < 4294967296 \<Longrightarrow>
       bs = take n (drop (position f) (content f)) \<and> position f' = position f + length bs"
    and read_healthy: "healthy f \<Longrightarrow> IFile_Read F n f = (rr, f') \<Longrightarrow> IsOk rr \<and> healthy f'"
    and write_any: "position f \<le> length (content f) \<Longrightarrow> IFile_Write F bs f = (wr, f') \<Longrightarrow>
       \<exists>m\<le>length bs. content f' = overwrite (content f) (position f) (take m bs)"
    and write_ok: "IFile_Write F bs f = (Inr n, f') \<Longrightarrow> n = length bs \<Longrightarrow>
       content f' = overwrite (content f) (position f) bs"
    and write_durable: "IFile_Write F bs f = (wr, f') \<Longrightarrow> durable f' = durable f"
    and write_healthy: "healthy f \<Longrightarrow> length bs < 4294967296 \<Longrightarrow> IFile_Write F bs f = (wr, f') \<Longrightarrow>
       wr = Inr (length bs) \<and> healthy f'"
    and seek_content: "IFile_Seek F off fromEnd f = (sr, f') \<Longrightarrow>
       content f' = content f \<and> durable f' = durable f"
    and seek_err: "IFile_Seek F off fromEnd f = (Inl e, f') \<Longrightarrow> code e \<noteq> NotFound"
    and seek_start_ok: "IFile_Seek F (int n) False f = (Inr p, f') \<Longrightarrow> position f' = n"
    and seek_end_ok: "IFile_Seek F 0 True f = (Inr p, f') \<Longrightarrow> position f' = length (content f)"
    and seek_healthy: "healthy f \<Longrightarrow> 0 \<le> off \<Longrightarrow> IFile_Seek F off fromEnd f = (sr, f') \<Longrightarrow>
       IsOk sr \<and> healthy f'"
    and size_content: "IFile_Size F f = (zr, f') \<Longrightarrow> content f' = content f \<and> durable f' = durable f"
    and size_ok: "IFile_Size F f = (Inr n, f') \<Longrightarrow> n = length (content f)"
    and size_healthy: "healthy f \<Longrightarrow> IFile_Size F f = (zr, f') \<Longrightarrow> IsOk zr \<and> healthy f'"
    and set_length_ok: "IFile_SetLength F n f = (Inr u, f') \<Longrightarrow> content f' = set_length (content f) n"
    and set_length_err: "IFile_SetLength F n f = (Inl e, f') \<Longrightarrow> content f' = content f"
    and set_length_healthy: "healthy f \<Longrightarrow> IFile_SetLength F n f = (lr, f') \<Longrightarrow> IsOk lr \<and> healthy f'"
    and flush_content: "IFile_FlushDurable F f = (dr, f') \<Longrightarrow> content f' = content f"
    and flush_ok: "IFile_FlushDurable F f = (Inr u, f') \<Longrightarrow> durable f' = content f"
    and flush_healthy: "healthy f \<Longrightarrow> IFile_FlushDurable F f = (dr, f') \<Longrightarrow> IsOk dr \<and> healthy f'"

section \<open>PortableFile\<close>

text \<open>
  One outcome per call into the C library: it works, or it breaks, the number saying how far it
  came (bytes transferred, or which of the steps of the call failed).
\<close>

datatype outcome = Works | Breaks nat

record PortableFile =
  pf_content :: bytes
  pf_position :: nat
  pf_durable :: bytes
  pf_outcomes :: "outcome list"

definition next_outcome :: "PortableFile \<Rightarrow> outcome \<times> PortableFile" where
  "next_outcome f =
     (case pf_outcomes f of [] \<Rightarrow> (Works, f) | x # xs \<Rightarrow> (x, f\<lparr>pf_outcomes := xs\<rparr>))"

text \<open>\<^verbatim>\<open>fread\<close> is short at the end of the file, or with the error indicator set.\<close>

definition PortableFile_Read :: "nat \<Rightarrow> PortableFile \<Rightarrow> bytes result \<times> PortableFile" where
  "PortableFile_Read n f0 =
     (case next_outcome f0 of
        (Works, f) \<Rightarrow>
          (let got = take n (drop (pf_position f) (pf_content f))
           in (Success got, f\<lparr>pf_position := pf_position f + length got\<rparr>))
      | (Breaks k, f) \<Rightarrow>
          (Failure (mkError IoError ''fread failed''), f\<lparr>pf_position := pf_position f + k\<rparr>))"

definition PortableFile_Write :: "bytes \<Rightarrow> PortableFile \<Rightarrow> nat result \<times> PortableFile" where
  "PortableFile_Write bs f0 =
     (let (oc, f) = next_outcome f0;
          written = (case oc of Works \<Rightarrow> length bs | Breaks k \<Rightarrow> min k (length bs));
          f' = f\<lparr>pf_content := overwrite (pf_content f) (pf_position f) (take written bs),
                 pf_position := pf_position f + written\<rparr>
      in if written \<noteq> length bs then (Failure (mkError IoError ''fwrite failed''), f')
         else (Success written, f'))"

text \<open>\<^verbatim>\<open>fseek\<close> refuses a negative offset; \<^verbatim>\<open>ftell\<close> after it may fail as well.\<close>

definition PortableFile_Seek :: "int \<Rightarrow> bool \<Rightarrow> PortableFile \<Rightarrow> nat result \<times> PortableFile" where
  "PortableFile_Seek off fromEnd f0 =
     (let (oc, f) = next_outcome f0;
          target = (if fromEnd then int (length (pf_content f)) + off else off);
          f' = f\<lparr>pf_position := nat target\<rparr>
      in case oc of
           Works \<Rightarrow> if target < 0 then (Failure (mkError IoError ''fseek failed''), f)
                    else (Success (nat target), f')
         | Breaks 0 \<Rightarrow> (Failure (mkError IoError ''fseek failed''), f)
         | Breaks (Suc _) \<Rightarrow> (Failure (mkError IoError ''ftell failed''), f'))"

definition PortableFile_Size :: "PortableFile \<Rightarrow> nat result \<times> PortableFile" where
  "PortableFile_Size f0 =
     (case next_outcome f0 of
        (Works, f) \<Rightarrow> (Success (length (pf_content f)), f)
      | (Breaks _, f) \<Rightarrow> (Failure (mkError IoError ''ftell failed''), f))"

definition PortableFile_SetLength :: "nat \<Rightarrow> PortableFile \<Rightarrow> unit result \<times> PortableFile" where
  "PortableFile_SetLength n f0 =
     (case next_outcome f0 of
        (Works, f) \<Rightarrow>
          (Success (), f\<lparr>pf_content := set_length (pf_content f) n, pf_position := 0\<rparr>)
      | (Breaks _, f) \<Rightarrow> (Failure (mkError IoError ''ftruncate failed''), f))"

definition PortableFile_FlushDurable :: "PortableFile \<Rightarrow> unit result \<times> PortableFile" where
  "PortableFile_FlushDurable f0 =
     (case next_outcome f0 of
        (Works, f) \<Rightarrow> (Success (), f\<lparr>pf_durable := pf_content f\<rparr>)
      | (Breaks 0, f) \<Rightarrow> (Failure (mkError IoError ''fflush failed''), f)
      | (Breaks (Suc 0), f) \<Rightarrow> (Failure (mkError IoError ''fileno failed''), f)
      | (Breaks _, f) \<Rightarrow> (Failure (mkError IoError ''fsync failed''), f))"

definition PortableFile_ops :: "PortableFile IFile" where
  "PortableFile_ops =
     \<lparr>IFile_Read = PortableFile_Read,
      IFile_Write = PortableFile_Write,
      IFile_Seek = PortableFile_Seek,
      IFile_Size = PortableFile_Size,
      IFile_SetLength = PortableFile_SetLength,
      IFile_FlushDurable = PortableFile_FlushDurable\<rparr>"

lemmas PortableFile_defs =
  PortableFile_ops_def PortableFile_Read_def PortableFile_Write_def PortableFile_Seek_def
  PortableFile_Size_def PortableFile_SetLength_def PortableFile_FlushDurable_def
  next_outcome_def

definition pf_healthy :: "PortableFile \<Rightarrow> bool" where
  "pf_healthy f \<longleftrightarrow> pf_outcomes f = []"

interpretation pf: file_contract PortableFile_ops pf_content pf_position pf_durable pf_healthy
proof (unfold_locales, goal_cases)
  case (5 f bs r f')
  then show ?case
    by (intro exI [of _ "case pf_outcomes f of Breaks k # _ \<Rightarrow> min k (length bs) | _ \<Rightarrow> length bs"])
      (auto simp: PortableFile_defs Let_def split: list.splits outcome.splits if_splits)
qed (auto simp: PortableFile_defs pf_healthy_def Let_def split: list.splits outcome.splits
       nat.splits if_splits)

section \<open>Opening a file\<close>

text \<open>
  The part of the file system \<^verbatim>\<open>OpenFile\<close> sees: which paths name a file, and its bytes.
  \<open>fopen\<close> gives the semantics of the four mode strings the code passes.
\<close>

type_synonym filesystem = "cstring \<Rightarrow> bytes option"

definition fopen :: "cstring \<Rightarrow> string \<Rightarrow> outcome \<Rightarrow> filesystem \<Rightarrow> bytes option \<times> filesystem" where
  "fopen path mode oc fs =
     (if oc \<noteq> Works then (None, fs)
      else if mode = ''r+b'' then (fs path, fs)
      else if mode = ''w+bx'' then
        (if fs path = None then (Some [], fs(path \<mapsto> [])) else (None, fs))
      else if mode = ''a+b'' then
        (case fs path of None \<Rightarrow> (Some [], fs(path \<mapsto> [])) | Some c \<Rightarrow> (Some c, fs))
      else (Some [], fs(path \<mapsto> [])))"

definition open_portable :: "bytes \<Rightarrow> outcome list \<Rightarrow> PortableFile" where
  "open_portable c os = \<lparr>pf_content = c, pf_position = 0, pf_durable = c, pf_outcomes = os\<rparr>"

definition OpenFile_modeStr :: "OpenMode \<Rightarrow> string" where
  "OpenFile_modeStr mode =
     (case mode of OpenExisting \<Rightarrow> ''r+b'' | CreateNew \<Rightarrow> ''w+bx'' | OpenOrCreate \<Rightarrow> ''a+b'')"

definition OpenFile ::
  "cstring \<Rightarrow> OpenMode \<Rightarrow> outcome \<times> outcome \<times> outcome \<Rightarrow> outcome list \<Rightarrow> filesystem
     \<Rightarrow> PortableFile result \<times> filesystem" where
  "OpenFile path mode ocs os fs0 =
     (let (o1, o2, o3) = ocs;
          (fp, fs1) = fopen path (OpenFile_modeStr mode) o1 fs0;
          (fp, fs2) = (if fp = None \<and> mode = OpenOrCreate then fopen path ''w+b'' o2 fs1
                       else (fp, fs1))
      in case fp of
           None \<Rightarrow> (Failure (mkError_key IoError ''fopen failed for '' path ''''), fs2)
         | Some c \<Rightarrow>
             (if mode = OpenOrCreate then
                (case fopen path ''r+b'' o3 fs2 of
                   (None, fs3) \<Rightarrow>
                     (Failure (mkError_key IoError ''fopen (r+b) failed for '' path ''''), fs3)
                 | (Some c', fs3) \<Rightarrow> (Success (open_portable c' os), fs3))
              else (Success (open_portable c os), fs2)))"

text \<open>
  The fallback to \<^verbatim>\<open>"w+b"\<close> truncates: opening an existing file with \<open>OpenOrCreate\<close>
  keeps its contents only if the first \<^verbatim>\<open>fopen\<close> works.
\<close>

lemma OpenFile_keeps_contents:
  assumes "fs path = Some c"
  shows "OpenFile path OpenOrCreate (Works, o2, Works) os fs = (Success (open_portable c os), fs)"
  using assms by (simp add: OpenFile_def fopen_def OpenFile_modeStr_def)

lemma OpenFile_fallback_truncates:
  assumes "fs path = Some c"
  shows "OpenFile path OpenOrCreate (Breaks n, Works, Works) os fs
           = (Success (open_portable [] os), fs(path \<mapsto> []))"
  by (simp add: OpenFile_def fopen_def OpenFile_modeStr_def)

end
