(* ===== verification/Reader.thy ===== *)
theory Reader
  imports File
begin

text \<open>
  The scanning loops of the journal and of the backing store read a file field by field with
  \<^verbatim>\<open>ReadExact\<close> and leave the loop at the first field that is missing or wrong.  This theory
  relates such a reader on an open file to the same reader on the list of bytes still ahead of
  the file position: what the file version accepts is what the list version accepts, and on a
  healthy file they agree.
\<close>

section \<open>ReadExact\<close>

definition ReadExact :: "'f IFile \<Rightarrow> nat \<Rightarrow> 'f \<Rightarrow> bytes option \<times> 'f" where
  "ReadExact F n f =
     (case IFile_Read F n f of
        (Inl _, f) \<Rightarrow> (None, f)
      | (Inr got, f) \<Rightarrow> (if length got \<noteq> n then None else Some got, f))"

text \<open>Sequencing of reads: a missing value leaves the loop (\<^verbatim>\<open>break\<close>).\<close>

definition and_then :: "('a option \<times> 'f) \<Rightarrow> ('a \<Rightarrow> 'f \<Rightarrow> 'b option \<times> 'f) \<Rightarrow> 'b option \<times> 'f" where
  "and_then m k = (case m of (None, f) \<Rightarrow> (None, f) | (Some x, f) \<Rightarrow> k x f)"

lemma and_then_simps [simp]:
  "and_then (None, f) k = (None, f)"
  "and_then (Some x, f) k = k x f"
  by (simp_all add: and_then_def)

section \<open>Reading from a list of bytes\<close>

text \<open>A read-only file whose state is the bytes still to be read.\<close>

definition list_file :: "bytes IFile" where
  "list_file =
     \<lparr>IFile_Read = (\<lambda>n bs. (Success (take n bs), drop n bs)),
      IFile_Write = (\<lambda>_ bs. (Failure (mkError PermissionDenied ''read only''), bs)),
      IFile_Seek = (\<lambda>_ _ bs. (Failure (mkError PermissionDenied ''read only''), bs)),
      IFile_Size = (\<lambda>bs. (Success (length bs), bs)),
      IFile_SetLength = (\<lambda>_ bs. (Failure (mkError PermissionDenied ''read only''), bs)),
      IFile_FlushDurable = (\<lambda>bs. (Failure (mkError PermissionDenied ''read only''), bs))\<rparr>"

lemma ReadExact_list_file:
  "ReadExact list_file n bs = (if n \<le> length bs then Some (take n bs) else None, drop n bs)"
  by (simp add: ReadExact_def list_file_def)

section \<open>Relating the two\<close>

context file_contract
begin

definition remaining :: "'f \<Rightarrow> bytes" where
  "remaining f = drop (position f) (content f)"

definition rsim :: "'f \<Rightarrow> 'x option \<times> 'f \<Rightarrow> 'x option \<times> bytes \<Rightarrow> bool" where
  "rsim f m l \<longleftrightarrow>
     content (snd m) = content f \<and> durable (snd m) = durable f \<and>
     (\<forall>x. fst m = Some x \<longrightarrow> l = (Some x, remaining (snd m))) \<and>
     (healthy f \<longrightarrow> healthy (snd m) \<and> (fst m = None \<longrightarrow> fst l = None))"

lemma rsim_break: "rsim f (None, f) (None, bs)"
  by (simp add: rsim_def)

lemma rsim_return: "rsim f (Some x, f) (Some x, remaining f)"
  by (simp add: rsim_def)

lemma rsim_ReadExact:
  assumes small: "n < 4294967296"
  shows "rsim f (ReadExact F n f) (ReadExact list_file n (remaining f))"
proof -
  obtain rr f' where rd: "IFile_Read F n f = (rr, f')"
    by (cases "IFile_Read F n f") auto
  have same: "content f' = content f" "durable f' = durable f"
    using rd by (simp_all add: read_content read_durable)
  show ?thesis
  proof (cases rr)
    case (Inl e)
    then show ?thesis
      using rd same read_healthy [of f n rr f'] by (auto simp: rsim_def ReadExact_def)
  next
    case (Inr got)
    then have got: "got = take n (remaining f)" "position f' = position f + length got"
      using read_ok [of n f got f'] rd small by (auto simp: remaining_def)
    then have "length got = n \<Longrightarrow> remaining f' = drop n (remaining f)"
      using same by (simp add: remaining_def add.commute)
    moreover have "healthy f \<Longrightarrow> healthy f'"
      using read_healthy [OF _ rd] by simp
    ultimately show ?thesis
      using rd Inr got(1) same by (auto simp: rsim_def ReadExact_def list_file_def)
  qed
qed

lemma rsim_and_then:
  assumes m: "rsim f m l" and k: "\<And>x f'. m = (Some x, f') \<Longrightarrow> rsim f' (k x f') (k' x (remaining f'))"
  shows "rsim f (and_then m k) (and_then l k')"
proof (cases m)
  case (Pair o1 f1)
  show ?thesis
  proof (cases o1)
    case None
    then show ?thesis
      using m Pair by (cases l) (auto simp: rsim_def and_then_def)
  next
    case (Some x)
    then have l: "l = (Some x, remaining f1)" and eq: "content f1 = content f" "durable f1 = durable f"
      and h: "healthy f \<Longrightarrow> healthy f1"
      using m Pair by (auto simp: rsim_def)
    have "rsim f1 (k x f1) (k' x (remaining f1))"
      using k Pair Some by simp
    then show ?thesis
      using l eq h Pair Some by (auto simp: rsim_def and_then_def)
  qed
qed

lemma rsim_if:
  "(b \<Longrightarrow> rsim f m l) \<Longrightarrow> (\<not> b \<Longrightarrow> rsim f m' l') \<Longrightarrow>
     rsim f (if b then m else m') (if b then l else l')"
  by simp

lemma rsim_Let: "(rsim f (k v) (k' v)) \<Longrightarrow> rsim f (let x = v in k x) (let x = v in k' x)"
  by simp

text \<open>The counts the code reads are constants or 32-bit lengths from the file.\<close>

lemma rsim_ReadExact_u32: "rsim f (ReadExact F (unat (w :: u32)) f) (ReadExact list_file (unat w) (remaining f))"
  using unsigned_less [of w] by (intro rsim_ReadExact) simp

lemma rsim_ReadExact_numeral:
  "(numeral k :: nat) < 4294967296 \<Longrightarrow>
     rsim f (ReadExact F (numeral k) f) (ReadExact list_file (numeral k) (remaining f))"
  by (rule rsim_ReadExact)

lemma rsim_ReadExact_one: "rsim f (ReadExact F 1 f) (ReadExact list_file 1 (remaining f))"
  by (rule rsim_ReadExact) simp

lemmas rsim_intros = rsim_and_then rsim_ReadExact_u32 rsim_ReadExact_numeral rsim_ReadExact_one rsim_if rsim_Let rsim_break rsim_return

end

end
