(* ===== verification/Crc32.thy ===== *)
theory Crc32
  imports Common
begin

text \<open>
  \<^verbatim>\<open>src/src/Common/src/Crc32.cpp\<close>: the table-driven CRC-32 that guards the journal
  frames, the backing-store records and the session marker.  The lemmas relate the table to the
  bit-at-a-time register and show that the checksum is affine and injective enough to detect
  every corruption that stays within four consecutive bytes.
\<close>

section \<open>The code\<close>

text \<open>One round of the inner loop of \<^verbatim>\<open>BuildTable\<close>.\<close>

definition table_round :: "u32 \<Rightarrow> u32" where
  "table_round c = (if c AND 1 \<noteq> 0 then 0xEDB88320 XOR drop_bit 1 c else drop_bit 1 c)"

fun table_rounds :: "nat \<Rightarrow> u32 \<Rightarrow> u32" where
  "table_rounds 0 c = c"
| "table_rounds (Suc k) c = table_rounds k (table_round c)"

definition BuildTable :: "u32 list" where
  "BuildTable = map (\<lambda>i. table_rounds 8 (of_nat i)) [0..<256]"

definition kCrcTable :: "u32 list" where
  "kCrcTable = BuildTable"

fun Compute_seed :: "bytes \<Rightarrow> u32 \<Rightarrow> u32" where
  "Compute_seed [] crc = crc"
| "Compute_seed (b # bs) crc =
     Compute_seed bs (kCrcTable ! unat ((crc XOR ucast b) AND 0xFF) XOR drop_bit 8 crc)"

definition Compute :: "bytes \<Rightarrow> u32" where
  "Compute bs = Compute_seed bs 0xFFFFFFFF XOR 0xFFFFFFFF"

section \<open>The register as a linear map\<close>

lemma and_one_neq_zero: "(c :: u32) AND 1 \<noteq> 0 \<longleftrightarrow> bit c 0"
  by (simp add: and_one_eq bit_0 odd_iff_mod_2_eq_one)

lemma bit_table_round:
  "bit (table_round c) n \<longleftrightarrow> (bit c (Suc n) \<noteq> (bit c 0 \<and> bit (0xEDB88320 :: u32) n))"
  unfolding table_round_def and_one_neq_zero
  by (auto simp: bit_xor_iff bit_drop_bit_eq)

lemma table_round_xor: "table_round (a XOR b) = table_round a XOR table_round b"
  by (rule bit_eqI) (auto simp: bit_table_round bit_xor_iff)

lemma table_round_zero [simp]: "table_round 0 = 0"
  by (simp add: table_round_def)

lemma table_round_kernel:
  assumes "table_round c = 0"
  shows "c = 0"
proof -
  have b: "bit c (Suc n) \<longleftrightarrow> bit c 0 \<and> bit (0xEDB88320 :: u32) n" for n
    using bit_table_round [of c n] assms by auto
  have "\<not> bit c 32"
    using bit_imp_le_length [of c 32] by auto
  moreover have "bit (0xEDB88320 :: u32) 31"
    by simp
  ultimately have "\<not> bit c 0"
    using b [of 31] by simp
  with b have "\<not> bit c n" for n
    by (cases n) auto
  then show ?thesis
    by (auto intro: bit_eqI)
qed

lemma table_rounds_xor: "table_rounds k (a XOR b) = table_rounds k a XOR table_rounds k b"
  by (induction k arbitrary: a b) (auto simp: table_round_xor)

lemma table_rounds_kernel: "table_rounds k c = 0 \<Longrightarrow> c = 0"
  by (induction k arbitrary: c) (auto dest: table_round_kernel)

lemma xor_cancel_left [simp]: "(a :: u32) XOR b = a XOR c \<longleftrightarrow> b = c"
proof
  assume "a XOR b = a XOR c"
  then have "a XOR (a XOR b) = a XOR (a XOR c)"
    by simp
  then show "b = c"
    by (simp add: xor.assoc [symmetric])
qed simp

lemma xor_cancel_right [simp]: "(b :: u32) XOR a = c XOR a \<longleftrightarrow> b = c"
  by (simp add: xor.commute [of _ a])

lemma xor_eq_iff: "(a :: u32) XOR b = c \<longleftrightarrow> b = a XOR c"
  using xor_cancel_left [of a b "a XOR c"]
  by (simp add: xor.assoc [symmetric] del: xor_cancel_left)

lemma xor_eq_zero_iff: "(a :: u32) XOR b = 0 \<longleftrightarrow> a = b"
  using xor_cancel_left [of a b a] by (auto simp del: xor_cancel_left)

lemma table_rounds_inject: "table_rounds k a = table_rounds k b \<longleftrightarrow> a = b"
proof
  assume "table_rounds k a = table_rounds k b"
  then have "table_rounds k (a XOR b) = 0"
    by (simp add: table_rounds_xor)
  then have "a XOR b = 0"
    by (rule table_rounds_kernel)
  then show "a = b"
    by (simp add: xor_eq_zero_iff)
qed simp

lemma table_rounds_shift:
  "(\<And>i. i < k \<Longrightarrow> \<not> bit c i) \<Longrightarrow> table_rounds k c = drop_bit k c"
proof (induction k arbitrary: c)
  case (Suc k)
  have "table_round c = drop_bit 1 c"
    using Suc.prems [of 0] by (simp add: table_round_def and_one_neq_zero)
  moreover have "\<not> bit (drop_bit 1 c) i" if "i < k" for i
    using Suc.prems [of "Suc i"] that by (simp add: bit_drop_bit_eq)
  ultimately show ?case
    using Suc.IH [of "drop_bit 1 c"] by (simp add: drop_bit_drop_bit)
qed simp

section \<open>The table is the register run for eight rounds\<close>

lemma nth_kCrcTable: "n < 256 \<Longrightarrow> kCrcTable ! n = table_rounds 8 (of_nat n)"
  by (simp add: kCrcTable_def BuildTable_def)

lemma bit_255 [simp]: "bit (255 :: int) i \<longleftrightarrow> i < 8"
  using bit_mask_iff [where 'a = int, of 8 i] by (auto simp: mask_eq_exp_minus_1)

lemma low_byte_lt: "unat (c AND 0xFF :: u32) < 256"
proof -
  have "c AND 0xFF \<le> (0xFF :: u32)"
    by (rule word_and_le1)
  then show ?thesis
    by (simp add: word_le_nat_alt)
qed

lemma table_step:
  "kCrcTable ! unat ((crc XOR ucast b) AND 0xFF) XOR drop_bit 8 crc
     = table_rounds 8 (crc XOR ucast (b :: byte))"
proof -
  let ?x = "crc XOR ucast b"
  let ?lo = "?x AND 0xFF" and ?hi = "?x AND NOT 0xFF"
  have "?x = ?lo XOR ?hi"
    by (rule bit_word_eqI) (auto simp: bit_simps)
  then have "table_rounds 8 ?x = table_rounds 8 ?lo XOR table_rounds 8 ?hi"
    by (metis table_rounds_xor)
  moreover have "table_rounds 8 ?hi = drop_bit 8 ?hi"
    by (rule table_rounds_shift) (auto simp: bit_simps)
  moreover have "drop_bit 8 ?hi = drop_bit 8 crc"
  proof (rule bit_word_eqI)
    fix n
    have "\<not> bit (ucast b :: u32) (8 + n)"
      by (auto simp: bit_ucast_iff dest: bit_imp_le_length)
    moreover have "bit (NOT (mask 8) :: u32) (8 + n) \<longleftrightarrow> 8 + n < 32"
      by (auto simp: bit_not_iff bit_mask_iff)
    then have "bit (NOT 0xFF :: u32) (8 + n) \<longleftrightarrow> 8 + n < 32"
      by (simp add: mask_eq_exp_minus_1)
    moreover have "bit crc (8 + n) \<Longrightarrow> 8 + n < 32"
      using bit_imp_le_length [of crc "8 + n"] by simp
    ultimately show "bit (drop_bit 8 ?hi) n = bit (drop_bit 8 crc) n"
      by (auto simp only: bit_drop_bit_eq comp_def bit_and_iff bit_xor_iff)
  qed
  moreover have "kCrcTable ! unat ?lo = table_rounds 8 ?lo"
    using nth_kCrcTable [OF low_byte_lt, of ?x] by simp
  ultimately show ?thesis
    by simp
qed

text \<open>The bit-at-a-time reference: shift the byte in, run eight rounds.\<close>

fun crc_reference :: "bytes \<Rightarrow> u32 \<Rightarrow> u32" where
  "crc_reference [] crc = crc"
| "crc_reference (b # bs) crc = crc_reference bs (table_rounds 8 (crc XOR ucast b))"

lemma Compute_seed_reference: "Compute_seed bs crc = crc_reference bs crc"
  by (induction bs arbitrary: crc) (simp_all add: table_step)

lemma crc_reference_append: "crc_reference (xs @ ys) c = crc_reference ys (crc_reference xs c)"
  by (induction xs arbitrary: c) auto

lemma Compute_seed_append: "Compute_seed (xs @ ys) c = Compute_seed ys (Compute_seed xs c)"
  by (induction xs arbitrary: c) auto

lemma crc_reference_inject_state: "crc_reference bs c = crc_reference bs d \<longleftrightarrow> c = d"
proof (induction bs arbitrary: c d)
  case (Cons b bs)
  then show ?case
    by (simp add: table_rounds_inject)
qed simp

section \<open>Four bytes at a time\<close>

lemma le_word_bound: "bit (le_word bs :: u32) i \<Longrightarrow> i < 8 * length bs"
proof (induction bs arbitrary: i)
  case (Cons b bs)
  show ?case
  proof (cases "i < 8")
    case False
    with Cons.prems have "bit (le_word bs :: u32) (i - 8)"
      by (auto simp: bit_simps dest: bit_imp_le_length)
    with Cons.IH [of "i - 8"] False show ?thesis
      by simp
  qed simp
qed simp

lemma table_rounds_push:
  assumes "length bs \<le> 3"
  shows "table_rounds 8 (push_bit 8 (le_word bs)) = (le_word bs :: u32)"
proof -
  have "table_rounds 8 (push_bit 8 (le_word bs)) = drop_bit 8 (push_bit 8 (le_word bs :: u32))"
    by (rule table_rounds_shift) (auto simp: bit_simps)
  also have "\<dots> = le_word bs"
    by (rule bit_word_eqI) (use assms in \<open>auto simp: bit_simps dest: le_word_bound\<close>)
  finally show ?thesis .
qed

lemma table_rounds_add: "table_rounds j (table_rounds k c) = table_rounds (k + j) c"
  by (induction k arbitrary: c) auto

lemma le_word_cons_xor:
  "(le_word (b # bs) :: u32) = ucast b XOR push_bit 8 (le_word bs)"
  by (rule bit_word_eqI) (auto simp: bit_simps dest: bit_imp_le_length)

lemma crc_reference_word:
  "length bs \<le> 4 \<Longrightarrow> crc_reference bs c = table_rounds (8 * length bs) (c XOR le_word bs)"
proof (induction bs arbitrary: c)
  case (Cons b bs)
  have "table_rounds 8 (c XOR ucast b) XOR le_word bs
        = table_rounds 8 (c XOR ucast b XOR push_bit 8 (le_word bs))"
    using Cons.prems by (simp add: table_rounds_xor table_rounds_push xor.assoc)
  with Cons show ?case
    by (simp add: table_rounds_add le_word_cons_xor xor.assoc del: le_word.simps)
qed simp

lemma le_word_inject_32:
  assumes "length xs = length ys" and "length xs \<le> 4"
    and "(le_word xs :: u32) = le_word ys"
  shows "xs = ys"
proof -
  have "le_bytes (length xs) (le_word xs :: u32) = xs"
    by (rule le_bytes_le_word) (use assms(2) in simp)
  moreover have "le_bytes (length ys) (le_word ys :: u32) = ys"
    by (rule le_bytes_le_word) (use assms(1,2) in simp)
  ultimately show ?thesis
    using assms(1,3) by metis
qed

lemma crc_reference_burst:
  assumes "length xs = length ys" and "length xs \<le> 4" and "xs \<noteq> ys"
  shows "crc_reference xs c \<noteq> crc_reference ys c"
proof
  assume "crc_reference xs c = crc_reference ys c"
  with assms have "c XOR le_word xs = c XOR le_word ys"
    by (simp add: crc_reference_word table_rounds_inject)
  then have "(le_word xs :: u32) = le_word ys"
    by simp
  with assms show False
    using le_word_inject_32 by blast
qed

section \<open>Properties\<close>


lemma Compute_burst:
  assumes "length xs = length ys" and "length xs \<le> 4" and "xs \<noteq> ys"
  shows "Compute (pre @ xs @ post) \<noteq> Compute (pre @ ys @ post)"
proof
  assume "Compute (pre @ xs @ post) = Compute (pre @ ys @ post)"
  then have "crc_reference (pre @ xs @ post) 0xFFFFFFFF = crc_reference (pre @ ys @ post) 0xFFFFFFFF"
    by (simp add: Compute_def Compute_seed_reference del: crc_reference.simps)
  then show False
    using assms by (simp add: crc_reference_append crc_reference_inject_state crc_reference_burst)
qed

text \<open>A buffer followed by its own checksum always leaves the same register value.\<close>

lemma Compute_eq_iff_residue:
  "Compute b = w \<longleftrightarrow> crc_reference (b @ le_bytes 4 w) 0xFFFFFFFF = table_rounds 32 0xFFFFFFFF"
proof -
  let ?r = "crc_reference b 0xFFFFFFFF"
  have "crc_reference (b @ le_bytes 4 w) 0xFFFFFFFF = table_rounds 32 (?r XOR w)"
    by (simp add: crc_reference_append crc_reference_word)
  moreover have "?r XOR w = 0xFFFFFFFF \<longleftrightarrow> Compute b = w"
    by (auto simp: xor_eq_iff Compute_def Compute_seed_reference)
  ultimately show ?thesis
    by (simp add: table_rounds_inject)
qed

lemma residue_burst:
  assumes "length xs = length ys" and "length xs \<le> 4" and "xs \<noteq> ys"
  shows "crc_reference (pre @ xs @ post) c \<noteq> crc_reference (pre @ ys @ post) c"
  using assms by (simp add: crc_reference_append crc_reference_inject_state crc_reference_burst)

text \<open>
  \<^bold>\<open>Bursts of up to four bytes never collide.\<close>  Two buffers that differ only inside a
  window of at most four consecutive bytes have different checksums, wherever the window is.
\<close>

theorem Compute_detects_bursts:
  assumes "length xs = length ys" and "length xs \<le> 4" and "xs \<noteq> ys"
  shows "Compute (pre @ xs @ post) \<noteq> Compute (pre @ ys @ post)"
  using assms by (rule Compute_burst)

theorem Compute_detects_bursts_witness:
  "Compute ([1, 2] @ [3, 4, 5, 6] @ [7]) \<noteq> Compute ([1, 2] @ [3, 0, 0, 6] @ [7])"
  by (rule Compute_detects_bursts) simp_all

end
