(* ===== verification/WriteAheadJournal.thy ===== *)
theory WriteAheadJournal
  imports Reader Crc32
begin

text \<open>
  The append-only, CRC-framed journal: \<^verbatim>\<open>IWriteAheadJournal.h\<close> and
  \<^verbatim>\<open>WriteAheadJournal.cpp\<close>.  \<open>parse_frame\<close> and \<open>journal_frames\<close> say what the bytes of
  a journal file mean; the lemmas in the context of \<open>file_contract\<close> show that \<open>Replay\<close>
  delivers exactly those frames, and that \<open>Append\<close> adds one.
\<close>

section \<open>IWriteAheadJournal\<close>

record JournalRecord =
  sequenceNumber :: u64
  payload :: bytes

datatype ReplayAction = Continue | StopReplaySuccess

text \<open>The callback updates state of its own, of type \<open>'a\<close>, which it captures by reference.\<close>

type_synonym 'a ReplayCallback = "JournalRecord \<Rightarrow> 'a \<Rightarrow> ReplayAction result \<times> 'a"

record ('j, 'a) IWriteAheadJournal =
  Jrn_Append :: "bytes \<Rightarrow> 'j \<Rightarrow> u64 result \<times> 'j"
  Jrn_Replay :: "'a ReplayCallback \<Rightarrow> 'a \<Rightarrow> 'j \<Rightarrow> (unit result \<times> 'a \<times> 'j) option"
  Jrn_Truncate :: "'j \<Rightarrow> unit result \<times> 'j"
  Jrn_RecordCount :: "'j \<Rightarrow> nat"

text \<open>
  What replaying a list of records does to the state of a callback: it sees them in order and
  may stop early, with success or with an error.
\<close>

fun replay_all :: "'a ReplayCallback \<Rightarrow> 'a \<Rightarrow> JournalRecord list \<Rightarrow> unit result \<times> 'a" where
  "replay_all cb a [] = (Success (), a)"
| "replay_all cb a (r # rs) =
     (case cb r a of
        (Inl e, a) \<Rightarrow> (Failure e, a)
      | (Inr StopReplaySuccess, a) \<Rightarrow> (Success (), a)
      | (Inr Continue, a) \<Rightarrow> replay_all cb a rs)"

text \<open>The payloads a journal can read back: at most 256 MiB.\<close>

definition payload_ok :: "bytes \<Rightarrow> bool" where
  "payload_ok p \<longleftrightarrow> length p \<le> 256 * 1024 * 1024"

text \<open>
  What the cache engine relies on.  \<open>jrecords\<close> are the records a replay would deliver,
  \<open>intact\<close> says that no torn bytes lie between or after them, and \<open>jhealthy\<close> that no later
  call fails.
\<close>

locale journal_contract =
  fixes J :: "('j, 'a) IWriteAheadJournal"
    and jrecords :: "'j \<Rightarrow> JournalRecord list"
    and intact :: "'j \<Rightarrow> bool"
    and jhealthy :: "'j \<Rightarrow> bool"
  assumes append_ok: "intact j \<Longrightarrow> payload_ok p \<Longrightarrow> Jrn_Append J p j = (Inr s, j') \<Longrightarrow>
       intact j' \<and> jrecords j' = jrecords j @ [\<lparr>sequenceNumber = s, payload = p\<rparr>]"
    and append_err: "intact j \<Longrightarrow> payload_ok p \<Longrightarrow> Jrn_Append J p j = (Inl e, j') \<Longrightarrow>
       jrecords j' = jrecords j \<or> (\<exists>s. jrecords j' = jrecords j @ [\<lparr>sequenceNumber = s, payload = p\<rparr>])"
    and append_healthy: "jhealthy j \<Longrightarrow> payload_ok p \<Longrightarrow> Jrn_Append J p j = (ar, j') \<Longrightarrow> IsOk ar \<and> jhealthy j'"
    and replay_returns: "Jrn_Replay J cb a j \<noteq> None"
    and replay_healthy: "jhealthy j \<Longrightarrow> \<exists>j'. Jrn_Replay J cb a j =
         Some (fst (replay_all cb a (jrecords j)), snd (replay_all cb a (jrecords j)), j')
       \<and> jrecords j' = jrecords j \<and> intact j' = intact j \<and> jhealthy j'"
    and truncate_ok: "Jrn_Truncate J j = (Inr u, j') \<Longrightarrow> jrecords j' = [] \<and> intact j'"
    and truncate_err: "Jrn_Truncate J j = (Inl e, j') \<Longrightarrow>
       jrecords j' = [] \<and> intact j' \<or> jrecords j' = jrecords j \<and> intact j' = intact j"
    and truncate_healthy: "jhealthy j \<Longrightarrow> Jrn_Truncate J j = (tr, j') \<Longrightarrow> IsOk tr \<and> jhealthy j'"

section \<open>WriteAheadJournal\<close>

definition kFrameMagic :: u32 where
  "kFrameMagic = 0x51434A31"

definition kMaxReasonablePayloadLength :: u32 where
  "kMaxReasonablePayloadLength = 256 * 1024 * 1024"

record 'f WriteAheadJournal =
  waj_file :: 'f
  nextSequenceNumber :: u64
  recordCount :: nat

definition frame_body :: "u32 \<Rightarrow> u64 \<Rightarrow> u32 \<Rightarrow> bytes \<Rightarrow> bytes" where
  "frame_body magic seq len p = le_bytes 4 magic @ le_bytes 8 seq @ le_bytes 4 len @ p"

text \<open>The bytes \<^verbatim>\<open>Append\<close> builds for one record.\<close>

definition build_frame :: "u64 \<Rightarrow> bytes \<Rightarrow> bytes" where
  "build_frame seq p =
     (let frame = frame_body kFrameMagic seq (of_nat (length p)) p
      in frame @ le_bytes 4 (Compute frame))"

definition Append ::
  "'f IFile \<Rightarrow> bytes \<Rightarrow> 'f WriteAheadJournal \<Rightarrow> u64 result \<times> 'f WriteAheadJournal" where
  "Append F p w =
     (let seq = nextSequenceNumber w; frame = build_frame seq p
      in case IFile_Seek F 0 True (waj_file w) of
           (Inl e, f) \<Rightarrow> (Failure e, w\<lparr>waj_file := f\<rparr>)
         | (Inr _, f) \<Rightarrow>
             (case IFile_Write F frame f of
                (Inl _, f) \<Rightarrow>
                  (Failure (mkError IoError ''journal append: short write''), w\<lparr>waj_file := f\<rparr>)
              | (Inr n, f) \<Rightarrow>
                  if n \<noteq> length frame
                  then (Failure (mkError IoError ''journal append: short write''), w\<lparr>waj_file := f\<rparr>)
                  else (case IFile_FlushDurable F f of
                          (Inl e, f) \<Rightarrow> (Failure e, w\<lparr>waj_file := f\<rparr>)
                        | (Inr _, f) \<Rightarrow>
                            (Success seq,
                             w\<lparr>waj_file := f,
                               nextSequenceNumber := nextSequenceNumber w + 1,
                               recordCount := recordCount w + 1\<rparr>))))"

text \<open>The part of the loop of \<^verbatim>\<open>Replay\<close> up to the callback; \<open>None\<close> is \<^verbatim>\<open>break\<close>.\<close>

definition read_frame :: "'f IFile \<Rightarrow> 'f \<Rightarrow> JournalRecord option \<times> 'f" where
  "read_frame F f =
     and_then (ReadExact F 4 f) (\<lambda>frameMagic f.
       if le_word frameMagic \<noteq> kFrameMagic then (None, f) else
     and_then (ReadExact F 8 f) (\<lambda>sequenceBytes f.
     and_then (ReadExact F 4 f) (\<lambda>lengthBytes f.
       let payloadLength = (le_word lengthBytes :: u32) in
       if payloadLength > kMaxReasonablePayloadLength then (None, f) else
     and_then (if payloadLength > 0 then ReadExact F (unat payloadLength) f else (Some [], f))
       (\<lambda>p f.
     and_then (ReadExact F 4 f) (\<lambda>storedCrc f.
       let seq = le_word sequenceBytes;
           frameForCrc = frame_body (le_word frameMagic) seq payloadLength p
       in if Compute frameForCrc \<noteq> le_word storedCrc then (None, f)
          else (Some \<lparr>sequenceNumber = seq, payload = p\<rparr>, f))))))"

text \<open>
  The loop of \<^verbatim>\<open>Replay\<close>.  Whether it ends depends on the file, so it is a partial function:
  \<open>None\<close> is a call that never returns.
\<close>

partial_function (option) replay_loop ::
  "'f IFile \<Rightarrow> 'a ReplayCallback \<Rightarrow> 'f \<Rightarrow> 'a \<Rightarrow> u64 \<Rightarrow> bool
     \<Rightarrow> (unit result \<times> 'a \<times> u64 \<times> bool \<times> 'f) option" where
  "replay_loop F callback f a highestSeqSeen any =
     (case read_frame F f of
        (None, f) \<Rightarrow> Some (Success (), a, highestSeqSeen, any, f)
      | (Some rec, f) \<Rightarrow>
          (case callback rec a of
             (Inl e, a) \<Rightarrow> Some (Failure e, a, sequenceNumber rec, True, f)
           | (Inr StopReplaySuccess, a) \<Rightarrow> Some (Success (), a, sequenceNumber rec, True, f)
           | (Inr Continue, a) \<Rightarrow> replay_loop F callback f a (sequenceNumber rec) True))"

declare replay_loop.simps [code]

definition Replay ::
  "'f IFile \<Rightarrow> 'a ReplayCallback \<Rightarrow> 'a \<Rightarrow> 'f WriteAheadJournal
     \<Rightarrow> (unit result \<times> 'a \<times> 'f WriteAheadJournal) option" where
  "Replay F callback a w =
     (case IFile_Seek F 0 False (waj_file w) of
        (Inl e, f) \<Rightarrow> Some (Failure e, a, w\<lparr>waj_file := f\<rparr>)
      | (Inr _, f) \<Rightarrow>
          (case replay_loop F callback f a 0 False of
             None \<Rightarrow> None
           | Some (Inl e, a, _, _, f) \<Rightarrow> Some (Failure e, a, w\<lparr>waj_file := f\<rparr>)
           | Some (Inr _, a, highestSeqSeen, any, f) \<Rightarrow>
               Some (Success (), a,
                 if any then w\<lparr>waj_file := f, nextSequenceNumber := highestSeqSeen + 1\<rparr>
                 else w\<lparr>waj_file := f\<rparr>)))"

definition Truncate :: "'f IFile \<Rightarrow> 'f WriteAheadJournal \<Rightarrow> unit result \<times> 'f WriteAheadJournal" where
  "Truncate F w =
     (case IFile_SetLength F 0 (waj_file w) of
        (Inl e, f) \<Rightarrow> (Failure e, w\<lparr>waj_file := f\<rparr>)
      | (Inr _, f) \<Rightarrow>
          (case IFile_Seek F 0 False f of
             (Inl e, f) \<Rightarrow> (Failure e, w\<lparr>waj_file := f\<rparr>)
           | (Inr _, f) \<Rightarrow>
               (case IFile_FlushDurable F f of
                  (Inl e, f) \<Rightarrow> (Failure e, w\<lparr>waj_file := f\<rparr>)
                | (Inr _, f) \<Rightarrow>
                    (Success (), w\<lparr>waj_file := f, recordCount := 0, nextSequenceNumber := 0\<rparr>))))"

definition RecordCount :: "'f WriteAheadJournal \<Rightarrow> nat" where
  "RecordCount w = recordCount w"

definition WriteAheadJournal_ops :: "'f IFile \<Rightarrow> ('f WriteAheadJournal, 'a) IWriteAheadJournal" where
  "WriteAheadJournal_ops F =
     \<lparr>Jrn_Append = Append F, Jrn_Replay = Replay F, Jrn_Truncate = Truncate F,
      Jrn_RecordCount = RecordCount\<rparr>"

text \<open>\<^verbatim>\<open>CreateWriteAheadJournal\<close>; a null file pointer is \<open>None\<close>.\<close>

definition CreateWriteAheadJournal :: "'f option \<Rightarrow> 'f WriteAheadJournal result" where
  "CreateWriteAheadJournal file =
     (case file of
        None \<Rightarrow> Failure (mkError InvalidArgument ''file must not be null'')
      | Some f \<Rightarrow> Success \<lparr>waj_file = f, nextSequenceNumber = 0, recordCount = 0\<rparr>)"

section \<open>What the bytes of a journal mean\<close>

definition parse_frame :: "bytes \<Rightarrow> (JournalRecord \<times> bytes) option" where
  "parse_frame bs =
     (let n = unat (le_word (take 4 (drop 12 bs)) :: u32)
      in if length bs < 16 \<or> le_word (take 4 bs) \<noteq> kFrameMagic
            \<or> (le_word (take 4 (drop 12 bs)) :: u32) > kMaxReasonablePayloadLength
            \<or> length bs < 20 + n
            \<or> Compute (take (16 + n) bs) \<noteq> le_word (take 4 (drop (16 + n) bs))
         then None
         else Some (\<lparr>sequenceNumber = le_word (take 8 (drop 4 bs)), payload = take n (drop 16 bs)\<rparr>,
                    drop (20 + n) bs))"

lemma parse_frame_shorter: "parse_frame bs = Some (r, rest) \<Longrightarrow> length rest < length bs"
  by (auto simp: parse_frame_def Let_def split: if_splits)

function journal_frames :: "bytes \<Rightarrow> JournalRecord list" where
  "journal_frames bs =
     (case parse_frame bs of None \<Rightarrow> [] | Some (r, rest) \<Rightarrow> r # journal_frames rest)"
  by pat_completeness auto
termination
  by (relation "measure length") (auto dest: parse_frame_shorter)

declare journal_frames.simps [simp del]

lemma journal_frames_None: "parse_frame bs = None \<Longrightarrow> journal_frames bs = []"
  by (simp add: journal_frames.simps)

lemma journal_frames_Some:
  "parse_frame bs = Some (r, rest) \<Longrightarrow> journal_frames bs = r # journal_frames rest"
  by (simp add: journal_frames.simps)

text \<open>The bytes \<^verbatim>\<open>Append\<close> writes for a record with this sequence number and payload.\<close>

definition record_frame :: "JournalRecord \<Rightarrow> bytes" where
  "record_frame r = build_frame (sequenceNumber r) (payload r)"

lemma length_frame_body [simp]: "length (frame_body m s l p) = 16 + length p"
  by (simp add: frame_body_def)

lemma length_build_frame [simp]: "length (build_frame s p) = 20 + length p"
  by (simp add: build_frame_def Let_def)

lemma length_record_frame [simp]: "length (record_frame r) = 20 + length (payload r)"
  by (simp add: record_frame_def)

lemma payload_ok_word:
  assumes "payload_ok p"
  shows "unat (of_nat (length p) :: u32) = length p"
    and "\<not> (of_nat (length p) :: u32) > kMaxReasonablePayloadLength"
proof -
  show n: "unat (of_nat (length p) :: u32) = length p"
    using assms by (simp add: payload_ok_def)
  show "\<not> (of_nat (length p) :: u32) > kMaxReasonablePayloadLength"
    using assms n by (simp add: payload_ok_def kMaxReasonablePayloadLength_def word_less_nat_alt)
qed

lemma frame_body_fields [simp]:
  "take 4 (frame_body m s l p) = le_bytes 4 m"
  "take 8 (drop 4 (frame_body m s l p)) = le_bytes 8 s"
  "take 4 (drop 12 (frame_body m s l p)) = le_bytes 4 l"
  "drop 16 (frame_body m s l p) = p"
  by (simp_all add: frame_body_def)

lemma parse_build_frame:
  assumes "payload_ok p"
  shows "parse_frame (build_frame s p @ rest) = Some (\<lparr>sequenceNumber = s, payload = p\<rparr>, rest)"
proof -
  let ?l = "of_nat (length p) :: u32"
  let ?b = "frame_body kFrameMagic s ?l p"
  have bs: "build_frame s p @ rest = ?b @ le_bytes 4 (Compute ?b) @ rest"
    by (simp add: build_frame_def Let_def)
  show ?thesis
    unfolding bs parse_frame_def Let_def
    using payload_ok_word [OF assms] by simp
qed

lemma journal_frames_append_frame:
  "payload_ok p \<Longrightarrow>
     journal_frames (build_frame s p @ rest) = \<lparr>sequenceNumber = s, payload = p\<rparr> # journal_frames rest"
  by (simp add: journal_frames_Some parse_build_frame)

lemma journal_frames_append:
  assumes "\<forall>r\<in>set rs. payload_ok (payload r)"
  shows "journal_frames (concat (map record_frame rs) @ rest) = rs @ journal_frames rest"
  using assms
  by (induction rs) (auto simp: record_frame_def journal_frames_append_frame)

lemma journal_frames_Nil [simp]: "journal_frames [] = []"
  by (rule journal_frames_None) (simp add: parse_frame_def)

lemma parse_frame_short: "length bs < 16 \<Longrightarrow> parse_frame bs = None"
  by (simp add: parse_frame_def)

text \<open>A proper prefix of a frame is never taken for a frame: the length field gives it away.\<close>

lemma parse_frame_torn:
  assumes "payload_ok p" and "m < length (build_frame s p)"
  shows "parse_frame (take m (build_frame s p)) = None"
proof (cases "m < 16")
  case True
  then show ?thesis by (simp add: parse_frame_short)
next
  case False
  let ?l = "of_nat (length p) :: u32"
  have "take 4 (drop 12 (take m (build_frame s p))) = le_bytes 4 ?l"
    using False by (simp add: build_frame_def Let_def frame_body_def drop_take)
  then show ?thesis
    using assms(2) payload_ok_word(1) [OF assms(1)] by (simp add: parse_frame_def Let_def)
qed

lemma journal_frames_torn:
  "payload_ok p \<Longrightarrow> m < length (build_frame s p) \<Longrightarrow> journal_frames (take m (build_frame s p)) = []"
  by (simp add: journal_frames_None parse_frame_torn)

text \<open>A burst of at most four bytes that leaves the length field alone is always noticed.\<close>

lemma parse_frame_burst:
  assumes p: "payload_ok p"
    and fr: "build_frame s p = pre @ xs @ post"
    and len: "length xs = length ys" "length xs \<le> 4" and neq: "xs \<noteq> ys"
    and away: "length pre + length xs \<le> 12 \<or> 16 \<le> length pre"
  shows "parse_frame (pre @ ys @ post @ rest) = None"
proof -
  let ?fr = "build_frame s p" and ?g = "pre @ ys @ post" and ?n = "length p"
  have lg: "length ?g = 20 + ?n"
    using arg_cong [OF fr, of length] len(1) by simp
  have field: "take 4 (drop 12 ?g) = take 4 (drop 12 ?fr)"
    using away len(1) unfolding fr by (auto simp: drop_append take_append)
  also have "\<dots> = le_bytes 4 (of_nat ?n :: u32)"
    by (simp add: build_frame_def Let_def)
  finally have n: "unat (le_word (take 4 (drop 12 (?g @ rest))) :: u32) = ?n"
    using payload_ok_word(1) [OF p] lg by simp
  have "Compute (take (16 + ?n) ?g) \<noteq> le_word (drop (16 + ?n) ?g)"
  proof
    assume "Compute (take (16 + ?n) ?g) = le_word (drop (16 + ?n) ?g)"
    moreover have "le_bytes 4 (le_word (drop (16 + ?n) ?g) :: u32) = drop (16 + ?n) ?g"
      by (rule le_bytes_le_word_32) (use lg in simp)
    ultimately have "crc_reference ?g 0xFFFFFFFF = table_rounds 32 0xFFFFFFFF"
      by (metis Compute_eq_iff_residue append_take_drop_id)
    moreover have "crc_reference ?fr 0xFFFFFFFF = table_rounds 32 0xFFFFFFFF"
      unfolding build_frame_def Let_def by (metis Compute_eq_iff_residue)
    ultimately show False
      using residue_burst [OF len neq, of pre post] fr by metis
  qed
  then have "Compute (take (16 + ?n) (?g @ rest)) \<noteq> le_word (take 4 (drop (16 + ?n) (?g @ rest)))"
    using lg by simp
  then have "parse_frame (?g @ rest) = None"
    unfolding parse_frame_def Let_def n by simp
  then show ?thesis
    by simp
qed

section \<open>The operations on a file that meets its contract\<close>

text \<open>The specification of the loop over the callback: the frames in order, until it stops.\<close>

fun replay_records ::
  "'a ReplayCallback \<Rightarrow> 'a \<Rightarrow> u64 \<Rightarrow> bool \<Rightarrow> JournalRecord list \<Rightarrow> unit result \<times> 'a \<times> u64 \<times> bool" where
  "replay_records cb a hs any [] = (Success (), a, hs, any)"
| "replay_records cb a hs any (r # rs) =
     (case cb r a of
        (Inl e, a) \<Rightarrow> (Failure e, a, sequenceNumber r, True)
      | (Inr StopReplaySuccess, a) \<Rightarrow> (Success (), a, sequenceNumber r, True)
      | (Inr Continue, a) \<Rightarrow> replay_records cb a (sequenceNumber r) True rs)"

lemma frame_body_of_bytes:
  assumes "16 \<le> length bs" and "le_word (take 4 bs) = kFrameMagic"
    and "n = unat (le_word (take 4 (drop 12 bs)) :: u32)"
  shows "frame_body kFrameMagic (le_word (take 8 (drop 4 bs)))
      (le_word (take 4 (drop 12 bs))) (take n (drop 16 bs)) = take (16 + n) bs"
proof -
  have "le_bytes 4 kFrameMagic = take 4 bs"
    unfolding assms(2) [symmetric] using assms(1) by (simp add: le_bytes_le_word_32)
  then show ?thesis
    using assms(1) take_add [of 4 "8 + (4 + n)" bs] take_add [of 8 "4 + n" "drop 4 bs"]
      take_add [of 4 n "drop 12 bs"]
    by (simp add: frame_body_def le_bytes_le_word_32 le_bytes_le_word_64)
qed

lemma read_payload_list_file:
  "(if (0 :: u32) < w then ReadExact list_file (unat w) cs else (Some [], cs))
     = ReadExact list_file (unat w) cs"
  by (cases "w = 0") (simp_all add: ReadExact_list_file word_gt_0)

lemma read_frame_list_file:
  "case parse_frame bs of
     None \<Rightarrow> fst (read_frame list_file bs) = None
   | Some (r, rest) \<Rightarrow> read_frame list_file bs = (Some r, rest)"
proof (cases "16 \<le> length bs \<and> le_word (take 4 bs) = kFrameMagic")
  case True
  define w :: u32 where "w = le_word (take 4 (drop 12 bs))"
  define n where "n = unat w"
  have body: "frame_body kFrameMagic (le_word (take 8 (drop 4 bs))) w (take n (drop 16 bs)) = take (16 + n) bs"
    using True frame_body_of_bytes [of bs n] by (simp add: w_def n_def)
  have fields: "4 \<le> length bs" "8 \<le> length bs - 4" "4 \<le> length bs - 12"
    using True by auto
  show ?thesis
  proof (cases "w > kMaxReasonablePayloadLength \<or> length bs < 20 + n")
    case bad: True
    then show ?thesis
      using True fields unfolding read_frame_def read_payload_list_file parse_frame_def Let_def
      by (auto simp: ReadExact_list_file simp flip: w_def n_def)
  next
    case False
    then have "n \<le> length bs - 16" "4 \<le> length bs - (16 + n)"
      by auto
    with False show ?thesis
      using True fields body unfolding read_frame_def read_payload_list_file parse_frame_def Let_def
      by (simp add: ReadExact_list_file add.commute [of n] flip: w_def n_def)
  qed
next
  case False
  then show ?thesis
    by (auto simp: read_frame_def read_payload_list_file ReadExact_list_file parse_frame_def Let_def)
qed

lemma replay_records_all:
  "replay_all cb a rs = (r, a') \<Longrightarrow> \<exists>hs' any'. replay_records cb a hs any rs = (r, a', hs', any')"
  by (induction cb a rs arbitrary: hs any rule: replay_all.induct)
    (auto split: prod.splits sum.splits ReplayAction.splits)

context file_contract
begin

lemma rsim_read_frame: "rsim f (read_frame F f) (read_frame list_file (remaining f))"
  unfolding read_frame_def by (intro rsim_intros) simp_all

text \<open>Whatever \<open>read_frame\<close> accepts is the next frame of the file.\<close>

lemma read_frame_Some:
  "read_frame F f = (Some rec, f') \<Longrightarrow> parse_frame (remaining f) = Some (rec, remaining f')"
  using rsim_read_frame [of f] read_frame_list_file [of "remaining f"]
  by (auto simp: rsim_def split: option.splits dest: sym)

lemma read_frame_None:
  "healthy f \<Longrightarrow> read_frame F f = (None, f') \<Longrightarrow> parse_frame (remaining f) = None"
  using rsim_read_frame [of f] read_frame_list_file [of "remaining f"]
  by (auto simp: rsim_def split: option.splits dest: sym)

lemma read_frame_keeps:
  "read_frame F f = (r, f') \<Longrightarrow>
     content f' = content f \<and> durable f' = durable f \<and> (healthy f \<longrightarrow> healthy f')"
  using rsim_read_frame [of f] by (auto simp: rsim_def)

text \<open>
  The loop always ends, and it delivers a prefix of the frames of the file: all of them when no
  read fails.
\<close>

lemma replay_loop_frames:
  "\<exists>n f'. replay_loop F cb f a hs any
       = (case replay_records cb a hs any (take n (journal_frames (remaining f))) of
            (r, a', hs', any') \<Rightarrow> Some (r, a', hs', any', f'))
     \<and> content f' = content f \<and> durable f' = durable f
     \<and> (healthy f \<longrightarrow> healthy f' \<and> n = length (journal_frames (remaining f)))"
proof (induction "length (remaining f)" arbitrary: f a hs any rule: less_induct)
  case less
  obtain r f1 where rf: "read_frame F f = (r, f1)"
    by (cases "read_frame F f") auto
  note keeps = read_frame_keeps [OF rf]
  show ?case
  proof (cases r)
    case None
    then show ?thesis
      using rf keeps read_frame_None [of f f1]
      by (intro exI [of _ 0] exI [of _ f1])
        (auto simp: replay_loop.simps [of F cb f] journal_frames_None)
  next
    case (Some rec)
    have pf: "parse_frame (remaining f) = Some (rec, remaining f1)"
      using read_frame_Some rf Some by simp
    note jf = journal_frames_Some [OF pf]
    have IH: "\<And>a. \<exists>n f'. replay_loop F cb f1 a (sequenceNumber rec) True
       = (case replay_records cb a (sequenceNumber rec) True (take n (journal_frames (remaining f1))) of
            (r, a', hs', any') \<Rightarrow> Some (r, a', hs', any', f'))
     \<and> content f' = content f1 \<and> durable f' = durable f1
     \<and> (healthy f1 \<longrightarrow> healthy f' \<and> n = length (journal_frames (remaining f1)))"
      using less [OF parse_frame_shorter [OF pf]] by blast
    obtain ra a1 where cb: "cb rec a = (ra, a1)"
      by (cases "cb rec a") auto
    obtain n f2 where n: "replay_loop F cb f1 a1 (sequenceNumber rec) True
       = (case replay_records cb a1 (sequenceNumber rec) True (take n (journal_frames (remaining f1))) of
            (r, a', hs', any') \<Rightarrow> Some (r, a', hs', any', f2))"
      "content f2 = content f1" "durable f2 = durable f1"
      "healthy f1 \<longrightarrow> healthy f2 \<and> n = length (journal_frames (remaining f1))"
      using IH by blast
    show ?thesis
    proof (cases "ra = Inr Continue")
      case True
      then show ?thesis
        using rf Some cb n keeps jf
        by (intro exI [of _ "Suc n"] exI [of _ f2]) (simp add: replay_loop.simps [of F cb f])
    next
      case False
      then show ?thesis
        using rf Some cb keeps jf
        by (intro exI [of _ "length (journal_frames (remaining f))"] exI [of _ f1])
          (auto simp: replay_loop.simps [of F cb f] split: sum.splits ReplayAction.splits)
    qed
  qed
qed

definition wal_records :: "'f WriteAheadJournal \<Rightarrow> JournalRecord list" where
  "wal_records w = journal_frames (content (waj_file w))"

definition wal_intact :: "'f WriteAheadJournal \<Rightarrow> bool" where
  "wal_intact w \<longleftrightarrow> (\<exists>rs. content (waj_file w) = concat (map record_frame rs)
                        \<and> (\<forall>r\<in>set rs. payload_ok (payload r)))"

definition wal_healthy :: "'f WriteAheadJournal \<Rightarrow> bool" where
  "wal_healthy w \<longleftrightarrow> healthy (waj_file w)"

text \<open>\<open>Replay\<close> returns, leaves the file alone and delivers a prefix of the valid frames.\<close>

lemma Replay_prefix:
  "\<exists>r a' w'. Replay F cb a w = Some (r, a', w')
     \<and> content (waj_file w') = content (waj_file w) \<and> durable (waj_file w') = durable (waj_file w)
     \<and> (wal_healthy w \<longrightarrow> wal_healthy w' \<and> (r, a') = replay_all cb a (wal_records w))
     \<and> ((\<exists>n. (r, a') = replay_all cb a (take n (wal_records w))) \<or> (a' = a \<and> \<not> IsOk r))"
proof -
  obtain sr f where sk: "IFile_Seek F 0 False (waj_file w) = (sr, f)"
    by (cases "IFile_Seek F 0 False (waj_file w)") auto
  have c: "content f = content (waj_file w)" "durable f = durable (waj_file w)"
    using seek_content [OF sk] by simp_all
  show ?thesis
  proof (cases sr)
    case (Inl e)
    then show ?thesis
      using sk c seek_healthy [OF _ _ sk] by (auto simp: Replay_def wal_healthy_def)
  next
    case (Inr p)
    have rem: "remaining f = content (waj_file w)"
      using seek_start_ok [of 0 "waj_file w" p f] sk Inr c by (simp add: remaining_def)
    obtain n f' where n: "replay_loop F cb f a 0 False
       = (case replay_records cb a 0 False (take n (journal_frames (remaining f))) of
            (r, a', hs', any') \<Rightarrow> Some (r, a', hs', any', f'))"
      "content f' = content f" "healthy f \<longrightarrow> healthy f' \<and> n = length (journal_frames (remaining f))"
      "durable f' = durable f"
      using replay_loop_frames [of cb f a 0 False] by blast
    obtain r a' where ra: "replay_all cb a (take n (wal_records w)) = (r, a')"
      by (cases "replay_all cb a (take n (wal_records w))") auto
    obtain hs any' where "replay_records cb a 0 False (take n (wal_records w)) = (r, a', hs, any')"
      using replay_records_all [OF ra, of 0 False] by blast
    then have "\<exists>w'. Replay F cb a w = Some (r, a', w') \<and> waj_file w' = f'"
      using n(1) sk Inr rem by (auto simp: Replay_def wal_records_def split: sum.splits)
    moreover have "wal_healthy w \<Longrightarrow> healthy f' \<and> take n (wal_records w) = wal_records w"
      using n(3) seek_healthy [OF _ _ sk] rem by (simp add: wal_healthy_def wal_records_def)
    moreover have "\<exists>n. (r, a') = replay_all cb a (take n (wal_records w))"
      using ra by metis
    ultimately show ?thesis
      using n(2,4) c ra by (auto simp: wal_healthy_def)
  qed
qed

text \<open>\<open>Append\<close> extends the file by a prefix of the frame: all of it when it succeeds.\<close>

lemma Append_extends:
  assumes "Append F p w = (r, w')"
  shows "\<exists>m\<le>20 + length p. content (waj_file w') =
             content (waj_file w) @ take m (build_frame (nextSequenceNumber w) p)
           \<and> (IsOk r \<longrightarrow> m = 20 + length p \<and> r = Inr (nextSequenceNumber w)
                \<and> durable (waj_file w') = content (waj_file w'))"
proof -
  let ?fr = "build_frame (nextSequenceNumber w) p"
  obtain sr f where sk: "IFile_Seek F 0 True (waj_file w) = (sr, f)"
    by (cases "IFile_Seek F 0 True (waj_file w)") auto
  have c: "content f = content (waj_file w)"
    using seek_content [OF sk] by simp
  show ?thesis
  proof (cases sr)
    case (Inl e)
    then show ?thesis
      using assms sk c by (auto simp: Append_def)
  next
    case (Inr q)
    have pos: "position f = length (content f)"
      using seek_end_ok [of "waj_file w" q f] sk Inr c by simp
    obtain wr f1 where wr: "IFile_Write F ?fr f = (wr, f1)"
      by (cases "IFile_Write F ?fr f") auto
    obtain m where m: "m \<le> length ?fr" "content f1 = content f @ take m ?fr"
      using write_any [OF _ wr] pos by auto
    obtain dr f2 where dr: "IFile_FlushDurable F f1 = (dr, f2)"
      by (cases "IFile_FlushDurable F f1") auto
    have full: "wr = Inr (length ?fr) \<Longrightarrow> content f1 = content f @ ?fr"
      using write_ok [of ?fr f "length ?fr" f1] wr pos by simp
    show ?thesis
    proof (cases "wr = Inr (length ?fr)")
      case True
      then show ?thesis
        using assms sk Inr wr dr full c flush_content [OF dr] flush_ok [of f1 "()" f2]
        by (cases dr) (auto simp: Append_def Let_def intro: exI [of _ "20 + length p"])
    next
      case False
      then show ?thesis
        using assms sk Inr wr m c
        by (auto simp: Append_def Let_def split: sum.splits if_splits)
    qed
  qed
qed

lemma Append_healthy:
  "wal_healthy w \<Longrightarrow> payload_ok p \<Longrightarrow> Append F p w = (r, w') \<Longrightarrow> IsOk r \<and> wal_healthy w'"
  unfolding Append_def wal_healthy_def Let_def payload_ok_def
  by (auto split: prod.splits sum.splits if_splits
      dest!: seek_healthy [rotated 2] write_healthy [rotated 2] flush_healthy [rotated])

lemma wal_records_frames:
  "content (waj_file w) = concat (map record_frame rs) @ rest \<Longrightarrow> \<forall>r\<in>set rs. payload_ok (payload r) \<Longrightarrow>
     wal_records w = rs @ journal_frames rest"
  by (simp add: wal_records_def journal_frames_append)

lemma wal_append_ok:
  assumes "wal_intact w" and "payload_ok p" and "Append F p w = (Inr s, w')"
  shows "wal_intact w' \<and> wal_records w' = wal_records w @ [\<lparr>sequenceNumber = s, payload = p\<rparr>]"
proof -
  obtain rs where rs: "content (waj_file w) = concat (map record_frame rs)"
      "\<forall>r\<in>set rs. payload_ok (payload r)"
    using assms(1) by (auto simp: wal_intact_def)
  let ?r = "\<lparr>sequenceNumber = s, payload = p\<rparr>"
  have w': "content (waj_file w') = concat (map record_frame (rs @ [?r]))"
    using Append_extends [OF assms(3)] rs by (auto simp: record_frame_def)
  moreover have ok: "\<forall>r\<in>set (rs @ [?r]). payload_ok (payload r)"
    using rs assms(2) by auto
  ultimately have "wal_intact w'"
    unfolding wal_intact_def by blast
  moreover have "wal_records w = rs" "wal_records w' = rs @ [?r]"
    using wal_records_frames [of w rs "[]"] wal_records_frames [of w' "rs @ [?r]" "[]"] rs w' ok by auto
  ultimately show ?thesis
    by simp
qed

lemma wal_append_err:
  assumes "wal_intact w" and "payload_ok p" and "Append F p w = (Inl e, w')"
  shows "wal_records w' = wal_records w
     \<or> (\<exists>s. wal_records w' = wal_records w @ [\<lparr>sequenceNumber = s, payload = p\<rparr>])"
proof -
  obtain rs where rs: "content (waj_file w) = concat (map record_frame rs)"
      "\<forall>r\<in>set rs. payload_ok (payload r)"
    using assms(1) by (auto simp: wal_intact_def)
  let ?fr = "build_frame (nextSequenceNumber w) p"
  obtain m where m: "m \<le> length ?fr"
      "content (waj_file w') = concat (map record_frame rs) @ take m ?fr"
    using Append_extends [OF assms(3)] rs by auto
  have "wal_records w' = rs @ journal_frames (take m ?fr)" "wal_records w = rs"
    using wal_records_frames [of w' rs "take m ?fr"] wal_records_frames [of w rs "[]"] m rs by auto
  moreover have "journal_frames (take m ?fr) =
      (if m < length ?fr then [] else [\<lparr>sequenceNumber = nextSequenceNumber w, payload = p\<rparr>])"
    using m(1) assms(2) journal_frames_append_frame [of p _ "[]"] by (auto simp: journal_frames_torn)
  ultimately show ?thesis
    by auto
qed

lemma Truncate_cases:
  assumes "Truncate F w = (r, w')"
  shows "content (waj_file w') = [] \<or> \<not> IsOk r \<and> content (waj_file w') = content (waj_file w)"
proof -
  obtain lr f where sl: "IFile_SetLength F 0 (waj_file w) = (lr, f)"
    by (cases "IFile_SetLength F 0 (waj_file w)") auto
  show ?thesis
  proof (cases lr)
    case (Inl e)
    then show ?thesis
      using assms sl set_length_err [of 0 "waj_file w" e f] by (auto simp: Truncate_def)
  next
    case (Inr u)
    then have "content f = []"
      using sl set_length_ok [of 0 "waj_file w" u f] by simp
    then show ?thesis
      using assms sl Inr
      by (auto simp: Truncate_def split: prod.splits sum.splits dest!: seek_content flush_content)
  qed
qed

lemma Truncate_healthy:
  "wal_healthy w \<Longrightarrow> Truncate F w = (r, w') \<Longrightarrow> IsOk r \<and> wal_healthy w'"
  unfolding Truncate_def wal_healthy_def
  by (auto split: prod.splits sum.splits
      dest!: set_length_healthy [rotated] seek_healthy [rotated 2] flush_healthy [rotated])

text \<open>Everything in the file is on stable storage; every successful update establishes it.\<close>

definition wal_durable :: "'f WriteAheadJournal \<Rightarrow> bool" where
  "wal_durable w \<longleftrightarrow> durable (waj_file w) = content (waj_file w)"

lemma Append_durable: "Append F p w = (Inr s, w') \<Longrightarrow> wal_durable w'"
  using Append_extends [of p w "Inr s" w'] by (auto simp: wal_durable_def)

lemma Truncate_durable: "Truncate F w = (Inr u, w') \<Longrightarrow> wal_durable w'"
  using flush_ok flush_content
  by (fastforce simp: Truncate_def wal_durable_def split: prod.splits sum.splits)

lemma Replay_durable: "Replay F cb a w = Some (r, a', w') \<Longrightarrow> wal_durable w \<Longrightarrow> wal_durable w'"
  using Replay_prefix [of cb a w] by (auto simp: wal_durable_def)

lemma wal_empty: "content (waj_file w) = [] \<Longrightarrow> wal_records w = [] \<and> wal_intact w"
  by (auto simp: wal_records_def wal_intact_def intro: exI [of _ "[]"])

lemma wal_same_content:
  "content (waj_file w') = content (waj_file w) \<Longrightarrow>
     wal_records w' = wal_records w \<and> wal_intact w' = wal_intact w"
  by (simp add: wal_records_def wal_intact_def)

end

text \<open>Over any file that meets its contract, the journal meets the contract of the engine.\<close>

sublocale file_contract \<subseteq> wal: journal_contract
  "WriteAheadJournal_ops F" wal_records wal_intact wal_healthy
proof (unfold_locales, goal_cases)
  case (5 j cb a)
  obtain r a' j' where R: "Replay F cb a j = Some (r, a', j')"
      "content (waj_file j') = content (waj_file j)"
      "wal_healthy j \<longrightarrow> wal_healthy j' \<and> (r, a') = replay_all cb a (wal_records j)"
    using Replay_prefix [of cb a j] by blast
  with 5 show ?case
    using wal_same_content [OF R(2)]
    by (cases "replay_all cb a (wal_records j)") (auto simp: WriteAheadJournal_ops_def)
next
  case (4 cb a j)
  show ?case
    using Replay_prefix [of cb a j] by (auto simp: WriteAheadJournal_ops_def)
next
  case (6 j u j')
  then show ?case
    using Truncate_cases [of j "Inr u" j'] wal_empty [of j'] by (simp add: WriteAheadJournal_ops_def)
next
  case (7 j e j')
  then show ?case
    using Truncate_cases [of j "Inl e" j'] wal_empty [of j'] wal_same_content [of j' j]
    by (auto simp: WriteAheadJournal_ops_def)
next
  case (1 j p s j')
  then show ?case
    by (simp add: WriteAheadJournal_ops_def wal_append_ok)
next
  case (2 j p e j')
  then show ?case
    using wal_append_err [of j p e j'] by (simp add: WriteAheadJournal_ops_def)
next
  case (3 j p ar j')
  then show ?case
    using Append_healthy [of j p ar j'] by (simp add: WriteAheadJournal_ops_def)
next
  case (8 j tr j')
  then show ?case
    using Truncate_healthy [of j tr j'] by (simp add: WriteAheadJournal_ops_def)
qed

section \<open>Properties\<close>

text \<open>The journal files the properties are about: whole frames of bounded payloads.\<close>

definition intact_journal :: "PortableFile WriteAheadJournal \<Rightarrow> JournalRecord list \<Rightarrow> bool" where
  "intact_journal w rs \<longleftrightarrow> pf_content (waj_file w) = concat (map record_frame rs)
     \<and> (\<forall>r\<in>set rs. payload_ok (payload r))"

lemma intact_journalD:
  "intact_journal w rs \<Longrightarrow> pf.wal_intact w \<and> pf.wal_records w = rs"
  using pf.wal_records_frames [of w rs "[]"]
  by (auto simp: intact_journal_def pf.wal_intact_def)

text \<open>
  C25. \<^bold>\<open>An appended record is found by the next replay.\<close>  On a journal of whole frames and a
  file on which no call fails, \<^verbatim>\<open>Append\<close> succeeds, the record is on stable storage when it
  returns, and a later \<^verbatim>\<open>Replay\<close> hands the callback all the old records and then this one,
  under the sequence number \<^verbatim>\<open>Append\<close> returned.
\<close>

theorem Append_then_Replay:
  assumes "intact_journal w rs" and "pf_healthy (waj_file w)" and "payload_ok p"
  shows "\<exists>s w' w''. Append PortableFile_ops p w = (Success s, w')
     \<and> intact_journal w' (rs @ [\<lparr>sequenceNumber = s, payload = p\<rparr>])
     \<and> pf_durable (waj_file w') = pf_content (waj_file w')
     \<and> Replay PortableFile_ops cb a w' =
         (case replay_all cb a (rs @ [\<lparr>sequenceNumber = s, payload = p\<rparr>]) of
            (r, a') \<Rightarrow> Some (r, a', w''))"
proof -
  obtain r w' where A: "Append PortableFile_ops p w = (r, w')"
    by (cases "Append PortableFile_ops p w") auto
  have h: "pf.wal_healthy w'" and ok: "IsOk r"
    using pf.Append_healthy [OF _ assms(3) A] assms(2) by (auto simp: pf.wal_healthy_def)
  then obtain s where r: "r = Inr s"
    by (cases r) auto
  let ?rs = "rs @ [\<lparr>sequenceNumber = s, payload = p\<rparr>]"
  have w': "intact_journal w' ?rs" "pf_durable (waj_file w') = pf_content (waj_file w')"
    using pf.Append_extends [OF A] assms(1,3) r
    by (auto simp: intact_journal_def record_frame_def)
  obtain w'' where "Replay PortableFile_ops cb a w' =
      Some (fst (replay_all cb a ?rs), snd (replay_all cb a ?rs), w'')"
    using pf.wal.replay_healthy [OF h, of cb a] intact_journalD [OF w'(1)]
    by (auto simp: WriteAheadJournal_ops_def)
  then show ?thesis
    using A r w' by (auto split: prod.splits)
qed

definition empty_journal :: "PortableFile WriteAheadJournal" where
  "empty_journal = \<lparr>waj_file = open_portable [] [], nextSequenceNumber = 0, recordCount = 0\<rparr>"

lemma empty_journal_simps [simp]:
  "intact_journal empty_journal []" "pf_healthy (waj_file empty_journal)"
  by (simp_all add: intact_journal_def empty_journal_def open_portable_def pf_healthy_def)

theorem Append_then_Replay_witness:
  "\<exists>s w' w''. Append PortableFile_ops [1, 2, 3] empty_journal = (Success s, w')
     \<and> intact_journal w' [\<lparr>sequenceNumber = s, payload = [1, 2, 3]\<rparr>]
     \<and> pf_durable (waj_file w') = pf_content (waj_file w')
     \<and> Replay PortableFile_ops (\<lambda>r a. (Success Continue, a @ [payload r])) [] w' =
         Some (Success (), [[1, 2, 3]], w'')"
  using Append_then_Replay [of empty_journal "[]" "[1, 2, 3]"
      "\<lambda>r a. (Success Continue, a @ [payload r])" "[]"]
  by (simp add: payload_ok_def)

text \<open>
  \<^bold>\<open>A torn tail is cut off, not interpreted.\<close>  If the file holds whole frames followed by
  any proper prefix of a frame (what a power cut during \<^verbatim>\<open>Append\<close> leaves), replay hands over
  exactly the whole frames and succeeds as far as the callback does.
\<close>

theorem Replay_drops_torn_tail:
  assumes "pf_content (waj_file w) = concat (map record_frame rs) @ take m (build_frame s p)"
    and "\<forall>r\<in>set rs. payload_ok (payload r)" and "payload_ok p" and "m < length (build_frame s p)"
    and "pf_healthy (waj_file w)"
  shows "\<exists>w'. Replay PortableFile_ops cb a w =
           (case replay_all cb a rs of (r, a') \<Rightarrow> Some (r, a', w'))"
proof -
  have "pf.wal_records w = rs"
    using pf.wal_records_frames [OF assms(1,2)] assms(3,4) by (simp add: journal_frames_torn)
  moreover have "pf.wal_healthy w"
    using assms(5) by (simp add: pf.wal_healthy_def)
  ultimately show ?thesis
    using pf.wal.replay_healthy [of w cb a]
    by (auto simp: WriteAheadJournal_ops_def split: prod.splits)
qed

theorem Replay_drops_torn_tail_witness:
  "\<exists>w'. Replay PortableFile_ops (\<lambda>r a. (Success Continue, a @ [payload r])) []
      \<lparr>waj_file = open_portable (build_frame 0 [7] @ take 9 (build_frame 1 [8])) [],
       nextSequenceNumber = 0, recordCount = 0\<rparr> = Some (Success (), [[7]], w')"
  using Replay_drops_torn_tail [of "\<lparr>waj_file = open_portable (build_frame 0 [7] @ take 9 (build_frame 1 [8])) [],
       nextSequenceNumber = 0, recordCount = 0\<rparr>" "[\<lparr>sequenceNumber = 0, payload = [7]\<rparr>]" 9 1 "[8]"
      "\<lambda>r a. (Success Continue, a @ [payload r])" "[]"]
  by (simp add: payload_ok_def record_frame_def open_portable_def pf_healthy_def)

text \<open>
  C27. \<^bold>\<open>Replay ends and never invents a record.\<close>  Whatever bytes the file holds and whatever
  calls of the C library fail, \<^verbatim>\<open>Replay\<close> returns, leaves the file's bytes alone, and has
  shown the callback an initial part of the valid frames of the file and nothing else (none at all
  when the initial seek fails, which it reports).
\<close>

theorem Replay_returns_prefix:
  "\<exists>r a' w'. Replay PortableFile_ops cb a w = Some (r, a', w')
     \<and> pf_content (waj_file w') = pf_content (waj_file w)
     \<and> ((\<exists>n. (r, a') = replay_all cb a (take n (journal_frames (pf_content (waj_file w)))))
        \<or> (a' = a \<and> \<not> IsOk r))"
  using pf.Replay_prefix [of cb a w] unfolding pf.wal_records_def by blast

text \<open>
  \<^bold>\<open>Corruption of a frame is noticed.\<close>  If up to four consecutive bytes of a frame are
  changed, anywhere but in its length field, replay stops in front of that frame: only the frames
  before it are delivered.
\<close>

theorem Replay_stops_at_corrupt_frame:
  assumes "build_frame s p = pre @ xs @ post" and "payload_ok p"
    and "length xs = length ys" and "length xs \<le> 4" and "xs \<noteq> ys"
    and "length pre + length xs \<le> 12 \<or> 16 \<le> length pre"
    and "pf_content (waj_file w) = concat (map record_frame rs) @ pre @ ys @ post @ rest"
    and "\<forall>r\<in>set rs. payload_ok (payload r)" and "pf_healthy (waj_file w)"
  shows "\<exists>w'. Replay PortableFile_ops cb a w =
           (case replay_all cb a rs of (r, a') \<Rightarrow> Some (r, a', w'))"
proof -
  have "journal_frames (pre @ ys @ post @ rest) = []"
    using assms(1-6) by (intro journal_frames_None parse_frame_burst)
  then have "pf.wal_records w = rs"
    using pf.wal_records_frames [OF assms(7,8)] by simp
  moreover have "pf.wal_healthy w"
    using assms(9) by (simp add: pf.wal_healthy_def)
  ultimately show ?thesis
    using pf.wal.replay_healthy [of w cb a]
    by (auto simp: WriteAheadJournal_ops_def split: prod.splits)
qed

theorem Replay_stops_at_corrupt_frame_witness:
  "\<exists>w'. Replay PortableFile_ops (\<lambda>r a. (Success Continue, a @ [payload r])) []
      \<lparr>waj_file = open_portable (build_frame 0 [7] @ frame_body kFrameMagic 1 1 [] @ [9]
         @ le_bytes 4 (Compute (frame_body kFrameMagic 1 1 [8])) @ build_frame 2 [5]) [],
       nextSequenceNumber = 0, recordCount = 0\<rparr> = Some (Success (), [[7]], w')"
  using Replay_stops_at_corrupt_frame [of 1 "[8]" "frame_body kFrameMagic 1 1 []" "[8]"
      "le_bytes 4 (Compute (frame_body kFrameMagic 1 1 [8]))" "[9]"
      "\<lparr>waj_file = open_portable (build_frame 0 [7] @ frame_body kFrameMagic 1 1 [] @ [9]
         @ le_bytes 4 (Compute (frame_body kFrameMagic 1 1 [8])) @ build_frame 2 [5]) [],
       nextSequenceNumber = 0, recordCount = 0\<rparr>" "[\<lparr>sequenceNumber = 0, payload = [7]\<rparr>]" "build_frame 2 [5]"
      "\<lambda>r a. (Success Continue, a @ [payload r])" "[]"]
  by (simp add: payload_ok_def record_frame_def open_portable_def pf_healthy_def build_frame_def
      Let_def) (simp add: frame_body_def)

lemma le_bytes_kFrameMagic: "le_bytes 4 kFrameMagic = [0x31, 0x4A, 0x43, 0x51]"
  by code_simp

lemma torn_magic_not_magic:
  assumes "0 < m" and "m < 4"
  shows "le_word (take m (le_bytes 4 kFrameMagic) @ take (4 - m) (le_bytes 4 kFrameMagic)) \<noteq> kFrameMagic"
proof
  let ?bs = "take m (le_bytes 4 kFrameMagic) @ take (4 - m) (le_bytes 4 kFrameMagic)"
  assume "le_word ?bs = kFrameMagic"
  then have "?bs = le_bytes 4 kFrameMagic"
    using le_bytes_le_word_32 [of ?bs] assms by simp
  moreover have "m = 1 \<or> m = 2 \<or> m = 3"
    using assms by auto
  ultimately show False
    unfolding le_bytes_kFrameMagic by auto
qed

lemma journal_frames_after_torn_magic:
  assumes "0 < m" and "m < 4"
  shows "journal_frames (take m (build_frame s q) @ build_frame s' p @ rest) = []"
proof (rule journal_frames_None)
  have "take 4 (take m (build_frame s q) @ build_frame s' p @ rest)
      = take m (le_bytes 4 kFrameMagic) @ take (4 - m) (le_bytes 4 kFrameMagic)"
    using assms by (simp add: build_frame_def Let_def frame_body_def)
  then show "parse_frame (take m (build_frame s q) @ build_frame s' p @ rest) = None"
    using torn_magic_not_magic [OF assms] by (simp add: parse_frame_def Let_def)
qed

text \<open>
  C40. \<^bold>\<open>Records appended behind a torn tail are lost.\<close>  \<^verbatim>\<open>Replay\<close> skips a torn tail but
  leaves its bytes in the file, and \<^verbatim>\<open>Append\<close> writes at the end of the file.  If a power cut
  left one to three bytes of a frame, every later \<^verbatim>\<open>Append\<close> reports success and reaches
  stable storage, and yet the next \<^verbatim>\<open>Replay\<close> delivers only the records from before the
  tear: the promise that a record acknowledged by \<^verbatim>\<open>Append\<close> survives does not hold there.
\<close>

theorem Append_after_torn_tail_is_lost:
  assumes "pf_content (waj_file w) = concat (map record_frame rs) @ take m (build_frame s q)"
    and "0 < m" and "m < 4" and "\<forall>r\<in>set rs. payload_ok (payload r)" and "pf_healthy (waj_file w)"
    and "payload_ok p"
  shows "\<exists>s' w' w''. Append PortableFile_ops p w = (Success s', w')
     \<and> pf_durable (waj_file w') = pf_content (waj_file w')
     \<and> Replay PortableFile_ops cb a w' = (case replay_all cb a rs of (r, a') \<Rightarrow> Some (r, a', w''))"
proof -
  obtain r w' where A: "Append PortableFile_ops p w = (r, w')"
    by (cases "Append PortableFile_ops p w") auto
  have h: "pf.wal_healthy w'" and ok: "IsOk r"
    using pf.Append_healthy [OF _ assms(6) A] assms(5) by (auto simp: pf.wal_healthy_def)
  then obtain s' where r: "r = Inr s'"
    by (cases r) auto
  have w': "pf_content (waj_file w') = concat (map record_frame rs) @ take m (build_frame s q)
        @ build_frame (nextSequenceNumber w) p"
      "pf_durable (waj_file w') = pf_content (waj_file w')"
    using pf.Append_extends [OF A] r assms(1) by auto
  have "pf.wal_records w' = rs"
    using pf.wal_records_frames [OF w'(1) assms(4)]
      journal_frames_after_torn_magic [OF assms(2,3), where rest = "[]"] by simp
  then show ?thesis
    using A r w'(2) pf.wal.replay_healthy [OF h, of cb a]
    by (auto simp: WriteAheadJournal_ops_def split: prod.splits)
qed

theorem Append_after_torn_tail_is_lost_witness:
  "\<exists>s' w' w''. Append PortableFile_ops [5]
       \<lparr>waj_file = open_portable (build_frame 0 [7] @ take 3 (build_frame 1 [8])) [],
        nextSequenceNumber = 1, recordCount = 0\<rparr> = (Success s', w')
     \<and> pf_durable (waj_file w') = pf_content (waj_file w')
     \<and> Replay PortableFile_ops (\<lambda>r a. (Success Continue, a @ [payload r])) [] w' =
         Some (Success (), [[7]], w'')"
  using Append_after_torn_tail_is_lost [of "\<lparr>waj_file = open_portable (build_frame 0 [7] @ take 3 (build_frame 1 [8])) [],
        nextSequenceNumber = 1, recordCount = 0\<rparr>" "[\<lparr>sequenceNumber = 0, payload = [7]\<rparr>]" 3 1 "[8]" "[5]"
      "\<lambda>r a. (Success Continue, a @ [payload r])" "[]"]
  by (simp add: payload_ok_def record_frame_def open_portable_def pf_healthy_def)

end
