(* ===== verification/BackingStore.thy ===== *)
theory BackingStore
  imports Reader Crc32 "HOL-Library.AList"
begin

text \<open>
  The store the cache accelerates: \<^verbatim>\<open>IBackingStore.h\<close> and \<^verbatim>\<open>FileBackingStore.cpp\<close>, an
  append-only log of CRC-framed records with an in-memory index of the latest record per key.

  The locale \<open>backing_store\<close> is the contract the cache engine relies on: behind the interface is
  a finite map from keys to values, failed updates leave it alone, and what a restart would find
  on disk (\<open>disk\<close>) is that map as long as no update has failed (\<open>clean\<close>).
\<close>

section \<open>IBackingStore\<close>

record 'b IBackingStore =
  Bs_Get :: "key \<Rightarrow> 'b \<Rightarrow> value result \<times> 'b"
  Bs_Put :: "key \<Rightarrow> value \<Rightarrow> 'b \<Rightarrow> unit result \<times> 'b"
  Bs_Remove :: "key \<Rightarrow> 'b \<Rightarrow> unit result \<times> 'b"
  Bs_Contains :: "key \<Rightarrow> 'b \<Rightarrow> bool"
  Bs_EntryCount :: "'b \<Rightarrow> nat"

text \<open>The keys and values that survive a restart: at most 256 MiB each.\<close>

definition storable :: "bytes \<Rightarrow> bool" where
  "storable x \<longleftrightarrow> length x \<le> 256 * 1024 * 1024"

locale backing_store =
  fixes B :: "'b IBackingStore"
    and abs :: "'b \<Rightarrow> key \<rightharpoonup> value"
    and disk :: "'b \<Rightarrow> key \<rightharpoonup> value"
    and inv :: "'b \<Rightarrow> bool"
    and clean :: "'b \<Rightarrow> bool"
    and bhealthy :: "'b \<Rightarrow> bool"
  assumes get_keeps: "inv b \<Longrightarrow> Bs_Get B k b = (gr, b') \<Longrightarrow>
       inv b' \<and> abs b' = abs b \<and> disk b' = disk b \<and> clean b' = clean b \<and> (bhealthy b \<longrightarrow> bhealthy b')"
    and get_ok: "inv b \<Longrightarrow> Bs_Get B k b = (Inr v, b') \<Longrightarrow> abs b k = Some v"
    and get_NotFound: "inv b \<Longrightarrow> Bs_Get B k b = (Inl e, b') \<Longrightarrow> code e = NotFound \<longleftrightarrow> abs b k = None"
    and get_healthy: "inv b \<Longrightarrow> bhealthy b \<Longrightarrow> abs b k = Some v \<Longrightarrow> fst (Bs_Get B k b) = Inr v"
    and put_ok: "inv b \<Longrightarrow> storable k \<Longrightarrow> storable v \<Longrightarrow> Bs_Put B k v b = (Inr u, b') \<Longrightarrow>
       inv b' \<and> abs b' = (abs b)(k \<mapsto> v) \<and> (clean b \<longrightarrow> clean b')"
    and put_err: "inv b \<Longrightarrow> Bs_Put B k v b = (Inl e, b') \<Longrightarrow> inv b' \<and> abs b' = abs b"
    and put_err_disk: "inv b \<Longrightarrow> clean b \<Longrightarrow> storable k \<Longrightarrow> storable v \<Longrightarrow> Bs_Put B k v b = (Inl e, b') \<Longrightarrow>
       disk b' = abs b \<or> disk b' = (abs b)(k \<mapsto> v)"
    and put_healthy: "inv b \<Longrightarrow> bhealthy b \<Longrightarrow> storable k \<Longrightarrow> storable v \<Longrightarrow> Bs_Put B k v b = (pr, b') \<Longrightarrow> IsOk pr \<and> bhealthy b'"
    and remove_ok: "inv b \<Longrightarrow> storable k \<Longrightarrow> Bs_Remove B k b = (Inr u, b') \<Longrightarrow>
       inv b' \<and> abs b' = (abs b)(k := None) \<and> (clean b \<longrightarrow> clean b')"
    and remove_err: "inv b \<Longrightarrow> Bs_Remove B k b = (Inl e, b') \<Longrightarrow> inv b' \<and> abs b' = abs b"
    and remove_err_disk: "inv b \<Longrightarrow> clean b \<Longrightarrow> storable k \<Longrightarrow> Bs_Remove B k b = (Inl e, b') \<Longrightarrow>
       disk b' = abs b \<or> disk b' = (abs b)(k := None)"
    and remove_healthy: "inv b \<Longrightarrow> bhealthy b \<Longrightarrow> storable k \<Longrightarrow> Bs_Remove B k b = (mr, b') \<Longrightarrow> IsOk mr \<and> bhealthy b'"
    and contains_iff: "inv b \<Longrightarrow> Bs_Contains B k b \<longleftrightarrow> k \<in> dom (abs b)"
    and entry_count: "inv b \<Longrightarrow> Bs_EntryCount B b = card (dom (abs b))"
    and clean_disk: "inv b \<Longrightarrow> clean b \<Longrightarrow> disk b = abs b"

text \<open>
  A client's view: a sequence of calls with their replies, and what a finite map would answer.  A
  failed update changes nothing; a failed lookup is \<open>NotFound\<close> exactly when the key is absent.
\<close>

datatype store_op = OpGet key | OpPut key "value" | OpRemove key

datatype store_reply = Got "value result" | Done "unit result"

fun store_step :: "'b IBackingStore \<Rightarrow> store_op \<Rightarrow> 'b \<Rightarrow> store_reply \<times> 'b" where
  "store_step B (OpGet k) b = (case Bs_Get B k b of (r, b) \<Rightarrow> (Got r, b))"
| "store_step B (OpPut k v) b = (case Bs_Put B k v b of (r, b) \<Rightarrow> (Done r, b))"
| "store_step B (OpRemove k) b = (case Bs_Remove B k b of (r, b) \<Rightarrow> (Done r, b))"

fun run_store :: "'b IBackingStore \<Rightarrow> store_op list \<Rightarrow> 'b \<Rightarrow> store_reply list \<times> 'b" where
  "run_store B [] b = ([], b)"
| "run_store B (x # xs) b =
     (case store_step B x b of (r, b) \<Rightarrow> (case run_store B xs b of (rs, b) \<Rightarrow> (r # rs, b)))"

fun op_storable :: "store_op \<Rightarrow> bool" where
  "op_storable (OpGet k) = True"
| "op_storable (OpPut k v) = (storable k \<and> storable v)"
| "op_storable (OpRemove k) = storable k"

fun map_step :: "store_op \<Rightarrow> store_reply \<Rightarrow> (key \<rightharpoonup> value) \<Rightarrow> (key \<rightharpoonup> value) option" where
  "map_step (OpGet k) (Got (Inr v)) m = (if m k = Some v then Some m else None)"
| "map_step (OpGet k) (Got (Inl e)) m = (if code e = NotFound \<longleftrightarrow> m k = None then Some m else None)"
| "map_step (OpPut k v) (Done (Inr _)) m = Some (m(k \<mapsto> v))"
| "map_step (OpPut k v) (Done (Inl _)) m = Some m"
| "map_step (OpRemove k) (Done (Inr _)) m = Some (m(k := None))"
| "map_step (OpRemove k) (Done (Inl _)) m = Some m"
| "map_step _ _ m = None"

fun run_map :: "store_op list \<Rightarrow> store_reply list \<Rightarrow> (key \<rightharpoonup> value) \<Rightarrow> (key \<rightharpoonup> value) option" where
  "run_map [] [] m = Some m"
| "run_map (x # xs) (r # rs) m = (case map_step x r m of None \<Rightarrow> None | Some m \<Rightarrow> run_map xs rs m)"
| "run_map _ _ m = None"

fun reply_ok :: "store_reply \<Rightarrow> bool" where
  "reply_ok (Got r) = True"
| "reply_ok (Done r) = IsOk r"

context backing_store
begin

lemma step_refines:
  assumes "inv b" and "op_storable x" and "store_step B x b = (r, b')"
  shows "inv b' \<and> map_step x r (abs b) = Some (abs b') \<and>
    (clean b \<and> reply_ok r \<longrightarrow> clean b') \<and> (bhealthy b \<longrightarrow> reply_ok r \<and> bhealthy b')"
proof (cases x)
  case (OpGet k)
  then obtain g where g: "Bs_Get B k b = (g, b')" "r = Got g"
    using assms(3) by (auto split: prod.splits)
  show ?thesis
    using get_keeps [OF assms(1) g(1)] get_ok [OF assms(1)] get_NotFound [OF assms(1)] g OpGet
    by (cases g) auto
next
  case (OpPut k v)
  then obtain g where g: "Bs_Put B k v b = (g, b')" "r = Done g"
    using assms(3) by (auto split: prod.splits)
  show ?thesis
    using put_ok [OF assms(1)] put_err [OF assms(1)] put_healthy [OF assms(1) _ _ _ g(1)] assms(2) g OpPut
    by (cases g) auto
next
  case (OpRemove k)
  then obtain g where g: "Bs_Remove B k b = (g, b')" "r = Done g"
    using assms(3) by (auto split: prod.splits)
  show ?thesis
    using remove_ok [OF assms(1)] remove_err [OF assms(1)] remove_healthy [OF assms(1) _ _ g(1)] assms(2) g OpRemove
    by (cases g) auto
qed

lemma run_refines:
  assumes "inv b" and "\<forall>x\<in>set xs. op_storable x" and "run_store B xs b = (rs, b')"
  shows "inv b' \<and> run_map xs rs (abs b) = Some (abs b') \<and>
    (clean b \<and> (\<forall>r\<in>set rs. reply_ok r) \<longrightarrow> clean b') \<and>
    (bhealthy b \<longrightarrow> (\<forall>r\<in>set rs. reply_ok r) \<and> bhealthy b')"
  using assms
proof (induction xs arbitrary: b rs)
  case Nil
  then show ?case by auto
next
  case (Cons x xs)
  obtain r b1 rs1 where st: "store_step B x b = (r, b1)" "run_store B xs b1 = (rs1, b')" "rs = r # rs1"
    using Cons.prems(3) by (auto split: prod.splits)
  have one: "inv b1 \<and> map_step x r (abs b) = Some (abs b1) \<and>
    (clean b \<and> reply_ok r \<longrightarrow> clean b1) \<and> (bhealthy b \<longrightarrow> reply_ok r \<and> bhealthy b1)"
    by (rule step_refines) (use Cons.prems st in auto)
  show ?case
    using Cons.IH [of b1 rs1] one st Cons.prems(2) by simp
qed

end

section \<open>FileBackingStore\<close>

definition kMagic :: u32 where
  "kMagic = 0x51434253"

definition kMaxReasonableLength :: u32 where
  "kMaxReasonableLength = 256 * 1024 * 1024"

record IndexEntry =
  recordOffset :: nat
  tombstone :: bool

record 'f FileBackingStore =
  fbs_file :: 'f
  index :: "(key \<times> IndexEntry) list"
  endOffset :: nat
  nextSequence :: u64

text \<open>One record of the log as the scan reads it.\<close>

record StoreRecord =
  sr_sequence :: u64
  sr_tombstone :: byte
  sr_key :: key
  sr_value :: "value"

definition store_body :: "u32 \<Rightarrow> u64 \<Rightarrow> byte \<Rightarrow> u32 \<Rightarrow> bytes \<Rightarrow> u32 \<Rightarrow> bytes \<Rightarrow> bytes" where
  "store_body magic sequence tomb keyLength keyBytes valueLength valueBytes =
     le_bytes 4 magic @ le_bytes 8 sequence @ le_bytes 1 tomb @ le_bytes 4 keyLength
     @ keyBytes @ le_bytes 4 valueLength @ valueBytes"

text \<open>\<^verbatim>\<open>if (n > 0 && !ReadExact(...)) break;\<close>\<close>

definition read_field :: "'f IFile \<Rightarrow> u32 \<Rightarrow> 'f \<Rightarrow> bytes option \<times> 'f" where
  "read_field F n f = (if n > 0 then ReadExact F (unat n) f else (Some [], f))"

definition read_store_record :: "'f IFile \<Rightarrow> 'f \<Rightarrow> StoreRecord option \<times> 'f" where
  "read_store_record F f =
     and_then (ReadExact F 4 f) (\<lambda>magic f.
       if le_word magic \<noteq> kMagic then (None, f) else
     and_then (ReadExact F 8 f) (\<lambda>sequence f.
     and_then (ReadExact F 1 f) (\<lambda>tomb f.
     and_then (ReadExact F 4 f) (\<lambda>keyLength f.
       if le_word keyLength > kMaxReasonableLength then (None, f) else
     and_then (read_field F (le_word keyLength) f) (\<lambda>keyBytes f.
     and_then (ReadExact F 4 f) (\<lambda>valueLength f.
       if le_word valueLength > kMaxReasonableLength then (None, f) else
     and_then (read_field F (le_word valueLength) f) (\<lambda>valueBytes f.
     and_then (ReadExact F 4 f) (\<lambda>storedCrc f.
       let forCrc = store_body (le_word magic) (le_word sequence) (le_word tomb)
             (le_word keyLength) keyBytes (le_word valueLength) valueBytes
       in if Compute forCrc \<noteq> le_word storedCrc then (None, f)
          else (Some \<lparr>sr_sequence = le_word sequence, sr_tombstone = le_word tomb,
                      sr_key = keyBytes, sr_value = valueBytes\<rparr>, f)))))))))"

text \<open>The scan loop; \<open>None\<close> would be a scan that never ends.\<close>

partial_function (option) scan_loop ::
  "'f IFile \<Rightarrow> 'f \<Rightarrow> nat \<Rightarrow> (key \<times> IndexEntry) list \<Rightarrow> u64
     \<Rightarrow> (nat \<times> (key \<times> IndexEntry) list \<times> u64 \<times> 'f) option" where
  "scan_loop F f offset idx maxSequence =
     (case read_store_record F f of
        (None, f) \<Rightarrow> Some (offset, idx, maxSequence, f)
      | (Some r, f) \<Rightarrow>
          scan_loop F f
            (offset + 4 + 8 + 1 + 4 + length (sr_key r) + 4 + length (sr_value r) + 4)
            (AList.update (sr_key r) \<lparr>recordOffset = offset, tombstone = sr_tombstone r \<noteq> 0\<rparr> idx)
            (max maxSequence (sr_sequence r)))"

declare scan_loop.simps [code]

text \<open>Dropping the torn tail, at the end of \<^verbatim>\<open>Initialize\<close>.\<close>

definition trim_tail :: "'f IFile \<Rightarrow> nat \<Rightarrow> 'f \<Rightarrow> unit result \<times> 'f" where
  "trim_tail F validEnd f =
     (case IFile_Size F f of
        (Inl _, f) \<Rightarrow> (Success (), f)
      | (Inr sz, f) \<Rightarrow>
          if sz \<noteq> validEnd then
            (case IFile_SetLength F validEnd f of
               (Inl e, f) \<Rightarrow> (Failure e, f)
             | (Inr _, f) \<Rightarrow> IFile_FlushDurable F f)
          else (Success (), f))"

definition FileBackingStore_Initialize ::
  "'f IFile \<Rightarrow> 'f FileBackingStore \<Rightarrow> (unit result \<times> 'f FileBackingStore) option" where
  "FileBackingStore_Initialize F s =
     (case IFile_Seek F 0 False (fbs_file s) of
        (Inl e, f) \<Rightarrow> Some (Failure e, s\<lparr>fbs_file := f\<rparr>)
      | (Inr _, f) \<Rightarrow>
          (case scan_loop F f 0 (index s) 0 of
             None \<Rightarrow> None
           | Some (validEnd, idx, maxSequence, f) \<Rightarrow>
               (case trim_tail F validEnd f of
                  (r, f) \<Rightarrow>
                    Some (r, s\<lparr>fbs_file := f, index := idx, nextSequence := maxSequence + 1,
                               endOffset := validEnd\<rparr>))))"

text \<open>A read whose failure is reported as \<open>CorruptData\<close>.\<close>

definition or_corrupt ::
  "('x option \<times> 'f) \<Rightarrow> string \<Rightarrow> ('x \<Rightarrow> 'f \<Rightarrow> 'y result \<times> 'f) \<Rightarrow> 'y result \<times> 'f" where
  "or_corrupt m msg k =
     (case m of (None, f) \<Rightarrow> (Failure (mkError CorruptData msg), f) | (Some x, f) \<Rightarrow> k x f)"

definition read_header :: "'f IFile \<Rightarrow> 'f \<Rightarrow> (u64 \<times> byte \<times> u32) option \<times> 'f" where
  "read_header F f =
     and_then (ReadExact F 4 f) (\<lambda>magic f.
       if le_word magic \<noteq> kMagic then (None, f) else
     and_then (ReadExact F 8 f) (\<lambda>sequence f.
     and_then (ReadExact F 1 f) (\<lambda>tomb f.
     and_then (ReadExact F 4 f) (\<lambda>keyLength f.
       (Some (le_word sequence, le_word tomb, le_word keyLength), f)))))"

definition Get_record :: "'f IFile \<Rightarrow> 'f \<Rightarrow> value result \<times> 'f" where
  "Get_record F f =
     or_corrupt (read_header F f) ''backing store record header unreadable at indexed offset''
       (\<lambda>(sequence, tomb, keyLength) f.
     or_corrupt (read_field F keyLength f) ''backing store record key unreadable at indexed offset''
       (\<lambda>keyBytes f.
     or_corrupt (ReadExact F 4 f) ''backing store record value length unreadable''
       (\<lambda>valueLength f.
     or_corrupt (read_field F (le_word valueLength) f) ''backing store record value unreadable''
       (\<lambda>valueBytes f. (Success valueBytes, f)))))"

definition FileBackingStore_Get :: "'f IFile \<Rightarrow> key \<Rightarrow> 'f FileBackingStore \<Rightarrow> value result \<times> 'f FileBackingStore" where
  "FileBackingStore_Get F k s =
     (let absent = (Failure (mkError_key NotFound ''key not present in backing store: '' k ''''), s)
      in case map_of (index s) k of
           None \<Rightarrow> absent
         | Some it \<Rightarrow>
             if tombstone it then absent
             else (case IFile_Seek F (int (recordOffset it)) False (fbs_file s) of
                     (Inl e, f) \<Rightarrow> (Failure e, s\<lparr>fbs_file := f\<rparr>)
                   | (Inr _, f) \<Rightarrow>
                       (case Get_record F f of (r, f) \<Rightarrow> (r, s\<lparr>fbs_file := f\<rparr>))))"

text \<open>The bytes \<^verbatim>\<open>AppendRecord\<close> builds.\<close>

definition append_frame :: "u64 \<Rightarrow> key \<Rightarrow> value \<Rightarrow> bool \<Rightarrow> bytes" where
  "append_frame sequence k v tomb =
     (let body = store_body kMagic sequence (if tomb then 1 else 0) (of_nat (length k)) k
                   (of_nat (if tomb then 0 else length v)) (if tomb then [] else v)
      in body @ le_bytes 4 (Compute body))"

definition AppendRecord ::
  "'f IFile \<Rightarrow> key \<Rightarrow> value \<Rightarrow> bool \<Rightarrow> 'f FileBackingStore \<Rightarrow> unit result \<times> 'f FileBackingStore" where
  "AppendRecord F k v tomb s =
     (let frame = append_frame (nextSequence s) k v tomb
      in case IFile_Seek F (int (endOffset s)) False (fbs_file s) of
           (Inl e, f) \<Rightarrow> (Failure e, s\<lparr>fbs_file := f\<rparr>)
         | (Inr _, f) \<Rightarrow>
             (case IFile_Write F frame f of
                (Inl _, f) \<Rightarrow>
                  (Failure (mkError IoError ''backing store append: short write''), s\<lparr>fbs_file := f\<rparr>)
              | (Inr n, f) \<Rightarrow>
                  if n \<noteq> length frame
                  then (Failure (mkError IoError ''backing store append: short write''), s\<lparr>fbs_file := f\<rparr>)
                  else (case IFile_FlushDurable F f of
                          (Inl e, f) \<Rightarrow> (Failure e, s\<lparr>fbs_file := f\<rparr>)
                        | (Inr _, f) \<Rightarrow>
                            (Success (),
                             s\<lparr>fbs_file := f,
                               index := AList.update k \<lparr>recordOffset = endOffset s, tombstone = tomb\<rparr> (index s),
                               endOffset := endOffset s + length frame,
                               nextSequence := nextSequence s + 1\<rparr>))))"

definition FileBackingStore_Put :: "'f IFile \<Rightarrow> key \<Rightarrow> value \<Rightarrow> 'f FileBackingStore \<Rightarrow> unit result \<times> 'f FileBackingStore" where
  "FileBackingStore_Put F k v s = AppendRecord F k v False s"

definition FileBackingStore_Remove :: "'f IFile \<Rightarrow> key \<Rightarrow> 'f FileBackingStore \<Rightarrow> unit result \<times> 'f FileBackingStore" where
  "FileBackingStore_Remove F k s =
     (case map_of (index s) k of
        None \<Rightarrow> (Success (), s)
      | Some it \<Rightarrow> if tombstone it then (Success (), s) else AppendRecord F k [] True s)"

definition FileBackingStore_Contains :: "key \<Rightarrow> 'f FileBackingStore \<Rightarrow> bool" where
  "FileBackingStore_Contains k s = (case map_of (index s) k of None \<Rightarrow> False | Some it \<Rightarrow> \<not> tombstone it)"

definition FileBackingStore_EntryCount :: "'f FileBackingStore \<Rightarrow> nat" where
  "FileBackingStore_EntryCount s = foldl (\<lambda>count (k, entry). if \<not> tombstone entry then count + 1 else count) 0 (index s)"

definition FileBackingStore_ops :: "'f IFile \<Rightarrow> 'f FileBackingStore IBackingStore" where
  "FileBackingStore_ops F =
     \<lparr>Bs_Get = FileBackingStore_Get F, Bs_Put = FileBackingStore_Put F, Bs_Remove = FileBackingStore_Remove F, Bs_Contains = FileBackingStore_Contains,
      Bs_EntryCount = FileBackingStore_EntryCount\<rparr>"

definition OpenFileBackingStore ::
  "'f IFile \<Rightarrow> 'f result \<Rightarrow> 'f FileBackingStore result option" where
  "OpenFileBackingStore F fileResult =
     (case fileResult of
        Inl e \<Rightarrow> Some (Failure e)
      | Inr f \<Rightarrow>
          (case FileBackingStore_Initialize F \<lparr>fbs_file = f, index = [], endOffset = 0, nextSequence = 0\<rparr> of
             None \<Rightarrow> None
           | Some (Inl e, _) \<Rightarrow> Some (Failure e)
           | Some (Inr _, s) \<Rightarrow> Some (Success s)))"

section \<open>What the bytes of the log mean\<close>

definition store_frame :: "StoreRecord \<Rightarrow> bytes" where
  "store_frame r =
     (let body = store_body kMagic (sr_sequence r) (sr_tombstone r) (of_nat (length (sr_key r)))
                   (sr_key r) (of_nat (length (sr_value r))) (sr_value r)
      in body @ le_bytes 4 (Compute body))"

definition record_ok :: "StoreRecord \<Rightarrow> bool" where
  "record_ok r \<longleftrightarrow> storable (sr_key r) \<and> storable (sr_value r)"

lemma length_store_body [simp]:
  "length (store_body m s t kl k vl v) = 21 + length k + length v"
  by (simp add: store_body_def)

lemma length_store_frame [simp]:
  "length (store_frame r) = 25 + length (sr_key r) + length (sr_value r)"
  by (simp add: store_frame_def Let_def)

lemma storable_word:
  assumes "storable x"
  shows "unat (of_nat (length x) :: u32) = length x"
    and "\<not> (of_nat (length x) :: u32) > kMaxReasonableLength"
  using assms by (simp_all add: storable_def kMaxReasonableLength_def word_less_nat_alt)

lemma read_field_list_file:
  "read_field list_file w bs = ReadExact list_file (unat w) bs"
  by (cases "w = 0") (simp_all add: read_field_def ReadExact_list_file word_gt_0)

lemma ReadExact_list_append:
  "length x = n \<Longrightarrow> ReadExact list_file n (x @ rest) = (Some x, rest)"
  by (simp add: ReadExact_list_file)

lemma ReadExact_list_Some:
  "ReadExact list_file n bs = (Some x, rest) \<longleftrightarrow> bs = x @ rest \<and> length x = n"
  by (auto simp: ReadExact_list_file)

lemma and_then_Some:
  "and_then m k = (Some y, g) \<longleftrightarrow> (\<exists>x f. m = (Some x, f) \<and> k x f = (Some y, g))"
  by (auto simp: and_then_def split: prod.splits option.splits)

lemma store_frame_layout:
  "store_frame r @ rest =
      le_bytes 4 kMagic @ le_bytes 8 (sr_sequence r) @ le_bytes 1 (sr_tombstone r)
      @ le_bytes 4 (of_nat (length (sr_key r)) :: u32) @ sr_key r
      @ le_bytes 4 (of_nat (length (sr_value r)) :: u32) @ sr_value r
      @ le_bytes 4 (Compute (store_body kMagic (sr_sequence r) (sr_tombstone r)
          (of_nat (length (sr_key r))) (sr_key r) (of_nat (length (sr_value r))) (sr_value r)))
      @ rest"
  by (simp add: store_frame_def Let_def store_body_def del: One_nat_def)

lemma read_store_record_frame:
  assumes "record_ok r"
  shows "read_store_record list_file (store_frame r @ rest) = (Some r, rest)"
proof -
  have k: "storable (sr_key r)" and v: "storable (sr_value r)"
    using assms by (simp_all add: record_ok_def)
  show ?thesis
    unfolding store_frame_layout read_store_record_def read_field_list_file
    using storable_word [OF k] storable_word [OF v]
    by (simp add: ReadExact_list_append del: One_nat_def)
qed

lemma read_store_record_Some:
  assumes "read_store_record list_file bs = (Some r, rest)"
  shows "record_ok r \<and> bs = store_frame r @ rest"
proof -
  obtain magic sequence tomb kl k vl v crc where f:
    "bs = magic @ sequence @ tomb @ kl @ k @ vl @ v @ crc @ rest"
    "length magic = 4" "length sequence = 8" "length tomb = 1" "length kl = 4"
    "length k = unat (le_word kl :: u32)" "length vl = 4" "length v = unat (le_word vl :: u32)"
    "length crc = 4"
    "le_word magic = kMagic" "\<not> le_word kl > kMaxReasonableLength" "\<not> le_word vl > kMaxReasonableLength"
    "Compute (store_body kMagic (le_word sequence) (le_word tomb) (le_word kl) k (le_word vl) v) = le_word crc"
    "r = \<lparr>sr_sequence = le_word sequence, sr_tombstone = le_word tomb, sr_key = k, sr_value = v\<rparr>"
    using assms unfolding read_store_record_def read_field_list_file
    by (auto simp: and_then_Some ReadExact_list_Some Let_def split: if_splits)
  have words: "of_nat (length k) = (le_word kl :: u32)" "of_nat (length v) = (le_word vl :: u32)"
    using f(6,8) by simp_all
  have "le_bytes 4 kMagic = magic"
    using f(2) f(10) by (metis le_bytes_le_word_32)
  moreover have "le_bytes 4 (le_word kl :: u32) = kl" "le_bytes 4 (le_word vl :: u32) = vl"
    "le_bytes 4 (le_word crc :: u32) = crc" "le_bytes 8 (le_word sequence :: u64) = sequence"
    "le_bytes 1 (le_word tomb :: byte) = tomb"
    using f(3-9) by (simp_all add: le_bytes_le_word_32 le_bytes_le_word_64 le_bytes_le_word_8
        del: One_nat_def)
  ultimately have "bs = store_frame r @ rest"
    using f(1,13,14) words by (simp add: store_frame_def Let_def store_body_def del: One_nat_def)
  moreover have "record_ok r"
    using f(6,8,11,12,14)
    by (simp add: record_ok_def storable_def kMaxReasonableLength_def word_less_nat_alt)
  ultimately show ?thesis by blast
qed

function store_scan :: "bytes \<Rightarrow> StoreRecord list" where
  "store_scan bs =
     (case read_store_record list_file bs of (None, _) \<Rightarrow> [] | (Some r, rest) \<Rightarrow> r # store_scan rest)"
  by pat_completeness auto
termination
  by (relation "measure length") (auto dest!: read_store_record_Some [OF sym])

declare store_scan.simps [simp del]

lemma store_scan_None: "fst (read_store_record list_file bs) = None \<Longrightarrow> store_scan bs = []"
  by (cases "read_store_record list_file bs") (simp add: store_scan.simps)

lemma store_scan_Some: "read_store_record list_file bs = (Some r, rest) \<Longrightarrow> store_scan bs = r # store_scan rest"
  by (simp add: store_scan.simps)

lemma store_scan_frame: "record_ok r \<Longrightarrow> store_scan (store_frame r @ rest) = r # store_scan rest"
  by (subst store_scan.simps) (simp add: read_store_record_frame)

lemma store_scan_frames:
  "\<forall>r\<in>set rs. record_ok r \<Longrightarrow> store_scan (concat (map store_frame rs) @ rest) = rs @ store_scan rest"
  by (induction rs) (simp_all add: store_scan_frame)

lemma store_scan_ok: "\<forall>r\<in>set (store_scan bs). record_ok r"
proof (induction bs rule: store_scan.induct)
  case (1 bs)
  show ?case
  proof (cases "read_store_record list_file bs")
    case (Pair o1 rest)
    then show ?thesis
      using 1 by (cases o1) (auto simp: store_scan_None store_scan_Some dest: read_store_record_Some)
  qed
qed

lemma store_scan_prefix: "\<exists>tail. bs = concat (map store_frame (store_scan bs)) @ tail"
proof (induction bs rule: store_scan.induct)
  case (1 bs)
  show ?case
  proof (cases "read_store_record list_file bs")
    case (Pair o1 rest)
    show ?thesis
    proof (cases o1)
      case (Some r)
      then show ?thesis
        using Pair 1 read_store_record_Some [of bs r rest] store_scan_Some [of bs r rest] by auto
    qed (simp add: Pair store_scan_None)
  qed
qed

text \<open>A proper prefix of a record is never taken for one.\<close>

lemma store_scan_Nil [simp]: "store_scan [] = []"
  by (rule store_scan_None) (simp add: read_store_record_def ReadExact_list_file)

lemma store_scan_torn:
  assumes "record_ok r" and "m < length (store_frame r)"
  shows "store_scan (take m (store_frame r)) = []"
proof (rule store_scan_None, rule ccontr)
  assume "fst (read_store_record list_file (take m (store_frame r))) \<noteq> None"
  then obtain q rest where "read_store_record list_file (take m (store_frame r)) = (Some q, rest)"
    by (metis prod.collapse not_None_eq)
  then have q: "record_ok q" "take m (store_frame r) = store_frame q @ rest"
    using read_store_record_Some by blast+
  then have "store_frame r = store_frame q @ rest @ drop m (store_frame r)"
    by (metis append.assoc append_take_drop_id)
  then have "q = r"
    using read_store_record_frame [OF q(1)] read_store_record_frame [OF assms(1), of "[]"]
    by (metis append.right_neutral fst_conv option.inject)
  then have "length (store_frame r) \<le> length (take m (store_frame r))"
    using q(2) by simp
  then show False
    using assms(2) by simp
qed

text \<open>The bytes of a record with an oversized value do not start with a readable record.\<close>

lemma oversized_frame:
  assumes "store_frame q = store_frame x @ rest" and "record_ok x" and "storable (sr_key q)"
    and "256 * 1024 * 1024 < length (sr_value q)" and "length (sr_value q) < 2 ^ 32"
  shows False
proof -
  have ok: "storable (sr_key x)" "storable (sr_value x)"
    using assms(2) by (simp_all add: record_ok_def)
  have eq: "store_frame q @ [] = store_frame x @ rest"
    using assms(1) by simp
  have "le_bytes 4 (of_nat (length (sr_key q)) :: u32) = le_bytes 4 (of_nat (length (sr_key x)) :: u32)"
    using eq unfolding store_frame_layout by simp
  then have kl: "length (sr_key q) = length (sr_key x)"
    using storable_word(1) [OF assms(3)] storable_word(1) [OF ok(1)] by (metis le_bytes_inject_32)
  then have "le_bytes 4 (of_nat (length (sr_value q)) :: u32) = le_bytes 4 (of_nat (length (sr_value x)) :: u32)"
    using eq unfolding store_frame_layout by simp
  moreover have "unat (of_nat (length (sr_value q)) :: u32) = length (sr_value q)"
    using assms(5) by simp
  ultimately have "length (sr_value q) = length (sr_value x)"
    using storable_word(1) [OF ok(2)] by (metis le_bytes_inject_32)
  then show False
    using ok(2) assms(4) by (simp add: storable_def)
qed

section \<open>The map and the index of a log\<close>

definition apply_record :: "(key \<rightharpoonup> value) \<Rightarrow> StoreRecord \<Rightarrow> (key \<rightharpoonup> value)" where
  "apply_record m r = m(sr_key r := if sr_tombstone r \<noteq> 0 then None else Some (sr_value r))"

definition store_map :: "StoreRecord list \<Rightarrow> key \<rightharpoonup> value" where
  "store_map rs = foldl apply_record Map.empty rs"

fun index_records :: "nat \<Rightarrow> StoreRecord list \<Rightarrow> (key \<times> IndexEntry) list \<Rightarrow> (key \<times> IndexEntry) list" where
  "index_records off [] idx = idx"
| "index_records off (r # rs) idx =
     index_records (off + length (store_frame r)) rs
       (AList.update (sr_key r) \<lparr>recordOffset = off, tombstone = sr_tombstone r \<noteq> 0\<rparr> idx)"

lemma store_map_Nil [simp]: "store_map [] = Map.empty"
  by (simp add: store_map_def)

lemma store_map_snoc [simp]: "store_map (rs @ [r]) = apply_record (store_map rs) r"
  by (simp add: store_map_def)

lemma index_records_snoc [simp]:
  "index_records off (rs @ [r]) idx =
     AList.update (sr_key r)
       \<lparr>recordOffset = off + length (concat (map store_frame rs)), tombstone = sr_tombstone r \<noteq> 0\<rparr>
       (index_records off rs idx)"
  by (induction rs arbitrary: off idx) (simp_all add: add.assoc)

lemma index_records_distinct:
  "distinct (map fst idx) \<Longrightarrow> distinct (map fst (index_records off rs idx))"
  by (induction rs arbitrary: off idx) (simp_all add: distinct_update)

lemma index_records_None:
  "map_of (index_records 0 rs []) k = None \<Longrightarrow> store_map rs k = None"
  by (induction rs rule: rev_induct) (auto simp: update_conv' apply_record_def split: if_splits)

lemma index_records_Some:
  assumes "map_of (index_records 0 rs []) k = Some it"
  obtains pre r post where "rs = pre @ r # post" "sr_key r = k"
    "recordOffset it = length (concat (map store_frame pre))" "tombstone it \<longleftrightarrow> sr_tombstone r \<noteq> 0"
    "store_map rs k = (if tombstone it then None else Some (sr_value r))"
  using assms
proof (induction rs arbitrary: thesis rule: rev_induct)
  case Nil
  then show ?case by simp
next
  case (snoc q rs)
  show ?case
  proof (cases "sr_key q = k")
    case True
    then show ?thesis
      using snoc.prems(2) by (intro snoc.prems(1) [of rs q "[]"]) (auto simp: update_conv' apply_record_def)
  next
    case False
    then obtain pre r post where r: "rs = pre @ r # post" "sr_key r = k"
      "recordOffset it = length (concat (map store_frame pre))" "tombstone it \<longleftrightarrow> sr_tombstone r \<noteq> 0"
      "store_map rs k = (if tombstone it then None else Some (sr_value r))"
      using snoc.IH snoc.prems(2) by (metis fun_upd_other index_records_snoc update_conv')
    then show ?thesis
      using False store_map_snoc [of rs q]
      by (intro snoc.prems(1) [of pre r "post @ [q]"]) (auto simp: apply_record_def)
  qed
qed

lemma index_records_lookup:
  "store_map rs k = None \<longleftrightarrow>
     (case map_of (index_records 0 rs []) k of None \<Rightarrow> True | Some it \<Rightarrow> tombstone it)"
proof (cases "map_of (index_records 0 rs []) k")
  case None
  then show ?thesis by (simp add: index_records_None)
next
  case (Some it)
  show ?thesis
    unfolding Some by (rule index_records_Some [OF Some]) simp
qed

lemma entry_count_fold:
  "foldl (\<lambda>count (k, e). if \<not> tombstone e then count + 1 else count) n (idx :: (key \<times> IndexEntry) list)
     = n + length (filter (\<lambda>(k, e). \<not> tombstone e) idx)"
  by (induction idx arbitrary: n) auto

lemma index_records_count:
  "length (filter (\<lambda>(k, e). \<not> tombstone e) (index_records 0 rs [])) = card (dom (store_map rs))"
proof -
  let ?idx = "index_records 0 rs []"
  have d: "distinct (map fst ?idx)"
    by (rule index_records_distinct) simp
  have dom: "dom (store_map rs) = fst ` set (filter (\<lambda>(k, e). \<not> tombstone e) ?idx)"
  proof (rule set_eqI)
    fix k
    have "k \<in> dom (store_map rs) \<longleftrightarrow> (\<exists>it. map_of ?idx k = Some it \<and> \<not> tombstone it)"
      using index_records_lookup [of rs k] by (auto split: option.splits)
    also have "\<dots> \<longleftrightarrow> k \<in> fst ` set (filter (\<lambda>(k, e). \<not> tombstone e) ?idx)"
      using d by (force simp: map_of_eq_Some_iff image_iff)
    finally show "k \<in> dom (store_map rs) \<longleftrightarrow> k \<in> fst ` set (filter (\<lambda>(k, e). \<not> tombstone e) ?idx)" .
  qed
  have "distinct (map fst (filter (\<lambda>(k, e). \<not> tombstone e) ?idx))"
    using d by (simp add: distinct_map_filter)
  from distinct_card [OF this] show ?thesis
    unfolding dom by simp
qed

lemma or_corrupt_simps [simp]:
  "or_corrupt (None, f) msg k = (Failure (mkError CorruptData msg), f)"
  "or_corrupt (Some x, f) msg k = k x f"
  by (simp_all add: or_corrupt_def)

lemma Get_record_frame:
  assumes "record_ok r"
  shows "fst (Get_record list_file (store_frame r @ rest)) = Success (sr_value r)"
proof -
  have k: "storable (sr_key r)" and v: "storable (sr_value r)"
    using assms by (simp_all add: record_ok_def)
  show ?thesis
    unfolding store_frame_layout Get_record_def read_header_def read_field_list_file
    using storable_word [OF k] storable_word [OF v]
    by (simp add: ReadExact_list_append del: One_nat_def)
qed

section \<open>The operations on a file that meets its contract\<close>

context file_contract
begin

definition fbs_records :: "'f FileBackingStore \<Rightarrow> StoreRecord list" where
  "fbs_records s = store_scan (take (endOffset s) (content (fbs_file s)))"

definition fbs_inv :: "'f FileBackingStore \<Rightarrow> bool" where
  "fbs_inv s \<longleftrightarrow>
     endOffset s \<le> length (content (fbs_file s)) \<and>
     take (endOffset s) (content (fbs_file s)) = concat (map store_frame (fbs_records s)) \<and>
     index s = index_records 0 (fbs_records s) []"

definition fbs_abs :: "'f FileBackingStore \<Rightarrow> key \<rightharpoonup> value" where
  "fbs_abs s = store_map (fbs_records s)"

definition fbs_disk :: "'f FileBackingStore \<Rightarrow> key \<rightharpoonup> value" where
  "fbs_disk s = store_map (store_scan (content (fbs_file s)))"

definition fbs_clean :: "'f FileBackingStore \<Rightarrow> bool" where
  "fbs_clean s \<longleftrightarrow>
     length (content (fbs_file s)) = endOffset s \<and> durable (fbs_file s) = content (fbs_file s)"

definition fbs_healthy :: "'f FileBackingStore \<Rightarrow> bool" where
  "fbs_healthy s \<longleftrightarrow> healthy (fbs_file s)"

lemma fbs_records_ok: "\<forall>r\<in>set (fbs_records s). record_ok r"
  by (simp add: fbs_records_def store_scan_ok)

lemma rsim_read_field: "rsim f (read_field F w f) (read_field list_file w (remaining f))"
  unfolding read_field_def by (intro rsim_intros)

lemma rsim_read_store_record:
  "rsim f (read_store_record F f) (read_store_record list_file (remaining f))"
  unfolding read_store_record_def by (intro rsim_intros rsim_read_field) simp_all

lemma rsim_read_header: "rsim f (read_header F f) (read_header list_file (remaining f))"
  unfolding read_header_def by (intro rsim_intros) simp_all

text \<open>A read that returns a value has read it from the bytes ahead; on a healthy file it does.\<close>

lemma rsim_Some: "rsim f (Some x, f') l \<Longrightarrow> l = (Some x, remaining f')"
  by (simp add: rsim_def)

lemma rsim_keeps:
  "rsim f (o1, f') l \<Longrightarrow> content f' = content f \<and> durable f' = durable f \<and> (healthy f \<longrightarrow> healthy f')"
  by (simp add: rsim_def)

lemma rsim_healthy_Some: "rsim f m (Some x, bs) \<Longrightarrow> healthy f \<Longrightarrow> \<exists>f'. m = (Some x, f')"
  by (cases m; cases "fst m") (auto simp: rsim_def)

text \<open>The scan ends; it indexes a prefix of the records of the file, all of them if no read fails.\<close>

lemma scan_loop_records:
  "\<exists>n f' mx. scan_loop F f off idx mx0 =
       Some (off + length (concat (map store_frame (take n (store_scan (remaining f))))),
             index_records off (take n (store_scan (remaining f))) idx, mx, f')
     \<and> content f' = content f \<and> durable f' = durable f
     \<and> (healthy f \<longrightarrow> healthy f' \<and> n = length (store_scan (remaining f)))"
proof (induction "length (remaining f)" arbitrary: f off idx mx0 rule: less_induct)
  case less
  obtain o1 f1 where rd: "read_store_record F f = (o1, f1)"
    by (cases "read_store_record F f") auto
  have sim: "rsim f (o1, f1) (read_store_record list_file (remaining f))"
    using rsim_read_store_record [of f] rd by simp
  note keeps = rsim_keeps [OF sim]
  show ?case
  proof (cases o1)
    case None
    have "healthy f \<Longrightarrow> store_scan (remaining f) = []"
      using sim None by (intro store_scan_None) (simp add: rsim_def)
    then show ?thesis
      using rd None keeps
      by (intro exI [of _ 0] exI [of _ f1] exI [of _ mx0]) (auto simp: scan_loop.simps [of F f])
  next
    case (Some r)
    have ls: "read_store_record list_file (remaining f) = (Some r, remaining f1)"
      using rsim_Some sim Some by simp
    note sc = store_scan_Some [OF ls]
    have "length (remaining f1) < length (remaining f)"
      using read_store_record_Some [OF ls] by simp
    from less [OF this, of "off + length (store_frame r)"
        "AList.update (sr_key r) \<lparr>recordOffset = off, tombstone = sr_tombstone r \<noteq> 0\<rparr> idx"
        "max mx0 (sr_sequence r)"]
    obtain n f2 mx where n: "scan_loop F f1 (off + length (store_frame r))
        (AList.update (sr_key r) \<lparr>recordOffset = off, tombstone = sr_tombstone r \<noteq> 0\<rparr> idx)
        (max mx0 (sr_sequence r)) =
       Some (off + length (store_frame r) + length (concat (map store_frame (take n (store_scan (remaining f1))))),
             index_records (off + length (store_frame r)) (take n (store_scan (remaining f1)))
               (AList.update (sr_key r) \<lparr>recordOffset = off, tombstone = sr_tombstone r \<noteq> 0\<rparr> idx), mx, f2)"
      "content f2 = content f1" "durable f2 = durable f1"
      "healthy f1 \<longrightarrow> healthy f2 \<and> n = length (store_scan (remaining f1))"
      by blast
    have "scan_loop F f off idx mx0 = scan_loop F f1 (off + length (store_frame r))
        (AList.update (sr_key r) \<lparr>recordOffset = off, tombstone = sr_tombstone r \<noteq> 0\<rparr> idx)
        (max mx0 (sr_sequence r))"
      using rd Some by (simp add: scan_loop.simps [of F f] ac_simps)
    then show ?thesis
      using keeps n sc
      by (intro exI [of _ "Suc n"] exI [of _ f2] exI [of _ mx])
        (simp add: add.assoc del: length_store_frame)
  qed
qed


text \<open>Reads whose failure is an error: what they return, they would return on the bytes ahead.\<close>

definition vsim :: "'f \<Rightarrow> 'y result \<times> 'f \<Rightarrow> 'y result \<times> bytes \<Rightarrow> bool" where
  "vsim f m l \<longleftrightarrow>
     content (snd m) = content f \<and> durable (snd m) = durable f \<and>
     (\<forall>v. fst m = Inr v \<longrightarrow> fst l = Inr v) \<and> (\<forall>e. fst m = Inl e \<longrightarrow> code e = CorruptData) \<and>
     (healthy f \<longrightarrow> healthy (snd m) \<and> IsOk (fst m) = IsOk (fst l))"

lemma vsim_or_corrupt:
  assumes m: "rsim f m l"
    and k: "\<And>x f'. m = (Some x, f') \<Longrightarrow> vsim f' (k x f') (k' x (remaining f'))"
  shows "vsim f (or_corrupt m msg k) (or_corrupt l msg k')"
proof (cases m)
  case (Pair o1 f1)
  show ?thesis
  proof (cases o1)
    case None
    then show ?thesis
      using m Pair by (cases l) (auto simp: rsim_def vsim_def or_corrupt_def)
  next
    case (Some x)
    then show ?thesis
      using m k [of x f1] Pair by (auto simp: rsim_def vsim_def or_corrupt_def)
  qed
qed

lemma vsim_case_prod:
  "(\<And>a b. x = (a, b) \<Longrightarrow> vsim f (g a b f) (h a b bs)) \<Longrightarrow> vsim f (case_prod g x f) (case_prod h x bs)"
  by (cases x) simp

lemma vsim_return: "vsim f (Success v, f) (Success v, bs)"
  by (simp add: vsim_def)

lemma vsim_Get_record: "vsim f (Get_record F f) (Get_record list_file (remaining f))"
  unfolding Get_record_def
  by (intro vsim_or_corrupt vsim_case_prod vsim_return rsim_read_header rsim_read_field rsim_ReadExact) simp_all

lemma Get_record_file:
  assumes "Get_record F f = (r, f')" and "record_ok q" and "remaining f = store_frame q @ rest"
  shows "content f' = content f \<and> durable f' = durable f \<and> (healthy f \<longrightarrow> healthy f') \<and>
    (case r of Inr v \<Rightarrow> v = sr_value q | Inl e \<Rightarrow> code e = CorruptData \<and> \<not> healthy f)"
  using vsim_Get_record [of f] Get_record_frame [OF assms(2), of rest] assms(1,3)
  by (auto simp: vsim_def split: sum.splits)

lemma fbs_file_upd [simp]:
  "content (fbs_file (s\<lparr>fbs_file := f\<rparr>)) = content f" by simp

lemma fbs_same:
  assumes "content f = content (fbs_file s)" and "durable f = durable (fbs_file s)"
  shows "fbs_inv (s\<lparr>fbs_file := f\<rparr>) = fbs_inv s" "fbs_abs (s\<lparr>fbs_file := f\<rparr>) = fbs_abs s"
    "fbs_disk (s\<lparr>fbs_file := f\<rparr>) = fbs_disk s" "fbs_clean (s\<lparr>fbs_file := f\<rparr>) = fbs_clean s"
  using assms by (simp_all add: fbs_inv_def fbs_abs_def fbs_disk_def fbs_clean_def fbs_records_def)

lemma fbs_lookup:
  assumes "fbs_inv s"
  shows "fbs_abs s k = None \<longleftrightarrow> (case map_of (index s) k of None \<Rightarrow> True | Some it \<Rightarrow> tombstone it)"
  using assms index_records_lookup [of "fbs_records s" k] by (simp add: fbs_inv_def fbs_abs_def)

lemma fbs_indexed:
  assumes "fbs_inv s" and "map_of (index s) k = Some it" and "\<not> tombstone it"
  obtains q rest where "record_ok q" "fbs_abs s k = Some (sr_value q)"
    "drop (recordOffset it) (content (fbs_file s)) = store_frame q @ rest"
proof -
  have "map_of (index_records 0 (fbs_records s) []) k = Some it"
    using assms by (simp add: fbs_inv_def)
  then obtain pre q post where q: "fbs_records s = pre @ q # post"
    "recordOffset it = length (concat (map store_frame pre))"
    "fbs_abs s k = (if tombstone it then None else Some (sr_value q))"
    unfolding fbs_abs_def by (rule index_records_Some)
  have "content (fbs_file s) = concat (map store_frame pre) @ store_frame q
      @ concat (map store_frame post) @ drop (endOffset s) (content (fbs_file s))"
    using assms(1) q(1) append_take_drop_id [of "endOffset s" "content (fbs_file s)"]
    by (simp add: fbs_inv_def)
  then have "drop (recordOffset it) (content (fbs_file s)) = store_frame q
      @ concat (map store_frame post) @ drop (endOffset s) (content (fbs_file s))"
    unfolding q(2) by (metis append_eq_conv_conj)
  moreover have "record_ok q"
    using fbs_records_ok [of s] q(1) by simp
  ultimately show thesis
    using that q(3) assms(3) by simp
qed

text \<open>Every outcome of \<open>Get\<close> on a store that satisfies its invariant.\<close>

lemma Get_outcome:
  assumes inv: "fbs_inv s" and g: "FileBackingStore_Get F k s = (r, s')"
  shows "\<exists>f'. s' = s\<lparr>fbs_file := f'\<rparr> \<and> content f' = content (fbs_file s) \<and>
      durable f' = durable (fbs_file s) \<and> (healthy (fbs_file s) \<longrightarrow> healthy f') \<and>
      (case r of Inr v \<Rightarrow> fbs_abs s k = Some v
       | Inl e \<Rightarrow> (code e = NotFound \<longleftrightarrow> fbs_abs s k = None) \<and>
           (fbs_abs s k = None \<or> \<not> healthy (fbs_file s)))"
proof (cases "fbs_abs s k = None")
  case True
  then show ?thesis
    using g fbs_lookup [OF inv, of k]
    by (intro exI [of _ "fbs_file s"]) (auto simp: FileBackingStore_Get_def split: option.splits)
next
  case False
  then obtain it where it: "map_of (index s) k = Some it" "\<not> tombstone it"
    using fbs_lookup [OF inv, of k] by (auto split: option.splits)
  obtain q rest where q: "record_ok q" "fbs_abs s k = Some (sr_value q)"
    "drop (recordOffset it) (content (fbs_file s)) = store_frame q @ rest"
    by (rule fbs_indexed [OF inv it])
  obtain sr f where sk: "IFile_Seek F (int (recordOffset it)) False (fbs_file s) = (sr, f)"
    by (cases "IFile_Seek F (int (recordOffset it)) False (fbs_file s)") auto
  have f: "content f = content (fbs_file s)" "durable f = durable (fbs_file s)"
      "healthy (fbs_file s) \<longrightarrow> IsOk sr \<and> healthy f"
    using seek_content [OF sk] seek_healthy [OF _ _ sk] by auto
  show ?thesis
  proof (cases sr)
    case (Inl e)
    then show ?thesis
      using g sk it f seek_err [of "int (recordOffset it)" False "fbs_file s" e f] q(2)
      by (auto simp: FileBackingStore_Get_def)
  next
    case (Inr p)
    obtain r2 f2 where gr: "Get_record F f = (r2, f2)"
      by (cases "Get_record F f") auto
    have "remaining f = store_frame q @ rest"
      using seek_start_ok [of "recordOffset it" "fbs_file s" p f] sk Inr f(1) q(3)
      by (simp add: remaining_def)
    from Get_record_file [OF gr q(1) this] show ?thesis
      using g sk it f q(2) Inr gr
      by (intro exI [of _ f2]) (auto simp: FileBackingStore_Get_def split: sum.splits)
  qed
qed


text \<open>The record \<open>AppendRecord\<close> writes.\<close>

definition new_record :: "key \<Rightarrow> value \<Rightarrow> bool \<Rightarrow> 'f FileBackingStore \<Rightarrow> StoreRecord" where
  "new_record k v tomb s =
     \<lparr>sr_sequence = nextSequence s, sr_tombstone = (if tomb then 1 else 0), sr_key = k,
      sr_value = (if tomb then [] else v)\<rparr>"

lemma append_frame_new_record:
  "append_frame (nextSequence s) k v tomb = store_frame (new_record k v tomb s)"
  by (simp add: append_frame_def store_frame_def new_record_def Let_def)

lemma new_record_ok: "storable k \<Longrightarrow> storable v \<Longrightarrow> record_ok (new_record k v tomb s)"
  by (simp add: record_ok_def new_record_def storable_def)

text \<open>The file works and takes the record in one write.\<close>

definition can_append :: "key \<Rightarrow> value \<Rightarrow> bool \<Rightarrow> 'f FileBackingStore \<Rightarrow> bool" where
  "can_append k v tomb s \<longleftrightarrow> healthy (fbs_file s) \<and> length (store_frame (new_record k v tomb s)) < 4294967296"

lemma AppendRecord_outcome:
  assumes inv: "fbs_inv s" and a: "AppendRecord F k v tomb s = (r, s')"
  shows "\<exists>f' m. content f' = overwrite (content (fbs_file s)) (endOffset s)
           (take m (store_frame (new_record k v tomb s))) \<and>
      (can_append k v tomb s \<longrightarrow> IsOk r \<and> healthy f') \<and>
      (case r of
         Inl e \<Rightarrow> s' = s\<lparr>fbs_file := f'\<rparr>
       | Inr _ \<Rightarrow> m = length (store_frame (new_record k v tomb s)) \<and>
           durable f' = content f' \<and>
           s' = s\<lparr>fbs_file := f',
                  index := AList.update k \<lparr>recordOffset = endOffset s, tombstone = tomb\<rparr> (index s),
                  endOffset := endOffset s + length (store_frame (new_record k v tomb s)),
                  nextSequence := nextSequence s + 1\<rparr>)"
proof -
  let ?fr = "store_frame (new_record k v tomb s)" and ?c = "content (fbs_file s)"
  have le: "endOffset s \<le> length ?c"
    using inv by (simp add: fbs_inv_def)
  obtain r1 f1 where sk: "IFile_Seek F (int (endOffset s)) False (fbs_file s) = (r1, f1)"
    by (cases "IFile_Seek F (int (endOffset s)) False (fbs_file s)") auto
  have c1: "content f1 = ?c" "can_append k v tomb s \<longrightarrow> IsOk r1 \<and> healthy f1"
    using seek_content [OF sk] seek_healthy [OF _ _ sk] by (auto simp: can_append_def)
  obtain r2 f2 where wr: "IFile_Write F ?fr f1 = (r2, f2)"
    by (cases "IFile_Write F ?fr f1") auto
  obtain r3 f3 where fl: "IFile_FlushDurable F f2 = (r3, f3)"
    by (cases "IFile_FlushDurable F f2") auto
  have c3: "content f3 = content f2" "healthy f2 \<longrightarrow> IsOk r3 \<and> healthy f3"
    using flush_content [OF fl] flush_healthy [OF _ fl] by auto
  note unfold = a [unfolded AppendRecord_def append_frame_new_record Let_def]
  show ?thesis
  proof (cases r1)
    case (Inl e)
    then show ?thesis
      using unfold sk c1 le by (intro exI [of _ f1] exI [of _ 0]) auto
  next
    case (Inr p)
    then have pos: "position f1 = endOffset s"
      using seek_start_ok [of "endOffset s"] sk by blast
    have h2: "can_append k v tomb s \<longrightarrow> r2 = Inr (length ?fr) \<and> healthy f2"
      using write_healthy [OF _ _ wr] c1 by (simp add: can_append_def)
    show ?thesis
    proof (cases "r2 = Inr (length ?fr)")
      case True
      then have c2: "content f2 = overwrite ?c (endOffset s) ?fr"
        using write_ok [of ?fr f1] wr pos c1(1) by simp
      have d3: "durable f3 = content f3" if "r3 = Inr ()"
        using flush_ok [of f2 "()" f3] fl that c3 by simp
      show ?thesis
        using unfold sk Inr wr True fl c2 c3 h2 d3
        by (intro exI [of _ f3] exI [of _ "length ?fr"])
          (auto split: sum.splits simp del: length_store_frame)
    next
      case False
      obtain m where "content f2 = overwrite ?c (endOffset s) (take m ?fr)"
        using write_any [OF _ wr] pos c1(1) le by auto
      then show ?thesis
        using unfold sk Inr wr False h2
        by (intro exI [of _ f2] exI [of _ m])
          (auto split: sum.splits if_splits simp del: length_store_frame)
    qed
  qed
qed

lemma AppendRecord_healthy:
  "fbs_inv s \<Longrightarrow> fbs_healthy s \<Longrightarrow> length k + length v < 4294967200 \<Longrightarrow> AppendRecord F k v tomb s = (r, s') \<Longrightarrow>
     IsOk r \<and> fbs_healthy s'"
proof -
  assume a: "fbs_inv s" "fbs_healthy s" "length k + length v < 4294967200" "AppendRecord F k v tomb s = (r, s')"
  have "can_append k v tomb s"
    using a(2,3) by (simp add: can_append_def fbs_healthy_def new_record_def)
  then show ?thesis
    using AppendRecord_outcome [OF a(1,4)] by (cases r) (auto simp: fbs_healthy_def)
qed

lemma AppendRecord_ok:
  assumes inv: "fbs_inv s" and ok: "storable k" "storable v"
    and a: "AppendRecord F k v tomb s = (Inr u, s')"
  shows "fbs_inv s' \<and> fbs_abs s' = (fbs_abs s)(k := if tomb then None else Some v) \<and>
    (fbs_clean s \<longrightarrow> fbs_clean s') \<and> durable (fbs_file s') = content (fbs_file s')"
proof -
  let ?q = "new_record k v tomb s" and ?c = "content (fbs_file s)"
  have le: "endOffset s \<le> length ?c" and tk: "take (endOffset s) ?c = concat (map store_frame (fbs_records s))"
    and ix: "index s = index_records 0 (fbs_records s) []"
    using inv by (simp_all add: fbs_inv_def)
  obtain f' where f': "content f' = overwrite ?c (endOffset s) (store_frame ?q)" "durable f' = content f'"
    "s' = s\<lparr>fbs_file := f', index := AList.update k \<lparr>recordOffset = endOffset s, tombstone = tomb\<rparr> (index s),
            endOffset := endOffset s + length (store_frame ?q), nextSequence := nextSequence s + 1\<rparr>"
    using AppendRecord_outcome [OF inv a] by auto
  have off: "endOffset s = length (concat (map store_frame (fbs_records s)))"
    using arg_cong [OF tk, of length] le by simp
  let ?all = "concat (map store_frame (fbs_records s)) @ store_frame ?q"
  have c': "content (fbs_file s') = ?all @ drop (endOffset s + length (store_frame ?q)) ?c"
    using f' le tk by (simp add: overwrite_split del: length_store_frame)
  have e': "endOffset s' = length ?all"
    using f'(3) off by (simp del: length_store_frame length_concat)
  have tk': "take (endOffset s') (content (fbs_file s')) = ?all"
    unfolding c' e' by (rule append_eq_conv_conj [THEN iffD1, THEN conjunct1, symmetric, OF refl])
  then have recs: "fbs_records s' = fbs_records s @ [?q]"
    using store_scan_frames [of "fbs_records s @ [?q]" "[]"] fbs_records_ok [of s] new_record_ok [OF ok]
    by (simp add: fbs_records_def [of s'])
  have "fbs_inv s'"
    unfolding fbs_inv_def tk' recs
    using c' e' f'(3) ix off by (simp add: new_record_def del: length_store_frame length_concat)
  moreover have "fbs_abs s' = (fbs_abs s)(k := if tomb then None else Some v)"
    by (simp add: fbs_abs_def recs apply_record_def new_record_def)
  moreover have "fbs_clean s \<longrightarrow> fbs_clean s'"
    using f' by (auto simp: fbs_clean_def overwrite_split simp del: length_store_frame)
  ultimately show ?thesis
    using f' by simp
qed

lemma fbs_clean_disk: "fbs_clean s \<Longrightarrow> fbs_disk s = fbs_abs s"
  by (simp add: fbs_clean_def fbs_disk_def fbs_abs_def fbs_records_def)

lemma AppendRecord_err:
  assumes inv: "fbs_inv s" and a: "AppendRecord F k v tomb s = (Inl e, s')"
  shows "fbs_inv s' \<and> fbs_abs s' = fbs_abs s"
    and "fbs_clean s \<Longrightarrow> storable k \<Longrightarrow> storable v \<Longrightarrow>
      fbs_disk s' = fbs_abs s \<or> fbs_disk s' = (fbs_abs s)(k := if tomb then None else Some v)"
proof -
  let ?q = "new_record k v tomb s" and ?c = "content (fbs_file s)"
  have le: "endOffset s \<le> length ?c" and tk: "take (endOffset s) ?c = concat (map store_frame (fbs_records s))"
    using inv by (simp_all add: fbs_inv_def)
  obtain f' m where f': "content f' = overwrite ?c (endOffset s) (take m (store_frame ?q))"
    "s' = s\<lparr>fbs_file := f'\<rparr>"
    using AppendRecord_outcome [OF inv a] by auto
  have same: "take (endOffset s) (content f') = take (endOffset s) ?c" "endOffset s \<le> length (content f')"
    using f'(1) le take_overwrite length_overwrite_ge [OF le, of "take m (store_frame ?q)"] by auto
  show "fbs_inv s' \<and> fbs_abs s' = fbs_abs s"
    using inv f'(2) same by (simp add: fbs_inv_def fbs_abs_def fbs_records_def)
  show "fbs_disk s' = fbs_abs s \<or> fbs_disk s' = (fbs_abs s)(k := if tomb then None else Some v)"
    if cl: "fbs_clean s" and ok: "storable k" "storable v"
  proof -
    have all: "?c = concat (map store_frame (fbs_records s))"
      using tk cl by (simp add: fbs_clean_def)
    have c': "content f' = concat (map store_frame (fbs_records s)) @ take m (store_frame ?q)"
      using f'(1) cl all by (metis fbs_clean_def overwrite_end)
    have "store_scan (content f') = fbs_records s \<or> store_scan (content f') = fbs_records s @ [?q]"
    proof (cases "m < length (store_frame ?q)")
      case True
      then show ?thesis
        unfolding c' using store_scan_frames [OF fbs_records_ok] store_scan_torn [OF new_record_ok [OF ok]]
        by simp
    next
      case False
      then show ?thesis
        unfolding c' using store_scan_frames [OF fbs_records_ok, of s]
          store_scan_frame [OF new_record_ok [OF ok], of tomb s "[]"] by simp
    qed
    then show ?thesis
      using f'(2) by (auto simp: fbs_disk_def fbs_abs_def apply_record_def new_record_def)
  qed
qed

end

text \<open>A file-backed store over any file that meets its contract meets the backing-store contract.\<close>

sublocale file_contract \<subseteq> fbs: backing_store "FileBackingStore_ops F" fbs_abs fbs_disk fbs_inv fbs_clean fbs_healthy
proof (unfold_locales, goal_cases)
  case (1 b k gr b')
  then show ?case
    using Get_outcome [of b k gr b']
    by (auto simp: FileBackingStore_ops_def fbs_same fbs_healthy_def)
next
  case (2 b k v b')
  then show ?case
    using Get_outcome [of b k "Inr v" b'] by (auto simp: FileBackingStore_ops_def)
next
  case (3 b k e b')
  then show ?case
    using Get_outcome [of b k "Inl e" b'] by (auto simp: FileBackingStore_ops_def)
next
  case (4 b k v)
  then show ?case
    using Get_outcome [of b k "fst (FileBackingStore_Get F k b)" "snd (FileBackingStore_Get F k b)"]
    by (auto simp: FileBackingStore_ops_def fbs_healthy_def split: sum.splits)
next
  case (5 b k v u b')
  then show ?case
    using AppendRecord_ok [of b k v False u b']
    by (simp add: FileBackingStore_ops_def FileBackingStore_Put_def)
next
  case (6 b k v e b')
  then show ?case
    using AppendRecord_err(1) [of b k v False e b']
    by (simp add: FileBackingStore_ops_def FileBackingStore_Put_def)
next
  case (7 b k v e b')
  then show ?case
    using AppendRecord_err(2) [of b k v False e b']
    by (simp add: FileBackingStore_ops_def FileBackingStore_Put_def)
next
  case (8 b k v pr b')
  then show ?case
    using AppendRecord_healthy [of b k v False pr b']
    by (simp add: FileBackingStore_ops_def FileBackingStore_Put_def storable_def)
next
  case (9 b k u b')
  then show ?case
    using AppendRecord_ok [of b k "[]" True u b'] fbs_lookup [of b k]
    by (auto simp: FileBackingStore_ops_def FileBackingStore_Remove_def storable_def
        split: option.splits if_splits)
next
  case (10 b k e b')
  then show ?case
    using AppendRecord_err(1) [of b k "[]" True e b']
    by (auto simp: FileBackingStore_ops_def FileBackingStore_Remove_def split: option.splits if_splits)
next
  case (11 b k e b')
  then show ?case
    using AppendRecord_err(2) [of b k "[]" True e b']
    by (auto simp: FileBackingStore_ops_def FileBackingStore_Remove_def storable_def
        split: option.splits if_splits)
next
  case (12 b k mr b')
  then show ?case
    using AppendRecord_healthy [of b k "[]" True mr b']
    by (auto simp: FileBackingStore_ops_def FileBackingStore_Remove_def storable_def split: option.splits if_splits)
next
  case (13 b k)
  then show ?case
    using fbs_lookup [of b k]
    by (auto simp: FileBackingStore_ops_def FileBackingStore_Contains_def split: option.splits)
next
  case (14 b)
  then show ?case
    using entry_count_fold [of 0 "index b"] index_records_count [of "fbs_records b"]
    by (simp add: FileBackingStore_ops_def FileBackingStore_EntryCount_def fbs_inv_def fbs_abs_def)
next
  case (15 b)
  then show ?case
    by (simp add: fbs_clean_disk)
qed

section \<open>Opening a store\<close>

context file_contract
begin

definition fbs_fresh :: "'f \<Rightarrow> 'f FileBackingStore" where
  "fbs_fresh f = \<lparr>fbs_file = f, index = [], endOffset = 0, nextSequence = 0\<rparr>"

lemma take_frames_of_scan:
  "take (length (concat (map store_frame (take n (store_scan bs))))) bs
     = concat (map store_frame (take n (store_scan bs)))"
proof -
  obtain tail where "bs = concat (map store_frame (store_scan bs)) @ tail"
    using store_scan_prefix by blast
  also have "store_scan bs = take n (store_scan bs) @ drop n (store_scan bs)"
    by simp
  finally have "bs = concat (map store_frame (take n (store_scan bs)))
      @ concat (map store_frame (drop n (store_scan bs))) @ tail"
    by (metis append.assoc concat_append map_append)
  then show ?thesis
    by (metis append_eq_conv_conj)
qed

lemma trim_tail_outcome:
  assumes "trim_tail F e f = (r, f')" and "e \<le> length (content f)"
  shows "(content f' = content f \<or>
          content f' = take e (content f) \<and> (r = Inr () \<longrightarrow> durable f' = content f'))
      \<and> (r = Inr () \<and> durable f = content f \<longrightarrow> durable f' = content f')
      \<and> (healthy f \<longrightarrow> r = Inr () \<and> healthy f' \<and> length (content f') = e)"
proof -
  obtain r3 f3 where sz: "IFile_Size F f = (r3, f3)"
    by (cases "IFile_Size F f") auto
  have c3: "content f3 = content f \<and> durable f3 = durable f" "healthy f \<longrightarrow> IsOk r3 \<and> healthy f3" "\<And>k. r3 = Inr k \<Longrightarrow> k = length (content f)"
    using size_content [OF sz] size_healthy [OF _ sz] size_ok sz by auto
  obtain r4 f4 where sl: "IFile_SetLength F e f3 = (r4, f4)"
    by (cases "IFile_SetLength F e f3") auto
  have c4: "\<And>u. r4 = Inr u \<Longrightarrow> content f4 = take e (content f)" "\<And>er. r4 = Inl er \<Longrightarrow> content f4 = content f"
      "healthy f3 \<longrightarrow> IsOk r4 \<and> healthy f4"
    using set_length_ok set_length_err sl c3(1) assms(2) set_length_healthy [OF _ sl] by auto
  obtain r5 f5 where fl: "IFile_FlushDurable F f4 = (r5, f5)"
    by (cases "IFile_FlushDurable F f4") auto
  have c5: "content f5 = content f4" "r5 = Inr () \<Longrightarrow> durable f5 = content f5" "healthy f4 \<longrightarrow> IsOk r5 \<and> healthy f5"
    using flush_content [OF fl] flush_ok [of f4 "()" f5] fl flush_healthy [OF _ fl] by auto
  show ?thesis
  proof (cases r3)
    case (Inl er)
    then show ?thesis
      using assms(1) sz c3(1,2) by (simp add: trim_tail_def)
  next
    case (Inr k)
    then have k: "k = length (content f)"
      using c3(3) by simp
    consider (same) "k = e" | (err) er where "k \<noteq> e" "r4 = Inl er" | (cut) u where "k \<noteq> e" "r4 = Inr u"
      by (cases r4) auto
    then show ?thesis
    proof cases
      case same
      then show ?thesis
        using assms(1) sz Inr k c3(1,2) by (simp add: trim_tail_def)
    next
      case err
      then show ?thesis
        using assms(1) sz Inr sl c3(2) c4(2) [of er] c4(3) by (auto simp: trim_tail_def)
    next
      case cut
      then show ?thesis
        using assms sz Inr sl fl c3(2) c4(1,3) c5 by (simp add: trim_tail_def)
    qed
  qed
qed

text \<open>A store whose index was built from the first records of the file satisfies the invariant.\<close>

lemma fbs_scanned:
  assumes "index s = index_records 0 (take n (store_scan bs)) []"
    and "endOffset s = length (concat (map store_frame (take n (store_scan bs))))"
    and "content (fbs_file s) = bs \<or> content (fbs_file s) = take (endOffset s) bs"
  shows "fbs_inv s \<and> fbs_records s = take n (store_scan bs)"
proof -
  let ?rs = "take n (store_scan bs)"
  have tk: "take (endOffset s) bs = concat (map store_frame ?rs)"
    unfolding assms(2) by (rule take_frames_of_scan)
  then have "endOffset s \<le> length bs"
    by (metis assms(2) length_take min.cobounded1)
  moreover have ok: "\<forall>r\<in>set ?rs. record_ok r"
    using store_scan_ok set_take_subset by fastforce
  moreover have "take (endOffset s) (content (fbs_file s)) = take (endOffset s) bs"
    using assms(3) by auto
  moreover have "store_scan (concat (map store_frame ?rs)) = ?rs"
    using store_scan_frames [OF ok, of "[]"] by simp
  ultimately show ?thesis
    using assms tk by (simp add: fbs_inv_def fbs_records_def) (auto simp del: length_concat)
qed

lemma Initialize_outcome:
  "\<exists>r s' n. FileBackingStore_Initialize F (fbs_fresh f) = Some (r, s')
     \<and> (r = Inr () \<longrightarrow> fbs_inv s' \<and> fbs_records s' = take n (store_scan (content f)))
     \<and> (healthy f \<longrightarrow> r = Inr () \<and> fbs_healthy s' \<and> n = length (store_scan (content f)) \<and>
          (durable f = content f \<longrightarrow> fbs_clean s'))"
proof -
  obtain r1 f1 where sk: "IFile_Seek F 0 False f = (r1, f1)"
    by (cases "IFile_Seek F 0 False f") auto
  have c1: "content f1 = content f" "healthy f \<longrightarrow> IsOk r1 \<and> healthy f1" "durable f1 = durable f"
    using seek_content [OF sk] seek_healthy [OF _ _ sk] by auto
  show ?thesis
  proof (cases r1)
    case (Inl e)
    then show ?thesis
      using sk c1 by (intro exI) (auto simp: FileBackingStore_Initialize_def fbs_fresh_def)
  next
    case (Inr p)
    then have "position f1 = 0"
      using seek_start_ok [of 0 f p f1] sk by simp
    then have rem: "remaining f1 = content f"
      using c1 by (simp add: remaining_def)
    define rs where "rs n = take n (store_scan (content f))" for n
    define e where "e n = length (concat (map store_frame (rs n)))" for n
    obtain n f2 mx where sc: "scan_loop F f1 0 [] 0 = Some (e n, index_records 0 (rs n) [], mx, f2)"
      "content f2 = content f" "healthy f1 \<longrightarrow> healthy f2 \<and> n = length (store_scan (content f))"
      "durable f2 = durable f1"
      using scan_loop_records [of f1 0 "[]" 0] unfolding rem c1(1) e_def rs_def by auto
    obtain r f3 where tt: "trim_tail F (e n) f2 = (r, f3)"
      by (cases "trim_tail F (e n) f2") auto
    have "e n \<le> length (content f2)"
      using take_frames_of_scan [of n "content f"] sc(2) unfolding e_def rs_def
      by (metis length_take min.cobounded1)
    note tr = trim_tail_outcome [OF tt this]
    let ?s = "\<lparr>fbs_file = f3, index = index_records 0 (rs n) [], endOffset = e n, nextSequence = mx + 1\<rparr>"
    have init: "FileBackingStore_Initialize F (fbs_fresh f) = Some (r, ?s)"
      using sk Inr sc(1) tt by (simp add: FileBackingStore_Initialize_def fbs_fresh_def)
    have "fbs_inv ?s \<and> fbs_records ?s = take n (store_scan (content f))"
      using tr sc(2) by (intro fbs_scanned) (auto simp: rs_def e_def)
    then show ?thesis
      using init tr sc(2-4) c1(2,3) Inr
      by (intro exI [of _ r] exI [of _ ?s] exI [of _ n]) (auto simp: fbs_clean_def fbs_healthy_def)
  qed
qed

text \<open>Opening a store file on a healthy disk, with nothing buffered.\<close>

lemma Open_healthy:
  assumes "healthy f" and "durable f = content f"
  shows "\<exists>s. OpenFileBackingStore F (Inr f) = Some (Inr s) \<and> fbs_inv s \<and> fbs_clean s \<and> fbs_healthy s \<and>
    fbs_abs s = store_map (store_scan (content f)) \<and>
    content (fbs_file s) = concat (map store_frame (store_scan (content f)))"
proof -
  obtain s where "FileBackingStore_Initialize F (fbs_fresh f) = Some (Inr (), s)"
    "fbs_inv s" "fbs_records s = store_scan (content f)" "fbs_healthy s" "fbs_clean s"
    using Initialize_outcome [of f] assms by auto
  then show ?thesis
    by (intro exI [of _ s]) (auto simp: OpenFileBackingStore_def fbs_fresh_def fbs_abs_def fbs_inv_def fbs_clean_def)
qed

end

section \<open>Properties\<close>

definition portable_store :: "bytes \<Rightarrow> PortableFile FileBackingStore" where
  "portable_store bs =
     \<lparr>fbs_file = open_portable bs [], index = [], endOffset = 0, nextSequence = 0\<rparr>"

lemma empty_store_inv:
  "pf.fbs_inv (portable_store [])" "pf.fbs_clean (portable_store [])" "pf.fbs_healthy (portable_store [])"
  by (simp_all add: pf.fbs_inv_def pf.fbs_clean_def pf.fbs_healthy_def pf.fbs_records_def portable_store_def
      open_portable_def pf_healthy_def)

text \<open>Opening the bytes of a store file on a healthy disk.\<close>

lemma open_bytes:
  "\<exists>s. OpenFileBackingStore PortableFile_ops (Inr (open_portable bs [])) = Some (Inr s)
     \<and> pf.fbs_inv s \<and> pf.fbs_clean s \<and> pf.fbs_healthy s \<and> pf.fbs_abs s = store_map (store_scan bs)
     \<and> pf_content (fbs_file s) = concat (map store_frame (store_scan bs))"
  using pf.Open_healthy [of "open_portable bs []"] by (simp add: pf_healthy_def open_portable_def)

text \<open>
  C15. \<^bold>\<open>The file-backed store is a map.\<close>  Any sequence of \<open>Get\<close>, \<open>Put\<close> and \<open>Remove\<close> calls,
  on a disk where any call may fail or stop half way, gets the replies a map from keys to values
  would give: a lookup finds the latest value that was stored successfully, reports
  \<open>NotFound\<close> exactly for absent keys, and an update that fails leaves every key as it was.
\<close>

theorem FileBackingStore_refines_map:
  assumes "pf.fbs_inv s" and "\<forall>x\<in>set xs. op_storable x"
    and "run_store (FileBackingStore_ops PortableFile_ops) xs s = (rs, s')"
  shows "pf.fbs_inv s' \<and> run_map xs rs (pf.fbs_abs s) = Some (pf.fbs_abs s')"
  using pf.fbs.run_refines [OF assms] by blast

definition sample_ops :: "store_op list" where
  "sample_ops = [OpPut (str ''k'') [1, 2], OpGet (str ''k''), OpRemove (str ''k'')]"

lemma sample_ops_storable: "\<forall>x\<in>set sample_ops. op_storable x"
  by (simp add: sample_ops_def storable_def str_def)

theorem FileBackingStore_refines_map_witness:
  "\<exists>rs s'. run_store (FileBackingStore_ops PortableFile_ops) sample_ops (portable_store []) = (rs, s')
     \<and> run_map sample_ops rs Map.empty = Some (pf.fbs_abs s')"
proof -
  obtain rs s' where "run_store (FileBackingStore_ops PortableFile_ops) sample_ops (portable_store []) = (rs, s')"
    by fastforce
  moreover have "pf.fbs_abs (portable_store []) = Map.empty"
    by (simp add: pf.fbs_abs_def pf.fbs_records_def portable_store_def)
  ultimately show ?thesis
    using FileBackingStore_refines_map [OF empty_store_inv(1) sample_ops_storable] by fastforce
qed

text \<open>
  C26. \<^bold>\<open>Acknowledged updates survive a power cut.\<close>  After any sequence of calls whose updates all
  succeeded, opening the bytes that stable storage holds gives a store with exactly the same
  contents.
\<close>

theorem FileBackingStore_survives_restart:
  assumes "pf.fbs_inv s" and "pf.fbs_clean s" and "\<forall>x\<in>set xs. op_storable x"
    and "run_store (FileBackingStore_ops PortableFile_ops) xs s = (rs, s')" and "\<forall>r\<in>set rs. reply_ok r"
  shows "\<exists>s2. OpenFileBackingStore PortableFile_ops (Inr (open_portable (pf_durable (fbs_file s')) []))
           = Some (Inr s2) \<and> pf.fbs_inv s2 \<and> pf.fbs_abs s2 = pf.fbs_abs s'"
proof -
  have s': "pf.fbs_clean s'"
    using pf.fbs.run_refines [OF assms(1,3,4)] assms(2,5) by blast
  then have "pf.fbs_abs s' = store_map (store_scan (pf_durable (fbs_file s')))"
    by (simp add: pf.fbs_clean_disk [symmetric] pf.fbs_disk_def) (simp add: pf.fbs_clean_def)
  then show ?thesis
    using open_bytes [of "pf_durable (fbs_file s')"] by auto
qed

theorem FileBackingStore_survives_restart_witness:
  "\<exists>s2. OpenFileBackingStore PortableFile_ops (Inr (open_portable (pf_durable (fbs_file
      (snd (run_store (FileBackingStore_ops PortableFile_ops) sample_ops (portable_store []))))) []))
      = Some (Inr s2) \<and> pf.fbs_inv s2 \<and>
      pf.fbs_abs s2 = pf.fbs_abs (snd (run_store (FileBackingStore_ops PortableFile_ops) sample_ops (portable_store [])))"
  using pf.fbs.run_refines [OF empty_store_inv(1) sample_ops_storable prod.collapse [symmetric]] empty_store_inv
  by (intro FileBackingStore_survives_restart [OF empty_store_inv(1,2) sample_ops_storable prod.collapse [symmetric]])
    blast

text \<open>
  C31. \<^bold>\<open>A power cut during an update is atomic.\<close>  If only the first \<open>m\<close> bytes of the record of
  a \<open>Put\<close> or \<open>Remove\<close> reached the disk, the reopened store has the old contents, unless the
  whole record was written, and then the new ones; the torn bytes are cut off.
\<close>

theorem FileBackingStore_torn_append:
  assumes "pf.fbs_inv s" and "pf.fbs_clean s" and "storable k" and "storable v"
    and "frame = append_frame (nextSequence s) k v tomb"
  shows "\<exists>s2. OpenFileBackingStore PortableFile_ops
             (Inr (open_portable (pf_durable (fbs_file s) @ take m frame) [])) = Some (Inr s2)
      \<and> pf.fbs_inv s2 \<and> pf.fbs_clean s2
      \<and> pf.fbs_abs s2 = (if m < length frame then pf.fbs_abs s
                         else (pf.fbs_abs s)(k := if tomb then None else Some v))"
proof -
  let ?q = "pf.new_record k v tomb s"
  have fr: "frame = store_frame ?q" "record_ok ?q"
    using assms(3-5) by (simp_all add: pf.append_frame_new_record pf.new_record_ok)
  have c: "pf_durable (fbs_file s) = concat (map store_frame (pf.fbs_records s))"
    using assms(1,2) by (simp add: pf.fbs_inv_def pf.fbs_clean_def)
  have sc: "store_scan (pf_durable (fbs_file s) @ take m frame) =
      (if m < length frame then pf.fbs_records s else pf.fbs_records s @ [?q])"
    unfolding c fr(1) store_scan_frames [OF pf.fbs_records_ok]
    using store_scan_torn [OF fr(2), of m] store_scan_frame [OF fr(2), of "[]"] by simp
  have "store_map (store_scan (pf_durable (fbs_file s) @ take m frame)) =
      (if m < length frame then pf.fbs_abs s else (pf.fbs_abs s)(k := if tomb then None else Some v))"
    unfolding sc by (simp add: pf.fbs_abs_def apply_record_def pf.new_record_def)
  then show ?thesis
    using open_bytes [of "pf_durable (fbs_file s) @ take m frame"] by auto
qed

lemma length_append_frame:
  "length (append_frame n k v tomb) = 25 + length k + (if tomb then 0 else length v)"
  by (simp add: append_frame_def Let_def)

theorem FileBackingStore_torn_append_witness:
  "\<exists>s2. OpenFileBackingStore PortableFile_ops (Inr (open_portable
        (pf_durable (fbs_file (portable_store [])) @ take 10 (append_frame 0 [7] [1, 2] False)) []))
        = Some (Inr s2) \<and> pf.fbs_inv s2 \<and> pf.fbs_clean s2 \<and> pf.fbs_abs s2 = pf.fbs_abs (portable_store [])"
proof -
  have n: "nextSequence (portable_store []) = 0"
    by (simp add: portable_store_def)
  have ok: "storable [7]" "storable [1, 2]"
    by (simp_all add: storable_def)
  show ?thesis
    using FileBackingStore_torn_append [OF empty_store_inv(1,2) ok refl, where m = 10 and tomb = False]
    by (simp only: n length_append_frame) simp
qed

text \<open>
  \<^bold>\<open>A read error while opening wipes the store.\<close>  The scan treats a failed read like a torn
  record and then cuts the file at that point: whatever the file held, one failing read at the start
  of the scan, on a disk that works again afterwards, opens successfully and leaves an empty file
  on stable storage.
\<close>

theorem Initialize_read_error_truncates:
  "\<exists>s. OpenFileBackingStore PortableFile_ops (Inr (open_portable bs [Works, Breaks n])) = Some (Inr s)
     \<and> pf_content (fbs_file s) = [] \<and> pf_durable (fbs_file s) = []"
  by (simp add: OpenFileBackingStore_def FileBackingStore_Initialize_def trim_tail_def scan_loop.simps
      read_store_record_def ReadExact_def PortableFile_defs open_portable_def set_length_def)

text \<open>
  \<^bold>\<open>An oversized value is acknowledged and then lost.\<close>  \<open>Put\<close> does not bound the value,
  but the scan at startup refuses a length above 256 MiB: the reopened store does not have the
  value, and the record (with everything behind it) is cut off the file.
\<close>

theorem Put_oversized_lost_on_restart:
  assumes "pf.fbs_inv s" and "pf.fbs_clean s" and "pf.fbs_healthy s" and "storable k"
    and "256 * 1024 * 1024 < length v" and "length v < 2 ^ 31"
  shows "\<exists>s1 s2. FileBackingStore_Put PortableFile_ops k v s = (Success (), s1)
      \<and> OpenFileBackingStore PortableFile_ops (Inr (open_portable (pf_durable (fbs_file s1)) [])) = Some (Inr s2)
      \<and> pf.fbs_abs s2 = pf.fbs_abs s"
proof -
  let ?q = "pf.new_record k v False s"
  obtain r s1 where a: "AppendRecord PortableFile_ops k v False s = (r, s1)"
    by (cases "AppendRecord PortableFile_ops k v False s") auto
  then have "r = Success ()"
    using pf.AppendRecord_healthy [OF assms(1,3) _ a] assms(4,6) by (simp add: storable_def)
  then obtain f' where f': "pf_durable f' = overwrite (pf_content (fbs_file s)) (endOffset s) (store_frame ?q)"
    "fbs_file s1 = f'"
    using pf.AppendRecord_outcome [OF assms(1) a] by auto
  have recs: "pf_content (fbs_file s) = concat (map store_frame (pf.fbs_records s))"
    "endOffset s = length (pf_content (fbs_file s))"
    using assms(1,2) by (simp_all add: pf.fbs_inv_def pf.fbs_clean_def)
  have "read_store_record list_file (store_frame ?q) \<noteq> (Some x, rest)" for x rest
  proof
    assume "read_store_record list_file (store_frame ?q) = (Some x, rest)"
    then have "record_ok x \<and> store_frame ?q = store_frame x @ rest"
      by (rule read_store_record_Some)
    then show False
      using oversized_frame [of ?q x rest] assms(4-6) by (simp add: pf.new_record_def)
  qed
  then have none: "store_scan (store_frame ?q) = []"
    by (intro store_scan_None) (metis not_None_eq prod.collapse)
  have "store_scan (pf_durable f') = pf.fbs_records s"
    unfolding f'(1) recs(2) overwrite_end unfolding recs(1)
    by (simp add: store_scan_frames [OF pf.fbs_records_ok] none)
  then show ?thesis
    using open_bytes [of "pf_durable f'"] a \<open>r = Success ()\<close> f'(2)
    by (auto simp: FileBackingStore_Put_def pf.fbs_abs_def)
qed

theorem Put_oversized_lost_on_restart_witness:
  "\<exists>s1 s2. FileBackingStore_Put PortableFile_ops [7] (replicate 268435457 0) (portable_store []) = (Success (), s1)
      \<and> OpenFileBackingStore PortableFile_ops (Inr (open_portable (pf_durable (fbs_file s1)) [])) = Some (Inr s2)
      \<and> pf.fbs_abs s2 = pf.fbs_abs (portable_store [])"
  by (rule Put_oversized_lost_on_restart [OF empty_store_inv]) (simp_all add: storable_def)

end
