(* ===== verification/Shard.thy ===== *)
theory Shard
  imports Common "HOL-Library.AList"
begin

text \<open>
  One shard of the RAM cache: \<^verbatim>\<open>CacheTypes.h\<close> and the shard-local part of
  \<^verbatim>\<open>CacheEngine.cpp\<close> (the functions called with the shard's mutex held).

  A \<^verbatim>\<open>std::list<Entry>\<close> with stable iterators is a list of nodes \<open>(i, e)\<close>, where \<open>i\<close>
  stands for the address of the node; the \<^verbatim>\<open>unordered_map\<close> from keys to iterators is an
  association list from keys to such addresses.  Nothing in the representation ties the two together:
  that they agree is the invariant \<open>shard_inv\<close>, which every operation keeps.  Byte counters are
  64-bit words with wrap-around; \<^verbatim>\<open>std::size_t\<close> counts of objects in memory are \<open>nat\<close>.
\<close>

section \<open>CacheTypes\<close>

datatype EntryDirtyState = Clean | Dirty | FlushInProgress

datatype EvictionPolicyKind = LeastRecentlyUsed

datatype WritePolicyKind = WriteThrough | WriteBackDeferred

datatype FlushPolicyKind = Manual | PeriodicBackground

record CacheEntryInfo =
  info_key :: key
  info_version :: u64
  info_sizeBytes :: nat
  info_dirtyState :: EntryDirtyState

record CacheEngineOptions =
  enabled :: bool
  capacityBytes :: u64
  maxEntryCount :: u64
  evictionPolicy :: EvictionPolicyKind
  writePolicy :: WritePolicyKind
  flushPolicy :: FlushPolicyKind
  flushIntervalSeconds :: u32
  shardCount :: u32

record CacheStatistics =
  hitCount :: u64
  missCount :: u64
  insertCount :: u64
  updateCount :: u64
  invalidationCount :: u64
  evictionCount :: u64
  flushSuccessCount :: u64
  flushFailureCount :: u64
  currentEntryCount :: u64
  currentMemoryBytes :: u64
  dirtyEntryCount :: u64
  stat_dirtyBytes :: u64

text \<open>\<^verbatim>\<open>CacheStatistics{}\<close>\<close>

definition no_statistics :: CacheStatistics where
  "no_statistics =
     \<lparr>hitCount = 0, missCount = 0, insertCount = 0, updateCount = 0, invalidationCount = 0,
      evictionCount = 0, flushSuccessCount = 0, flushFailureCount = 0, currentEntryCount = 0,
      currentMemoryBytes = 0, dirtyEntryCount = 0, stat_dirtyBytes = 0\<rparr>"

section \<open>Entries and shards\<close>

definition kEntryOverheadBytes :: nat where
  "kEntryOverheadBytes = 64"

record Entry =
  entry_key :: key
  entry_value :: "value"
  entry_version :: u64
  dirtyState :: EntryDirtyState

definition SizeBytes :: "Entry \<Rightarrow> nat" where
  "SizeBytes e = length (entry_key e) + length (entry_value e) + kEntryOverheadBytes"

record Shard =
  lru :: "(nat \<times> Entry) list"
  sh_index :: "(key \<times> nat) list"
  currentBytes :: u64
  dirtyBytes :: u64
  mutationFence :: u64
  dirtyCount :: nat
  nextNode :: nat

definition empty_shard :: Shard where
  "empty_shard = \<lparr>lru = [], sh_index = [], currentBytes = 0, dirtyBytes = 0, mutationFence = 0,
                  dirtyCount = 0, nextNode = 0\<rparr>"

text \<open>\<^verbatim>\<open>index.find(key)\<close> and the entry behind the iterator.\<close>

definition find_entry :: "Shard \<Rightarrow> key \<Rightarrow> (nat \<times> Entry) option" where
  "find_entry s k =
     (case map_of (sh_index s) k of
        None \<Rightarrow> None
      | Some i \<Rightarrow> (case map_of (lru s) i of None \<Rightarrow> None | Some e \<Rightarrow> Some (i, e)))"

definition erase_node :: "nat \<Rightarrow> (nat \<times> Entry) list \<Rightarrow> (nat \<times> Entry) list" where
  "erase_node i xs = filter (\<lambda>(j, _). j \<noteq> i) xs"

text \<open>\<^verbatim>\<open>lru.splice(lru.begin(), lru, it)\<close>\<close>

definition splice_front :: "nat \<Rightarrow> Entry \<Rightarrow> Shard \<Rightarrow> Shard" where
  "splice_front i e s = s\<lparr>lru := (i, e) # erase_node i (lru s)\<rparr>"

definition set_node :: "nat \<Rightarrow> Entry \<Rightarrow> Shard \<Rightarrow> Shard" where
  "set_node i e s = s\<lparr>lru := map (\<lambda>(j, x). if j = i then (j, e) else (j, x)) (lru s)\<rparr>"

text \<open>
  Taking an entry out: the sequence that \<^verbatim>\<open>InsertOrUpdateLocked\<close> and \<^verbatim>\<open>InvalidateImpl\<close>
  share.
\<close>

definition unlink :: "nat \<Rightarrow> Entry \<Rightarrow> Shard \<Rightarrow> Shard" where
  "unlink i e s =
     s\<lparr>currentBytes := currentBytes s - of_nat (SizeBytes e),
       dirtyBytes := (if dirtyState e \<noteq> Clean then dirtyBytes s - of_nat (SizeBytes e) else dirtyBytes s),
       dirtyCount := (if dirtyState e \<noteq> Clean then dirtyCount s - 1 else dirtyCount s),
       lru := erase_node i (lru s),
       sh_index := AList.delete (entry_key e) (sh_index s)\<rparr>"

text \<open>\<^verbatim>\<open>lru.push_front(entry); index[key] = lru.begin();\<close> and the counters.\<close>

definition push_front :: "Entry \<Rightarrow> Shard \<Rightarrow> Shard" where
  "push_front e s =
     s\<lparr>lru := (nextNode s, e) # lru s,
       sh_index := AList.update (entry_key e) (nextNode s) (sh_index s),
       nextNode := nextNode s + 1,
       currentBytes := currentBytes s + of_nat (SizeBytes e),
       dirtyBytes := (if dirtyState e \<noteq> Clean then dirtyBytes s + of_nat (SizeBytes e) else dirtyBytes s),
       dirtyCount := (if dirtyState e \<noteq> Clean then dirtyCount s + 1 else dirtyCount s)\<rparr>"

record Limits =
  perShardCapacityBytes :: u64
  perShardMaxEntries :: u64

definition over_budget :: "Limits \<Rightarrow> Shard \<Rightarrow> bool" where
  "over_budget lim s \<longleftrightarrow>
     currentBytes s > perShardCapacityBytes lim \<or> length (sh_index s) > unat (perShardMaxEntries lim)"

text \<open>The entry the inner loop of \<^verbatim>\<open>EvictCleanEntriesLocked\<close> stops at, from the back.\<close>

definition last_clean :: "(nat \<times> Entry) list \<Rightarrow> (nat \<times> Entry) option" where
  "last_clean xs = find (\<lambda>(_, e). dirtyState e = Clean) (rev xs)"

definition evict_one :: "nat \<Rightarrow> Entry \<Rightarrow> Shard \<Rightarrow> Shard" where
  "evict_one i e s =
     s\<lparr>currentBytes := currentBytes s - of_nat (SizeBytes e),
       sh_index := AList.delete (entry_key e) (sh_index s),
       lru := erase_node i (lru s)\<rparr>"

lemma last_clean_Some: "last_clean xs = Some (i, e) \<Longrightarrow> (i, e) \<in> set xs \<and> dirtyState e = Clean"
  unfolding last_clean_def by (auto simp: find_Some_iff) (metis nth_mem rev_nth length_rev set_rev)

lemma last_clean_None: "last_clean xs = None \<longleftrightarrow> (\<forall>(i, e)\<in>set xs. dirtyState e \<noteq> Clean)"
  unfolding last_clean_def by (auto simp: find_None_iff)

lemma length_erase_node_less: "(i, e) \<in> set xs \<Longrightarrow> length (erase_node i xs) < length xs"
  unfolding erase_node_def by (rule length_filter_less) auto

text \<open>The counter the eviction loop bumps is returned beside the shard.\<close>

function EvictCleanEntriesLocked :: "Limits \<Rightarrow> Shard \<times> CacheStatistics \<Rightarrow> Shard \<times> CacheStatistics" where
  "EvictCleanEntriesLocked lim (s, c) =
     (if over_budget lim s \<and> length (sh_index s) > dirtyCount s then
        (case last_clean (lru s) of
           None \<Rightarrow> (s, c)
         | Some (i, e) \<Rightarrow>
             EvictCleanEntriesLocked lim (evict_one i e s, c\<lparr>evictionCount := evictionCount c + 1\<rparr>))
      else (s, c))"
  by pat_completeness auto
termination
  by (relation "measure (\<lambda>(_, s, _). length (lru s))")
    (auto simp: evict_one_def dest!: last_clean_Some intro!: length_erase_node_less)

declare EvictCleanEntriesLocked.simps [simp del]

definition InsertOrUpdateLocked ::
  "Limits \<Rightarrow> key \<Rightarrow> value \<Rightarrow> u64 \<Rightarrow> EntryDirtyState \<Rightarrow> bool
     \<Rightarrow> Shard \<times> CacheStatistics \<Rightarrow> Shard \<times> CacheStatistics" where
  "InsertOrUpdateLocked lim k v ver st enforceCapacity sc =
     (case sc of (s, c) \<Rightarrow>
        let found = find_entry s k;
            stale = (case found of None \<Rightarrow> False
                     | Some (_, old) \<Rightarrow> ver \<le> entry_version old \<and> \<not> (ver = 0 \<and> entry_version old = 0))
        in if stale then (s, c)
           else
             let s1 = (case found of None \<Rightarrow> s | Some (i, old) \<Rightarrow> unlink i old s);
                 s2 = push_front \<lparr>entry_key = k, entry_value = v, entry_version = ver, dirtyState = st\<rparr> s1;
                 c2 = (if found \<noteq> None then c\<lparr>updateCount := updateCount c + 1\<rparr>
                       else c\<lparr>insertCount := insertCount c + 1\<rparr>);
                 s3 = s2\<lparr>mutationFence := mutationFence s2 + 1\<rparr>
             in if enforceCapacity then EvictCleanEntriesLocked lim (s3, c2) else (s3, c2))"

text \<open>
  The first locked section of \<^verbatim>\<open>FlushKey\<close>: either the call is over, or the entry is marked
  and the value and version to write are copied out.
\<close>

datatype flush_start = FlushDone "unit result" | FlushValue "value" u64

definition begin_flush :: "key \<Rightarrow> u64 \<Rightarrow> bool \<Rightarrow> Shard \<Rightarrow> flush_start \<times> Shard" where
  "begin_flush k expectedVersion checkVersion s =
     (case find_entry s k of
        None \<Rightarrow> (FlushDone (Failure (mkError_key NotFound ''key not present in cache: '' k '''')), s)
      | Some (i, e) \<Rightarrow>
          if checkVersion \<and> entry_version e \<noteq> expectedVersion then (FlushDone (Success ()), s)
          else if dirtyState e = Clean then (FlushDone (Success ()), s)
          else if dirtyState e = FlushInProgress then (FlushDone (Success ()), s)
          else (FlushValue (entry_value e) (entry_version e),
                set_node i (e\<lparr>dirtyState := FlushInProgress\<rparr>) s))"

definition RevertFlushInProgressLocked :: "key \<Rightarrow> u64 \<Rightarrow> Shard \<Rightarrow> Shard" where
  "RevertFlushInProgressLocked k ver s =
     (case find_entry s k of
        None \<Rightarrow> s
      | Some (i, e) \<Rightarrow>
          if entry_version e = ver \<and> dirtyState e = FlushInProgress
          then set_node i (e\<lparr>dirtyState := Dirty\<rparr>) s else s)"

text \<open>The last locked section of \<^verbatim>\<open>FlushKey\<close>.\<close>

definition complete_flush :: "key \<Rightarrow> u64 \<Rightarrow> Shard \<Rightarrow> Shard" where
  "complete_flush k ver s =
     (case find_entry s k of
        None \<Rightarrow> s
      | Some (i, e) \<Rightarrow>
          if entry_version e = ver \<and> dirtyState e = FlushInProgress
          then (set_node i (e\<lparr>dirtyState := Clean\<rparr>) s)
                 \<lparr>dirtyBytes := dirtyBytes s - of_nat (SizeBytes e), dirtyCount := dirtyCount s - 1\<rparr>
          else s)"

text \<open>The last locked section of \<^verbatim>\<open>InvalidateImpl\<close>.\<close>

definition drop_entry :: "key \<Rightarrow> u64 \<Rightarrow> Shard \<Rightarrow> Shard" where
  "drop_entry k ver s =
     (let s = (case find_entry s k of
                 None \<Rightarrow> s
               | Some (i, e) \<Rightarrow> if entry_version e = ver then unlink i e s else s)
      in s\<lparr>mutationFence := mutationFence s + 1\<rparr>)"

section \<open>The invariant\<close>

definition dirty :: "Entry \<Rightarrow> bool" where
  "dirty e \<longleftrightarrow> dirtyState e \<noteq> Clean"

definition entries :: "Shard \<Rightarrow> Entry list" where
  "entries s = map snd (lru s)"

definition total_size :: "Entry list \<Rightarrow> nat" where
  "total_size es = sum_list (map SizeBytes es)"

definition shard_inv :: "Shard \<Rightarrow> bool" where
  "shard_inv s \<longleftrightarrow>
     distinct (map fst (lru s)) \<and> distinct (map entry_key (entries s)) \<and>
     distinct (map fst (sh_index s)) \<and>
     set (sh_index s) = {(entry_key e, i) | i e. (i, e) \<in> set (lru s)} \<and>
     (\<forall>i\<in>fst ` set (lru s). i < nextNode s) \<and>
     currentBytes s = of_nat (total_size (entries s)) \<and>
     dirtyBytes s = of_nat (total_size (filter dirty (entries s))) \<and>
     dirtyCount s = length (filter dirty (entries s))"

text \<open>The contents of a shard as a map.\<close>

definition shard_map :: "Shard \<Rightarrow> key \<rightharpoonup> Entry" where
  "shard_map s = map_of (map (\<lambda>(_, e). (entry_key e, e)) (lru s))"

section \<open>Lemmas\<close>

lemma update_fresh: "k \<notin> fst ` set al \<Longrightarrow> AList.update k v al = al @ [(k, v)]"
  by (induction al) auto

lemma set_delete: "set (AList.delete k al) = {(k', v) \<in> set al. k' \<noteq> k}"
  by (auto simp: AList.delete_eq)

lemma distinct_delete_keys: "distinct (map fst al) \<Longrightarrow> distinct (map fst (AList.delete k al))"
  by (simp add: AList.delete_eq distinct_map_filter)

lemma shard_invD:
  assumes "shard_inv s"
  shows "distinct (map fst (lru s))" "distinct (map entry_key (entries s))" "distinct (map fst (sh_index s))"
    "set (sh_index s) = {(entry_key e, i) | i e. (i, e) \<in> set (lru s)}" "\<And>i e. (i, e) \<in> set (lru s) \<Longrightarrow> i < nextNode s"
    "currentBytes s = of_nat (total_size (entries s))" "dirtyBytes s = of_nat (total_size (filter dirty (entries s)))"
    "dirtyCount s = length (filter dirty (entries s))"
  using assms by (force simp: shard_inv_def)+

lemma index_iff:
  "shard_inv s \<Longrightarrow> (k, i) \<in> set (sh_index s) \<longleftrightarrow> (\<exists>e. (i, e) \<in> set (lru s) \<and> entry_key e = k)"
  using shard_invD(4) [of s] by auto

lemma mem_entries: "e \<in> set (entries s) \<longleftrightarrow> (\<exists>i. (i, e) \<in> set (lru s))"
  by (force simp: entries_def)

lemma node_unique:
  assumes inv: "shard_inv s" and m: "(i, e) \<in> set (lru s)" "(j, f) \<in> set (lru s)"
  shows "i = j \<Longrightarrow> e = f" and "entry_key e = entry_key f \<Longrightarrow> i = j \<and> e = f"
proof -
  show same: "i = j \<Longrightarrow> e = f"
    using shard_invD(1) [OF inv] m by (metis map_of_eq_Some_iff option.inject)
  assume k: "entry_key e = entry_key f"
  have "(entry_key e, i) \<in> set (sh_index s)" "(entry_key e, j) \<in> set (sh_index s)"
    using m k by (auto simp: index_iff [OF inv])
  then have "i = j"
    using shard_invD(3) [OF inv] by (metis map_of_eq_Some_iff option.inject)
  then show "i = j \<and> e = f"
    using same by blast
qed

lemma length_index: "shard_inv s \<Longrightarrow> length (sh_index s) = length (lru s)"
proof -
  assume inv: "shard_inv s"
  have d: "distinct (sh_index s)" "distinct (lru s)"
    using shard_invD(1,3) [OF inv] by (auto simp: distinct_map)
  have "inj_on (\<lambda>(i, e). (entry_key e, i)) (set (lru s))"
    using node_unique(1) [OF inv] by (auto simp: inj_on_def)
  moreover have "set (sh_index s) = (\<lambda>(i, e). (entry_key e, i)) ` set (lru s)"
    by (auto simp: index_iff [OF inv] image_iff) force
  ultimately have "card (set (sh_index s)) = card (set (lru s))"
    by (simp add: card_image)
  then show ?thesis
    using d by (simp add: distinct_card)
qed

lemma find_entry_iff:
  assumes inv: "shard_inv s"
  shows "find_entry s k = Some (i, e) \<longleftrightarrow> (i, e) \<in> set (lru s) \<and> entry_key e = k"
proof -
  have ix: "map_of (sh_index s) k = Some j \<longleftrightarrow> (\<exists>x. (j, x) \<in> set (lru s) \<and> entry_key x = k)" for j
    using shard_invD(3) [OF inv] by (simp add: map_of_eq_Some_iff index_iff [OF inv])
  have nd: "map_of (lru s) j = Some x \<longleftrightarrow> (j, x) \<in> set (lru s)" for j x
    using shard_invD(1) [OF inv] by (simp add: map_of_eq_Some_iff)
  show ?thesis
  proof
    assume "find_entry s k = Some (i, e)"
    then have "map_of (sh_index s) k = Some i" "map_of (lru s) i = Some e"
      by (auto simp: find_entry_def split: option.splits)
    then show "(i, e) \<in> set (lru s) \<and> entry_key e = k"
      using ix nd node_unique(1) [OF inv] by metis
  next
    assume m: "(i, e) \<in> set (lru s) \<and> entry_key e = k"
    then have "map_of (sh_index s) k = Some i" "map_of (lru s) i = Some e"
      using ix nd by blast+
    then show "find_entry s k = Some (i, e)"
      by (simp add: find_entry_def)
  qed
qed

lemma find_entry_None:
  assumes inv: "shard_inv s"
  shows "find_entry s k = None \<longleftrightarrow> k \<notin> entry_key ` set (entries s)"
proof -
  have "(\<exists>i e. find_entry s k = Some (i, e)) \<longleftrightarrow> k \<in> entry_key ` set (entries s)"
    unfolding find_entry_iff [OF inv] by (force simp: entries_def)
  then show ?thesis
    by (cases "find_entry s k") auto
qed

lemma shard_map_find:
  assumes inv: "shard_inv s"
  shows "shard_map s k = map_option snd (find_entry s k)"
proof (cases "find_entry s k")
  case None
  then show ?thesis
    using find_entry_None [OF inv, of k]
    by (auto simp: shard_map_def entries_def map_of_eq_None_iff image_iff)
next
  case (Some p)
  then have p: "(fst p, snd p) \<in> set (lru s)" "entry_key (snd p) = k"
    using find_entry_iff [OF inv, of k "fst p" "snd p"] by auto
  have "distinct (map fst (map (\<lambda>(_, e). (entry_key e, e)) (lru s)))"
    using shard_invD(2) [OF inv] by (simp add: entries_def comp_def case_prod_beta)
  moreover have "(k, snd p) \<in> set (map (\<lambda>(_, e). (entry_key e, e)) (lru s))"
    unfolding set_map by (rule rev_image_eqI [OF p(1)]) (simp add: p(2) case_prod_beta)
  ultimately have "shard_map s k = Some (snd p)"
    unfolding shard_map_def by (simp add: map_of_eq_Some_iff)
  then show ?thesis
    using Some by simp
qed

text \<open>Cutting the list at a node: what erasing and changing it do.\<close>

lemma node_split:
  assumes "distinct (map fst xs)" and "(i, e) \<in> set xs"
  obtains ys zs where "xs = ys @ (i, e) # zs" "i \<notin> fst ` set ys" "i \<notin> fst ` set zs"
    "erase_node i xs = ys @ zs"
proof -
  obtain ys zs where x: "xs = ys @ (i, e) # zs"
    using assms(2) by (meson split_list)
  then have n: "i \<notin> fst ` set ys" "i \<notin> fst ` set zs"
    using assms(1) by auto
  then have "erase_node i ys = ys" "erase_node i zs = zs"
    by (force simp: erase_node_def filter_id_conv)+
  then have "erase_node i xs = ys @ zs"
    by (simp add: x erase_node_def)
  then show thesis
    using x n that by blast
qed

lemma set_node_split:
  assumes "lru s = ys @ (i, e) # zs" and "i \<notin> fst ` set ys" and "i \<notin> fst ` set zs"
  shows "lru (set_node i e' s) = ys @ (i, e') # zs"
proof -
  have "map (\<lambda>(j, x). if j = i then (j, e') else (j, x)) us = us" if "i \<notin> fst ` set us" for us
    using that by (induction us) auto
  then show ?thesis
    using assms by (simp add: set_node_def)
qed

lemma total_size_simps [simp]:
  "total_size [] = 0" "total_size (e # es) = SizeBytes e + total_size es"
  "total_size (es @ fs) = total_size es + total_size fs"
  by (simp_all add: total_size_def)

lemma shard_map_split:
  assumes "shard_inv s" and "lru s = ys @ (i, e) # zs"
  shows "shard_map s = (map_of (map (\<lambda>(_, e). (entry_key e, e)) (ys @ zs)))(entry_key e \<mapsto> e)"
    and "entry_key e \<notin> entry_key ` snd ` set (ys @ zs)"
proof -
  show n: "entry_key e \<notin> entry_key ` snd ` set (ys @ zs)"
    using shard_invD(2) [OF assms(1)] assms(2) by (auto simp: entries_def)
  then have "entry_key e \<notin> dom (map_of (map (\<lambda>(_, e). (entry_key e, e)) ys))"
    by (auto simp: dom_map_of_conv_image_fst image_iff) force
  then show "shard_map s = (map_of (map (\<lambda>(_, e). (entry_key e, e)) (ys @ zs)))(entry_key e \<mapsto> e)"
    unfolding shard_map_def assms(2)
    by (auto simp: map_add_def fun_eq_iff split: option.splits)
qed

lemma unlink_correct:
  assumes inv: "shard_inv s" and mem: "(i, e) \<in> set (lru s)"
  shows "shard_inv (unlink i e s)" and "shard_map (unlink i e s) = (shard_map s)(entry_key e := None)"
    and "lru (unlink i e s) = erase_node i (lru s)"
proof -
  obtain ys zs where x: "lru s = ys @ (i, e) # zs" "i \<notin> fst ` set ys" "i \<notin> fst ` set zs"
    "erase_node i (lru s) = ys @ zs"
    by (rule node_split [OF shard_invD(1) [OF inv] mem])
  note key = shard_map_split [OF inv x(1)]
  have others: "entry_key x \<noteq> entry_key e" if "(j, x) \<in> set (ys @ zs)" for j x
    using key(2) that by (metis image_eqI snd_conv)
  have ix: "set (AList.delete (entry_key e) (sh_index s)) = {(entry_key e, i) | i e. (i, e) \<in> set (ys @ zs)}"
  proof (rule set_eqI, clarify)
    fix k j
    have "(k, j) \<in> set (AList.delete (entry_key e) (sh_index s)) \<longleftrightarrow>
        (\<exists>x. (j, x) \<in> set (lru s) \<and> entry_key x = k) \<and> k \<noteq> entry_key e"
      by (auto simp: set_delete index_iff [OF inv])
    also have "\<dots> \<longleftrightarrow> (\<exists>x. (j, x) \<in> set (ys @ zs) \<and> entry_key x = k)"
      using others unfolding x(1) by auto
    finally show "((k, j) \<in> set (AList.delete (entry_key e) (sh_index s))) =
        ((k, j) \<in> {(entry_key e, i) | i e. (i, e) \<in> set (ys @ zs)})"
      by auto
  qed
  have d: "distinct (map fst (AList.delete (entry_key e) (sh_index s)))"
    by (rule distinct_delete_keys [OF shard_invD(3) [OF inv]])
  have n: "\<forall>i\<in>fst ` set (ys @ zs). i < nextNode s"
    using inv x(1) by (auto simp: shard_inv_def)
  show "shard_inv (unlink i e s)"
    using shard_invD(1,2,6,7,8) [OF inv] ix d n
    by (simp add: shard_inv_def unlink_def entries_def dirty_def of_nat_add x(1) x(4) [unfolded x(1)])
  show "shard_map (unlink i e s) = (shard_map s)(entry_key e := None)"
  proof -
    let ?m = "map_of (map (\<lambda>(_, e). (entry_key e, e)) (ys @ zs))"
    have "?m (entry_key e) = None"
      using others by (fastforce simp: map_of_eq_None_iff)
    moreover have "lru (unlink i e s) = ys @ zs"
      using x(4) by (simp add: unlink_def)
    then have "shard_map (unlink i e s) = ?m"
      by (simp add: shard_map_def)
    ultimately show ?thesis
      using key(1) by (simp only: fun_upd_upd fun_upd_idem)
  qed
  show "lru (unlink i e s) = erase_node i (lru s)"
    by (simp add: unlink_def)
qed

lemma evict_one_unlink: "dirtyState e = Clean \<Longrightarrow> evict_one i e s = unlink i e s"
  by (simp add: evict_one_def unlink_def)

lemma push_front_correct:
  assumes inv: "shard_inv s" and new: "entry_key e \<notin> entry_key ` set (entries s)"
  shows "shard_inv (push_front e s)" and "shard_map (push_front e s) = (shard_map s)(entry_key e \<mapsto> e)"
proof -
  have nk: "entry_key e \<notin> fst ` set (sh_index s)"
  proof
    assume "entry_key e \<in> fst ` set (sh_index s)"
    then obtain j where "(entry_key e, j) \<in> set (sh_index s)" by auto
    then obtain x where "(j, x) \<in> set (lru s)" "entry_key x = entry_key e"
      using index_iff [OF inv] by blast
    then show False
      using new mem_entries by (metis image_eqI)
  qed
  then have ix: "sh_index (push_front e s) = sh_index s @ [(entry_key e, nextNode s)]"
    by (simp add: push_front_def update_fresh)
  have n: "\<forall>i\<in>fst ` set (lru s). i < nextNode s"
    using shard_invD(5) [OF inv] by auto
  then have ni: "nextNode s \<notin> fst ` set (lru s)"
    by blast
  have new': "entry_key e \<notin> (\<lambda>x. entry_key (snd x)) ` set (lru s)"
    using new by (simp add: entries_def image_image)
  have ins: "insert (entry_key e, nextNode s) (set (sh_index s)) =
      {(entry_key x, i) | i x. (i, x) = (nextNode s, e) \<or> (i, x) \<in> set (lru s)}"
    by (auto simp: shard_invD(4) [OF inv])
  show "shard_inv (push_front e s)"
    unfolding shard_inv_def ix
    using shard_invD(1-3,6-8) [OF inv] new' ins nk n ni
    by (simp add: push_front_def entries_def dirty_def of_nat_add less_SucI ac_simps)
  show "shard_map (push_front e s) = (shard_map s)(entry_key e \<mapsto> e)"
    by (simp add: push_front_def shard_map_def)
qed

lemma splice_front_correct:
  assumes inv: "shard_inv s" and mem: "(i, e) \<in> set (lru s)"
  shows "shard_inv (splice_front i e s)" and "shard_map (splice_front i e s) = shard_map s"
proof -
  obtain ys zs where x: "lru s = ys @ (i, e) # zs" "i \<notin> fst ` set ys" "i \<notin> fst ` set zs"
    "erase_node i (lru s) = ys @ zs"
    by (rule node_split [OF shard_invD(1) [OF inv] mem])
  have ix: "set (sh_index s) = {(entry_key x, j) | j x. (j, x) \<in> set ((i, e) # ys @ zs)}"
    using shard_invD(4) [OF inv] x(1) by auto
  have n: "\<forall>j\<in>fst ` set ((i, e) # ys @ zs). j < nextNode s"
    using inv x(1) by (auto simp: shard_inv_def)
  show "shard_inv (splice_front i e s)"
    using shard_invD(1-3,6-8) [OF inv] ix n
    by (simp add: shard_inv_def splice_front_def entries_def dirty_def ac_simps Int_commute x(1) x(4) [unfolded x(1)])
  show "shard_map (splice_front i e s) = shard_map s"
    using shard_map_split(1) [OF inv x(1)] x(4) by (simp add: splice_front_def shard_map_def)
qed

text \<open>Changing the state of an entry, with the dirty counters adjusted.\<close>

definition set_state :: "nat \<Rightarrow> Entry \<Rightarrow> EntryDirtyState \<Rightarrow> Shard \<Rightarrow> Shard" where
  "set_state i e d s =
     (set_node i (e\<lparr>dirtyState := d\<rparr>) s)
       \<lparr>dirtyBytes := (if dirty e then dirtyBytes s - of_nat (SizeBytes e) else dirtyBytes s)
           + (if d \<noteq> Clean then of_nat (SizeBytes e) else 0),
        dirtyCount := (if dirty e then dirtyCount s - 1 else dirtyCount s) + (if d \<noteq> Clean then 1 else 0)\<rparr>"

lemma set_state_correct:
  assumes inv: "shard_inv s" and mem: "(i, e) \<in> set (lru s)"
  shows "shard_inv (set_state i e d s)"
    and "shard_map (set_state i e d s) = (shard_map s)(entry_key e \<mapsto> e\<lparr>dirtyState := d\<rparr>)"
proof -
  obtain ys zs where x: "lru s = ys @ (i, e) # zs" "i \<notin> fst ` set ys" "i \<notin> fst ` set zs"
    "erase_node i (lru s) = ys @ zs"
    by (rule node_split [OF shard_invD(1) [OF inv] mem])
  let ?e = "e\<lparr>dirtyState := d\<rparr>"
  have l: "lru (set_state i e d s) = ys @ (i, ?e) # zs"
    using set_node_split [OF x(1-3)] by (simp add: set_state_def)
  have ix: "set (sh_index s) = {(entry_key x, j) | j x. (j, x) \<in> set (ys @ (i, ?e) # zs)}"
  proof (rule set_eqI, clarify)
    fix k j
    have "(k, j) \<in> set (sh_index s) \<longleftrightarrow> (\<exists>x. (j, x) \<in> set (ys @ zs) \<and> entry_key x = k) \<or> j = i \<and> entry_key e = k"
      by (auto simp: index_iff [OF inv] x(1))
    also have "\<dots> \<longleftrightarrow> (\<exists>x. (j, x) \<in> set (ys @ zs) \<and> entry_key x = k) \<or> (\<exists>x. (j, x) = (i, ?e) \<and> entry_key x = k)"
      by simp
    also have "\<dots> \<longleftrightarrow> (\<exists>x. (j, x) \<in> set (ys @ (i, ?e) # zs) \<and> entry_key x = k)"
      by (simp only: set_append list.set Un_iff insert_iff ex_disj_distrib conj_disj_distribR) blast
    finally show "((k, j) \<in> set (sh_index s)) = ((k, j) \<in> {(entry_key x, j) | j x. (j, x) \<in> set (ys @ (i, ?e) # zs)})"
      by blast
  qed
  have n: "\<forall>j\<in>fst ` set (ys @ (i, ?e) # zs). j < nextNode s"
    using inv x(1) by (auto simp: shard_inv_def)
  have sz: "SizeBytes ?e = SizeBytes e"
    by (simp add: SizeBytes_def)
  have other: "sh_index (set_state i e d s) = sh_index s" "nextNode (set_state i e d s) = nextNode s"
    "currentBytes (set_state i e d s) = currentBytes s"
    by (simp_all add: set_state_def set_node_def)
  show "shard_inv (set_state i e d s)"
    using shard_invD(1-3,6-8) [OF inv] ix n sz
    unfolding shard_inv_def entries_def l other
    by (simp add: set_state_def x(1) dirty_def)
  show "shard_map (set_state i e d s) = (shard_map s)(entry_key e \<mapsto> ?e)"
  proof -
    have "shard_map (set_state i e d s) = (map_of (map (\<lambda>(_, e). (entry_key e, e)) (ys @ zs)))(entry_key ?e \<mapsto> ?e)"
      using shard_map_split(1) [OF \<open>shard_inv (set_state i e d s)\<close> l] .
    then show ?thesis
      using shard_map_split(1) [OF inv x(1)] by simp
  qed
qed

lemma set_node_set_state:
  "dirty e \<Longrightarrow> d \<noteq> Clean \<Longrightarrow> shard_inv s \<Longrightarrow> (i, e) \<in> set (lru s) \<Longrightarrow>
     set_node i (e\<lparr>dirtyState := d\<rparr>) s = set_state i e d s"
proof -
  assume a: "dirty e" "d \<noteq> Clean" "shard_inv s" "(i, e) \<in> set (lru s)"
  have "e \<in> set (filter dirty (entries s))"
    using a by (auto simp: mem_entries)
  then have "0 < dirtyCount s"
    unfolding shard_invD(8) [OF a(3)] by (rule length_pos_if_in_set)
  then show ?thesis
    using a by (simp add: set_state_def set_node_def)
qed

section \<open>Eviction\<close>

lemma find_split:
  "find P xs = Some x \<Longrightarrow> \<exists>us vs. xs = us @ x # vs \<and> P x \<and> (\<forall>u\<in>set us. \<not> P u)"
proof (induction xs)
  case (Cons y xs)
  show ?case
  proof (cases "P y")
    case True
    then show ?thesis
      using Cons.prems by (intro exI [of _ "[]"] exI [of _ xs]; simp)
  next
    case False
    then obtain us vs where "xs = us @ x # vs" "P x" "\<forall>u\<in>set us. \<not> P u"
      using Cons by auto
    then show ?thesis
      using False by (metis append_Cons set_ConsD)
  qed
qed simp

lemma last_clean_split:
  assumes "last_clean xs = Some (i, e)"
  shows "\<exists>ys zs. xs = ys @ (i, e) # zs \<and> dirtyState e = Clean \<and> (\<forall>(j, x)\<in>set zs. dirty x)"
proof -
  obtain us vs where "rev xs = us @ (i, e) # vs" "dirtyState e = Clean" "\<forall>(j, x)\<in>set us. dirtyState x \<noteq> Clean"
    using find_split [OF assms [unfolded last_clean_def]] by (auto simp: case_prod_beta)
  then show ?thesis
    by (intro exI [of _ "rev vs"] exI [of _ "rev us"]) (auto simp: dirty_def rev_swap)
qed

text \<open>
  One round of the loop takes out the least recently used clean entry; the dirty entries stay,
  in order, and so do the more recently used clean ones.
\<close>

abbreviation cleans :: "Shard \<Rightarrow> Entry list" where
  "cleans s \<equiv> filter (\<lambda>e. \<not> dirty e) (entries s)"

abbreviation dirties :: "Shard \<Rightarrow> Entry list" where
  "dirties s \<equiv> filter dirty (entries s)"

lemma evict_one_correct:
  assumes inv: "shard_inv s" and lc: "last_clean (lru s) = Some (i, e)"
  shows "shard_inv (evict_one i e s)" "shard_map (evict_one i e s) = (shard_map s)(entry_key e := None)"
    "shard_map s (entry_key e) = Some e" "dirtyState e = Clean"
    "cleans s = cleans (evict_one i e s) @ [e]" "dirties (evict_one i e s) = dirties s"
proof -
  have mem: "(i, e) \<in> set (lru s)" and cl: "dirtyState e = Clean"
    using last_clean_Some [OF lc] by auto
  show "shard_inv (evict_one i e s)" "shard_map (evict_one i e s) = (shard_map s)(entry_key e := None)"
    using unlink_correct [OF inv mem] by (simp_all add: evict_one_unlink [OF cl])
  show "dirtyState e = Clean" by (rule cl)
  show "shard_map s (entry_key e) = Some e"
    using shard_map_find [OF inv] find_entry_iff [OF inv, of "entry_key e" i e] mem by simp
  obtain ys zs where x: "lru s = ys @ (i, e) # zs" "\<forall>(j, x)\<in>set zs. dirty x"
    using last_clean_split [OF lc] by blast
  then have "i \<notin> fst ` set ys" "i \<notin> fst ` set zs"
    using shard_invD(1) [OF inv] by auto
  then have "erase_node i ys = ys" "erase_node i zs = zs"
    by (force simp: erase_node_def filter_id_conv)+
  then have er: "entries (evict_one i e s) = map snd ys @ map snd zs"
    by (simp add: evict_one_def entries_def x(1) erase_node_def)
  have zs: "filter (\<lambda>e. \<not> dirty e) (map snd zs) = []"
    using x(2) by (auto simp: filter_empty_conv)
  show "cleans s = cleans (evict_one i e s) @ [e]" "dirties (evict_one i e s) = dirties s"
    using zs cl unfolding er by (simp_all add: entries_def x(1) dirty_def)
qed

lemma EvictCleanEntriesLocked_correct:
  assumes "shard_inv s" and "EvictCleanEntriesLocked lim (s, c) = (s', c')"
  shows "shard_inv s'
    \<and> (\<forall>k. shard_map s' k = shard_map s k \<or>
           shard_map s' k = None \<and> (\<exists>e. shard_map s k = Some e \<and> dirtyState e = Clean))
    \<and> dirties s' = dirties s
    \<and> (\<exists>evicted. cleans s = cleans s' @ evicted \<and> evictionCount c' = evictionCount c + of_nat (length evicted))
    \<and> (over_budget lim s' \<longrightarrow> cleans s' = [])
    \<and> mutationFence s' = mutationFence s"
  using assms
proof (induction lim "(s, c)" arbitrary: s c rule: EvictCleanEntriesLocked.induct)
  case (1 lim s c)
  note inv = \<open>shard_inv s\<close> and eq = \<open>EvictCleanEntriesLocked lim (s, c) = (s', c')\<close>
  show ?case
  proof (cases "over_budget lim s \<and> length (sh_index s) > dirtyCount s \<and> last_clean (lru s) \<noteq> None")
    case True
    then obtain i e where lc: "last_clean (lru s) = Some (i, e)" by auto
    have rec: "EvictCleanEntriesLocked lim (evict_one i e s, c\<lparr>evictionCount := evictionCount c + 1\<rparr>) = (s', c')"
      using eq True lc by (simp add: EvictCleanEntriesLocked.simps [of lim s c])
    note one = evict_one_correct [OF inv lc]
    have f: "mutationFence (evict_one i e s) = mutationFence s"
      by (simp add: evict_one_def)
    have cond: "over_budget lim s \<and> dirtyCount s < length (sh_index s)"
      using True by blast
    from "1.hyps" [OF cond lc refl one(1) rec] show ?thesis
      using one f by (elim conjE exE) (intro conjI; auto simp: fun_upd_apply split: if_splits)
  next
    case False
    then have same: "s' = s" "c' = c"
      using eq by (auto simp: EvictCleanEntriesLocked.simps [of lim s c] split: if_splits option.splits)
    have "cleans s = []" if "over_budget lim s"
    proof (cases "length (sh_index s) > dirtyCount s")
      case True
      then have "last_clean (lru s) = None"
        using False that by blast
      then show ?thesis
        by (auto simp: last_clean_None filter_empty_conv entries_def dirty_def)
    next
      case le: False
      have "length (cleans s) + length (dirties s) = length (entries s)"
        using sum_length_filter_compl [of dirty "entries s"] by simp
      moreover have "length (entries s) = length (sh_index s)"
        using length_index [OF inv] by (simp add: entries_def)
      ultimately have "length (cleans s) = 0"
        using le shard_invD(8) [OF inv] by linarith
      then show ?thesis
        by (simp only: length_0_conv)
    qed
    then show ?thesis
      using same inv by auto
  qed
qed

section \<open>The locked sections\<close>

lemma found_entry:
  assumes "shard_inv s" and "find_entry s k = Some (i, e)"
  shows "(i, e) \<in> set (lru s)" "entry_key e = k" "shard_map s k = Some e"
  using assms find_entry_iff [OF assms(1), of k i e] shard_map_find [OF assms(1), of k] by auto

lemma not_found: "shard_inv s \<Longrightarrow> find_entry s k = None \<longleftrightarrow> shard_map s k = None"
  by (simp add: shard_map_find)

definition insert_stale :: "Shard \<Rightarrow> key \<Rightarrow> u64 \<Rightarrow> bool" where
  "insert_stale s k ver =
     (case shard_map s k of None \<Rightarrow> False
      | Some old \<Rightarrow> ver \<le> entry_version old \<and> \<not> (ver = 0 \<and> entry_version old = 0))"

lemma insert_stale_find:
  "shard_inv s \<Longrightarrow> (case find_entry s k of None \<Rightarrow> False
      | Some (_, old) \<Rightarrow> ver \<le> entry_version old \<and> \<not> (ver = 0 \<and> entry_version old = 0)) = insert_stale s k ver"
  by (simp add: insert_stale_def shard_map_find split: option.splits prod.splits)

lemma fence_only [simp]:
  "shard_inv (t\<lparr>mutationFence := m\<rparr>) = shard_inv t" "shard_map (t\<lparr>mutationFence := m\<rparr>) = shard_map t"
  by (simp_all add: shard_inv_def shard_map_def entries_def)

text \<open>What the insertion does before the eviction loop.\<close>

lemma insert_no_evict:
  assumes inv: "shard_inv s"
    and ins: "InsertOrUpdateLocked lim k v ver st False (s, c) = (s', c')"
  shows "shard_inv s' \<and> (if insert_stale s k ver then s' = s \<and> c' = c
    else shard_map s' = (shard_map s)(k \<mapsto> \<lparr>entry_key = k, entry_value = v, entry_version = ver, dirtyState = st\<rparr>)
       \<and> mutationFence s' = mutationFence s + 1)"
proof -
  let ?e = "\<lparr>entry_key = k, entry_value = v, entry_version = ver, dirtyState = st\<rparr>"
  define s1 where "s1 = (case find_entry s k of None \<Rightarrow> s | Some (i, old) \<Rightarrow> unlink i old s)"
  have s1: "shard_inv s1 \<and> shard_map s1 = (shard_map s)(k := None)"
  proof (cases "find_entry s k")
    case None
    then show ?thesis
      using inv not_found [OF inv, of k] by (simp add: s1_def fun_upd_idem)
  next
    case (Some p)
    then obtain i e where p: "find_entry s k = Some (i, e)" by (cases p) auto
    then show ?thesis
      using unlink_correct(1,2) [OF inv found_entry(1) [OF inv p]] found_entry(2) [OF inv p]
      by (simp add: s1_def)
  qed
  then have "find_entry s1 k = None"
    by (simp add: not_found)
  then have "entry_key ?e \<notin> entry_key ` set (entries s1)"
    using find_entry_None [of s1 k] s1 by simp
  then have s2: "shard_inv (push_front ?e s1)" "shard_map (push_front ?e s1) = (shard_map s)(k \<mapsto> ?e)"
    using push_front_correct [of s1 ?e] s1 by auto
  have fence: "mutationFence (push_front ?e s1) = mutationFence s"
    by (simp add: push_front_def s1_def unlink_def split: option.splits prod.splits)
  show ?thesis
  proof (cases "insert_stale s k ver")
    case True
    then show ?thesis
      using ins inv unfolding InsertOrUpdateLocked_def Let_def prod.case insert_stale_find [OF inv] by simp
  next
    case False
    then have "s' = (push_front ?e s1)\<lparr>mutationFence := mutationFence (push_front ?e s1) + 1\<rparr>"
      using ins unfolding InsertOrUpdateLocked_def Let_def prod.case insert_stale_find [OF inv] s1_def by simp
    then show ?thesis
      using False s2 fence by simp
  qed
qed

lemma InsertOrUpdateLocked_evict:
  assumes "InsertOrUpdateLocked lim k v ver st False (s, c) = (s1, c1)" and "\<not> insert_stale s k ver" and "shard_inv s"
  shows "InsertOrUpdateLocked lim k v ver st True (s, c) = EvictCleanEntriesLocked lim (s1, c1)"
  using assms(1,2) unfolding InsertOrUpdateLocked_def Let_def prod.case insert_stale_find [OF assms(3)] by simp

lemma InsertOrUpdateLocked_stale:
  assumes "insert_stale s k ver" and "shard_inv s"
  shows "InsertOrUpdateLocked lim k v ver st enf (s, c) = (s, c)"
  using assms(1) unfolding InsertOrUpdateLocked_def Let_def prod.case insert_stale_find [OF assms(2)] by simp

text \<open>The whole of \<^verbatim>\<open>InsertOrUpdateLocked\<close>: afterwards only clean entries may be missing.\<close>

lemma InsertOrUpdateLocked_correct:
  assumes inv: "shard_inv s" and fresh: "\<not> insert_stale s k ver"
    and ins: "InsertOrUpdateLocked lim k v ver st enf (s, c) = (s', c')"
  defines "e \<equiv> \<lparr>entry_key = k, entry_value = v, entry_version = ver, dirtyState = st\<rparr>"
  shows "shard_inv s' \<and> mutationFence s' = mutationFence s + 1 \<and>
    (\<forall>k'. shard_map s' k' = ((shard_map s)(k \<mapsto> e)) k' \<or>
          shard_map s' k' = None \<and> (\<exists>x. ((shard_map s)(k \<mapsto> e)) k' = Some x \<and> dirtyState x = Clean))"
proof -
  obtain s1 c1 where one: "InsertOrUpdateLocked lim k v ver st False (s, c) = (s1, c1)"
    by (cases "InsertOrUpdateLocked lim k v ver st False (s, c)") auto
  have s1: "shard_inv s1" "shard_map s1 = (shard_map s)(k \<mapsto> e)" "mutationFence s1 = mutationFence s + 1"
    using insert_no_evict [OF inv one] fresh by (simp_all add: e_def)
  show ?thesis
  proof (cases enf)
    case True
    then have ev: "EvictCleanEntriesLocked lim (s1, c1) = (s', c')"
      using InsertOrUpdateLocked_evict [OF one fresh inv] ins by simp
    show ?thesis
      using EvictCleanEntriesLocked_correct [OF s1(1) ev] s1(3) unfolding s1(2) by simp
  next
    case False
    then show ?thesis
      using one ins s1 by simp
  qed
qed

lemma begin_flush_correct:
  assumes inv: "shard_inv s" and b: "begin_flush k ev cv s = (r, s')"
  shows "shard_inv s' \<and> mutationFence s' = mutationFence s \<and>
    (case r of
       FlushDone _ \<Rightarrow> s' = s
     | FlushValue v ver \<Rightarrow> \<exists>e. shard_map s k = Some e \<and> dirtyState e = Dirty \<and> entry_value e = v \<and> entry_version e = ver
         \<and> shard_map s' = (shard_map s)(k \<mapsto> e\<lparr>dirtyState := FlushInProgress\<rparr>))"
proof (cases "find_entry s k")
  case None
  then show ?thesis
    using inv b by (auto simp: begin_flush_def)
next
  case (Some p)
  then obtain i e where f: "find_entry s k = Some (i, e)" by (cases p) auto
  note e = found_entry [OF inv f]
  show ?thesis
  proof (cases "(cv \<and> entry_version e \<noteq> ev) \<or> dirtyState e \<noteq> Dirty")
    case True
    then show ?thesis
      using inv b f by (cases "dirtyState e") (auto simp: begin_flush_def split: if_splits)
  next
    case False
    then have d: "dirty e" "dirtyState e = Dirty" by (auto simp: dirty_def)
    have "s' = set_state i e FlushInProgress s" "r = FlushValue (entry_value e) (entry_version e)"
      using b f False set_node_set_state [OF d(1) _ inv e(1), of FlushInProgress]
      by (auto simp: begin_flush_def)
    moreover have "mutationFence (set_state i e FlushInProgress s) = mutationFence s"
      by (simp add: set_state_def set_node_def)
    ultimately show ?thesis
      using set_state_correct [OF inv e(1), of FlushInProgress] e d by auto
  qed
qed

lemma RevertFlushInProgressLocked_correct:
  assumes inv: "shard_inv s"
  shows "shard_inv (RevertFlushInProgressLocked k ver s) \<and>
    (case shard_map s k of
       None \<Rightarrow> RevertFlushInProgressLocked k ver s = s
     | Some e \<Rightarrow> if entry_version e = ver \<and> dirtyState e = FlushInProgress
         then shard_map (RevertFlushInProgressLocked k ver s) = (shard_map s)(k \<mapsto> e\<lparr>dirtyState := Dirty\<rparr>)
         else RevertFlushInProgressLocked k ver s = s)"
proof (cases "find_entry s k")
  case None
  then show ?thesis
    using inv not_found [OF inv, of k] by (simp add: RevertFlushInProgressLocked_def)
next
  case (Some p)
  then obtain i e where f: "find_entry s k = Some (i, e)" by (cases p) auto
  note e = found_entry [OF inv f]
  show ?thesis
    using f e set_state_correct [OF inv e(1), of Dirty] set_node_set_state [of e Dirty s i] inv
    by (auto simp: RevertFlushInProgressLocked_def dirty_def)
qed

lemma complete_flush_correct:
  assumes inv: "shard_inv s"
  shows "shard_inv (complete_flush k ver s) \<and>
    (case shard_map s k of
       None \<Rightarrow> complete_flush k ver s = s
     | Some e \<Rightarrow> if entry_version e = ver \<and> dirtyState e = FlushInProgress
         then shard_map (complete_flush k ver s) = (shard_map s)(k \<mapsto> e\<lparr>dirtyState := Clean\<rparr>)
         else complete_flush k ver s = s)"
proof (cases "find_entry s k")
  case None
  then show ?thesis
    using inv not_found [OF inv, of k] by (simp add: complete_flush_def)
next
  case (Some p)
  then obtain i e where f: "find_entry s k = Some (i, e)" by (cases p) auto
  note e = found_entry [OF inv f]
  have "complete_flush k ver s = set_state i e Clean s" if "entry_version e = ver" "dirtyState e = FlushInProgress"
    using that f by (simp add: complete_flush_def set_state_def dirty_def)
  then show ?thesis
    using f e set_state_correct [OF inv e(1), of Clean] inv by (auto simp: complete_flush_def)
qed

lemma drop_entry_correct:
  assumes inv: "shard_inv s"
  shows "shard_inv (drop_entry k ver s) \<and> mutationFence (drop_entry k ver s) = mutationFence s + 1 \<and>
    shard_map (drop_entry k ver s) =
      (case shard_map s k of None \<Rightarrow> shard_map s
       | Some e \<Rightarrow> if entry_version e = ver then (shard_map s)(k := None) else shard_map s)"
proof (cases "find_entry s k")
  case None
  then show ?thesis
    using inv not_found [OF inv, of k] by (simp add: drop_entry_def)
next
  case (Some p)
  then obtain i e where f: "find_entry s k = Some (i, e)" by (cases p) auto
  note e = found_entry [OF inv f]
  have "mutationFence (unlink i e s) = mutationFence s"
    by (simp add: unlink_def)
  then show ?thesis
    using f e unlink_correct [OF inv e(1)] inv by (simp add: drop_entry_def)
qed

section \<open>The shard as a state machine\<close>

text \<open>
  Every access to a shard is one of these sections, run with the shard's mutex held.  Whatever the
  threads do, a shard's history is a sequence of such steps, in any order and with any arguments.
\<close>

inductive shard_step :: "Limits \<Rightarrow> Shard \<Rightarrow> Shard \<Rightarrow> bool" for lim where
  insert: "InsertOrUpdateLocked lim k v ver st enf (s, c) = (s', c') \<Longrightarrow> shard_step lim s s'"
| touch: "find_entry s k = Some (i, e) \<Longrightarrow> shard_step lim s (splice_front i e s)"
| evict: "EvictCleanEntriesLocked lim (s, c) = (s', c') \<Longrightarrow> shard_step lim s s'"
| begin_flush: "begin_flush k ev cv s = (r, s') \<Longrightarrow> shard_step lim s s'"
| revert: "shard_step lim s (RevertFlushInProgressLocked k ver s)"
| complete: "shard_step lim s (complete_flush k ver s)"
| drop: "shard_step lim s (drop_entry k ver s)"

inductive_cases shard_stepE: "shard_step lim s s'"

lemma empty_shard_inv: "shard_inv empty_shard"
  by (simp add: shard_inv_def empty_shard_def entries_def)

lemma shard_step_inv: "shard_step lim s s' \<Longrightarrow> shard_inv s \<Longrightarrow> shard_inv s'"
proof (induction rule: shard_step.induct)
  case (insert k v ver st enf s c s' c')
  then show ?case
    using InsertOrUpdateLocked_stale [of s k ver lim v st enf c] InsertOrUpdateLocked_correct [of s k ver lim v st enf c s' c']
    by (cases "insert_stale s k ver") auto
next
  case (touch s k i e)
  then show ?case
    using splice_front_correct(1) found_entry(1) by blast
next
  case (evict s c s' c')
  then show ?case
    using EvictCleanEntriesLocked_correct by blast
next
  case (begin_flush k ev cv s r s')
  then show ?case
    using begin_flush_correct by blast
qed (simp_all add: RevertFlushInProgressLocked_correct complete_flush_correct drop_entry_correct)

section \<open>Properties\<close>

text \<open>
  C16. \<^bold>\<open>Index, LRU list and counters always agree.\<close>  In every shard reachable from the empty one by
  locked sections in any order: the index finds exactly the entries of the LRU list, each key
  occurs once, no iterator dangles, and the byte and dirty counters are the sums over the list.
\<close>

theorem shard_consistent:
  assumes "(shard_step lim)\<^sup>*\<^sup>* empty_shard s"
  shows "(\<forall>k i e. find_entry s k = Some (i, e) \<longleftrightarrow> (i, e) \<in> set (lru s) \<and> entry_key e = k)
    \<and> (\<forall>k i. map_of (sh_index s) k = Some i \<longrightarrow> map_of (lru s) i \<noteq> None)
    \<and> distinct (map entry_key (entries s)) \<and> length (sh_index s) = length (lru s)
    \<and> currentBytes s = of_nat (sum_list (map SizeBytes (entries s)))
    \<and> dirtyBytes s = of_nat (sum_list (map SizeBytes (filter (\<lambda>e. dirtyState e \<noteq> Clean) (entries s))))
    \<and> dirtyCount s = length (filter (\<lambda>e. dirtyState e \<noteq> Clean) (entries s))"
proof -
  have inv: "shard_inv s"
    using assms by (induction rule: rtranclp_induct) (auto intro: empty_shard_inv shard_step_inv)
  have d: "dirty = (\<lambda>e. dirtyState e \<noteq> Clean)"
    by (simp add: fun_eq_iff dirty_def)
  have "map_of (lru s) i \<noteq> None" if ix: "map_of (sh_index s) k = Some i" for k i
  proof -
    have "(k, i) \<in> set (sh_index s)"
      using ix by (rule map_of_SomeD)
    then obtain e where "(i, e) \<in> set (lru s)"
      using index_iff [OF inv] by blast
    then show ?thesis
      by (metis map_of_eq_None_iff fst_conv image_eqI)
  qed
  then show ?thesis
    using shard_invD [OF inv] find_entry_iff [OF inv] length_index [OF inv]
    by (simp add: total_size_def d)
qed

theorem shard_consistent_witness:
  "\<exists>s. find_entry s [7] \<noteq> None \<and> dirtyCount s = length (filter (\<lambda>e. dirtyState e \<noteq> Clean) (entries s))"
proof -
  let ?lim = "\<lparr>perShardCapacityBytes = 100, perShardMaxEntries = 10\<rparr>"
  obtain s c where ins: "InsertOrUpdateLocked ?lim [7] [1] 1 Dirty False (empty_shard, no_statistics) = (s, c)"
    by (cases "InsertOrUpdateLocked ?lim [7] [1] 1 Dirty False (empty_shard, no_statistics)") auto
  then have "(shard_step ?lim)\<^sup>*\<^sup>* empty_shard s"
    by (blast intro: shard_step.insert)
  moreover have "find_entry s [7] \<noteq> None"
    using ins by (auto simp: InsertOrUpdateLocked_def Let_def empty_shard_def find_entry_def push_front_def)
  ultimately show ?thesis
    using shard_consistent [of ?lim s] by blast
qed

text \<open>
  C28. \<^bold>\<open>Eviction is LRU and never loses dirty data.\<close>  The eviction loop removes a suffix of the
  clean entries in recency order (the least recently used ones), leaves every dirty entry in place,
  counts what it removed, and stops within budget or with no clean entry left.
\<close>

theorem EvictCleanEntriesLocked_lru:
  assumes "shard_inv s" and "EvictCleanEntriesLocked lim (s, c) = (s', c')"
  shows "filter (\<lambda>e. dirtyState e \<noteq> Clean) (entries s') = filter (\<lambda>e. dirtyState e \<noteq> Clean) (entries s)
    \<and> (\<exists>evicted. filter (\<lambda>e. dirtyState e = Clean) (entries s) = filter (\<lambda>e. dirtyState e = Clean) (entries s') @ evicted
         \<and> evictionCount c' = evictionCount c + of_nat (length evicted))
    \<and> (\<not> over_budget lim s' \<or> (\<forall>e\<in>set (entries s'). dirtyState e \<noteq> Clean))"
  using EvictCleanEntriesLocked_correct [OF assms]
  by (auto simp: dirty_def [abs_def] filter_empty_conv)

definition sample_shard :: Shard where
  "sample_shard =
     fst (InsertOrUpdateLocked \<lparr>perShardCapacityBytes = 100, perShardMaxEntries = 10\<rparr> [7] [1] 0 Clean False
       (empty_shard, no_statistics))"

theorem EvictCleanEntriesLocked_lru_witness:
  "\<exists>s' c'. EvictCleanEntriesLocked \<lparr>perShardCapacityBytes = 10, perShardMaxEntries = 10\<rparr> (sample_shard, no_statistics) = (s', c')
     \<and> shard_inv sample_shard \<and> (\<not> over_budget \<lparr>perShardCapacityBytes = 10, perShardMaxEntries = 10\<rparr> s' \<or>
         (\<forall>e\<in>set (entries s'). dirtyState e \<noteq> Clean))"
proof -
  have inv: "shard_inv sample_shard"
    using insert_no_evict [OF empty_shard_inv] unfolding sample_shard_def by (metis prod.collapse)
  obtain s' c' where ev: "EvictCleanEntriesLocked \<lparr>perShardCapacityBytes = 10, perShardMaxEntries = 10\<rparr> (sample_shard, no_statistics) = (s', c')"
    by (cases "EvictCleanEntriesLocked \<lparr>perShardCapacityBytes = 10, perShardMaxEntries = 10\<rparr> (sample_shard, no_statistics)") auto
  show ?thesis
    using EvictCleanEntriesLocked_lru [OF inv ev] inv ev by blast
qed

end
