(* ===== verification/CacheEngine.thy ===== *)
theory CacheEngine
  imports WriteAheadJournal JournalRecordCodec BackingStore Shard
begin

text \<open>
  The cache engine (\<^verbatim>\<open>CacheEngine.cpp\<close>): sharded RAM cache in front of a backing store, with a
  write-ahead journal.  The functions of this theory are the operations as one thread executes
  them; each access under a shard's mutex is a function of \<open>Shard\<close>, and the calls between the
  locked sections go through the interfaces of the store and the journal.

  What the engine is built from but does not define is in the record \<open>Deps\<close>: the operations of the
  store and of the journal, \<^verbatim>\<open>std::hash<std::string>\<close>, and the order in which an
  \<^verbatim>\<open>unordered_map\<close> is walked.  A call that waits for another thread (and so, alone, forever) has
  the result \<open>None\<close>.  The logger has no effect on the state and is left out.
\<close>

section \<open>State\<close>

definition kMaxReasonableValueBytes :: nat where
  "kMaxReasonableValueBytes = 64 * 1024 * 1024"

datatype EngineLifecycle = NotReady | Ready | Stopping | Stopped | RecoveryFailed

record PendingEntry =
  pe_value :: "value"
  pe_version :: u64
  pe_state :: EntryDirtyState

type_synonym pending = "(key \<times> PendingEntry) list"

record ('j, 'b) Deps =
  hash :: "key \<Rightarrow> nat"
  store_ops :: "'b IBackingStore"
  journal_ops :: "('j, pending \<times> 'b) IWriteAheadJournal"
  map_order :: "pending \<Rightarrow> pending"

record ('j, 'b) CacheEngine =
  options :: CacheEngineOptions
  backingStore :: 'b
  journal :: 'j
  shards :: "Shard list"
  limits :: Limits
  globalVersionCounter :: u64
  lifecycle :: EngineLifecycle
  inFlightWriteCount :: nat
  compactionPaused :: bool
  stats :: CacheStatistics
  backgroundFlushThread :: bool
  backgroundFlushStopRequested :: bool

definition ShardFor :: "('j, 'b) Deps \<Rightarrow> ('j, 'b) CacheEngine \<Rightarrow> key \<Rightarrow> nat" where
  "ShardFor d e k = hash d k mod length (shards e)"

definition upd_shard :: "nat \<Rightarrow> Shard \<Rightarrow> ('j, 'b) CacheEngine \<Rightarrow> ('j, 'b) CacheEngine" where
  "upd_shard i s e = e\<lparr>shards := (shards e)[i := s]\<rparr>"

text \<open>A locked section that also bumps counters.\<close>

definition on_shard ::
  "nat \<Rightarrow> (Shard \<times> CacheStatistics \<Rightarrow> Shard \<times> CacheStatistics) \<Rightarrow> ('j, 'b) CacheEngine \<Rightarrow> ('j, 'b) CacheEngine" where
  "on_shard i f e = (case f (shards e ! i, stats e) of (s, c) \<Rightarrow> (upd_shard i s e)\<lparr>stats := c\<rparr>)"

section \<open>Lifecycle checks and write admission\<close>

definition CheckReadyForRead :: "('j, 'b) CacheEngine \<Rightarrow> unit result" where
  "CheckReadyForRead e =
     (if lifecycle e = NotReady then
        Failure (mkError RecoveryNotComplete ''cache engine is not ready: recovery has not completed'')
      else if lifecycle e = RecoveryFailed then
        Failure (mkError ErrorCode.RecoveryFailed ''cache engine recovery failed; this instance is permanently unusable'')
      else if lifecycle e = Stopped then
        Failure (mkError ServiceStopping ''cache engine has finished shutting down'')
      else Success ())"

definition CheckReadyForWrite :: "('j, 'b) CacheEngine \<Rightarrow> unit result" where
  "CheckReadyForWrite e =
     (if lifecycle e = NotReady then
        Failure (mkError RecoveryNotComplete ''cache engine is not ready: recovery has not completed'')
      else if lifecycle e = RecoveryFailed then
        Failure (mkError ErrorCode.RecoveryFailed ''cache engine recovery failed; this instance is permanently unusable'')
      else if lifecycle e \<noteq> Ready then
        Failure (mkError ServiceStopping ''cache engine is shutting down and no longer accepts new writes'')
      else Success ())"

definition TryAdmitWrite :: "('j, 'b) CacheEngine \<Rightarrow> (bool \<times> ('j, 'b) CacheEngine) option" where
  "TryAdmitWrite e =
     (if compactionPaused e then None
      else if lifecycle e \<noteq> Ready then Some (False, e)
      else Some (True, e\<lparr>inFlightWriteCount := inFlightWriteCount e + 1\<rparr>))"

definition ReleaseWriteAdmission :: "('j, 'b) CacheEngine \<Rightarrow> ('j, 'b) CacheEngine" where
  "ReleaseWriteAdmission e =
     (if inFlightWriteCount e > 0 then e\<lparr>inFlightWriteCount := inFlightWriteCount e - 1\<rparr> else e)"

definition DrainInFlightWrites :: "('j, 'b) CacheEngine \<Rightarrow> ('j, 'b) CacheEngine option" where
  "DrainInFlightWrites e = (if inFlightWriteCount e = 0 then Some e else None)"

section \<open>Journalling\<close>

definition journal_record :: "CacheRecordType \<Rightarrow> key \<Rightarrow> value \<Rightarrow> u64 \<Rightarrow> CacheJournalRecord" where
  "journal_record t k v ver =
     \<lparr>formatVersion = kCacheRecordFormatVersion, recordType = t, rec_key = k, rec_value = v,
      entryVersion = ver\<rparr>"

definition AppendJournalRecord ::
  "('j, 'b) Deps \<Rightarrow> CacheJournalRecord \<Rightarrow> ('j, 'b) CacheEngine \<Rightarrow> unit result \<times> ('j, 'b) CacheEngine" where
  "AppendJournalRecord d rec e =
     (case Jrn_Append (journal_ops d) (Encode rec) (journal e) of
        (Inl er, j) \<Rightarrow> (Failure er, e\<lparr>journal := j\<rparr>)
      | (Inr _, j) \<Rightarrow> (Success (), e\<lparr>journal := j\<rparr>))"

definition AppendJournalRecordWithNewVersion ::
  "('j, 'b) Deps \<Rightarrow> CacheJournalRecord \<Rightarrow> ('j, 'b) CacheEngine \<Rightarrow> (unit result \<times> u64) \<times> ('j, 'b) CacheEngine" where
  "AppendJournalRecordWithNewVersion d rec e =
     (let outVersion = globalVersionCounter e + 1;
          e = e\<lparr>globalVersionCounter := outVersion\<rparr>
      in case AppendJournalRecord d (rec\<lparr>entryVersion := outVersion\<rparr>) e of
           (r, e) \<Rightarrow> ((r, outVersion), e))"

section \<open>Flushing one key\<close>

definition flush_failed :: "nat \<Rightarrow> key \<Rightarrow> u64 \<Rightarrow> ('j, 'b) CacheEngine \<Rightarrow> ('j, 'b) CacheEngine" where
  "flush_failed i k ver e =
     (let e = upd_shard i (RevertFlushInProgressLocked k ver (shards e ! i)) e
      in e\<lparr>stats := (stats e)\<lparr>flushFailureCount := flushFailureCount (stats e) + 1\<rparr>\<rparr>)"

definition flush_succeeded :: "nat \<Rightarrow> key \<Rightarrow> u64 \<Rightarrow> ('j, 'b) CacheEngine \<Rightarrow> ('j, 'b) CacheEngine" where
  "flush_succeeded i k ver e =
     (let e = upd_shard i (complete_flush k ver (shards e ! i)) e
      in e\<lparr>stats := (stats e)\<lparr>flushSuccessCount := flushSuccessCount (stats e) + 1\<rparr>\<rparr>)"

text \<open>The durable part of \<^verbatim>\<open>FlushKey\<close>, after the entry was marked.\<close>

definition write_back ::
  "('j, 'b) Deps \<Rightarrow> nat \<Rightarrow> key \<Rightarrow> value \<Rightarrow> u64 \<Rightarrow> ('j, 'b) CacheEngine \<Rightarrow> unit result \<times> ('j, 'b) CacheEngine" where
  "write_back d i k v ver e =
     (case AppendJournalRecord d (journal_record FlushIntent k [] ver) e of
        (Inl er, e) \<Rightarrow> (Failure er, flush_failed i k ver e)
      | (Inr _, e) \<Rightarrow>
     (case Bs_Put (store_ops d) k v (backingStore e) of
        (Inl er, b) \<Rightarrow> (Failure er, flush_failed i k ver (e\<lparr>backingStore := b\<rparr>))
      | (Inr _, b) \<Rightarrow>
     (case AppendJournalRecord d (journal_record FlushComplete k [] ver) (e\<lparr>backingStore := b\<rparr>) of
        (Inl er, e) \<Rightarrow> (Failure er, flush_failed i k ver e)
      | (Inr _, e) \<Rightarrow> (Success (), flush_succeeded i k ver e))))"

definition FlushKey ::
  "('j, 'b) Deps \<Rightarrow> key \<Rightarrow> u64 \<Rightarrow> bool \<Rightarrow> ('j, 'b) CacheEngine \<Rightarrow> unit result \<times> ('j, 'b) CacheEngine" where
  "FlushKey d k expectedVersion checkVersion e =
     (let i = ShardFor d e k
      in case begin_flush k expectedVersion checkVersion (shards e ! i) of
           (FlushDone r, _) \<Rightarrow> (r, e)
         | (FlushValue v ver, s) \<Rightarrow> write_back d i k v ver (upd_shard i s e))"

section \<open>Capacity pressure\<close>

definition kMaxFlushAttemptsPerCall :: nat where
  "kMaxFlushAttemptsPerCall = 64"

text \<open>\<^verbatim>\<open>keyToFlush\<close>: the least recently used dirty key, or the empty string.\<close>

definition key_to_flush :: "Shard \<Rightarrow> key" where
  "key_to_flush s =
     (case find (\<lambda>(_, e). dirtyState e = Dirty) (rev (lru s)) of None \<Rightarrow> [] | Some (_, e) \<Rightarrow> entry_key e)"

definition evict_shard :: "nat \<Rightarrow> ('j, 'b) CacheEngine \<Rightarrow> ('j, 'b) CacheEngine" where
  "evict_shard i e = on_shard i (EvictCleanEntriesLocked (limits e)) e"

fun relieve_attempts ::
  "('j, 'b) Deps \<Rightarrow> nat \<Rightarrow> nat \<Rightarrow> ('j, 'b) CacheEngine \<Rightarrow> ('j, 'b) CacheEngine" where
  "relieve_attempts d i 0 e = e"
| "relieve_attempts d i (Suc n) e =
     (let s = shards e ! i; keyToFlush = key_to_flush s
      in if \<not> over_budget (limits e) s then e
         else if keyToFlush = [] then evict_shard i e
         else (case FlushKey d keyToFlush 0 False e of
                 (flushResult, e) \<Rightarrow>
                   let e = evict_shard i e
                   in if \<not> IsOk flushResult then e
                      else if dirtyCount (shards e ! i) \<ge> dirtyCount s then e
                      else relieve_attempts d i n e))"

definition RelieveCapacityPressureIfNeeded ::
  "('j, 'b) Deps \<Rightarrow> nat \<Rightarrow> ('j, 'b) CacheEngine \<Rightarrow> ('j, 'b) CacheEngine" where
  "RelieveCapacityPressureIfNeeded d i e = relieve_attempts d i kMaxFlushAttemptsPerCall e"

section \<open>Reads\<close>

definition hit :: "nat \<Rightarrow> nat \<Rightarrow> Entry \<Rightarrow> ('j, 'b) CacheEngine \<Rightarrow> value result \<times> ('j, 'b) CacheEngine" where
  "hit i n en e =
     (Success (entry_value en),
      (upd_shard i (splice_front n en (shards e ! i)) e)
        \<lparr>stats := (stats e)\<lparr>hitCount := hitCount (stats e) + 1\<rparr>\<rparr>)"

text \<open>The second locked section of \<^verbatim>\<open>Get\<close>, with the value the store returned.\<close>

definition read_fill ::
  "nat \<Rightarrow> key \<Rightarrow> u64 \<Rightarrow> value \<Rightarrow> ('j, 'b) CacheEngine \<Rightarrow> value result \<times> ('j, 'b) CacheEngine" where
  "read_fill i k fenceAtMiss v e =
     (if mutationFence (shards e ! i) = fenceAtMiss then
        (Success v, on_shard i (InsertOrUpdateLocked (limits e) k v 0 Clean True) e)
      else (case find_entry (shards e ! i) k of
              Some (n, en) \<Rightarrow> hit i n en e
            | None \<Rightarrow> (Success v, e)))"

definition CacheEngine_Get ::
  "('j, 'b) Deps \<Rightarrow> key \<Rightarrow> ('j, 'b) CacheEngine \<Rightarrow> value result \<times> ('j, 'b) CacheEngine" where
  "CacheEngine_Get d k e =
     (case CheckReadyForRead e of Inl er \<Rightarrow> (Failure er, e) | Inr _ \<Rightarrow>
     if \<not> enabled (options e) then (Failure (mkError CacheDisabled ''cache is disabled by configuration''), e)
     else
     let i = ShardFor d e k in
     (case find_entry (shards e ! i) k of
        Some (n, en) \<Rightarrow> hit i n en e
      | None \<Rightarrow>
          let fenceAtMiss = mutationFence (shards e ! i);
              e = e\<lparr>stats := (stats e)\<lparr>missCount := missCount (stats e) + 1\<rparr>\<rparr>
          in case Bs_Get (store_ops d) k (backingStore e) of
               (Inl er, b) \<Rightarrow> (Failure er, e\<lparr>backingStore := b\<rparr>)
             | (Inr v, b) \<Rightarrow>
                 let e = e\<lparr>backingStore := b\<rparr>
                 in if length v > kMaxReasonableValueBytes then
                      (Failure (mkError CorruptData
                         ''backing store returned an implausibly large value; refusing to cache or trust it''), e)
                    else read_fill i k fenceAtMiss v e))"

definition CacheEngine_Contains :: "('j, 'b) Deps \<Rightarrow> key \<Rightarrow> ('j, 'b) CacheEngine \<Rightarrow> bool" where
  "CacheEngine_Contains d k e =
     (if \<not> IsOk (CheckReadyForRead e) then False
      else if map_of (sh_index (shards e ! ShardFor d e k)) k \<noteq> None then True
      else Bs_Contains (store_ops d) k (backingStore e))"

definition GetEntryInfo :: "('j, 'b) Deps \<Rightarrow> key \<Rightarrow> ('j, 'b) CacheEngine \<Rightarrow> CacheEntryInfo result" where
  "GetEntryInfo d k e =
     (case CheckReadyForRead e of Inl er \<Rightarrow> Failure er | Inr _ \<Rightarrow>
     (case find_entry (shards e ! ShardFor d e k) k of
        None \<Rightarrow> Failure (mkError NotFound ''key not present in cache (may still be in backing store)'')
      | Some (_, en) \<Rightarrow>
          Success \<lparr>info_key = k, info_version = entry_version en, info_sizeBytes = length (entry_value en),
                   info_dirtyState = dirtyState en\<rparr>))"

section \<open>Writes\<close>

definition not_admitted :: "unit result" where
  "not_admitted =
     Failure (mkError ServiceStopping ''cache engine is shutting down and no longer accepts new writes'')"

text \<open>What \<^verbatim>\<open>Put\<close> does between admission and release.\<close>

definition Put_admitted ::
  "('j, 'b) Deps \<Rightarrow> key \<Rightarrow> value \<Rightarrow> ('j, 'b) CacheEngine \<Rightarrow> unit result \<times> ('j, 'b) CacheEngine" where
  "Put_admitted d k v e =
     (case AppendJournalRecordWithNewVersion d (journal_record Upsert k v 0) e of
        ((Inl er, _), e) \<Rightarrow> (Failure er, e)
      | ((Inr _, ver), e) \<Rightarrow>
          let i = ShardFor d e k;
              e = on_shard i (InsertOrUpdateLocked (limits e) k v ver Dirty True) e;
              e = RelieveCapacityPressureIfNeeded d i e
          in if writePolicy (options e) = WriteThrough then FlushKey d k ver True e
             else (Success (), e))"

definition CacheEngine_Put ::
  "('j, 'b) Deps \<Rightarrow> key \<Rightarrow> value \<Rightarrow> ('j, 'b) CacheEngine \<Rightarrow> (unit result \<times> ('j, 'b) CacheEngine) option" where
  "CacheEngine_Put d k v e =
     (case CheckReadyForWrite e of Inl er \<Rightarrow> Some (Failure er, e) | Inr _ \<Rightarrow>
     if \<not> enabled (options e) then Some (Failure (mkError CacheDisabled ''cache is disabled by configuration''), e)
     else
     (case TryAdmitWrite e of
        None \<Rightarrow> None
      | Some (False, e) \<Rightarrow> Some (not_admitted, e)
      | Some (True, e) \<Rightarrow>
          (case Put_admitted d k v e of (r, e) \<Rightarrow> Some (r, ReleaseWriteAdmission e))))"

definition Invalidate_admitted ::
  "('j, 'b) Deps \<Rightarrow> key \<Rightarrow> bool \<Rightarrow> ('j, 'b) CacheEngine \<Rightarrow> unit result \<times> ('j, 'b) CacheEngine" where
  "Invalidate_admitted d k force e =
     (let i = ShardFor d e k;
          found = find_entry (shards e ! i) k;
          entryVersion = (case found of None \<Rightarrow> 0 | Some (_, en) \<Rightarrow> entry_version en)
      in if (case found of None \<Rightarrow> False | Some (_, en) \<Rightarrow> \<not> force \<and> dirtyState en \<noteq> Clean) then
           (Failure (mkError_key UnflushedDirtyData (''refusing to invalidate '' @ [CHR 0x27]) k
              ([CHR 0x27] @ '': it has unflushed dirty data (use ForceInvalidate to override)'')), e)
         else
         (case AppendJournalRecord d (journal_record Invalidate k [] entryVersion) e of
            (Inl er, e) \<Rightarrow> (Failure er, e)
          | (Inr _, e) \<Rightarrow>
         (case Bs_Remove (store_ops d) k (backingStore e) of
            (Inl er, b) \<Rightarrow> (Failure er, e\<lparr>backingStore := b\<rparr>)
          | (Inr _, b) \<Rightarrow>
              let e = e\<lparr>backingStore := b\<rparr>;
                  e = upd_shard i (drop_entry k entryVersion (shards e ! i)) e
              in (Success (),
                  e\<lparr>stats := (stats e)\<lparr>invalidationCount := invalidationCount (stats e) + 1\<rparr>\<rparr>))))"

definition InvalidateImpl ::
  "('j, 'b) Deps \<Rightarrow> key \<Rightarrow> bool \<Rightarrow> ('j, 'b) CacheEngine \<Rightarrow> (unit result \<times> ('j, 'b) CacheEngine) option" where
  "InvalidateImpl d k force e =
     (case CheckReadyForWrite e of Inl er \<Rightarrow> Some (Failure er, e) | Inr _ \<Rightarrow>
     (case TryAdmitWrite e of
        None \<Rightarrow> None
      | Some (False, e) \<Rightarrow> Some (not_admitted, e)
      | Some (True, e) \<Rightarrow>
          (case Invalidate_admitted d k force e of (r, e) \<Rightarrow> Some (r, ReleaseWriteAdmission e))))"

definition CacheEngine_Invalidate ::
  "('j, 'b) Deps \<Rightarrow> key \<Rightarrow> ('j, 'b) CacheEngine \<Rightarrow> (unit result \<times> ('j, 'b) CacheEngine) option" where
  "CacheEngine_Invalidate d k e = InvalidateImpl d k False e"

definition ForceInvalidate ::
  "('j, 'b) Deps \<Rightarrow> key \<Rightarrow> ('j, 'b) CacheEngine \<Rightarrow> (unit result \<times> ('j, 'b) CacheEngine) option" where
  "ForceInvalidate d k e = InvalidateImpl d k True e"

section \<open>Flush, compaction and statistics\<close>

definition CacheEngine_Flush ::
  "('j, 'b) Deps \<Rightarrow> key \<Rightarrow> ('j, 'b) CacheEngine \<Rightarrow> unit result \<times> ('j, 'b) CacheEngine" where
  "CacheEngine_Flush d k e =
     (case CheckReadyForRead e of Inl er \<Rightarrow> (Failure er, e) | Inr _ \<Rightarrow> FlushKey d k 0 False e)"

definition remaining_dirty :: "('j, 'b) CacheEngine \<Rightarrow> nat" where
  "remaining_dirty e = sum_list (map dirtyCount (shards e))"

definition TryCompactJournalIfFullyClean ::
  "('j, 'b) Deps \<Rightarrow> ('j, 'b) CacheEngine \<Rightarrow> ('j, 'b) CacheEngine option" where
  "TryCompactJournalIfFullyClean d e =
     (if Jrn_RecordCount (journal_ops d) (journal e) = 0 then Some e
      else
      (case DrainInFlightWrites (e\<lparr>compactionPaused := True\<rparr>) of
         None \<Rightarrow> None
       | Some e \<Rightarrow>
           if remaining_dirty e = 0 then
             if Jrn_RecordCount (journal_ops d) (journal e) = 0 then Some (e\<lparr>compactionPaused := False\<rparr>)
             else (case Jrn_Truncate (journal_ops d) (journal e) of
                     (_, j) \<Rightarrow> Some (e\<lparr>journal := j, compactionPaused := False\<rparr>))
           else Some (e\<lparr>compactionPaused := False\<rparr>)))"

text \<open>The inner loop of \<^verbatim>\<open>FlushAll\<close>; the last error is carried along.\<close>

fun flush_keys ::
  "('j, 'b) Deps \<Rightarrow> key list \<Rightarrow> Error option \<Rightarrow> ('j, 'b) CacheEngine \<Rightarrow> Error option \<times> ('j, 'b) CacheEngine" where
  "flush_keys d [] lastError e = (lastError, e)"
| "flush_keys d (k # ks) lastError e =
     (case FlushKey d k 0 False e of
        (Inl er, e) \<Rightarrow> flush_keys d ks (Some er) e
      | (Inr _, e) \<Rightarrow> flush_keys d ks lastError e)"

definition dirty_keys :: "Shard \<Rightarrow> key list" where
  "dirty_keys s = map (\<lambda>(_, en). entry_key en) (filter (\<lambda>(_, en). dirtyState en = Dirty) (lru s))"

fun flush_shards ::
  "('j, 'b) Deps \<Rightarrow> nat list \<Rightarrow> Error option \<Rightarrow> ('j, 'b) CacheEngine \<Rightarrow> Error option \<times> ('j, 'b) CacheEngine" where
  "flush_shards d [] lastError e = (lastError, e)"
| "flush_shards d (i # is) lastError e =
     (case flush_keys d (dirty_keys (shards e ! i)) lastError e of
        (lastError, e) \<Rightarrow> flush_shards d is lastError e)"

definition FlushAll ::
  "('j, 'b) Deps \<Rightarrow> ('j, 'b) CacheEngine \<Rightarrow> (unit result \<times> ('j, 'b) CacheEngine) option" where
  "FlushAll d e =
     (case CheckReadyForRead e of Inl er \<Rightarrow> Some (Failure er, e) | Inr _ \<Rightarrow>
     (case flush_shards d [0..<length (shards e)] None e of
        (Some er, e) \<Rightarrow> Some (Failure er, e)
      | (None, e) \<Rightarrow>
          (case TryCompactJournalIfFullyClean d e of
             None \<Rightarrow> None
           | Some e \<Rightarrow> Some (Success (), e))))"

definition GetStatistics :: "('j, 'b) CacheEngine \<Rightarrow> CacheStatistics" where
  "GetStatistics e =
     (stats e)
       \<lparr>currentEntryCount := sum_list (map (\<lambda>s. of_nat (length (sh_index s))) (shards e)),
        currentMemoryBytes := sum_list (map currentBytes (shards e)),
        dirtyEntryCount := sum_list (map (\<lambda>s. of_nat (dirtyCount s)) (shards e)),
        stat_dirtyBytes := sum_list (map dirtyBytes (shards e))\<rparr>"

section \<open>Start and stop\<close>

definition StartBackgroundFlushThreadIfConfigured :: "('j, 'b) CacheEngine \<Rightarrow> ('j, 'b) CacheEngine" where
  "StartBackgroundFlushThreadIfConfigured e =
     (if flushPolicy (options e) \<noteq> PeriodicBackground then e
      else if backgroundFlushThread e then e
      else e\<lparr>backgroundFlushStopRequested := False, backgroundFlushThread := True\<rparr>)"

definition StopBackgroundFlushThread :: "('j, 'b) CacheEngine \<Rightarrow> ('j, 'b) CacheEngine" where
  "StopBackgroundFlushThread e =
     (if \<not> backgroundFlushThread e then e
      else e\<lparr>backgroundFlushStopRequested := True, backgroundFlushThread := False\<rparr>)"

text \<open>One wake-up of the background thread; \<open>False\<close> says that its loop ends.\<close>

definition background_flush_tick ::
  "('j, 'b) Deps \<Rightarrow> ('j, 'b) CacheEngine \<Rightarrow> (bool \<times> ('j, 'b) CacheEngine) option" where
  "background_flush_tick d e =
     (if backgroundFlushStopRequested e then Some (False, e)
      else if lifecycle e = Ready then
        (case FlushAll d e of None \<Rightarrow> None | Some (_, e) \<Rightarrow> Some (True, e))
      else Some (True, e))"

definition Shutdown ::
  "('j, 'b) Deps \<Rightarrow> ('j, 'b) CacheEngine \<Rightarrow> (unit result \<times> ('j, 'b) CacheEngine) option" where
  "Shutdown d e =
     (if lifecycle e \<noteq> Ready then
        (if lifecycle e = Stopped \<or> lifecycle e = Stopping then Some (Success (), e)
         else Some (Failure (mkError InvalidArgument ''cannot shut down an engine that was never marked ready''), e))
      else
      (case DrainInFlightWrites (e\<lparr>lifecycle := Stopping\<rparr>) of
         None \<Rightarrow> None
       | Some e \<Rightarrow>
      (case FlushAll d (StopBackgroundFlushThread e) of
         None \<Rightarrow> None
       | Some (_, e) \<Rightarrow>
           let e = e\<lparr>lifecycle := Stopped\<rparr>
           in if remaining_dirty e = 0 then
                (case Jrn_Truncate (journal_ops d) (journal e) of (_, j) \<Rightarrow> Some (Success (), e\<lparr>journal := j\<rparr>))
              else Some (Success (), e))))"

text \<open>The callback \<^verbatim>\<open>ReplayFromJournal\<close> passes to the journal.\<close>

definition replay_record ::
  "'b IBackingStore \<Rightarrow> JournalRecord \<Rightarrow> pending \<times> 'b \<Rightarrow> ReplayAction result \<times> pending \<times> 'b" where
  "replay_record B raw pb =
     (case pb of (pend, b) \<Rightarrow>
      case Decode (payload raw) of
        Inl er \<Rightarrow> (Failure er, pend, b)
      | Inr rec \<Rightarrow>
          let k = rec_key rec in
          (case recordType rec of
             Upsert \<Rightarrow>
               (Success Continue,
                AList.update k \<lparr>pe_value = rec_value rec, pe_version = entryVersion rec, pe_state = Dirty\<rparr> pend, b)
           | FlushIntent \<Rightarrow>
               (case map_of pend k of
                  Some pe \<Rightarrow>
                    (Success Continue,
                     if pe_version pe = entryVersion rec
                     then AList.update k (pe\<lparr>pe_state := FlushInProgress\<rparr>) pend else pend, b)
                | None \<Rightarrow> (Success Continue, pend, b))
           | FlushComplete \<Rightarrow>
               (case map_of pend k of
                  Some pe \<Rightarrow>
                    (Success Continue,
                     if pe_version pe = entryVersion rec then AList.delete k pend else pend, b)
                | None \<Rightarrow> (Success Continue, pend, b))
           | Invalidate \<Rightarrow>
               (let pend = AList.delete k pend in
                case Bs_Remove B k b of
                  (Inl er, b) \<Rightarrow>
                    (Failure \<lparr>code = ErrorCode.RecoveryFailed,
                        message = str ''journal replay: backing store Remove() failed for key '' @ [0x27] @ k
                          @ [0x27] @ str '' during Invalidate replay: '' @ message er,
                        platformErrorValue = platformErrorValue er\<rparr>, pend, b)
                | (Inr _, b) \<Rightarrow> (Success Continue, pend, b))))"

definition insert_pending ::
  "('j, 'b) Deps \<Rightarrow> key \<times> PendingEntry \<Rightarrow> ('j, 'b) CacheEngine \<Rightarrow> ('j, 'b) CacheEngine" where
  "insert_pending d kp e =
     (case kp of (k, pe) \<Rightarrow>
        on_shard (ShardFor d e k)
          (InsertOrUpdateLocked (limits e) k (pe_value pe) (pe_version pe) Dirty False) e)"

definition ReplayFromJournal ::
  "('j, 'b) Deps \<Rightarrow> ('j, 'b) CacheEngine \<Rightarrow> (unit result \<times> ('j, 'b) CacheEngine) option" where
  "ReplayFromJournal d e =
     (if lifecycle e \<noteq> NotReady then
        Some (Failure (mkError InvalidArgument
          ''ReplayFromJournal() may only be called before MarkRecoveryComplete()''), e)
      else
      (case Jrn_Replay (journal_ops d) (replay_record (store_ops d)) ([], backingStore e) (journal e) of
         None \<Rightarrow> None
       | Some (Inl er, (_, b), j) \<Rightarrow>
           Some (Failure er, e\<lparr>backingStore := b, journal := j, lifecycle := RecoveryFailed\<rparr>)
       | Some (Inr _, (pend, b), j) \<Rightarrow>
           let pend = map_order d pend;
               e = fold (insert_pending d) pend (e\<lparr>backingStore := b, journal := j\<rparr>);
               highestVersionSeen = foldl (\<lambda>h (k, pe). max h (pe_version pe)) 0 pend
           in Some (Success (), e\<lparr>globalVersionCounter := max (globalVersionCounter e) highestVersionSeen\<rparr>)))"

definition MarkRecoveryComplete :: "('j, 'b) CacheEngine \<Rightarrow> unit result \<times> ('j, 'b) CacheEngine" where
  "MarkRecoveryComplete e =
     (if lifecycle e = Ready then (Success (), e)
      else if lifecycle e = RecoveryFailed then
        (Failure (mkError ErrorCode.RecoveryFailed
          ''cannot mark recovery complete: a prior ReplayFromJournal() call failed and this engine instance is permanently unusable for its remaining lifetime''), e)
      else if lifecycle e \<noteq> NotReady then
        (Failure (mkError InvalidArgument
          ''cannot mark recovery complete after the engine has begun shutting down''), e)
      else (Success (), StartBackgroundFlushThreadIfConfigured (e\<lparr>lifecycle := Ready\<rparr>)))"

definition new_engine :: "CacheEngineOptions \<Rightarrow> 'b \<Rightarrow> 'j \<Rightarrow> ('j, 'b) CacheEngine" where
  "new_engine opts b j =
     (let n = max 1 (unat (shardCount opts))
      in \<lparr>options = opts, backingStore = b, journal = j, shards = replicate n empty_shard,
          limits = \<lparr>perShardCapacityBytes = capacityBytes opts div of_nat n,
                    perShardMaxEntries = max 1 (maxEntryCount opts div of_nat n)\<rparr>,
          globalVersionCounter = 0, lifecycle = NotReady, inFlightWriteCount = 0,
          compactionPaused = False, stats = no_statistics, backgroundFlushThread = False,
          backgroundFlushStopRequested = False\<rparr>)"

text \<open>\<^verbatim>\<open>CreateCacheEngine\<close>; a null pointer is \<open>None\<close>.\<close>

definition CreateCacheEngine ::
  "CacheEngineOptions \<Rightarrow> 'b option \<Rightarrow> 'j option \<Rightarrow> ('j, 'b) CacheEngine result" where
  "CreateCacheEngine opts bs jr =
     (case bs of None \<Rightarrow> Failure (mkError InvalidArgument ''backingStore must not be null'') | Some b \<Rightarrow>
     (case jr of None \<Rightarrow> Failure (mkError InvalidArgument ''journal must not be null'') | Some j \<Rightarrow>
     if shardCount opts = 0 \<or> shardCount opts AND (shardCount opts - 1) \<noteq> 0 then
       Failure (mkError InvalidArgument ''shardCount must be a power of two >= 1'')
     else if capacityBytes opts = 0 then Failure (mkError InvalidArgument ''capacityBytes must be > 0'')
     else if maxEntryCount opts = 0 then Failure (mkError InvalidArgument ''maxEntryCount must be > 0'')
     else Success (new_engine opts b j)))"

end
