(* ===== verification/EngineMap.thy ===== *)
theory EngineMap
  imports CacheEngine
begin

text \<open>
  The cache engine as a map.  Behind the cache and the store together is one map from keys to
  values, \<open>view\<close>: a cached value if there is one, else what the store holds.  The theory shows
  that every operation acts on that map as its name says, on every path and whatever calls of the
  journal or the store fail, and that eviction, flushing and read-fill leave it alone.

  The lemmas are proved for any store and journal that meet their contracts (locale
  \<open>engine_env\<close>) and then used for the file-backed ones.
\<close>

section \<open>The cache contents\<close>

definition cached :: "('j, 'b) Deps \<Rightarrow> ('j, 'b) CacheEngine \<Rightarrow> key \<rightharpoonup> Entry" where
  "cached d e k = shard_map (shards e ! ShardFor d e k) k"

text \<open>The shards are consistent, and each key is in its own shard.\<close>

definition shards_inv :: "('j, 'b) Deps \<Rightarrow> ('j, 'b) CacheEngine \<Rightarrow> bool" where
  "shards_inv d e \<longleftrightarrow>
     shards e \<noteq> [] \<and>
     (\<forall>i<length (shards e). shard_inv (shards e ! i) \<and>
        (\<forall>k\<in>dom (shard_map (shards e ! i)). ShardFor d e k = i))"

lemma ShardFor_less: "shards_inv d e \<Longrightarrow> ShardFor d e k < length (shards e)"
  by (simp add: shards_inv_def ShardFor_def)

lemma shards_inv_shard: "shards_inv d e \<Longrightarrow> shard_inv (shards e ! ShardFor d e k)"
  using ShardFor_less [of d e k] by (simp add: shards_inv_def)

lemma ShardFor_cong: "length (shards e') = length (shards e) \<Longrightarrow> ShardFor d e' = ShardFor d e"
  by (simp add: ShardFor_def fun_eq_iff)

lemma upd_shard_simps [simp]:
  "length (shards (upd_shard i s e)) = length (shards e)" "ShardFor d (upd_shard i s e) = ShardFor d e"
  "backingStore (upd_shard i s e) = backingStore e" "journal (upd_shard i s e) = journal e"
  "options (upd_shard i s e) = options e" "limits (upd_shard i s e) = limits e" "stats (upd_shard i s e) = stats e"
  "lifecycle (upd_shard i s e) = lifecycle e" "globalVersionCounter (upd_shard i s e) = globalVersionCounter e"
  "inFlightWriteCount (upd_shard i s e) = inFlightWriteCount e" "compactionPaused (upd_shard i s e) = compactionPaused e"
  by (simp_all add: upd_shard_def ShardFor_def fun_eq_iff)

lemma unat_max64: "unat (- 1 :: u64) = 2 ^ 64 - 1"
  by (simp add: unsigned_minus_1_eq_mask mask_eq_exp_minus_1)

lemma index_find_entry:
  assumes "shard_inv s"
  shows "map_of (sh_index s) k = None \<longleftrightarrow> find_entry s k = None"
proof -
  have "k \<in> fst ` set (sh_index s) \<longleftrightarrow> k \<in> entry_key ` set (entries s)"
    unfolding shard_invD(4) [OF assms] entries_def by force
  then show ?thesis
    by (simp add: find_entry_None [OF assms] map_of_eq_None_iff)
qed

lemma cached_cong: "shards e' = shards e \<Longrightarrow> cached d e' = cached d e"
  by (simp add: cached_def ShardFor_def fun_eq_iff)

lemma shards_inv_cong: "shards e' = shards e \<Longrightarrow> shards_inv d e' = shards_inv d e"
  by (simp add: shards_inv_def ShardFor_def)

lemma cached_update [simp]:
  "cached d (e\<lparr>journal := x0\<rparr>) = cached d e"
  "cached d (e\<lparr>backingStore := x1\<rparr>) = cached d e"
  "cached d (e\<lparr>stats := x2\<rparr>) = cached d e"
  "cached d (e\<lparr>lifecycle := x3\<rparr>) = cached d e"
  "cached d (e\<lparr>inFlightWriteCount := x4\<rparr>) = cached d e"
  "cached d (e\<lparr>compactionPaused := x5\<rparr>) = cached d e"
  "cached d (e\<lparr>globalVersionCounter := x6\<rparr>) = cached d e"
  "cached d (e\<lparr>backgroundFlushThread := x7\<rparr>) = cached d e"
  "cached d (e\<lparr>backgroundFlushStopRequested := x8\<rparr>) = cached d e"
  by (rule cached_cong, simp)+

lemma shards_inv_update [simp]:
  "shards_inv d (e\<lparr>journal := x0\<rparr>) = shards_inv d e"
  "shards_inv d (e\<lparr>backingStore := x1\<rparr>) = shards_inv d e"
  "shards_inv d (e\<lparr>stats := x2\<rparr>) = shards_inv d e"
  "shards_inv d (e\<lparr>lifecycle := x3\<rparr>) = shards_inv d e"
  "shards_inv d (e\<lparr>inFlightWriteCount := x4\<rparr>) = shards_inv d e"
  "shards_inv d (e\<lparr>compactionPaused := x5\<rparr>) = shards_inv d e"
  "shards_inv d (e\<lparr>globalVersionCounter := x6\<rparr>) = shards_inv d e"
  "shards_inv d (e\<lparr>backgroundFlushThread := x7\<rparr>) = shards_inv d e"
  "shards_inv d (e\<lparr>backgroundFlushStopRequested := x8\<rparr>) = shards_inv d e"
  by (rule shards_inv_cong, simp)+

lemma ShardFor_update [simp]:
  "ShardFor d (e\<lparr>journal := x0\<rparr>) = ShardFor d e"
  "ShardFor d (e\<lparr>backingStore := x1\<rparr>) = ShardFor d e"
  "ShardFor d (e\<lparr>stats := x2\<rparr>) = ShardFor d e"
  "ShardFor d (e\<lparr>lifecycle := x3\<rparr>) = ShardFor d e"
  "ShardFor d (e\<lparr>inFlightWriteCount := x4\<rparr>) = ShardFor d e"
  "ShardFor d (e\<lparr>compactionPaused := x5\<rparr>) = ShardFor d e"
  "ShardFor d (e\<lparr>globalVersionCounter := x6\<rparr>) = ShardFor d e"
  "ShardFor d (e\<lparr>backgroundFlushThread := x7\<rparr>) = ShardFor d e"
  "ShardFor d (e\<lparr>backgroundFlushStopRequested := x8\<rparr>) = ShardFor d e"
  by (simp_all add: ShardFor_def fun_eq_iff)

text \<open>Replacing the shard of \<open>k\<close> by one that at most adds the key \<open>k\<close>.\<close>

lemma upd_shard_correct:
  assumes inv: "shards_inv d e" and s: "shard_inv s"
    and dom: "\<And>k'. k' \<noteq> k \<Longrightarrow> shard_map s k' \<noteq> None \<Longrightarrow> shard_map (shards e ! ShardFor d e k) k' \<noteq> None"
  shows "shards_inv d (upd_shard (ShardFor d e k) s e)"
    and "cached d (upd_shard (ShardFor d e k) s e) =
      (\<lambda>k'. if ShardFor d e k' = ShardFor d e k then shard_map s k' else cached d e k')"
proof -
  let ?i = "ShardFor d e k"
  have i: "?i < length (shards e)"
    by (rule ShardFor_less [OF inv])
  show "shards_inv d (upd_shard ?i s e)"
    unfolding shards_inv_def
  proof (intro conjI allI impI)
    show "shards (upd_shard ?i s e) \<noteq> []"
      using inv by (simp add: upd_shard_def shards_inv_def)
    fix j assume j: "j < length (shards (upd_shard ?i s e))"
    show "shard_inv (shards (upd_shard ?i s e) ! j)"
      using inv s j by (cases "j = ?i") (auto simp: shards_inv_def upd_shard_def)
    show "\<forall>k'\<in>dom (shard_map (shards (upd_shard ?i s e) ! j)). ShardFor d (upd_shard ?i s e) k' = j"
    proof (cases "j = ?i")
      case True
      have s': "shards (upd_shard ?i s e) ! j = s"
        using i True by (simp add: upd_shard_def)
      show ?thesis
      proof
        fix k' assume "k' \<in> dom (shard_map (shards (upd_shard ?i s e) ! j))"
        then have "shard_map s k' \<noteq> None" by (auto simp: s')
        then have "k' = k \<or> k' \<in> dom (shard_map (shards e ! ?i))"
          using dom by blast
        then show "ShardFor d (upd_shard ?i s e) k' = j"
          using inv i True by (auto simp: shards_inv_def)
      qed
    next
      case False
      then show ?thesis
        using inv j by (auto simp: shards_inv_def upd_shard_def ShardFor_def)
    qed
  qed
  show "cached d (upd_shard ?i s e) = (\<lambda>k'. if ShardFor d e k' = ?i then shard_map s k' else cached d e k')"
    using i by (auto simp: cached_def fun_eq_iff upd_shard_def ShardFor_def)
qed

lemma cached_at: "ShardFor d e k' = ShardFor d e k \<Longrightarrow> shard_map (shards e ! ShardFor d e k) k' = cached d e k'"
  by (simp add: cached_def)

text \<open>A section that only removes clean entries.\<close>

definition shrinks :: "(key \<rightharpoonup> Entry) \<Rightarrow> (key \<rightharpoonup> Entry) \<Rightarrow> bool" where
  "shrinks m m' \<longleftrightarrow> (\<forall>k. m' k = m k \<or> m' k = None \<and> (\<exists>en. m k = Some en \<and> dirtyState en = Clean))"

lemma shrinks_refl [simp]: "shrinks m m"
  by (simp add: shrinks_def)

lemma shrinks_trans: "shrinks a b \<Longrightarrow> shrinks b c \<Longrightarrow> shrinks a c"
  unfolding shrinks_def by metis

lemma shrinks_lift:
  assumes "\<forall>k'. shard_map s k' = M k' \<or> shard_map s k' = None \<and> (\<exists>x. M k' = Some x \<and> dirtyState x = Clean)"
    and "\<And>k'. ShardFor d e k' = i \<Longrightarrow> M k' = N k'" and "\<And>k'. ShardFor d e k' \<noteq> i \<Longrightarrow> N k' = cached d e k'"
  shows "shrinks N (\<lambda>k'. if ShardFor d e k' = i then shard_map s k' else cached d e k')"
  unfolding shrinks_def
proof
  fix k'
  show "(if ShardFor d e k' = i then shard_map s k' else cached d e k') = N k' \<or>
      (if ShardFor d e k' = i then shard_map s k' else cached d e k') = None \<and>
      (\<exists>en. N k' = Some en \<and> dirtyState en = Clean)"
    using assms(1) [rule_format, of k'] assms(2,3) [of k'] by (cases "ShardFor d e k' = i") auto
qed

lemma on_shard_simps [simp]:
  "length (shards (on_shard i f e)) = length (shards e)" "ShardFor d (on_shard i f e) = ShardFor d e"
  "backingStore (on_shard i f e) = backingStore e" "journal (on_shard i f e) = journal e"
  "options (on_shard i f e) = options e" "limits (on_shard i f e) = limits e"
  "lifecycle (on_shard i f e) = lifecycle e" "globalVersionCounter (on_shard i f e) = globalVersionCounter e"
  "inFlightWriteCount (on_shard i f e) = inFlightWriteCount e" "compactionPaused (on_shard i f e) = compactionPaused e"
  by (simp_all add: on_shard_def upd_shard_def ShardFor_def fun_eq_iff split: prod.splits)

lemma evict_shard_correct:
  assumes inv: "shards_inv d e"
  shows "shards_inv d (evict_shard (ShardFor d e k) e) \<and> shrinks (cached d e) (cached d (evict_shard (ShardFor d e k) e))"
proof -
  let ?i = "ShardFor d e k"
  obtain s c where ev: "EvictCleanEntriesLocked (limits e) (shards e ! ?i, stats e) = (s, c)"
    by (cases "EvictCleanEntriesLocked (limits e) (shards e ! ?i, stats e)") auto
  note cor = EvictCleanEntriesLocked_correct [OF shards_inv_shard [OF inv] ev]
  have sh: "shards (evict_shard ?i e) = shards (upd_shard ?i s e)"
    by (simp add: evict_shard_def on_shard_def ev)
  have "shards_inv d (upd_shard ?i s e)" "cached d (upd_shard ?i s e) =
      (\<lambda>k'. if ShardFor d e k' = ?i then shard_map s k' else cached d e k')"
    by (rule upd_shard_correct [OF inv]; use cor in \<open>metis\<close>)+
  moreover have "shrinks (cached d e) (\<lambda>k'. if ShardFor d e k' = ?i then shard_map s k' else cached d e k')"
    by (rule shrinks_lift [where M = "shard_map (shards e ! ?i)"]) (use cor cached_at in auto)
  ultimately show ?thesis
    by (simp add: shards_inv_cong [OF sh] cached_cong [OF sh])
qed

text \<open>Inserting an entry that is not stale.\<close>

lemma insert_correct:
  assumes inv: "shards_inv d e"
    and fresh: "\<not> (case cached d e k of None \<Rightarrow> False
        | Some old \<Rightarrow> ver \<le> entry_version old \<and> \<not> (ver = 0 \<and> entry_version old = 0))"
    and e': "e' = on_shard (ShardFor d e k) (InsertOrUpdateLocked (limits e) k v ver st enf) e"
  shows "shards_inv d e' \<and> shrinks
    ((cached d e)(k \<mapsto> \<lparr>entry_key = k, entry_value = v, entry_version = ver, dirtyState = st\<rparr>)) (cached d e')"
proof -
  let ?i = "ShardFor d e k" and ?en = "\<lparr>entry_key = k, entry_value = v, entry_version = ver, dirtyState = st\<rparr>"
  obtain s c where ins: "InsertOrUpdateLocked (limits e) k v ver st enf (shards e ! ?i, stats e) = (s, c)"
    by (cases "InsertOrUpdateLocked (limits e) k v ver st enf (shards e ! ?i, stats e)") auto
  have "\<not> insert_stale (shards e ! ?i) k ver"
    using fresh by (simp add: insert_stale_def cached_def)
  note cor = InsertOrUpdateLocked_correct [OF shards_inv_shard [OF inv] this ins]
  have sh: "shards e' = shards (upd_shard ?i s e)"
    by (simp add: e' on_shard_def ins)
  have "shards_inv d (upd_shard ?i s e)" "cached d (upd_shard ?i s e) =
      (\<lambda>k'. if ShardFor d e k' = ?i then shard_map s k' else cached d e k')"
    by (rule upd_shard_correct [OF inv]; use cor in \<open>metis fun_upd_other\<close>)+
  moreover have "shrinks ((cached d e)(k \<mapsto> ?en)) (\<lambda>k'. if ShardFor d e k' = ?i then shard_map s k' else cached d e k')"
    by (rule shrinks_lift [where M = "(shard_map (shards e ! ?i))(k \<mapsto> ?en)"]) (use cor cached_at [of d e _ k] in auto)
  ultimately show ?thesis
    by (simp add: shards_inv_cong [OF sh] cached_cong [OF sh])
qed

text \<open>A section that changes the entry of one key.\<close>

lemma upd_one_correct:
  assumes inv: "shards_inv d e" and s: "shard_inv s"
    and m: "shard_map s = (shard_map (shards e ! ShardFor d e k))(k := o1)"
  shows "shards_inv d (upd_shard (ShardFor d e k) s e) \<and>
    cached d (upd_shard (ShardFor d e k) s e) = (cached d e)(k := o1)"
proof -
  have dom: "\<And>k'. k' \<noteq> k \<Longrightarrow> shard_map s k' \<noteq> None \<Longrightarrow> shard_map (shards e ! ShardFor d e k) k' \<noteq> None"
    by (simp add: m)
  show ?thesis
    using upd_shard_correct [OF inv s dom] cached_at [of d e _ k] by (auto simp: m fun_eq_iff)
qed

text \<open>
  The map behind the cache and the store, for the map \<open>A\<close> that a state of the store stands for.
\<close>

definition engine_view ::
  "('j, 'b) Deps \<Rightarrow> ('b \<Rightarrow> key \<rightharpoonup> value) \<Rightarrow> ('j, 'b) CacheEngine \<Rightarrow> key \<rightharpoonup> value" where
  "engine_view d A e k = (case cached d e k of Some en \<Rightarrow> Some (entry_value en) | None \<Rightarrow> A (backingStore e) k)"

text \<open>No flush is under way.\<close>

definition settled :: "(key \<rightharpoonup> Entry) \<Rightarrow> bool" where
  "settled m \<longleftrightarrow> (\<forall>k en. m k = Some en \<longrightarrow> dirtyState en \<noteq> FlushInProgress)"

lemma settled_shrinks: "shrinks m m' \<Longrightarrow> settled m \<Longrightarrow> settled m'"
  unfolding shrinks_def settled_def by (metis option.distinct(1))

lemma settled_upd:
  "settled m \<Longrightarrow> (\<And>en. x = Some en \<Longrightarrow> dirtyState en \<noteq> FlushInProgress) \<Longrightarrow> settled (m(k := x))"
  by (simp add: settled_def)

section \<open>Sequences of operations\<close>

datatype engine_op =
  EGet key | EContains key | EPut key "value" | EInvalidate key | EForceInvalidate key | EFlush key | EFlushAll

datatype engine_reply = RValue "value result" | RBool bool | RUnit "unit result"

fun engine_step ::
  "('j, 'b) Deps \<Rightarrow> engine_op \<Rightarrow> ('j, 'b) CacheEngine \<Rightarrow> (engine_reply \<times> ('j, 'b) CacheEngine) option" where
  "engine_step d (EGet k) e = (case CacheEngine_Get d k e of (r, e) \<Rightarrow> Some (RValue r, e))"
| "engine_step d (EContains k) e = Some (RBool (CacheEngine_Contains d k e), e)"
| "engine_step d (EPut k v) e = map_option (map_prod RUnit id) (CacheEngine_Put d k v e)"
| "engine_step d (EInvalidate k) e = map_option (map_prod RUnit id) (CacheEngine_Invalidate d k e)"
| "engine_step d (EForceInvalidate k) e = map_option (map_prod RUnit id) (ForceInvalidate d k e)"
| "engine_step d (EFlush k) e = (case CacheEngine_Flush d k e of (r, e) \<Rightarrow> Some (RUnit r, e))"
| "engine_step d EFlushAll e = map_option (map_prod RUnit id) (FlushAll d e)"

fun run_engine ::
  "('j, 'b) Deps \<Rightarrow> engine_op list \<Rightarrow> ('j, 'b) CacheEngine \<Rightarrow> (engine_reply list \<times> ('j, 'b) CacheEngine) option" where
  "run_engine d [] e = Some ([], e)"
| "run_engine d (x # xs) e =
     (case engine_step d x e of
        None \<Rightarrow> None
      | Some (r, e) \<Rightarrow> map_option (map_prod ((#) r) id) (run_engine d xs e))"

text \<open>The calls of the engine's owner (the service): recovery, the background flush and shutdown.\<close>

datatype owner_op = Replays | MarksComplete | Ticks | ShutsDown | Serves engine_op

fun owner_step :: "('j, 'b) Deps \<Rightarrow> owner_op \<Rightarrow> ('j, 'b) CacheEngine \<Rightarrow> ('j, 'b) CacheEngine option" where
  "owner_step d Replays e = map_option snd (ReplayFromJournal d e)"
| "owner_step d MarksComplete e = Some (snd (MarkRecoveryComplete e))"
| "owner_step d Ticks e = map_option snd (background_flush_tick d e)"
| "owner_step d ShutsDown e = map_option snd (Shutdown d e)"
| "owner_step d (Serves x) e = map_option snd (engine_step d x e)"

fun run_owner :: "('j, 'b) Deps \<Rightarrow> owner_op list \<Rightarrow> ('j, 'b) CacheEngine \<Rightarrow> ('j, 'b) CacheEngine option" where
  "run_owner d [] e = Some e"
| "run_owner d (x # xs) e = (case owner_step d x e of None \<Rightarrow> None | Some e \<Rightarrow> run_owner d xs e)"

lemmas dead_engine_defs = CacheEngine_Get_def CacheEngine_Contains_def CacheEngine_Put_def CacheEngine_Invalidate_def
  ForceInvalidate_def InvalidateImpl_def CacheEngine_Flush_def FlushAll_def CheckReadyForRead_def CheckReadyForWrite_def
  ReplayFromJournal_def MarkRecoveryComplete_def background_flush_tick_def Shutdown_def

text \<open>Keys and values the store accepts.\<close>

fun engine_op_storable :: "engine_op \<Rightarrow> bool" where
  "engine_op_storable (EPut k v) = (storable k \<and> storable v)"
| "engine_op_storable (EGet k) = storable k"
| "engine_op_storable (EInvalidate k) = storable k"
| "engine_op_storable (EForceInvalidate k) = storable k"
| "engine_op_storable _ = True"

text \<open>
  The specification: which reply and which new contents \<open>m'\<close> an operation on a map \<open>m\<close> may have;
  \<open>wt\<close> says that every write is written through.  An operation that fails changes nothing, except
  that a written-through value whose flush failed may already be readable.
\<close>

fun map_allows :: "bool \<Rightarrow> engine_op \<Rightarrow> engine_reply \<Rightarrow> (key \<rightharpoonup> value) \<Rightarrow> (key \<rightharpoonup> value) \<Rightarrow> bool" where
  "map_allows wt (EGet k) (RValue (Inr v)) m m' \<longleftrightarrow> m' = m \<and> m k = Some v"
| "map_allows wt (EGet k) (RValue (Inl er)) m m' \<longleftrightarrow> m' = m \<and> (code er = NotFound \<longleftrightarrow> m k = None)"
| "map_allows wt (EContains k) (RBool b) m m' \<longleftrightarrow> m' = m \<and> (b \<longleftrightarrow> m k \<noteq> None)"
| "map_allows wt (EPut k v) (RUnit (Inr _)) m m' \<longleftrightarrow> m' = m(k \<mapsto> v)"
| "map_allows wt (EPut k v) (RUnit (Inl _)) m m' \<longleftrightarrow> m' = m \<or> wt \<and> m' = m(k \<mapsto> v)"
| "map_allows wt (EInvalidate k) (RUnit (Inr _)) m m' \<longleftrightarrow> m' = m(k := None)"
| "map_allows wt (EInvalidate k) (RUnit (Inl _)) m m' \<longleftrightarrow> m' = m"
| "map_allows wt (EForceInvalidate k) (RUnit (Inr _)) m m' \<longleftrightarrow> m' = m(k := None)"
| "map_allows wt (EForceInvalidate k) (RUnit (Inl _)) m m' \<longleftrightarrow> m' = m"
| "map_allows wt (EFlush k) (RUnit _) m m' \<longleftrightarrow> m' = m"
| "map_allows wt EFlushAll (RUnit _) m m' \<longleftrightarrow> m' = m"
| "map_allows _ _ _ _ _ \<longleftrightarrow> False"

lemma map_allows_invalidate:
  assumes "m' = (if IsOk (r :: unit result) then m(k := None) else m)"
  shows "map_allows wt (EInvalidate k) (RUnit r) m m'" "map_allows wt (EForceInvalidate k) (RUnit r) m m'"
  using assms by (cases r; simp)+

inductive map_run :: "bool \<Rightarrow> engine_op list \<Rightarrow> engine_reply list \<Rightarrow> (key \<rightharpoonup> value) \<Rightarrow> (key \<rightharpoonup> value) \<Rightarrow> bool"
  for wt where
  map_run_Nil: "map_run wt [] [] m m"
| map_run_Cons: "map_allows wt x r m m1 \<Longrightarrow> map_run wt xs rs m1 m2 \<Longrightarrow> map_run wt (x # xs) (r # rs) m m2"

inductive_cases map_run_NilE: "map_run wt [] rs m m'"
inductive_cases map_run_ConsE: "map_run wt (x # xs) rs m m'"

section \<open>Any store and journal that meet their contracts\<close>

text \<open>The parts of the state that flushing and eviction do not touch.\<close>

definition same_frame :: "('j, 'b) CacheEngine \<Rightarrow> ('j, 'b) CacheEngine \<Rightarrow> bool" where
  "same_frame e e' \<longleftrightarrow>
     options e' = options e \<and> limits e' = limits e \<and> lifecycle e' = lifecycle e \<and>
     globalVersionCounter e' = globalVersionCounter e \<and> inFlightWriteCount e' = inFlightWriteCount e \<and>
     compactionPaused e' = compactionPaused e \<and> length (shards e') = length (shards e)"

lemma same_frame_refl [simp]: "same_frame e e"
  by (simp add: same_frame_def)

lemma same_frame_trans: "same_frame a b \<Longrightarrow> same_frame b c \<Longrightarrow> same_frame a c"
  by (simp add: same_frame_def)

lemma same_frame_ShardFor: "same_frame e e' \<Longrightarrow> ShardFor d e' = ShardFor d e"
  by (rule ShardFor_cong) (simp add: same_frame_def)

lemma AppendJournalRecord_frame:
  "AppendJournalRecord d rec e = (r, e') \<Longrightarrow> \<exists>j. e' = e\<lparr>journal := j\<rparr>"
  by (auto simp: AppendJournalRecord_def split: prod.splits sum.splits)

locale engine_env = st: backing_store "store_ops d" abs disk inv clean bhealthy
  + jr: journal_contract "journal_ops d" jrecords intact jhealthy
  for d :: "('j, 'b) Deps" and abs disk inv clean bhealthy jrecords intact jhealthy
begin

abbreviation view :: "('j, 'b) CacheEngine \<Rightarrow> key \<rightharpoonup> value" where
  "view \<equiv> engine_view d abs"

lemmas view_def = engine_view_def

definition coherent :: "('j, 'b) CacheEngine \<Rightarrow> bool" where
  "coherent e \<longleftrightarrow> (\<forall>k en. cached d e k = Some en \<longrightarrow> dirtyState en = Clean \<longrightarrow>
     abs (backingStore e) k = Some (entry_value en))"

definition core :: "('j, 'b) CacheEngine \<Rightarrow> bool" where
  "core e \<longleftrightarrow> shards_inv d e \<and> inv (backingStore e) \<and> coherent e \<and>
     (\<forall>k en. cached d e k = Some en \<longrightarrow>
        entry_key en = k \<and> entry_version en \<le> globalVersionCounter e \<and> storable k \<and> storable (entry_value en))"

lemma coreD:
  assumes "core e"
  shows "shards_inv d e" "inv (backingStore e)" "coherent e"
    "\<And>k en. cached d e k = Some en \<Longrightarrow>
       entry_key en = k \<and> entry_version en \<le> globalVersionCounter e \<and> storable k \<and> storable (entry_value en)"
  using assms by (simp_all add: core_def)

lemma coherentD:
  "coherent e \<Longrightarrow> cached d e k = Some en \<Longrightarrow> dirtyState en = Clean \<Longrightarrow> abs (backingStore e) k = Some (entry_value en)"
  by (simp add: coherent_def)

text \<open>Losing clean entries changes nothing that can be observed.\<close>

lemma core_shrinks:
  assumes e: "core e" and sh: "shards_inv d e'" "shrinks (cached d e) (cached d e')"
    and same: "backingStore e' = backingStore e" "globalVersionCounter e' = globalVersionCounter e"
  shows "core e' \<and> view e' = view e"
proof -
  have sub: "cached d e' k = Some en \<Longrightarrow> cached d e k = Some en" for k en
    using sh(2) by (metis shrinks_def option.distinct(1))
  have "view e' k = view e k" for k
  proof (cases "cached d e' k = cached d e k")
    case True
    then show ?thesis by (simp add: view_def same split: option.split)
  next
    case False
    then obtain en where "cached d e' k = None" "cached d e k = Some en" "dirtyState en = Clean"
      using sh(2) by (metis shrinks_def)
    then show ?thesis
      using coherentD [OF coreD(3) [OF e]] by (simp add: view_def same)
  qed
  moreover have "core e'"
    unfolding core_def coherent_def same
    using sh(1) coreD(2) [OF e] by (auto dest!: sub dest: coreD(4) [OF e] coherentD [OF coreD(3) [OF e]])
  ultimately show ?thesis
    by auto
qed

lemma core_cong:
  assumes "shards e' = shards e" "backingStore e' = backingStore e" "globalVersionCounter e' = globalVersionCounter e"
  shows "core e' = core e" "view e' = view e"
  using assms cached_cong [OF assms(1)] shards_inv_cong [OF assms(1)]
  by (simp_all add: core_def coherent_def view_def [abs_def] fun_eq_iff split: option.split)

lemma evict_shard_core:
  assumes "core e"
  shows "core (evict_shard (ShardFor d e k) e) \<and> view (evict_shard (ShardFor d e k) e) = view e \<and>
    same_frame e (evict_shard (ShardFor d e k) e) \<and> shrinks (cached d e) (cached d (evict_shard (ShardFor d e k) e))"
  using core_shrinks [OF assms, of "evict_shard (ShardFor d e k) e"] evict_shard_correct [OF coreD(1) [OF assms], of k]
  by (simp add: evict_shard_def same_frame_def)

text \<open>Changing the state of the entry of \<open>k\<close>, and nothing else in the cache.\<close>

lemma core_set_state:
  assumes e: "core e" and k: "cached d e k = Some en"
    and e': "shards_inv d e'" "cached d e' = (cached d e)(k \<mapsto> en\<lparr>dirtyState := st\<rparr>)"
    and same: "globalVersionCounter e' = globalVersionCounter e"
    and store: "inv (backingStore e')" "\<And>k'. k' \<noteq> k \<Longrightarrow> abs (backingStore e') k' = abs (backingStore e) k'"
      "st = Clean \<Longrightarrow> abs (backingStore e') k = Some (entry_value en)"
  shows "core e' \<and> view e' = view e"
proof -
  have "view e' = view e"
    using k by (auto simp: view_def fun_eq_iff e'(2) store(2) split: option.splits)
  then show ?thesis
    using coreD [OF e] k e' same store by (auto simp: core_def coherent_def)
qed

section \<open>Flushing\<close>

lemma find_entry_cached:
  "core e \<Longrightarrow> find_entry (shards e ! ShardFor d e k) k = Some (n, en) \<Longrightarrow>
     cached d e k = Some en \<and> (n, en) \<in> set (lru (shards e ! ShardFor d e k))"
  using found_entry [OF shards_inv_shard [OF coreD(1)], of e k k n en] by (simp add: cached_def)

lemma find_entry_not_cached:
  "core e \<Longrightarrow> find_entry (shards e ! ShardFor d e k) k = None \<longleftrightarrow> cached d e k = None"
  using not_found [OF shards_inv_shard [OF coreD(1)], of e k k] by (simp add: cached_def)

lemma flush_failed_core:
  assumes e: "core e" and k: "cached d e k = Some en" and st: "dirtyState en = FlushInProgress"
    and e': "e' = flush_failed (ShardFor d e k) k (entry_version en) e"
  shows "core e' \<and> view e' = view e \<and> same_frame e e' \<and> cached d e' = (cached d e)(k \<mapsto> en\<lparr>dirtyState := Dirty\<rparr>)"
proof -
  let ?i = "ShardFor d e k"
  let ?s = "RevertFlushInProgressLocked k (entry_version en) (shards e ! ?i)"
  have rev: "shard_inv ?s \<and> shard_map ?s = (shard_map (shards e ! ?i))(k \<mapsto> en\<lparr>dirtyState := Dirty\<rparr>)"
    using RevertFlushInProgressLocked_correct [OF shards_inv_shard [OF coreD(1) [OF e]], of k "entry_version en" k] k st
    by (simp add: cached_def)
  have u: "shards_inv d (upd_shard ?i ?s e) \<and> cached d (upd_shard ?i ?s e) = (cached d e)(k \<mapsto> en\<lparr>dirtyState := Dirty\<rparr>)"
    using upd_one_correct [OF coreD(1) [OF e]] rev by blast
  have sh: "shards e' = shards (upd_shard ?i ?s e)"
    by (simp add: e' flush_failed_def Let_def)
  have "core e' \<and> view e' = view e"
    by (rule core_set_state [OF e k])
      (use u coreD(2) [OF e] in \<open>simp_all add: shards_inv_cong [OF sh] cached_cong [OF sh], simp_all add: e' flush_failed_def Let_def\<close>)
  then show ?thesis
    using u by (simp add: cached_cong [OF sh]) (simp add: e' flush_failed_def Let_def same_frame_def)
qed


lemma flush_succeeded_core:
  assumes e: "core e" and k: "cached d e k = Some en" and st: "dirtyState en = FlushInProgress"
    and stored: "abs (backingStore e) k = Some (entry_value en)"
    and e': "e' = flush_succeeded (ShardFor d e k) k (entry_version en) e"
  shows "core e' \<and> view e' = view e \<and> same_frame e e' \<and> cached d e' = (cached d e)(k \<mapsto> en\<lparr>dirtyState := Clean\<rparr>)"
proof -
  let ?i = "ShardFor d e k"
  let ?s = "complete_flush k (entry_version en) (shards e ! ?i)"
  have rev: "shard_inv ?s \<and> shard_map ?s = (shard_map (shards e ! ?i))(k \<mapsto> en\<lparr>dirtyState := Clean\<rparr>)"
    using complete_flush_correct [OF shards_inv_shard [OF coreD(1) [OF e]], of k "entry_version en" k] k st
    by (simp add: cached_def)
  have u: "shards_inv d (upd_shard ?i ?s e) \<and> cached d (upd_shard ?i ?s e) = (cached d e)(k \<mapsto> en\<lparr>dirtyState := Clean\<rparr>)"
    using upd_one_correct [OF coreD(1) [OF e]] rev by blast
  have sh: "shards e' = shards (upd_shard ?i ?s e)"
    by (simp add: e' flush_succeeded_def Let_def)
  have "core e' \<and> view e' = view e"
    by (rule core_set_state [OF e k])
      (use u coreD(2) [OF e] stored in \<open>simp_all add: shards_inv_cong [OF sh] cached_cong [OF sh], simp_all add: e' flush_succeeded_def Let_def\<close>)
  then show ?thesis
    using u by (simp add: cached_cong [OF sh]) (simp add: e' flush_succeeded_def Let_def same_frame_def)
qed

lemma write_back_core:
  assumes e: "core e" and k: "cached d e k = Some en" and st: "dirtyState en = FlushInProgress"
    and wb: "write_back d (ShardFor d e k) k (entry_value en) (entry_version en) e = (r, e')"
  shows "core e' \<and> view e' = view e \<and> same_frame e e' \<and>
    cached d e' = (cached d e)(k \<mapsto> en\<lparr>dirtyState := if IsOk r then Clean else Dirty\<rparr>) \<and>
    (IsOk r \<longrightarrow> abs (backingStore e') k = Some (entry_value en))"
proof -
  let ?i = "ShardFor d e k"
  have sto: "storable k" "storable (entry_value en)"
    using coreD(4) [OF e k] by auto
  have fail: ?thesis if e1: "core e1" "view e1 = view e" "shards e1 = shards e" "same_frame e e1"
    and r: "r = Inl er" "e' = flush_failed ?i k (entry_version en) e1" for e1 er
  proof -
    have c: "cached d e1 = cached d e" "ShardFor d e1 = ShardFor d e"
      using cached_cong [OF e1(3)] same_frame_ShardFor [OF e1(4)] by auto
    show ?thesis
      using flush_failed_core [OF e1(1), of k en e'] k st r e1(2,4) c same_frame_trans by auto
  qed
  obtain r1 e1 where a1: "AppendJournalRecord d (journal_record FlushIntent k [] (entry_version en)) e = (r1, e1)"
    by (cases "AppendJournalRecord d (journal_record FlushIntent k [] (entry_version en)) e") auto
  then obtain j1 where e1: "e1 = e\<lparr>journal := j1\<rparr>"
    using AppendJournalRecord_frame by blast
  have c1: "core e1" "view e1 = view e"
    using core_cong [of e1 e] e e1 by auto
  show ?thesis
  proof (cases r1)
    case (Inl er)
    then show ?thesis
      using wb a1 e1 c1 by (intro fail [of e1 er]) (simp_all add: write_back_def same_frame_def)
  next
    case (Inr u)
    obtain r2 b where p: "Bs_Put (store_ops d) k (entry_value en) (backingStore e) = (r2, b)"
      by (cases "Bs_Put (store_ops d) k (entry_value en) (backingStore e)") auto
    let ?e2 = "e1\<lparr>backingStore := b\<rparr>"
    have c2: "core ?e2 \<and> view ?e2 = view e"
      if b: "inv b" "\<And>k'. k' \<noteq> k \<Longrightarrow> abs b k' = abs (backingStore e) k'"
    proof -
      have "cached d ?e2 = cached d e" "shards_inv d ?e2"
        using coreD(1) [OF e] by (simp_all add: e1)
      moreover have "en\<lparr>dirtyState := FlushInProgress\<rparr> = en"
        using st by (cases en) simp
      ultimately show ?thesis
        using b k by (intro core_set_state [OF e k, where st = FlushInProgress]) (auto simp: e1 fun_upd_idem)
    qed
    show ?thesis
    proof (cases r2)
      case f: (Inl er)
      have b: "inv b" "abs b = abs (backingStore e)"
        using st.put_err [OF coreD(2) [OF e]] p f by auto
      show ?thesis
        using wb a1 Inr p f e1 c2 b
        by (intro fail [of ?e2 er]) (simp_all add: write_back_def same_frame_def)
    next
      case s: (Inr u2)
      have b: "inv b" "abs b = (abs (backingStore e))(k \<mapsto> entry_value en)"
        using st.put_ok [OF coreD(2) [OF e] sto] p s by auto
      obtain r3 e3 where a3: "AppendJournalRecord d (journal_record FlushComplete k [] (entry_version en)) ?e2 = (r3, e3)"
        by (cases "AppendJournalRecord d (journal_record FlushComplete k [] (entry_version en)) ?e2") auto
      then obtain j3 where e3: "e3 = ?e2\<lparr>journal := j3\<rparr>"
        using AppendJournalRecord_frame by blast
      have c3: "core e3" "view e3 = view e"
        using core_cong [of e3 ?e2] c2 b e3 by auto
      show ?thesis
      proof (cases r3)
        case (Inl er)
        then show ?thesis
          using wb a1 Inr p s a3 e3 e1 c3 \<open>r1 = Inr u\<close>
          by (intro fail [of e3 er]) (simp_all add: write_back_def same_frame_def)
      next
        case ok: (Inr u3)
        have c: "cached d e3 = cached d e" "ShardFor d e3 = ShardFor d e" "abs (backingStore e3) k = Some (entry_value en)"
          using cached_cong [of e3 e] ShardFor_cong [of e3 e] b by (simp_all add: e3 e1)
        have r: "r = Inr ()" "e' = flush_succeeded ?i k (entry_version en) e3"
          using wb a1 \<open>r1 = Inr u\<close> p s a3 ok e1 by (simp_all add: write_back_def)
        have "backingStore e' = backingStore e3"
          by (simp add: r flush_succeeded_def Let_def)
        then show ?thesis
          using flush_succeeded_core [OF c3(1), of k en e'] k st r c c3(2)
          by (simp add: same_frame_def e3 e1)
      qed
    qed
  qed
qed

text \<open>\<^verbatim>\<open>FlushKey\<close> on every path.\<close>

lemma FlushKey_core:
  assumes e: "core e" and f: "FlushKey d k ev cv e = (r, e')"
  shows "core e' \<and> view e' = view e \<and> same_frame e e' \<and>
    (e' = e \<or> (\<exists>en. cached d e k = Some en \<and> dirtyState en = Dirty \<and>
        cached d e' = (cached d e)(k \<mapsto> en\<lparr>dirtyState := if IsOk r then Clean else Dirty\<rparr>))) \<and>
    (case cached d e k of None \<Rightarrow> \<not> IsOk r
     | Some en \<Rightarrow> dirtyState en = Dirty \<and> (cv \<longrightarrow> entry_version en = ev) \<longrightarrow>
        cached d e' = (cached d e)(k \<mapsto> en\<lparr>dirtyState := if IsOk r then Clean else Dirty\<rparr>))"
proof -
  let ?i = "ShardFor d e k"
  obtain b s where bf: "begin_flush k ev cv (shards e ! ?i) = (b, s)"
    by (cases "begin_flush k ev cv (shards e ! ?i)") auto
  note cor = begin_flush_correct [OF shards_inv_shard [OF coreD(1) [OF e]] bf]
  show ?thesis
  proof (cases b)
    case (FlushDone x)
    then show ?thesis
      using f bf e find_entry_not_cached [OF e, of k] find_entry_cached [OF e, of k]
      by (auto simp: FlushKey_def Let_def begin_flush_def split: option.splits if_splits)
  next
    case (FlushValue v ver)
    then obtain en where en: "cached d e k = Some en" "dirtyState en = Dirty" "entry_value en = v" "entry_version en = ver"
      "shard_map s = (shard_map (shards e ! ?i))(k \<mapsto> en\<lparr>dirtyState := FlushInProgress\<rparr>)" and si: "shard_inv s"
      using cor by (auto simp: cached_def)
    let ?e1 = "upd_shard ?i s e" and ?en = "en\<lparr>dirtyState := FlushInProgress\<rparr>"
    have u: "shards_inv d ?e1 \<and> cached d ?e1 = (cached d e)(k \<mapsto> ?en)"
      by (rule upd_one_correct [OF coreD(1) [OF e] si en(5)])
    have c1: "core ?e1 \<and> view ?e1 = view e"
      by (rule core_set_state [OF e en(1), where st = FlushInProgress]) (use u coreD(2) [OF e] in simp_all)
    have "write_back d ?i k v ver ?e1 = (r, e')"
      using f bf FlushValue by (simp add: FlushKey_def Let_def)
    then have wb: "write_back d (ShardFor d ?e1 k) k (entry_value ?en) (entry_version ?en) ?e1 = (r, e')"
      using en(3,4) by simp
    have "cached d ?e1 k = Some ?en"
      using u by simp
    from write_back_core [OF conjunct1 [OF c1] this _ wb] show ?thesis
      using u c1 en(1,2) by (auto simp: same_frame_def)
  qed
qed


lemma FlushKey_settled:
  assumes e: "core e" and f: "FlushKey d k ev cv e = (r, e')" and s: "settled (cached d e)"
  shows "settled (cached d e')"
  using FlushKey_core [OF e f] s by (auto simp: settled_def split: if_splits)

section \<open>Capacity pressure\<close>

lemma relieve_attempts_core:
  assumes "core e" and "i = ShardFor d e k"
  shows "core (relieve_attempts d i n e) \<and> view (relieve_attempts d i n e) = view e \<and>
    same_frame e (relieve_attempts d i n e) \<and>
    (settled (cached d e) \<longrightarrow> settled (cached d (relieve_attempts d i n e)))"
  using assms
proof (induction n arbitrary: e)
  case 0
  then show ?case by simp
next
  case (Suc n)
  let ?s = "shards e ! i"
  obtain r e1 where f: "FlushKey d (key_to_flush ?s) 0 False e = (r, e1)"
    by (cases "FlushKey d (key_to_flush ?s) 0 False e") auto
  note fl = FlushKey_core [OF Suc.prems(1) f]
  have i1: "i = ShardFor d e1 k"
    using same_frame_ShardFor [of e e1 d] fl Suc.prems(2) by simp
  let ?e2 = "evict_shard i e1"
  have ev: "core ?e2 \<and> view ?e2 = view e1 \<and> same_frame e1 ?e2 \<and> (settled (cached d e) \<longrightarrow> settled (cached d ?e2))"
    using evict_shard_core [of e1 k] fl i1 settled_shrinks [of "cached d e1" "cached d ?e2"] FlushKey_settled [OF Suc.prems(1) f]
    by simp
  have ev0: "core (evict_shard i e) \<and> view (evict_shard i e) = view e \<and> same_frame e (evict_shard i e) \<and>
      (settled (cached d e) \<longrightarrow> settled (cached d (evict_shard i e)))"
    using evict_shard_core [OF Suc.prems(1), of k] Suc.prems(2) settled_shrinks [of "cached d e" "cached d (evict_shard i e)"]
    by simp
  have i2: "i = ShardFor d ?e2 k"
    using same_frame_ShardFor [of e1 ?e2 d] ev i1 by simp
  have IH: "core (relieve_attempts d i n ?e2) \<and> view (relieve_attempts d i n ?e2) = view ?e2 \<and>
      same_frame ?e2 (relieve_attempts d i n ?e2) \<and>
      (settled (cached d ?e2) \<longrightarrow> settled (cached d (relieve_attempts d i n ?e2)))"
    using Suc.IH [of ?e2] ev i2 by blast
  have e2: "view ?e2 = view e" "same_frame e ?e2"
    using fl ev same_frame_trans by auto
  show ?case
    using Suc.prems(1) f ev ev0 IH e2 same_frame_trans [OF e2(2)]
    by (auto simp: Let_def)
qed

lemma RelieveCapacityPressureIfNeeded_core:
  "core e \<Longrightarrow> core (RelieveCapacityPressureIfNeeded d (ShardFor d e k) e) \<and>
    view (RelieveCapacityPressureIfNeeded d (ShardFor d e k) e) = view e \<and>
    same_frame e (RelieveCapacityPressureIfNeeded d (ShardFor d e k) e) \<and>
    (settled (cached d e) \<longrightarrow> settled (cached d (RelieveCapacityPressureIfNeeded d (ShardFor d e k) e)))"
  unfolding RelieveCapacityPressureIfNeeded_def by (rule relieve_attempts_core) simp_all

section \<open>Put\<close>

lemma core_counter:
  assumes e: "core e" and le: "globalVersionCounter e \<le> n"
  shows "core (e\<lparr>globalVersionCounter := n\<rparr>)"
proof -
  have "entry_version en \<le> n" if "cached d e k = Some en" for k en
    using coreD(4) [OF e that] le by (blast intro: order_trans)
  then show ?thesis
    using e by (simp add: core_def coherent_def)
qed

text \<open>A fresh version is above every cached one, so an insertion with it is never stale.\<close>

lemma insert_core:
  assumes e: "core e" and sto: "storable k" "storable v"
    and ver: "\<And>en. cached d e k = Some en \<Longrightarrow> entry_version en < ver" "ver \<le> globalVersionCounter e"
    and st: "st = Clean \<Longrightarrow> abs (backingStore e) k = Some v"
    and e': "e' = on_shard (ShardFor d e k) (InsertOrUpdateLocked (limits e) k v ver st enf) e"
  shows "core e' \<and> view e' = (view e)(k \<mapsto> v) \<and> same_frame e e' \<and>
    shrinks ((cached d e)(k \<mapsto> \<lparr>entry_key = k, entry_value = v, entry_version = ver, dirtyState = st\<rparr>)) (cached d e')"
proof -
  let ?en = "\<lparr>entry_key = k, entry_value = v, entry_version = ver, dirtyState = st\<rparr>"
  have "\<not> (case cached d e k of None \<Rightarrow> False
        | Some old \<Rightarrow> ver \<le> entry_version old \<and> \<not> (ver = 0 \<and> entry_version old = 0))"
    using ver(1) by (auto split: option.splits)
  note ins = insert_correct [OF coreD(1) [OF e] this e']
  note shr = conjunct2 [OF ins, unfolded shrinks_def, rule_format]
  have sub: "((cached d e)(k \<mapsto> ?en)) k' = Some x" if "cached d e' k' = Some x" for k' x
    using shr [of k'] that by (auto split: if_splits)
  have same: "backingStore e' = backingStore e" "globalVersionCounter e' = globalVersionCounter e"
    by (simp_all add: e')
  have "core e'"
    unfolding core_def coherent_def same
  proof (intro conjI allI impI)
    show "shards_inv d e'" "inv (backingStore e)"
      using ins coreD(2) [OF e] by auto
    fix k' x assume x: "cached d e' k' = Some x"
    note x' = sub [OF x]
    show "abs (backingStore e) k' = Some (entry_value x)" if "dirtyState x = Clean"
      using x' that coherentD [OF coreD(3) [OF e]] st by (auto split: if_splits)
    show "entry_key x = k'" "entry_version x \<le> globalVersionCounter e" "storable k'" "storable (entry_value x)"
      using x' coreD(4) [OF e, of k' x] sto ver(2) by (auto split: if_splits)
  qed
  moreover have "view e' k' = ((view e)(k \<mapsto> v)) k'" for k'
  proof (cases "cached d e' k' = ((cached d e)(k \<mapsto> ?en)) k'")
    case True
    then show ?thesis
      by (cases "k' = k") (simp_all add: view_def same split: option.split)
  next
    case False
    then have "cached d e' k' = None" "\<exists>en. ((cached d e)(k \<mapsto> ?en)) k' = Some en \<and> dirtyState en = Clean"
      using shr [of k'] by auto
    then show ?thesis
      using coherentD [OF coreD(3) [OF e], of k'] st by (cases "k' = k") (auto simp: view_def same)
  qed
  ultimately show ?thesis
    using ins by (auto simp: same_frame_def e')
qed

text \<open>
  \<^verbatim>\<open>Put\<close> after admission.  On an error the value may be in the cache all the same: the
  journal accepted it, but writing it through failed.
\<close>

lemma Put_admitted_core:
  assumes e: "core e" and sto: "storable k" "storable v" and ver: "globalVersionCounter e \<noteq> - 1"
    and p: "Put_admitted d k v e = (r, e')"
  shows "core e' \<and> globalVersionCounter e' = globalVersionCounter e + 1 \<and>
    same_frame (e\<lparr>globalVersionCounter := globalVersionCounter e + 1\<rparr>) e' \<and>
    (IsOk r \<longrightarrow> view e' = (view e)(k \<mapsto> v)) \<and>
    (\<not> IsOk r \<longrightarrow> view e' = view e \<or> writePolicy (options e) = WriteThrough \<and> view e' = (view e)(k \<mapsto> v)) \<and>
    (settled (cached d e) \<longrightarrow> settled (cached d e'))"
proof -
  let ?v = "globalVersionCounter e + 1"
  have less: "globalVersionCounter e < ?v"
    using ver by (rule word_less_plus_one)
  obtain r1 e1 where a: "AppendJournalRecord d (journal_record Upsert k v ?v) (e\<lparr>globalVersionCounter := ?v\<rparr>) = (r1, e1)"
    by (cases "AppendJournalRecord d (journal_record Upsert k v ?v) (e\<lparr>globalVersionCounter := ?v\<rparr>)") auto
  then obtain j where e1: "e1 = e\<lparr>globalVersionCounter := ?v, journal := j\<rparr>"
    using AppendJournalRecord_frame by blast
  have nv: "AppendJournalRecordWithNewVersion d (journal_record Upsert k v 0) e = ((r1, ?v), e1)"
    using a by (simp add: AppendJournalRecordWithNewVersion_def Let_def journal_record_def)
  have c1: "core e1" "view e1 = view e" "same_frame (e\<lparr>globalVersionCounter := ?v\<rparr>) e1"
  proof -
    show "view e1 = view e"
      by (auto simp: view_def e1 fun_eq_iff split: option.split)
    show "core e1"
      using core_counter [OF e order_less_imp_le [OF less]] core_cong(1) [of e1 "e\<lparr>globalVersionCounter := ?v\<rparr>"]
      by (simp add: e1)
    show "same_frame (e\<lparr>globalVersionCounter := ?v\<rparr>) e1"
      by (simp add: same_frame_def e1)
  qed
  show ?thesis
  proof (cases r1)
    case (Inl er)
    then show ?thesis
      using p nv c1 by (auto simp: Put_admitted_def same_frame_def e1)
  next
    case (Inr u)
    let ?i = "ShardFor d e1 k"
    let ?e2 = "on_shard ?i (InsertOrUpdateLocked (limits e1) k v ?v Dirty True) e1"
    have old: "entry_version en < ?v" if "cached d e1 k = Some en" for en
      using coreD(4) [OF e, of k en] that less order_le_less_trans by (fastforce simp: e1)
    have ins: "core ?e2 \<and> view ?e2 = (view e1)(k \<mapsto> v) \<and> same_frame e1 ?e2 \<and>
        shrinks ((cached d e1)(k \<mapsto> \<lparr>entry_key = k, entry_value = v, entry_version = ?v, dirtyState = Dirty\<rparr>)) (cached d ?e2)"
      using insert_core [OF c1(1) sto old, of Dirty "?e2" True] by (simp add: e1)
    have "settled (cached d ?e2)" if "settled (cached d e)"
      by (rule settled_shrinks [OF conjunct2 [OF conjunct2 [OF conjunct2 [OF ins]]]])
        (rule settled_upd, use that in \<open>auto simp: e1\<close>)
    with ins have c2: "core ?e2 \<and> view ?e2 = (view e1)(k \<mapsto> v) \<and> same_frame e1 ?e2 \<and>
        (settled (cached d e) \<longrightarrow> settled (cached d ?e2))"
      by blast
    let ?e3 = "RelieveCapacityPressureIfNeeded d ?i ?e2"
    have c3: "core ?e3 \<and> view ?e3 = view ?e2 \<and> same_frame ?e2 ?e3 \<and> (settled (cached d e) \<longrightarrow> settled (cached d ?e3))"
      using RelieveCapacityPressureIfNeeded_core [of ?e2 k] c2 by simp
    have f3: "same_frame (e\<lparr>globalVersionCounter := ?v\<rparr>) ?e3"
      using c1(3) c2 c3 same_frame_trans by blast
    show ?thesis
    proof (cases "writePolicy (options ?e3) = WriteThrough")
      case True
      then have fk: "FlushKey d k ?v True ?e3 = (r, e')"
        using p nv Inr by (simp add: Put_admitted_def Let_def)
      have "writePolicy (options e) = WriteThrough"
        using True f3 by (simp add: same_frame_def)
      then show ?thesis
        using FlushKey_core [OF conjunct1 [OF c3] fk] FlushKey_settled [OF conjunct1 [OF c3] fk] c1(2) c2 c3 f3 same_frame_trans
        by (auto simp: same_frame_def)
    next
      case False
      then have "r = Inr () \<and> e' = ?e3"
        using p nv Inr by (simp add: Put_admitted_def Let_def)
      then show ?thesis
        using c1(2) c2 c3 f3 by (auto simp: same_frame_def)
    qed
  qed
qed

section \<open>Invalidate\<close>

text \<open>The store has dropped \<open>k\<close>, then the cache does.\<close>

lemma drop_core:
  assumes e: "core e" and b: "inv b" "abs b = (abs (backingStore e))(k := None)"
    and ver: "\<And>en. cached d e k = Some en \<Longrightarrow> entry_version en = ver"
    and e': "shards e' = shards (upd_shard (ShardFor d e k) (drop_entry k ver (shards e ! ShardFor d e k)) e)"
      "backingStore e' = b" "globalVersionCounter e' = globalVersionCounter e"
  shows "core e' \<and> view e' = (view e)(k := None) \<and> cached d e' = (cached d e)(k := None)"
proof -
  let ?i = "ShardFor d e k"
  let ?s = "drop_entry k ver (shards e ! ?i)"
  have "shard_inv ?s \<and> shard_map ?s = (shard_map (shards e ! ?i))(k := None)"
    using drop_entry_correct [OF shards_inv_shard [OF coreD(1) [OF e], of k], of k ver] ver
    by (auto simp: cached_def fun_upd_idem split: option.splits)
  then have u: "shards_inv d e'" "cached d e' = (cached d e)(k := None)"
    using upd_one_correct [OF coreD(1) [OF e]] by (simp_all add: shards_inv_cong [OF e'(1)] cached_cong [OF e'(1)])
  have "core e'"
    using u b coreD [OF e] by (auto simp: core_def coherent_def e')
  moreover have "view e' = (view e)(k := None)"
    by (auto simp: view_def fun_eq_iff u e' b split: option.split)
  ultimately show ?thesis
    using u by simp
qed

lemma Invalidate_admitted_core:
  assumes e: "core e" and k: "storable k" and p: "Invalidate_admitted d k force e = (r, e')"
  shows "core e' \<and> same_frame e e' \<and> view e' = (if IsOk r then (view e)(k := None) else view e) \<and>
    cached d e' = (if IsOk r then (cached d e)(k := None) else cached d e)"
proof -
  let ?i = "ShardFor d e k"
  let ?f = "find_entry (shards e ! ?i) k"
  let ?v = "case ?f of None \<Rightarrow> 0 | Some (_, en) \<Rightarrow> entry_version en"
  have ver: "entry_version en = ?v" if "cached d e k = Some en" for en
    using that find_entry_not_cached [OF e, of k] find_entry_cached [OF e, of k] by (auto split: option.splits)
  obtain r1 e1 where a: "AppendJournalRecord d (journal_record Invalidate k [] ?v) e = (r1, e1)"
    by (cases "AppendJournalRecord d (journal_record Invalidate k [] ?v) e") auto
  then obtain j where e1: "e1 = e\<lparr>journal := j\<rparr>"
    using AppendJournalRecord_frame by blast
  have c1: "core e1" "view e1 = view e"
    using core_cong [of e1 e] e by (simp_all add: e1)
  obtain r2 b where rm: "Bs_Remove (store_ops d) k (backingStore e) = (r2, b)"
    by (cases "Bs_Remove (store_ops d) k (backingStore e)") auto
  note err = st.remove_err [OF coreD(2) [OF e]] and ok = st.remove_ok [OF coreD(2) [OF e] k]
  show ?thesis
  proof (cases "case ?f of None \<Rightarrow> False | Some (_, en) \<Rightarrow> \<not> force \<and> dirtyState en \<noteq> Clean")
    case True
    then show ?thesis using p e by (auto simp: Invalidate_admitted_def Let_def)
  next
    case refused: False
    show ?thesis
    proof (cases r1)
      case (Inl er)
      then show ?thesis
        using p refused a c1 by (auto simp: Invalidate_admitted_def Let_def same_frame_def e1)
    next
      case (Inr u)
      show ?thesis
      proof (cases r2)
        case f: (Inl er)
        then have r: "r = Inl er" "e' = e\<lparr>journal := j, backingStore := b\<rparr>"
          using p refused a Inr rm by (auto simp: Invalidate_admitted_def Let_def e1)
        have b: "inv b" "abs b = abs (backingStore e)"
          using err rm f by auto
        have "core e'" "view e' = view e"
          using coreD [OF e] b by (auto simp: r core_def coherent_def view_def fun_eq_iff split: option.split)
        then show ?thesis
          by (simp add: r same_frame_def)
      next
        case s: (Inr u2)
        then have b: "inv b" "abs b = (abs (backingStore e))(k := None)"
          using ok rm by auto
        have r: "r = Inr ()" "shards e' = shards (upd_shard ?i (drop_entry k ?v (shards e ! ?i)) e)"
          "backingStore e' = b" "globalVersionCounter e' = globalVersionCounter e" "same_frame e e'"
          using p refused a Inr rm s by (auto simp: Invalidate_admitted_def Let_def e1 same_frame_def upd_shard_def)
        show ?thesis
          using drop_core [OF e b ver r(2,3,4)] r(1,5) by simp
      qed
    qed
  qed
qed

section \<open>Get\<close>

lemma hit_core:
  assumes e: "core e" and f: "find_entry (shards e ! ShardFor d e k) k = Some (n, en)"
    and h: "hit (ShardFor d e k) n en e = (r, e')"
  shows "core e' \<and> view e' = view e \<and> same_frame e e' \<and> cached d e' = cached d e \<and> r = Inr (entry_value en)"
proof -
  let ?i = "ShardFor d e k"
  let ?s = "splice_front n en (shards e ! ?i)"
  note c = find_entry_cached [OF e f]
  have "shard_inv ?s" "shard_map ?s = shard_map (shards e ! ?i)"
    using splice_front_correct [OF shards_inv_shard [OF coreD(1) [OF e]]] c by auto
  then have "shards_inv d (upd_shard ?i ?s e) \<and> cached d (upd_shard ?i ?s e) = (cached d e)(k := cached d e k)"
    using upd_one_correct [OF coreD(1) [OF e], of ?s k "cached d e k"] by (simp add: cached_def)
  moreover have r: "r = Inr (entry_value en)" "shards e' = shards (upd_shard ?i ?s e)" "backingStore e' = backingStore e"
    "globalVersionCounter e' = globalVersionCounter e" "same_frame e e'"
    using h by (auto simp: hit_def same_frame_def upd_shard_def)
  ultimately have u: "shards_inv d e'" "cached d e' = cached d e"
    by (simp_all add: shards_inv_cong [OF r(2)] cached_cong [OF r(2)])
  show ?thesis
    using core_shrinks [OF e u(1), unfolded u(2)] r u(2) by simp
qed

lemma CacheEngine_Get_core:
  assumes e: "core e" and k: "storable k" and ready: "lifecycle e = Ready" "enabled (options e)"
    and g: "CacheEngine_Get d k e = (r, e')"
  shows "core e' \<and> view e' = view e \<and> same_frame e e' \<and>
    (case r of Inr v \<Rightarrow> view e k = Some v | Inl er \<Rightarrow> code er = NotFound \<longleftrightarrow> view e k = None) \<and>
    (settled (cached d e) \<longrightarrow> settled (cached d e'))"
proof -
  let ?i = "ShardFor d e k"
  have cr: "CheckReadyForRead e = Inr ()"
    by (simp add: CheckReadyForRead_def ready)
  show ?thesis
  proof (cases "find_entry (shards e ! ?i) k")
    case (Some p)
    then obtain n en where f: "find_entry (shards e ! ?i) k = Some (n, en)" by (cases p) auto
    then have "hit ?i n en e = (r, e')"
      using g cr ready by (simp add: CacheEngine_Get_def Let_def)
    from hit_core [OF e f this] find_entry_cached [OF e f] show ?thesis
      by (auto simp: view_def)
  next
    case None
    then have nc: "cached d e k = None"
      using find_entry_not_cached [OF e] by blast
    let ?st = "(stats e)\<lparr>missCount := missCount (stats e) + 1\<rparr>"
    obtain gr b where get: "Bs_Get (store_ops d) k (backingStore e) = (gr, b)"
      by (cases "Bs_Get (store_ops d) k (backingStore e)") auto
    let ?e1 = "e\<lparr>stats := ?st, backingStore := b\<rparr>"
    have b: "inv b" "abs b = abs (backingStore e)"
      using st.get_keeps [OF coreD(2) [OF e] get] by auto
    have c1: "core ?e1" "view ?e1 = view e"
      using coreD [OF e] b by (auto simp: core_def coherent_def view_def fun_eq_iff split: option.split)
    show ?thesis
    proof (cases gr)
      case (Inl er)
      then show ?thesis
        using g cr ready None get c1 nc st.get_NotFound [OF coreD(2) [OF e], of k er b]
        by (auto simp: CacheEngine_Get_def Let_def same_frame_def view_def)
    next
      case (Inr v)
      have v: "abs (backingStore e) k = Some v"
        using st.get_ok [OF coreD(2) [OF e]] get Inr by blast
      show ?thesis
      proof (cases "length v > kMaxReasonableValueBytes")
        case True
        then show ?thesis
          using g cr ready None get Inr c1 nc v
          by (auto simp: CacheEngine_Get_def Let_def same_frame_def view_def mkError_def)
      next
        case False
        then have sv: "storable v"
          by (simp add: kMaxReasonableValueBytes_def storable_def)
        have r: "r = Inr v" "e' = on_shard (ShardFor d ?e1 k) (InsertOrUpdateLocked (limits ?e1) k v 0 Clean True) ?e1"
          using g cr ready None get Inr False by (auto simp: CacheEngine_Get_def Let_def read_fill_def)
        have ins: "core e' \<and> view e' = (view ?e1)(k \<mapsto> v) \<and> same_frame ?e1 e' \<and>
            shrinks ((cached d ?e1)(k \<mapsto> \<lparr>entry_key = k, entry_value = v, entry_version = 0, dirtyState = Clean\<rparr>)) (cached d e')"
          by (rule insert_core [OF c1(1) k sv _ _ _ r(2)]) (simp_all add: nc b v)
        have "view e k = Some v"
          using nc v by (simp add: view_def)
        then have "view e' = view e"
          using ins c1(2) by (simp add: fun_upd_idem)
        moreover have "settled (cached d e')" if "settled (cached d e)"
        proof (rule settled_shrinks)
          show "settled ((cached d ?e1)(k \<mapsto> \<lparr>entry_key = k, entry_value = v, entry_version = 0, dirtyState = Clean\<rparr>))"
            by (rule settled_upd) (use that in auto)
        qed (use ins in blast)
        moreover have "same_frame e e'"
          using ins by (simp add: same_frame_def)
        ultimately show ?thesis
          using ins r(1) \<open>view e k = Some v\<close> by simp
      qed
    qed
  qed
qed

section \<open>FlushAll\<close>

definition clean_at :: "('j, 'b) CacheEngine \<Rightarrow> key \<Rightarrow> bool" where
  "clean_at e k \<longleftrightarrow> (\<forall>en. cached d e k = Some en \<longrightarrow> dirtyState en = Clean)"

text \<open>What any number of flushes keeps.\<close>

definition flushed :: "('j, 'b) CacheEngine \<Rightarrow> ('j, 'b) CacheEngine \<Rightarrow> bool" where
  "flushed e e' \<longleftrightarrow> core e' \<and> view e' = view e \<and> same_frame e e' \<and> settled (cached d e') \<and>
     (\<forall>k. clean_at e k \<longrightarrow> clean_at e' k)"

lemma flushed_refl: "core e \<Longrightarrow> settled (cached d e) \<Longrightarrow> flushed e e"
  by (simp add: flushed_def)

lemma flushed_trans: "flushed a b \<Longrightarrow> flushed b c \<Longrightarrow> flushed a c"
  using same_frame_trans [of a b c] by (auto simp: flushed_def)

lemma FlushKey_flushed:
  assumes e: "core e" and s: "settled (cached d e)" and f: "FlushKey d k ev cv e = (r, e')"
  shows "flushed e e'"
proof -
  note c = FlushKey_core [OF e f]
  show ?thesis
    using c FlushKey_settled [OF e f s] by (auto simp: flushed_def clean_at_def split: if_splits)
qed

lemma FlushKey_clean:
  assumes e: "core e" and s: "settled (cached d e)" and f: "FlushKey d k ev False e = (Inr u, e')"
  shows "clean_at e' k"
proof (cases "cached d e k")
  case None
  then show ?thesis
    using FlushKey_core [OF e f] by simp
next
  case (Some en)
  then show ?thesis
    using FlushKey_core [OF e f] s [unfolded settled_def, rule_format, OF Some]
    by (cases "dirtyState en") (auto simp: clean_at_def)
qed

lemma flush_keys_flushed:
  assumes "core e" and "settled (cached d e)" and "flush_keys d ks le e = (le', e')"
  shows "flushed e e' \<and> (le' = None \<longrightarrow> le = None \<and> (\<forall>k\<in>set ks. clean_at e' k))"
  using assms
proof (induction ks arbitrary: le e)
  case Nil
  then show ?case by (simp add: flushed_refl)
next
  case (Cons k ks)
  obtain r e1 where f: "FlushKey d k 0 False e = (r, e1)"
    by (cases "FlushKey d k 0 False e") auto
  note f1 = FlushKey_flushed [OF Cons.prems(1,2) f]
  then have c1: "core e1" "settled (cached d e1)"
    by (simp_all add: flushed_def)
  show ?case
  proof (cases r)
    case (Inl er)
    then show ?thesis
      using Cons.IH [OF c1, of "Some er"] Cons.prems(3) f flushed_trans [OF f1] by auto
  next
    case (Inr u)
    then have "clean_at e1 k"
      using FlushKey_clean [OF Cons.prems(1,2)] f by blast
    then show ?thesis
      using Inr Cons.IH [OF c1, of le] Cons.prems(3) f flushed_trans [OF f1, of e'] by (auto simp: flushed_def)
  qed
qed

lemma dirty_keys_shard_map:
  assumes "shard_inv s" and "shard_map s k = Some en" and "dirtyState en = Dirty"
  shows "k \<in> set (dirty_keys s)"
proof -
  obtain n where "find_entry s k = Some (n, en)"
    using assms(2) shard_map_find [OF assms(1), of k] by (auto split: option.splits)
  then show ?thesis
    using found_entry [OF assms(1)] assms(3) by (force simp: dirty_keys_def image_iff)
qed

lemma flush_shards_flushed:
  assumes "core e" and "settled (cached d e)" and "flush_shards d is le e = (le', e')"
  shows "flushed e e' \<and> (le' = None \<longrightarrow> le = None \<and> (\<forall>k. ShardFor d e k \<in> set is \<longrightarrow> clean_at e' k))"
  using assms
proof (induction "is" arbitrary: le e)
  case Nil
  then show ?case by (simp add: flushed_refl)
next
  case (Cons i js)
  obtain le1 e1 where f: "flush_keys d (dirty_keys (shards e ! i)) le e = (le1, e1)"
    by (cases "flush_keys d (dirty_keys (shards e ! i)) le e") auto
  note f1 = flush_keys_flushed [OF Cons.prems(1,2) f]
  then have c1: "core e1" "settled (cached d e1)" "ShardFor d e1 = ShardFor d e"
    using same_frame_ShardFor [of e e1 d] by (simp_all add: flushed_def)
  have i: "clean_at e1 k" if "le1 = None" "ShardFor d e k = i" for k
  proof (cases "clean_at e k")
    case True
    then show ?thesis using f1 by (simp add: flushed_def)
  next
    case False
    then obtain en where en: "cached d e k = Some en" "dirtyState en \<noteq> Clean"
      by (auto simp: clean_at_def)
    then have "dirtyState en = Dirty"
      using Cons.prems(2) by (cases "dirtyState en") (auto simp: settled_def)
    then have "k \<in> set (dirty_keys (shards e ! i))"
      using dirty_keys_shard_map [OF shards_inv_shard [OF coreD(1) [OF Cons.prems(1)], of k]] en that(2)
      by (simp add: cached_def)
    then show ?thesis using f1 that(1) by blast
  qed
  have IH: "flushed e1 e' \<and> (le' = None \<longrightarrow> le1 = None \<and> (\<forall>k. ShardFor d e k \<in> set js \<longrightarrow> clean_at e' k))"
    using Cons.IH [OF c1(1,2), of le1] Cons.prems(3) f c1(3) by simp
  then have mono: "clean_at e1 k \<Longrightarrow> clean_at e' k" for k
    by (simp add: flushed_def)
  show ?case
    using IH f1 flushed_trans [of e e1 e'] i mono by auto
qed

lemma no_dirty_clean_at:
  assumes "core e" and "remaining_dirty e = 0"
  shows "clean_at e k"
proof -
  let ?s = "shards e ! ShardFor d e k"
  have si: "shard_inv ?s" and "?s \<in> set (shards e)"
    using shards_inv_shard [OF coreD(1) [OF assms(1)]] ShardFor_less [OF coreD(1) [OF assms(1)]] by simp_all
  then have "dirtyCount ?s = 0"
    using assms(2) by (simp add: remaining_dirty_def)
  then have nd: "filter dirty (entries ?s) = []"
    using si by (simp add: shard_inv_def)
  show ?thesis
    unfolding clean_at_def
  proof (intro allI impI)
    fix en assume "cached d e k = Some en"
    then obtain n where "find_entry ?s k = Some (n, en)"
      using find_entry_not_cached [OF assms(1), of k] find_entry_cached [OF assms(1), of k]
      by (cases "find_entry ?s k") auto
    then have "en \<in> set (entries ?s)"
      using found_entry(1) [OF si] by (auto simp: mem_entries)
    then show "dirtyState en = Clean"
      using nd by (auto simp: filter_empty_conv dirty_def)
  qed
qed

lemma all_clean_view: "core e \<Longrightarrow> \<forall>k. clean_at e k \<Longrightarrow> view e = abs (backingStore e)"
  by (auto simp: fun_eq_iff view_def clean_at_def split: option.split dest: coherentD [OF coreD(3)])

section \<open>Operations of a running engine\<close>

text \<open>
  A state between two operations of a single thread: ready, nothing in flight, no flush under way.
  \<open>n\<close> more operations do not exhaust the version counter.
\<close>

definition running :: "nat \<Rightarrow> ('j, 'b) CacheEngine \<Rightarrow> bool" where
  "running n e \<longleftrightarrow> core e \<and> settled (cached d e) \<and> lifecycle e = Ready \<and> enabled (options e) \<and>
     inFlightWriteCount e = 0 \<and> \<not> compactionPaused e \<and> unat (globalVersionCounter e) + n < 2 ^ 64"

lemma runningD:
  assumes "running n e"
  shows "core e" "settled (cached d e)" "lifecycle e = Ready" "enabled (options e)" "inFlightWriteCount e = 0"
    "\<not> compactionPaused e" "unat (globalVersionCounter e) + n < 2 ^ 64"
  using assms by (simp_all add: running_def)

lemma running_frame:
  assumes "running (Suc n) e" and "core e'" "settled (cached d e')" "same_frame e e'"
  shows "running n e'"
  using assms by (simp add: running_def same_frame_def)

lemma ready_checks:
  assumes "running n e"
  shows "CheckReadyForRead e = Inr ()" "CheckReadyForWrite e = Inr ()"
    "TryAdmitWrite e = Some (True, e\<lparr>inFlightWriteCount := 1\<rparr>)"
  using runningD [OF assms] by (simp_all add: CheckReadyForRead_def CheckReadyForWrite_def TryAdmitWrite_def)

lemma TryCompact_result:
  assumes "inFlightWriteCount e = 0" "\<not> compactionPaused e"
  shows "\<exists>j. TryCompactJournalIfFullyClean d e = Some (e\<lparr>journal := j\<rparr>) \<and> (j \<noteq> journal e \<longrightarrow> remaining_dirty e = 0)"
proof -
  have "e\<lparr>compactionPaused := False\<rparr> = e"
    using assms(2) by (cases e) simp
  moreover have "remaining_dirty (e\<lparr>compactionPaused := True\<rparr>) = remaining_dirty e"
    by (simp add: remaining_dirty_def)
  ultimately show ?thesis
    using assms(1) unfolding TryCompactJournalIfFullyClean_def DrainInFlightWrites_def
    by (cases "Jrn_Truncate (journal_ops d) (journal e)"; cases e) auto
qed

lemma FlushAll_core:
  assumes e: "core e" "settled (cached d e)" "inFlightWriteCount e = 0" "\<not> compactionPaused e"
    and ready: "CheckReadyForRead e = Inr ()"
  shows "\<exists>r e'. FlushAll d e = Some (r, e') \<and> flushed e e' \<and>
    (IsOk r \<longrightarrow> (\<forall>k. clean_at e' k) \<and> abs (backingStore e') = view e)"
proof -
  obtain le e1 where f: "flush_shards d [0..<length (shards e)] None e = (le, e1)"
    by (cases "flush_shards d [0..<length (shards e)] None e") auto
  note fs = flush_shards_flushed [OF e(1,2) f]
  show ?thesis
  proof (cases le)
    case (Some er)
    then show ?thesis
      using f fs ready by (simp add: FlushAll_def)
  next
    case None
    have cl: "clean_at e1 k" for k
      using fs None ShardFor_less [OF coreD(1) [OF e(1)], of k] by simp
    have "inFlightWriteCount e1 = 0" "\<not> compactionPaused e1"
      using fs e by (simp_all add: flushed_def same_frame_def)
    then obtain j where t: "TryCompactJournalIfFullyClean d e1 = Some (e1\<lparr>journal := j\<rparr>)"
      using TryCompact_result by blast
    have "flushed e1 (e1\<lparr>journal := j\<rparr>)"
      using fs core_cong [of "e1\<lparr>journal := j\<rparr>" e1] by (simp add: flushed_def same_frame_def clean_at_def)
    then have "flushed e (e1\<lparr>journal := j\<rparr>)"
      using fs flushed_trans by blast
    moreover have "abs (backingStore e1) = view e"
      using all_clean_view [of e1] cl fs by (simp add: flushed_def)
    ultimately show ?thesis
      using f None ready t cl by (simp add: FlushAll_def clean_at_def)
  qed
qed

lemma ReleaseWriteAdmission_core:
  assumes "core e" "settled (cached d e)" "inFlightWriteCount e = 1"
  shows "core (ReleaseWriteAdmission e)" "settled (cached d (ReleaseWriteAdmission e))"
    "view (ReleaseWriteAdmission e) = view e" "inFlightWriteCount (ReleaseWriteAdmission e) = 0"
  using assms core_cong [of "ReleaseWriteAdmission e" e] by (simp_all add: ReleaseWriteAdmission_def)

lemma Put_running:
  assumes e: "running (Suc n) e" and sto: "storable k" "storable v"
  shows "\<exists>r e'. CacheEngine_Put d k v e = Some (r, e') \<and> running n e' \<and> options e' = options e \<and>
    map_allows (writePolicy (options e) = WriteThrough) (EPut k v) (RUnit r) (view e) (view e')"
proof -
  let ?e1 = "e\<lparr>inFlightWriteCount := 1\<rparr>"
  obtain r e2 where p: "Put_admitted d k v ?e1 = (r, e2)"
    by (cases "Put_admitted d k v ?e1") auto
  have c1: "core ?e1" "view ?e1 = view e" "settled (cached d ?e1)"
    using core_cong [of ?e1 e] runningD(1,2) [OF e] by simp_all
  have "unat (globalVersionCounter e) < 2 ^ 64 - 1"
    using runningD(7) [OF e] by simp
  then have ne: "globalVersionCounter ?e1 \<noteq> - 1"
    using unat_max64 by auto
  then have g: "unat (globalVersionCounter e + 1) = unat (globalVersionCounter e) + 1"
    using unat_plus_one [of "globalVersionCounter e"] by simp
  note c2 = Put_admitted_core [OF c1(1) sto ne p]
  then have f: "inFlightWriteCount e2 = 1" "options e2 = options e" "lifecycle e2 = Ready" "\<not> compactionPaused e2"
    "core e2" "settled (cached d e2)"
    using runningD [OF e] c1(3) by (simp_all add: same_frame_def)
  let ?e3 = "ReleaseWriteAdmission e2"
  have "running n ?e3"
    using ReleaseWriteAdmission_core [OF f(5,6,1)] f c2 runningD [OF e] g
    by (simp add: running_def ReleaseWriteAdmission_def)
  moreover have "map_allows (writePolicy (options e) = WriteThrough) (EPut k v) (RUnit r) (view e) (view ?e3)"
    using c2 c1(2) ReleaseWriteAdmission_core(3) [OF f(5,6,1)] by (cases r) auto
  moreover have "CacheEngine_Put d k v e = Some (r, ?e3)"
    using p ready_checks [OF e] runningD(4) [OF e] by (simp add: CacheEngine_Put_def)
  moreover have "options ?e3 = options e"
    using f by (simp add: ReleaseWriteAdmission_def)
  ultimately show ?thesis
    by blast
qed

lemma InvalidateImpl_running:
  assumes e: "running (Suc n) e" and k: "storable k"
  shows "\<exists>r e'. InvalidateImpl d k force e = Some (r, e') \<and> running n e' \<and> options e' = options e \<and>
    view e' = (if IsOk r then (view e)(k := None) else view e)"
proof -
  let ?e1 = "e\<lparr>inFlightWriteCount := 1\<rparr>"
  obtain r e2 where p: "Invalidate_admitted d k force ?e1 = (r, e2)"
    by (cases "Invalidate_admitted d k force ?e1") auto
  have c1: "core ?e1" "view ?e1 = view e" "settled (cached d ?e1)"
    using core_cong [of ?e1 e] runningD(1,2) [OF e] by simp_all
  note c2 = Invalidate_admitted_core [OF c1(1) k p]
  then have f: "inFlightWriteCount e2 = 1" "options e2 = options e" "lifecycle e2 = Ready" "\<not> compactionPaused e2"
    "core e2" "settled (cached d e2)" "globalVersionCounter e2 = globalVersionCounter e"
    using runningD [OF e] settled_upd [OF c1(3), of None] c1(3) by (simp_all add: same_frame_def)
  let ?e3 = "ReleaseWriteAdmission e2"
  have "running n ?e3"
    using ReleaseWriteAdmission_core [OF f(5,6,1)] f runningD [OF e]
    by (simp add: running_def ReleaseWriteAdmission_def)
  moreover have "InvalidateImpl d k force e = Some (r, ?e3)"
    using p ready_checks [OF e] by (simp add: InvalidateImpl_def)
  moreover have "options ?e3 = options e"
    using f by (simp add: ReleaseWriteAdmission_def)
  ultimately show ?thesis
    using c1(2) c2 ReleaseWriteAdmission_core(3) [OF f(5,6,1)] by auto
qed

lemma Contains_running:
  assumes "running n e"
  shows "CacheEngine_Contains d k e \<longleftrightarrow> view e k \<noteq> None"
proof -
  note e = runningD(1) [OF assms]
  have "map_of (sh_index (shards e ! ShardFor d e k)) k = None \<longleftrightarrow> cached d e k = None"
    using find_entry_not_cached [OF e, of k] index_find_entry [OF shards_inv_shard [OF coreD(1) [OF e], of k], of k]
    by simp
  then show ?thesis
    using ready_checks(1) [OF assms] st.contains_iff [OF coreD(2) [OF e], of k]
    by (auto simp: CacheEngine_Contains_def view_def domIff split: option.split)
qed

lemma engine_step_running:
  assumes e: "running (Suc n) e" and x: "engine_op_storable x"
  shows "\<exists>r e'. engine_step d x e = Some (r, e') \<and> running n e' \<and> options e' = options e \<and>
    map_allows (writePolicy (options e) = WriteThrough) x r (view e) (view e')"
proof (cases x)
  case (EGet k)
  obtain r e' where g: "CacheEngine_Get d k e = (r, e')"
    by (cases "CacheEngine_Get d k e") auto
  then have "core e' \<and> view e' = view e \<and> same_frame e e' \<and> settled (cached d e') \<and>
      (case r of Inr v \<Rightarrow> view e k = Some v | Inl er \<Rightarrow> code er = NotFound \<longleftrightarrow> view e k = None)"
    using CacheEngine_Get_core [OF runningD(1) [OF e] _ runningD(3,4) [OF e]] x EGet runningD(2) [OF e] by auto
  then show ?thesis
    using g EGet running_frame [OF e, of e'] by (cases r) (auto simp: same_frame_def)
next
  case (EContains k)
  then show ?thesis
    using Contains_running [OF e] e by (simp add: running_def)
next
  case (EPut k v)
  then show ?thesis
    using Put_running [OF e, of k v] x by auto
next
  case (EInvalidate k)
  obtain r e' where "InvalidateImpl d k False e = Some (r, e')" "running n e'" "options e' = options e"
    "view e' = (if IsOk r then (view e)(k := None) else view e)"
    using InvalidateImpl_running [OF e, of k False] x EInvalidate by auto
  then show ?thesis
    using EInvalidate map_allows_invalidate [of "view e'" r "view e" k] by (simp add: CacheEngine_Invalidate_def)
next
  case (EForceInvalidate k)
  obtain r e' where "InvalidateImpl d k True e = Some (r, e')" "running n e'" "options e' = options e"
    "view e' = (if IsOk r then (view e)(k := None) else view e)"
    using InvalidateImpl_running [OF e, of k True] x EForceInvalidate by auto
  then show ?thesis
    using EForceInvalidate map_allows_invalidate [of "view e'" r "view e" k] by (simp add: ForceInvalidate_def)
next
  case (EFlush k)
  obtain r e' where g: "FlushKey d k 0 False e = (r, e')"
    by (cases "FlushKey d k 0 False e") auto
  then show ?thesis
    using FlushKey_flushed [OF runningD(1,2) [OF e] g] EFlush ready_checks(1) [OF e] running_frame [OF e, of e']
    by (auto simp: CacheEngine_Flush_def flushed_def same_frame_def)
next
  case EFlushAll
  then show ?thesis
    using FlushAll_core [OF runningD(1,2,5,6) [OF e] ready_checks(1) [OF e]] running_frame [OF e]
    by (auto simp: flushed_def same_frame_def)
qed

lemma run_engine_running:
  assumes "running (length xs + n) e" and "\<forall>x\<in>set xs. engine_op_storable x"
  shows "\<exists>rs e'. run_engine d xs e = Some (rs, e') \<and> running n e' \<and> options e' = options e \<and>
    map_run (writePolicy (options e) = WriteThrough) xs rs (view e) (view e')"
  using assms
proof (induction xs arbitrary: e)
  case Nil
  then show ?case by (auto intro: map_run_Nil)
next
  case (Cons x xs)
  obtain r e1 where s: "engine_step d x e = Some (r, e1)" "running (length xs + n) e1" "options e1 = options e"
    "map_allows (writePolicy (options e) = WriteThrough) x r (view e) (view e1)"
    using engine_step_running [of "length xs + n" e x] Cons.prems by auto
  then obtain rs e' where "run_engine d xs e1 = Some (rs, e')" "running n e'" "options e' = options e"
    "map_run (writePolicy (options e) = WriteThrough) xs rs (view e1) (view e')"
    using Cons.IH [of e1] Cons.prems(2) by auto
  then show ?case
    using s map_run_Cons by fastforce
qed

section \<open>A new engine\<close>

lemma new_engine_core:
  assumes "inv b"
  shows "core (new_engine opts b j) \<and> view (new_engine opts b j) = abs b \<and> cached d (new_engine opts b j) = Map.empty"
proof -
  let ?e = "new_engine opts b j"
  have "shards_inv d ?e" and c: "cached d ?e = Map.empty"
    using empty_shard_inv
    by (auto simp: shards_inv_def cached_def new_engine_def Let_def ShardFor_def shard_map_def empty_shard_def fun_eq_iff)
  then show ?thesis
    using assms by (auto simp: core_def coherent_def view_def new_engine_def Let_def)
qed

lemma Create_running:
  assumes "inv b" and "CreateCacheEngine opts (Some b) (Some j) = Inr e0"
    and "MarkRecoveryComplete e0 = (r, e)" and "enabled opts" and "n < 2 ^ 64"
  shows "running n e \<and> view e = abs b \<and> options e = opts"
proof -
  have e0: "e0 = new_engine opts b j"
    using assms(2) by (simp add: CreateCacheEngine_def split: if_splits)
  then have e: "shards e = shards e0" "backingStore e = backingStore e0" "globalVersionCounter e = 0"
      "lifecycle e = Ready" "options e = opts" "inFlightWriteCount e = 0" "\<not> compactionPaused e"
    using assms(3)
    by (auto simp: MarkRecoveryComplete_def StartBackgroundFlushThreadIfConfigured_def new_engine_def Let_def split: if_splits)
  have "core e" "view e = abs b" "cached d e = Map.empty"
    using core_cong [OF e(1,2)] cached_cong [OF e(1)] new_engine_core [OF assms(1), of opts j] e(3)
    by (simp_all add: e0) (simp_all add: new_engine_def Let_def)
  then show ?thesis
    using e assms(4,5) by (simp add: running_def settled_def)
qed

end

section \<open>The file-backed engine\<close>

definition portable_deps ::
  "(key \<Rightarrow> nat) \<Rightarrow> (pending \<Rightarrow> pending) \<Rightarrow> (PortableFile WriteAheadJournal, PortableFile FileBackingStore) Deps" where
  "portable_deps h ord =
     \<lparr>hash = h, store_ops = FileBackingStore_ops PortableFile_ops, journal_ops = WriteAheadJournal_ops PortableFile_ops,
      map_order = ord\<rparr>"

interpretation eng: engine_env "portable_deps h ord" pf.fbs_abs pf.fbs_disk pf.fbs_inv pf.fbs_clean pf.fbs_healthy
  pf.wal_records pf.wal_intact pf.wal_healthy for h ord
  by (simp add: engine_env_def portable_deps_def pf.fbs.backing_store_axioms pf.wal.journal_contract_axioms)

lemma Open_inv:
  "OpenFileBackingStore PortableFile_ops (Inr f) = Some (Inr b) \<Longrightarrow> pf.fbs_inv b"
  using pf.Initialize_outcome [of f]
  by (auto simp: OpenFileBackingStore_def pf.fbs_fresh_def split: sum.splits)

text \<open>
  C3. \<^bold>\<open>The cache engine is a map, whatever fails underneath.\<close>  Open a store on any file, create
  an engine on it and any journal, mark it ready, and run any sequence of operations; reads, writes
  and flushes of either file may fail at any point.  Every operation returns, and the replies are
  those of a map that starts as the contents of the store: a successful read returns the value
  last written, \<open>NotFound\<close> is answered for absent keys only and for all of them, eviction,
  flushing and compaction are invisible, and a failed operation has no effect, except that a
  written-through value whose flush failed may stay readable.
\<close>

theorem CacheEngine_refines_map:
  assumes "OpenFileBackingStore PortableFile_ops (Inr f) = Some (Inr b)"
    and "CreateCacheEngine opts (Some b) (Some j) = Inr e0" and "MarkRecoveryComplete e0 = (r, e)"
    and "enabled opts" and "\<forall>x\<in>set xs. engine_op_storable x" and "length xs < 2 ^ 64"
  shows "\<exists>rs e'. run_engine (portable_deps h ord) xs e = Some (rs, e') \<and>
    map_run (writePolicy opts = WriteThrough) xs rs (pf.fbs_abs b) (engine_view (portable_deps h ord) pf.fbs_abs e')"
  using eng.Create_running [OF Open_inv [OF assms(1)] assms(2-4,6), of h ord]
    eng.run_engine_running [of h ord xs 0 e] assms(5) by auto

definition sample_options :: CacheEngineOptions where
  "sample_options =
     \<lparr>enabled = True, capacityBytes = 1000, maxEntryCount = 4, evictionPolicy = LeastRecentlyUsed, writePolicy = WriteBackDeferred,
      flushPolicy = Manual, flushIntervalSeconds = 5, shardCount = 2\<rparr>"

definition sample_engine_ops :: "engine_op list" where
  "sample_engine_ops = [EPut (str ''k'') [1, 2], EGet (str ''k''), EFlushAll, EInvalidate (str ''k''), EContains (str ''k'')]"

definition sample_journal :: "PortableFile WriteAheadJournal" where
  "sample_journal = \<lparr>waj_file = open_portable [] [], nextSequenceNumber = 0, recordCount = 0\<rparr>"

definition sample_store :: "PortableFile FileBackingStore" where
  "sample_store = (portable_store [])\<lparr>nextSequence := 1\<rparr>"

definition sample_engine :: "(PortableFile WriteAheadJournal, PortableFile FileBackingStore) CacheEngine" where
  "sample_engine = new_engine sample_options sample_store sample_journal"

abbreviation sample_deps :: "(PortableFile WriteAheadJournal, PortableFile FileBackingStore) Deps" where
  "sample_deps \<equiv> portable_deps length id"

lemma sample_opens: "OpenFileBackingStore PortableFile_ops (Inr (open_portable [] [])) = Some (Inr sample_store)"
  by code_simp

lemma sample_created: "CreateCacheEngine sample_options (Some sample_store) (Some sample_journal) = Inr sample_engine"
  by (simp add: CreateCacheEngine_def sample_engine_def sample_options_def)

lemma sample_ready: "MarkRecoveryComplete sample_engine = (Inr (), sample_engine\<lparr>lifecycle := Ready\<rparr>)"
  by (simp add: MarkRecoveryComplete_def sample_engine_def new_engine_def Let_def
      StartBackgroundFlushThreadIfConfigured_def sample_options_def)

lemma sample_engine_ops_ok: "\<forall>x\<in>set sample_engine_ops. engine_op_storable x" "length sample_engine_ops < 2 ^ 64"
  by (simp_all add: sample_engine_ops_def storable_def str_def)

theorem CacheEngine_refines_map_witness:
  "\<exists>rs e'. run_engine sample_deps sample_engine_ops (sample_engine\<lparr>lifecycle := Ready\<rparr>) = Some (rs, e') \<and>
    map_run False sample_engine_ops rs (pf.fbs_abs sample_store) (engine_view sample_deps pf.fbs_abs e')"
  using CacheEngine_refines_map [OF sample_opens sample_created sample_ready _ sample_engine_ops_ok, of length id]
  by (simp add: sample_options_def)

text \<open>
  \<^bold>\<open>A successful \<open>FlushAll\<close> writes everything back.\<close>  After any sequence of operations, whatever
  failed before, if \<^verbatim>\<open>FlushAll\<close> reports success then the store alone holds exactly the contents the
  engine showed, and the engine shows the same contents still.
\<close>

theorem FlushAll_writes_back:
  assumes "OpenFileBackingStore PortableFile_ops (Inr f) = Some (Inr b)"
    and "CreateCacheEngine opts (Some b) (Some j) = Inr e0" and "MarkRecoveryComplete e0 = (r, e)"
    and "enabled opts" and "\<forall>x\<in>set xs. engine_op_storable x" and "length xs < 2 ^ 64"
    and "run_engine (portable_deps h ord) xs e = Some (rs, e1)"
    and "FlushAll (portable_deps h ord) e1 = Some (Inr u, e2)"
  shows "pf.fbs_abs (backingStore e2) = engine_view (portable_deps h ord) pf.fbs_abs e1 \<and>
    engine_view (portable_deps h ord) pf.fbs_abs e2 = engine_view (portable_deps h ord) pf.fbs_abs e1"
proof -
  have e1: "eng.running h ord 0 e1"
    using eng.Create_running [OF Open_inv [OF assms(1)] assms(2-4,6), of h ord]
      eng.run_engine_running [of h ord xs 0 e] assms(5,7) by auto
  show ?thesis
    using eng.FlushAll_core [OF eng.runningD(1,2,5,6) [OF e1] eng.ready_checks(1) [OF e1]] assms(8)
    by (auto simp: eng.flushed_def)
qed

theorem FlushAll_writes_back_witness:
  "pf.fbs_abs (backingStore (sample_engine\<lparr>lifecycle := Ready\<rparr>)) =
     engine_view sample_deps pf.fbs_abs (sample_engine\<lparr>lifecycle := Ready\<rparr>)"
proof -
  have run: "run_engine sample_deps [] (sample_engine\<lparr>lifecycle := Ready\<rparr>) = Some ([], sample_engine\<lparr>lifecycle := Ready\<rparr>)"
    by simp
  have fl: "FlushAll sample_deps (sample_engine\<lparr>lifecycle := Ready\<rparr>) = Some (Inr (), sample_engine\<lparr>lifecycle := Ready\<rparr>)"
    by code_simp
  have on: "enabled sample_options"
    by (simp add: sample_options_def)
  show ?thesis
    by (rule conjunct1 [OF FlushAll_writes_back [OF sample_opens sample_created sample_ready on _ _ run fl]]) simp_all
qed

text \<open>
  \<^bold>\<open>A dead engine stays dead.\<close>  Once recovery has failed or shutdown is complete, no sequence of
  calls changes anything: not the engine, not the store, not the journal.  Every call returns.
\<close>

theorem dead_engine_inert:
  assumes "lifecycle e = RecoveryFailed \<or> lifecycle e = Stopped" and "\<not> backgroundFlushThread e"
  shows "run_owner d xs e = Some e"
proof (induction xs)
  case Nil
  then show ?case by simp
next
  case (Cons x xs)
  have "owner_step d x e = Some e"
  proof (cases x)
    case (Serves y)
    then show ?thesis
      using assms by (cases y) (auto simp: dead_engine_defs)
  qed (use assms in \<open>auto simp: dead_engine_defs\<close>)
  with Cons show ?case by simp
qed

theorem dead_engine_inert_witness:
  "run_owner sample_deps [MarksComplete, Serves (EPut (str ''k'') [1]), ShutsDown] (sample_engine\<lparr>lifecycle := Stopped\<rparr>)
     = Some (sample_engine\<lparr>lifecycle := Stopped\<rparr>)"
  by (rule dead_engine_inert) (simp_all add: sample_engine_def new_engine_def Let_def)

end
