(* ===== verification/EngineDurability.thy ===== *)
theory EngineDurability
  imports EngineMap "HOL-Library.Multiset"
begin

text \<open>
  What survives a crash.  The journal's records determine a map of pending writes
  (\<open>pending_map\<close>), which \<^verbatim>\<open>ReplayFromJournal\<close> rebuilds; the invariant \<open>durable\<close> says that
  on devices that do not fail it always matches the dirty entries of the cache.  So the engine that
  recovery builds from the files shows what the old one showed, for every key that was never
  invalidated.  For invalidated keys this is false: replaying an \<^verbatim>\<open>Invalidate\<close> record
  removes the key from the store as it is at recovery, which may hold a later value.
\<close>

section \<open>The pending writes of a journal\<close>

definition pend_apply :: "CacheJournalRecord \<Rightarrow> (key \<rightharpoonup> PendingEntry) \<Rightarrow> key \<rightharpoonup> PendingEntry" where
  "pend_apply r m =
     (let k = rec_key r in
      case recordType r of
        Upsert \<Rightarrow> m(k \<mapsto> \<lparr>pe_value = rec_value r, pe_version = entryVersion r, pe_state = Dirty\<rparr>)
      | FlushIntent \<Rightarrow>
          (case m k of None \<Rightarrow> m
           | Some pe \<Rightarrow> if pe_version pe = entryVersion r then m(k \<mapsto> pe\<lparr>pe_state := FlushInProgress\<rparr>) else m)
      | FlushComplete \<Rightarrow>
          (case m k of None \<Rightarrow> m | Some pe \<Rightarrow> if pe_version pe = entryVersion r then m(k := None) else m)
      | Invalidate \<Rightarrow> m(k := None))"

definition pending_map :: "CacheJournalRecord list \<Rightarrow> key \<rightharpoonup> PendingEntry" where
  "pending_map R = fold pend_apply R Map.empty"

definition invalidated :: "CacheJournalRecord list \<Rightarrow> key set" where
  "invalidated R = {rec_key r | r. r \<in> set R \<and> recordType r = Invalidate}"

lemma pending_map_Nil [simp]: "pending_map [] = Map.empty"
  by (simp add: pending_map_def)

lemma pending_map_append [simp]: "pending_map (R @ [r]) = pend_apply r (pending_map R)"
  by (simp add: pending_map_def)

lemma invalidated_simps [simp]:
  "invalidated [] = {}"
  "invalidated (R @ [r]) = (if recordType r = Invalidate then insert (rec_key r) (invalidated R) else invalidated R)"
  "invalidated (r # R) = (if recordType r = Invalidate then insert (rec_key r) (invalidated R) else invalidated R)"
  by (auto simp: invalidated_def)

lemma pend_apply_other: "k \<noteq> rec_key r \<Longrightarrow> pend_apply r m k = m k"
  by (simp add: pend_apply_def Let_def split: CacheRecordType.split option.split)

text \<open>A pending write matches a cache entry: dirty entries are pending, other keys are not.\<close>

definition agrees :: "PendingEntry option \<Rightarrow> Entry option \<Rightarrow> bool" where
  "agrees p c \<longleftrightarrow>
     (case c of None \<Rightarrow> p = None
      | Some en \<Rightarrow>
          if dirtyState en = Clean then p = None
          else \<exists>pe. p = Some pe \<and> pe_value pe = entry_value en \<and> pe_version pe = entry_version en)"

lemma agrees_simps [simp]:
  "agrees p None \<longleftrightarrow> p = None"
  "agrees p (Some en) \<longleftrightarrow> (if dirtyState en = Clean then p = None
     else \<exists>pe. p = Some pe \<and> pe_value pe = entry_value en \<and> pe_version pe = entry_version en)"
  by (simp_all add: agrees_def)

text \<open>The keys outside \<open>I\<close> are tracked exactly.\<close>

definition tracks :: "key set \<Rightarrow> CacheJournalRecord list \<Rightarrow> (key \<rightharpoonup> Entry) \<Rightarrow> bool" where
  "tracks I R m \<longleftrightarrow> (\<forall>k. k \<notin> I \<longrightarrow> k \<notin> invalidated R \<and> agrees (pending_map R k) (m k))"

lemma tracks_mono: "tracks I R m \<Longrightarrow> I \<subseteq> J \<Longrightarrow> tracks J R m"
  by (auto simp: tracks_def)

lemma tracks_shrinks:
  assumes t: "tracks I R m" and s: "shrinks m m'"
  shows "tracks I R m'"
  unfolding tracks_def
proof (intro allI impI)
  fix k assume "k \<notin> I"
  then have "k \<notin> invalidated R \<and> agrees (pending_map R k) (m k)"
    using t by (simp add: tracks_def)
  then show "k \<notin> invalidated R \<and> agrees (pending_map R k) (m' k)"
    using s [unfolded shrinks_def, rule_format, of k] by auto
qed

text \<open>Appending a record about \<open>k\<close> and changing the entry of \<open>k\<close>.\<close>

lemma tracks_step:
  assumes t: "tracks I R m" and r: "rec_key r = k" "recordType r = Invalidate \<Longrightarrow> k \<in> I"
    and k: "k \<notin> I \<Longrightarrow> agrees (pending_map R k) (m k) \<Longrightarrow> agrees (pend_apply r (pending_map R) k) x"
  shows "tracks I (R @ [r]) (m(k := x))"
  unfolding tracks_def
proof (intro allI impI)
  fix k' assume k': "k' \<notin> I"
  then show "k' \<notin> invalidated (R @ [r]) \<and> agrees (pending_map (R @ [r]) k') ((m(k := x)) k')"
    using t r k pend_apply_other [of k' r] by (cases "k' = k") (auto simp: tracks_def)
qed

lemma tracks_all_clean:
  "(\<And>k en. m k = Some en \<Longrightarrow> dirtyState en = Clean) \<Longrightarrow> tracks I [] m"
  by (auto simp: tracks_def agrees_def split: option.split)

text \<open>Records the codec can read back, with versions up to \<open>N\<close>.\<close>

definition rec_ok :: "nat \<Rightarrow> CacheJournalRecord \<Rightarrow> bool" where
  "rec_ok N r \<longleftrightarrow> formatVersion r = 1 \<and> key_ok (rec_key r) \<and> key_ok (rec_value r) \<and> unat (entryVersion r) \<le> N"

lemma rec_ok_mono: "rec_ok N r \<Longrightarrow> N \<le> M \<Longrightarrow> rec_ok M r"
  by (simp add: rec_ok_def)

lemma rec_ok_journal_record [simp]:
  "rec_ok N (journal_record t k v ver) \<longleftrightarrow> key_ok k \<and> key_ok v \<and> unat ver \<le> N"
  by (simp add: rec_ok_def journal_record_def kCacheRecordFormatVersion_def)

lemma rec_ok_Decode: "rec_ok N r \<Longrightarrow> Decode (Encode r) = Inr r"
  using Decode_Encode [of r "[]"] by (simp add: rec_ok_def)

lemma rec_ok_payload: "rec_ok N r \<Longrightarrow> payload_ok (Encode r)"
  by (simp add: rec_ok_def payload_ok_def key_ok_def)

lemma key_ok_storable: "key_ok k \<Longrightarrow> storable k"
  by (simp add: key_ok_def storable_def)

lemma journal_record_simps [simp]:
  "recordType (journal_record t k v ver) = t" "rec_key (journal_record t k v ver) = k"
  "rec_value (journal_record t k v ver) = v" "entryVersion (journal_record t k v ver) = ver"
  by (simp_all add: journal_record_def)

lemma pending_map_ok:
  assumes "\<forall>r\<in>set R. rec_ok N r" and "pending_map R k = Some pe"
  shows "key_ok k \<and> key_ok (pe_value pe) \<and> unat (pe_version pe) \<le> N"
  using assms
proof (induction R arbitrary: pe rule: rev_induct)
  case (snoc r R)
  show ?case
  proof (cases "k = rec_key r")
    case True
    then show ?thesis
      using snoc by (auto simp: pend_apply_def Let_def rec_ok_def split: CacheRecordType.splits option.splits if_splits)
  next
    case False
    then show ?thesis
      using snoc pend_apply_other [of k r] by simp
  qed
qed simp

lemma distinct_fst_mset: "mset xs = mset ys \<Longrightarrow> distinct (map fst xs) = distinct (map fst ys)"
  by (rule mset_eq_imp_distinct_iff) simp

lemma map_of_set_eq:
  assumes "distinct (map fst xs)" "distinct (map fst ys)" "set xs = set ys"
  shows "map_of xs = map_of ys"
  using assms by (metis map_of_inject_set)

text \<open>Operations whose keys and values the codec can read back, and the keys an operation drops.\<close>

fun engine_op_ok :: "engine_op \<Rightarrow> bool" where
  "engine_op_ok (EPut k v) = (key_ok k \<and> key_ok v)"
| "engine_op_ok (EGet k) = key_ok k"
| "engine_op_ok (EInvalidate k) = key_ok k"
| "engine_op_ok (EForceInvalidate k) = key_ok k"
| "engine_op_ok _ = True"

fun invalidates :: "engine_op \<Rightarrow> key set" where
  "invalidates (EInvalidate k) = {k}"
| "invalidates (EForceInvalidate k) = {k}"
| "invalidates _ = {}"

lemma op_ok_storable: "engine_op_ok x \<Longrightarrow> engine_op_storable x"
  by (cases x) (simp_all add: key_ok_storable)

section \<open>The invariant\<close>

locale engine_durable = engine_env d abs disk inv clean bhealthy jrecords intact jhealthy
  for d :: "('j, 'b) Deps" and abs disk inv clean bhealthy jrecords intact jhealthy +
  fixes jdurable :: "'j \<Rightarrow> bool"
  assumes append_durable: "Jrn_Append (journal_ops d) p j = (Inr s, j') \<Longrightarrow> jdurable j'"
    and truncate_durable: "Jrn_Truncate (journal_ops d) j = (Inr u, j') \<Longrightarrow> jdurable j'"
    and replay_durable: "Jrn_Replay (journal_ops d) cb a j = Some (q, a', j') \<Longrightarrow> jdurable j \<Longrightarrow> jdurable j'"
begin

definition jgood :: "CacheJournalRecord list \<Rightarrow> 'j \<Rightarrow> bool" where
  "jgood R j \<longleftrightarrow> map payload (jrecords j) = map Encode R \<and> intact j \<and> jhealthy j \<and> jdurable j"

definition bgood :: "'b \<Rightarrow> bool" where
  "bgood b \<longleftrightarrow> inv b \<and> bhealthy b \<and> clean b"

definition durable :: "key set \<Rightarrow> nat \<Rightarrow> CacheJournalRecord list \<Rightarrow> ('j, 'b) CacheEngine \<Rightarrow> bool" where
  "durable I N R e \<longleftrightarrow> jgood R (journal e) \<and> bgood (backingStore e) \<and> unat (globalVersionCounter e) \<le> N \<and>
     (\<forall>r\<in>set R. rec_ok N r) \<and> (\<forall>k en. cached d e k = Some en \<longrightarrow> key_ok k) \<and> tracks I R (cached d e)"

lemma durableD:
  assumes "durable I N R e"
  shows "jgood R (journal e)" "bgood (backingStore e)" "unat (globalVersionCounter e) \<le> N"
    "\<And>r. r \<in> set R \<Longrightarrow> rec_ok N r" "\<And>k en. cached d e k = Some en \<Longrightarrow> key_ok k" "tracks I R (cached d e)"
  using assms by (simp_all add: durable_def)

lemma durable_cong:
  assumes "shards e' = shards e" "journal e' = journal e" "backingStore e' = backingStore e"
    "globalVersionCounter e' = globalVersionCounter e"
  shows "durable I N R e' = durable I N R e"
  using assms(2-4) by (simp add: durable_def cached_cong [OF assms(1)])

lemma bgood_Put:
  assumes b: "bgood b" and sto: "storable k" "storable v"
  shows "\<exists>b'. Bs_Put (store_ops d) k v b = (Inr (), b') \<and> bgood b' \<and> abs b' = (abs b)(k \<mapsto> v)"
proof -
  obtain r b' where p: "Bs_Put (store_ops d) k v b = (r, b')"
    by (cases "Bs_Put (store_ops d) k v b") auto
  then have r: "r = Inr ()" "bhealthy b'"
    using st.put_healthy [OF _ _ _ _ p] b sto by (auto simp: bgood_def)
  show ?thesis
    using st.put_ok [OF _ sto p [unfolded r]] b p r by (auto simp: bgood_def)
qed

lemma bgood_Remove:
  assumes b: "bgood b" and sto: "storable k"
  shows "\<exists>b'. Bs_Remove (store_ops d) k b = (Inr (), b') \<and> bgood b' \<and> abs b' = (abs b)(k := None)"
proof -
  obtain r b' where p: "Bs_Remove (store_ops d) k b = (r, b')"
    by (cases "Bs_Remove (store_ops d) k b") auto
  then have r: "r = Inr ()" "bhealthy b'"
    using st.remove_healthy [OF _ _ _ p] b sto by (auto simp: bgood_def)
  show ?thesis
    using st.remove_ok [OF _ sto p [unfolded r]] b p r by (auto simp: bgood_def)
qed

lemma bgood_Get: "bgood b \<Longrightarrow> Bs_Get (store_ops d) k b = (r, b') \<Longrightarrow> bgood b'"
  using st.get_keeps [of b k r b'] by (simp add: bgood_def)

lemma AppendJournalRecord_jgood:
  assumes j: "jgood R (journal e)" and rec: "rec_ok N rec"
  shows "\<exists>j. AppendJournalRecord d rec e = (Inr (), e\<lparr>journal := j\<rparr>) \<and> jgood (R @ [rec]) j"
proof -
  obtain r j where a: "Jrn_Append (journal_ops d) (Encode rec) (journal e) = (r, j)"
    by (cases "Jrn_Append (journal_ops d) (Encode rec) (journal e)") auto
  then obtain s where s: "r = Inr s" "jhealthy j"
    using jr.append_healthy [OF _ rec_ok_payload [OF rec] a] j by (cases r) (auto simp: jgood_def)
  then have "jgood (R @ [rec]) j"
    using jr.append_ok [OF _ rec_ok_payload [OF rec]] append_durable a j by (auto simp: jgood_def)
  then show ?thesis
    using a s by (intro exI [of _ j]) (simp add: AppendJournalRecord_def)
qed

lemma Truncate_jgood:
  assumes j: "jgood R j"
  shows "\<exists>j'. Jrn_Truncate (journal_ops d) j = (Inr (), j') \<and> jgood [] j'"
proof -
  obtain r j' where a: "Jrn_Truncate (journal_ops d) j = (r, j')"
    by (cases "Jrn_Truncate (journal_ops d) j") auto
  then have "r = Inr ()" "jhealthy j'"
    using jr.truncate_healthy [OF _ a] j by (auto simp: jgood_def)
  then show ?thesis
    using jr.truncate_ok truncate_durable a by (fastforce simp: jgood_def)
qed

section \<open>Operations keep it\<close>

lemma evict_shard_durable:
  assumes "core e" and "durable I N R e"
  shows "durable I N R (evict_shard (ShardFor d e k) e)"
proof -
  have s: "shrinks (cached d e) (cached d (evict_shard (ShardFor d e k) e))"
    using evict_shard_core [OF assms(1), of k] by blast
  have "key_ok k'" if "cached d (evict_shard (ShardFor d e k) e) k' = Some en" for k' en
    using s [unfolded shrinks_def, rule_format, of k'] that durableD(5) [OF assms(2), of k' en] by auto
  then show ?thesis
    using durableD [OF assms(2)] tracks_shrinks [OF _ s]
    by (simp add: durable_def) (simp add: evict_shard_def)
qed

lemma pend_flush:
  assumes "agrees p (Some en)" "dirtyState en \<noteq> Clean" "m k = p"
  shows "pend_apply (journal_record FlushComplete k [] (entry_version en))
    (pend_apply (journal_record FlushIntent k [] (entry_version en)) m) k = None"
  using assms by (auto simp: pend_apply_def)

lemma write_back_durable:
  assumes e: "core e" and dur: "durable I N R e" and k: "cached d e k = Some en" "dirtyState en = FlushInProgress"
    and wb: "write_back d (ShardFor d e k) k (entry_value en) (entry_version en) e = (r, e')"
  shows "r = Inr () \<and> (\<exists>R'. durable I N R' e')"
proof -
  let ?fi = "journal_record FlushIntent k [] (entry_version en)" and ?fc = "journal_record FlushComplete k [] (entry_version en)"
  have ver: "unat (entry_version en) \<le> N"
    using coreD(4) [OF e k(1)] durableD(3) [OF dur] by (auto simp: word_le_nat_alt)
  then have ok: "rec_ok N ?fi" "rec_ok N ?fc"
    using durableD(5) [OF dur k(1)] by (simp_all add: key_ok_def)
  obtain j1 where a1: "AppendJournalRecord d ?fi e = (Inr (), e\<lparr>journal := j1\<rparr>)" "jgood (R @ [?fi]) j1"
    using AppendJournalRecord_jgood [OF durableD(1) [OF dur] ok(1)] by blast
  obtain b where b: "Bs_Put (store_ops d) k (entry_value en) (backingStore e) = (Inr (), b)" "bgood b"
    using bgood_Put [OF durableD(2) [OF dur], of k "entry_value en"] coreD(4) [OF e k(1)] by blast
  obtain j2 where a2: "AppendJournalRecord d ?fc (e\<lparr>journal := j1, backingStore := b\<rparr>) =
      (Inr (), e\<lparr>backingStore := b, journal := j2\<rparr>)" "jgood ((R @ [?fi]) @ [?fc]) j2"
    using AppendJournalRecord_jgood [of "R @ [?fi]" "e\<lparr>journal := j1, backingStore := b\<rparr>", OF _ ok(2)] a1(2) by auto
  have r: "r = Inr ()" "journal e' = j2" "backingStore e' = b" "globalVersionCounter e' = globalVersionCounter e"
    using wb a1(1) a2(1) b(1) by (auto simp: write_back_def flush_succeeded_def Let_def)
  have c: "cached d e' = (cached d e)(k \<mapsto> en\<lparr>dirtyState := Clean\<rparr>)"
    using write_back_core [OF e k wb] r(1) by simp
  have t1: "tracks I (R @ [?fi]) ((cached d e)(k := cached d e k))"
    by (rule tracks_step [OF durableD(6) [OF dur]]) (use k in \<open>auto simp: pend_apply_def\<close>)
  have "tracks I ((R @ [?fi]) @ [?fc]) ((cached d e)(k := Some (en\<lparr>dirtyState := Clean\<rparr>)))"
    by (rule tracks_step [OF t1 [unfolded fun_upd_triv]]) (use k in \<open>auto simp: pend_apply_def\<close>)
  then have "durable I N ((R @ [?fi]) @ [?fc]) e'"
    using durableD [OF dur] a2(2) b(2) ok k unfolding durable_def c r by auto
  then show ?thesis
    using r(1) by blast
qed

lemma FlushKey_durable:
  assumes e: "core e" and dur: "durable I N R e" and f: "FlushKey d k ev cv e = (r, e')"
  shows "(\<exists>R'. durable I N R' e') \<and> (cached d e k \<noteq> None \<longrightarrow> r = Inr ())"
proof -
  let ?i = "ShardFor d e k"
  obtain b s where bf: "begin_flush k ev cv (shards e ! ?i) = (b, s)"
    by (cases "begin_flush k ev cv (shards e ! ?i)") auto
  note cor = begin_flush_correct [OF shards_inv_shard [OF coreD(1) [OF e]] bf]
  show ?thesis
  proof (cases b)
    case (FlushDone x)
    then show ?thesis
      using f bf dur find_entry_not_cached [OF e, of k]
      by (auto simp: FlushKey_def Let_def begin_flush_def split: option.splits if_splits)
  next
    case (FlushValue v ver)
    then obtain en where en: "cached d e k = Some en" "dirtyState en = Dirty" "entry_value en = v" "entry_version en = ver"
      "shard_map s = (shard_map (shards e ! ?i))(k \<mapsto> en\<lparr>dirtyState := FlushInProgress\<rparr>)" and si: "shard_inv s"
      using cor by (auto simp: cached_def)
    let ?e1 = "upd_shard ?i s e" and ?en = "en\<lparr>dirtyState := FlushInProgress\<rparr>"
    have u: "shards_inv d ?e1 \<and> cached d ?e1 = (cached d e)(k \<mapsto> ?en)"
      by (rule upd_one_correct [OF coreD(1) [OF e] si en(5)])
    have c1: "core ?e1"
      by (rule conjunct1 [OF core_set_state [OF e en(1), where st = FlushInProgress]]) (use u coreD(2) [OF e] in simp_all)
    have "tracks I R (cached d ?e1)"
      using durableD(6) [OF dur] u en by (auto simp: tracks_def)
    then have d1: "durable I N R ?e1"
      using durableD [OF dur] u en(1) by (auto simp: durable_def)
    have "write_back d ?i k v ver ?e1 = (r, e')"
      using f bf FlushValue by (simp add: FlushKey_def Let_def)
    then have wb: "write_back d (ShardFor d ?e1 k) k (entry_value ?en) (entry_version ?en) ?e1 = (r, e')"
      using en(3,4) by simp
    have "cached d ?e1 k = Some ?en"
      using u by simp
    from write_back_durable [OF c1 d1 this _ wb] show ?thesis
      by simp
  qed
qed

lemma durable_mono:
  "durable I N R e \<Longrightarrow> I \<subseteq> J \<Longrightarrow> N \<le> M \<Longrightarrow> durable J M R e"
  by (auto simp: durable_def intro: tracks_mono rec_ok_mono)

lemma relieve_attempts_durable:
  assumes "core e" and "i = ShardFor d e k" and "durable I N R e"
  shows "\<exists>R'. durable I N R' (relieve_attempts d i n e)"
  using assms
proof (induction n arbitrary: e R)
  case 0
  then show ?case by auto
next
  case (Suc n)
  let ?s = "shards e ! i"
  obtain r e1 where f: "FlushKey d (key_to_flush ?s) 0 False e = (r, e1)"
    by (cases "FlushKey d (key_to_flush ?s) 0 False e") auto
  note fl = FlushKey_core [OF Suc.prems(1) f]
  have i1: "i = ShardFor d e1 k"
    using same_frame_ShardFor [of e e1 d] fl Suc.prems(2) by simp
  obtain R1 where R1: "durable I N R1 e1"
    using FlushKey_durable [OF Suc.prems(1,3) f] by blast
  let ?e2 = "evict_shard i e1"
  have e2: "core ?e2" "same_frame e1 ?e2" "durable I N R1 ?e2"
    using evict_shard_core [of e1 k] evict_shard_durable [OF _ R1, of k] fl i1 by simp_all
  have ev0: "durable I N R (evict_shard i e)"
    using evict_shard_durable [OF Suc.prems(1,3), of k] Suc.prems(2) by simp
  have i2: "i = ShardFor d ?e2 k"
    using same_frame_ShardFor [of e1 ?e2 d] e2 i1 by simp
  have IH: "\<exists>R'. durable I N R' (relieve_attempts d i n ?e2)"
    using Suc.IH [OF e2(1) i2 e2(3)] .
  show ?case
    using Suc.prems(3) ev0 e2(3) IH by (auto simp: Let_def f)
qed

lemma Put_admitted_durable:
  assumes e: "core e" and dur: "durable I N R e" and ok: "key_ok k" "key_ok v" and ver: "globalVersionCounter e \<noteq> - 1"
    and p: "Put_admitted d k v e = (r, e')"
  shows "\<exists>R'. durable I (Suc N) R' e'"
proof -
  let ?v = "globalVersionCounter e + 1"
  let ?up = "journal_record Upsert k v ?v"
  let ?en = "\<lparr>entry_key = k, entry_value = v, entry_version = ?v, dirtyState = Dirty\<rparr>"
  have less: "globalVersionCounter e < ?v" and u: "unat ?v \<le> Suc N"
    using word_less_plus_one [OF ver] unat_plus_one [OF ver] durableD(3) [OF dur] by simp_all
  have up: "rec_ok (Suc N) ?up"
    using ok u by simp
  obtain j where a: "AppendJournalRecord d ?up (e\<lparr>globalVersionCounter := ?v\<rparr>) =
      (Inr (), e\<lparr>globalVersionCounter := ?v, journal := j\<rparr>)" "jgood (R @ [?up]) j"
    using AppendJournalRecord_jgood [of R "e\<lparr>globalVersionCounter := ?v\<rparr>", OF _ up] durableD(1) [OF dur] by auto
  let ?e1 = "e\<lparr>globalVersionCounter := ?v, journal := j\<rparr>"
  have nv: "AppendJournalRecordWithNewVersion d (journal_record Upsert k v 0) e = ((Inr (), ?v), ?e1)"
    using a by (simp add: AppendJournalRecordWithNewVersion_def Let_def journal_record_def)
  have c1: "core ?e1"
    using core_counter [OF e order_less_imp_le [OF less]] core_cong(1) [of ?e1 "e\<lparr>globalVersionCounter := ?v\<rparr>"] by simp
  let ?i = "ShardFor d ?e1 k"
  let ?e2 = "on_shard ?i (InsertOrUpdateLocked (limits ?e1) k v ?v Dirty True) ?e1"
  have old: "entry_version en < ?v" if "cached d ?e1 k = Some en" for en
    using coreD(4) [OF e, of k en] that less order_le_less_trans by fastforce
  have ins: "core ?e2" "shrinks ((cached d e)(k \<mapsto> ?en)) (cached d ?e2)"
    using insert_core [OF c1 key_ok_storable [OF ok(1)] key_ok_storable [OF ok(2)] old, of Dirty ?e2 True] by simp_all
  have "tracks I (R @ [?up]) ((cached d e)(k := Some ?en))"
    by (rule tracks_step [OF durableD(6) [OF dur]]) (auto simp: pend_apply_def)
  then have t: "tracks I (R @ [?up]) (cached d ?e2)"
    by (rule tracks_shrinks [OF _ ins(2)])
  have "key_ok k'" if "cached d ?e2 k' = Some en" for k' en
    using ins(2) [unfolded shrinks_def, rule_format, of k'] that durableD(5) [OF dur, of k' en] ok(1)
    by (auto split: if_splits)
  then have d2: "durable I (Suc N) (R @ [?up]) ?e2"
    using durableD(2) [OF dur] durableD(4) [OF dur, THEN rec_ok_mono] a(2) t up u by (auto simp: durable_def)
  let ?e3 = "RelieveCapacityPressureIfNeeded d ?i ?e2"
  obtain R3 where R3: "durable I (Suc N) R3 ?e3"
    using relieve_attempts_durable [OF ins(1) _ d2, of ?i k] by (auto simp: RelieveCapacityPressureIfNeeded_def)
  have c3: "core ?e3"
    using RelieveCapacityPressureIfNeeded_core [OF ins(1), of k] by simp
  show ?thesis
    using p nv R3 FlushKey_durable [OF c3 R3] by (auto simp: Put_admitted_def Let_def split: if_splits)
qed

lemma Invalidate_admitted_durable:
  assumes e: "core e" and dur: "durable I N R e" and ok: "key_ok k" and p: "Invalidate_admitted d k force e = (r, e')"
  shows "\<exists>R'. durable (insert k I) N R' e'"
proof -
  let ?i = "ShardFor d e k"
  let ?f = "find_entry (shards e ! ?i) k"
  let ?v = "case ?f of None \<Rightarrow> 0 | Some (_, en) \<Rightarrow> entry_version en"
  let ?rec = "journal_record Invalidate k [] ?v"
  have "unat ?v \<le> N"
    using find_entry_cached [OF e, of k] coreD(4) [OF e, of k] durableD(3) [OF dur]
    by (fastforce simp: word_le_nat_alt split: option.splits)
  then have rec: "rec_ok N ?rec"
    using ok by (simp add: key_ok_def)
  obtain j where a: "AppendJournalRecord d ?rec e = (Inr (), e\<lparr>journal := j\<rparr>)" "jgood (R @ [?rec]) j"
    using AppendJournalRecord_jgood [OF durableD(1) [OF dur] rec] by blast
  obtain b where b: "Bs_Remove (store_ops d) k (backingStore e) = (Inr (), b)" "bgood b"
    using bgood_Remove [OF durableD(2) [OF dur] key_ok_storable [OF ok]] by blast
  note c = Invalidate_admitted_core [OF e key_ok_storable [OF ok] p]
  show ?thesis
  proof (cases "case ?f of None \<Rightarrow> False | Some (_, en) \<Rightarrow> \<not> force \<and> dirtyState en \<noteq> Clean")
    case True
    then have "e' = e"
      using p by (auto simp: Invalidate_admitted_def Let_def)
    then show ?thesis
      using durable_mono [OF dur, of "insert k I" N] by blast
  next
    case False
    then have r: "r = Inr ()" "journal e' = j" "backingStore e' = b" "globalVersionCounter e' = globalVersionCounter e"
      using p a b by (auto simp: Invalidate_admitted_def Let_def)
    have "tracks (insert k I) (R @ [?rec]) ((cached d e)(k := None))"
      by (rule tracks_step [OF tracks_mono [OF durableD(6) [OF dur]]]) auto
    then have "durable (insert k I) N (R @ [?rec]) e'"
      using durableD [OF dur] c a(2) b(2) rec r by (auto simp: durable_def)
    then show ?thesis by blast
  qed
qed

lemma Get_durable:
  assumes e: "core e" and dur: "durable I N R e" and k: "key_ok k" and ready: "lifecycle e = Ready" "enabled (options e)"
    and g: "CacheEngine_Get d k e = (r, e')"
  shows "durable I N R e'"
proof -
  let ?i = "ShardFor d e k"
  have cr: "CheckReadyForRead e = Inr ()"
    by (simp add: CheckReadyForRead_def ready)
  show ?thesis
  proof (cases "find_entry (shards e ! ?i) k")
    case (Some p)
    then obtain n en where f: "find_entry (shards e ! ?i) k = Some (n, en)" by (cases p) auto
    then have h: "hit ?i n en e = (r, e')"
      using g cr ready by (simp add: CacheEngine_Get_def Let_def)
    then have "journal e' = journal e" "backingStore e' = backingStore e" "globalVersionCounter e' = globalVersionCounter e"
      by (auto simp: hit_def)
    then show ?thesis
      using hit_core [OF e f h] dur by (simp add: durable_def)
  next
    case None
    then have nc: "cached d e k = None"
      using find_entry_not_cached [OF e] by blast
    let ?st = "(stats e)\<lparr>missCount := missCount (stats e) + 1\<rparr>"
    obtain gr b where get: "Bs_Get (store_ops d) k (backingStore e) = (gr, b)"
      by (cases "Bs_Get (store_ops d) k (backingStore e)") auto
    let ?e1 = "e\<lparr>stats := ?st, backingStore := b\<rparr>"
    have b: "bgood b" "inv b" "abs b = abs (backingStore e)"
      using bgood_Get [OF durableD(2) [OF dur] get] st.get_keeps [OF coreD(2) [OF e] get] by auto
    have d1: "durable I N R ?e1"
      using durableD [OF dur] b by (simp add: durable_def)
    have c1: "core ?e1"
      using coreD [OF e] b by (auto simp: core_def coherent_def)
    show ?thesis
    proof (cases "\<exists>v. gr = Inr v \<and> length v \<le> kMaxReasonableValueBytes")
      case False
      then have "e' = ?e1"
        using g cr ready None get by (auto simp: CacheEngine_Get_def Let_def split: sum.splits if_splits)
      then show ?thesis using d1 by simp
    next
      case True
      then obtain v where v: "gr = Inr v" "length v \<le> kMaxReasonableValueBytes" by blast
      let ?en = "\<lparr>entry_key = k, entry_value = v, entry_version = 0, dirtyState = Clean\<rparr>"
      have sv: "storable v" and bv: "abs (backingStore e) k = Some v"
        using v st.get_ok [OF coreD(2) [OF e]] get by (auto simp: kMaxReasonableValueBytes_def storable_def)
      have e': "e' = on_shard (ShardFor d ?e1 k) (InsertOrUpdateLocked (limits ?e1) k v 0 Clean True) ?e1"
        using g cr ready None get v by (auto simp: CacheEngine_Get_def Let_def read_fill_def)
      have ins: "shrinks ((cached d ?e1)(k \<mapsto> ?en)) (cached d e')"
        by (rule conjunct2 [OF conjunct2 [OF conjunct2 [OF insert_core [OF c1 key_ok_storable [OF k] sv _ _ _ e']]]])
          (simp_all add: nc b bv)
      have "tracks I R ((cached d ?e1)(k \<mapsto> ?en))"
        using durableD(6) [OF dur] nc by (auto simp: tracks_def)
      then have t: "tracks I R (cached d e')"
        by (rule tracks_shrinks [OF _ ins])
      have "key_ok k'" if "cached d e' k' = Some x" for k' x
        using ins [unfolded shrinks_def, rule_format, of k'] that durableD(5) [OF dur, of k' x] k
        by (auto split: if_splits)
      then show ?thesis
        using durableD [OF d1] t by (simp add: durable_def) (simp add: e')
    qed
  qed
qed

lemma flush_keys_durable:
  assumes "core e" and "settled (cached d e)" and "durable I N R e" and "\<forall>k\<in>set ks. cached d e k \<noteq> None"
    and "flush_keys d ks le e = (le', e')"
  shows "(\<exists>R'. durable I N R' e') \<and> le' = le"
  using assms
proof (induction ks arbitrary: e R)
  case Nil
  then show ?case by auto
next
  case (Cons k ks)
  obtain r e1 where f: "FlushKey d k 0 False e = (r, e1)"
    by (cases "FlushKey d k 0 False e") auto
  note c = FlushKey_core [OF Cons.prems(1) f]
  obtain R1 where R1: "durable I N R1 e1" and r: "r = Inr ()"
    using FlushKey_durable [OF Cons.prems(1,3) f] Cons.prems(4) by auto
  have "\<forall>k\<in>set ks. cached d e1 k \<noteq> None"
    using c Cons.prems(4) by auto
  then show ?case
    using Cons.IH [OF _ _ R1] c FlushKey_settled [OF Cons.prems(1) f Cons.prems(2)] Cons.prems(5) f r by simp
qed

lemma dirty_keys_cached:
  assumes e: "core e" and i: "i < length (shards e)" and k: "k \<in> set (dirty_keys (shards e ! i))"
  shows "cached d e k \<noteq> None"
proof -
  have si: "shard_inv (shards e ! i)"
    using coreD(1) [OF e] i by (simp add: shards_inv_def)
  obtain n en where "(n, en) \<in> set (lru (shards e ! i))" "entry_key en = k"
    using k by (auto simp: dirty_keys_def)
  then have "k \<in> dom (shard_map (shards e ! i))"
    using find_entry_None [OF si, of k] not_found [OF si, of k] by (force simp: mem_entries domIff)
  moreover from this have "ShardFor d e k = i"
    using coreD(1) [OF e] i by (auto simp: shards_inv_def)
  ultimately show ?thesis
    by (auto simp: cached_def)
qed

lemma flush_shards_durable:
  assumes "core e" and "settled (cached d e)" and "durable I N R e" and "\<forall>i\<in>set is. i < length (shards e)"
    and "flush_shards d is le e = (le', e')"
  shows "(\<exists>R'. durable I N R' e') \<and> le' = le"
  using assms
proof (induction "is" arbitrary: e R le)
  case Nil
  then show ?case by auto
next
  case (Cons i js)
  obtain le1 e1 where f: "flush_keys d (dirty_keys (shards e ! i)) le e = (le1, e1)"
    by (cases "flush_keys d (dirty_keys (shards e ! i)) le e") auto
  have ks: "\<forall>k\<in>set (dirty_keys (shards e ! i)). cached d e k \<noteq> None"
    using dirty_keys_cached [OF Cons.prems(1), of i] Cons.prems(4) by (meson list.set_intros(1))
  obtain R1 where R1: "durable I N R1 e1" and le1: "le1 = le"
    using flush_keys_durable [OF Cons.prems(1-3) ks f] by blast
  have c1: "core e1" "settled (cached d e1)" "length (shards e1) = length (shards e)"
    using flush_keys_flushed [OF Cons.prems(1,2) f] by (simp_all add: flushed_def same_frame_def)
  show ?case
    using Cons.IH [OF c1(1,2) R1] Cons.prems(4,5) c1(3) f le1 by simp
qed

lemma TryCompact_durable:
  assumes e: "core e" and dur: "durable I N R e" and q: "inFlightWriteCount e = 0" "\<not> compactionPaused e"
    and t: "TryCompactJournalIfFullyClean d e = Some e'"
  shows "\<exists>R'. durable I N R' e'"
proof (cases "remaining_dirty e = 0")
  case False
  then have "e' = e"
    using TryCompact_result [OF q] t by (cases e) auto
  then show ?thesis using dur by blast
next
  case True
  obtain j where tr: "Jrn_Truncate (journal_ops d) (journal e) = (Inr (), j)" "jgood [] j"
    using Truncate_jgood [OF durableD(1) [OF dur]] by blast
  have "tracks I [] (cached d e)"
    using no_dirty_clean_at [OF e True] by (intro tracks_all_clean) (auto simp: clean_at_def)
  then have "durable I N [] (e\<lparr>journal := j\<rparr>)"
    using durableD [OF dur] tr(2) by (auto simp: durable_def)
  moreover have "e\<lparr>compactionPaused := False\<rparr> = e"
    using q(2) by (cases e) simp
  moreover have "remaining_dirty (e\<lparr>compactionPaused := True\<rparr>) = 0"
    using True by (simp add: remaining_dirty_def)
  ultimately have "e' = e \<or> e' = e\<lparr>journal := j\<rparr>"
    using t tr(1) q unfolding TryCompactJournalIfFullyClean_def DrainInFlightWrites_def
    by (cases e) (auto split: if_splits)
  then show ?thesis
    using dur \<open>durable I N [] (e\<lparr>journal := j\<rparr>)\<close> by blast
qed

text \<open>On devices that do not fail, \<^verbatim>\<open>FlushAll\<close> always succeeds.\<close>

lemma FlushAll_durable_core:
  assumes e: "core e" "settled (cached d e)" "inFlightWriteCount e = 0" "\<not> compactionPaused e"
    and ready: "CheckReadyForRead e = Inr ()" and dur: "durable I N R e"
  shows "\<exists>e' R'. FlushAll d e = Some (Inr (), e') \<and> durable I N R' e'"
proof -
  obtain le e1 where f: "flush_shards d [0..<length (shards e)] None e = (le, e1)"
    by (cases "flush_shards d [0..<length (shards e)] None e") auto
  note fs = flush_shards_flushed [OF e(1,2) f]
  obtain R1 where R1: "durable I N R1 e1" and le: "le = None"
    using flush_shards_durable [OF e(1,2) dur _ f] by auto
  have q: "core e1" "inFlightWriteCount e1 = 0" "\<not> compactionPaused e1"
    using fs e(3,4) by (simp_all add: flushed_def same_frame_def)
  then obtain j where t: "TryCompactJournalIfFullyClean d e1 = Some (e1\<lparr>journal := j\<rparr>)"
    using TryCompact_result by blast
  show ?thesis
    using TryCompact_durable [OF q(1) R1 q(2,3) t] f le t ready by (auto simp: FlushAll_def)
qed

lemma FlushAll_durable:
  "running n e \<Longrightarrow> durable I N R e \<Longrightarrow> \<exists>e' R'. FlushAll d e = Some (Inr (), e') \<and> durable I N R' e'"
  using runningD [of n e] ready_checks(1) [of n e] by (intro FlushAll_durable_core) auto

section \<open>Sequences of operations\<close>

lemma engine_step_durable:
  assumes e: "running (Suc n) e" and dur: "durable I N R e" and x: "engine_op_ok x"
    and s: "engine_step d x e = Some (r, e')"
  shows "\<exists>R'. durable (I \<union> invalidates x) (Suc N) R' e'"
proof -
  have adm: "core (e\<lparr>inFlightWriteCount := 1\<rparr>)" "durable I N R (e\<lparr>inFlightWriteCount := 1\<rparr>)"
    using runningD(1) [OF e] dur core_cong [of "e\<lparr>inFlightWriteCount := 1\<rparr>" e]
      durable_cong [of "e\<lparr>inFlightWriteCount := 1\<rparr>" e] by simp_all
  have rel: "durable I M R (ReleaseWriteAdmission e) = durable I M R e" for I M R e
    by (rule durable_cong) (simp_all add: ReleaseWriteAdmission_def)
  have inv: "\<exists>R'. durable (insert k I) (Suc N) R' e'"
    if k: "key_ok k" and i: "InvalidateImpl d k force e = Some (q, e')" for k force q
  proof -
    obtain r2 e2 where p: "Invalidate_admitted d k force (e\<lparr>inFlightWriteCount := 1\<rparr>) = (r2, e2)"
      by (cases "Invalidate_admitted d k force (e\<lparr>inFlightWriteCount := 1\<rparr>)") auto
    then have "e' = ReleaseWriteAdmission e2"
      using i ready_checks [OF e] by (simp add: InvalidateImpl_def)
    then show ?thesis
      using Invalidate_admitted_durable [OF adm k p] rel durable_mono [where M = "Suc N", OF _ subset_refl] by fastforce
  qed
  show ?thesis
  proof (cases x)
    case (EGet k)
    obtain q e1 where g: "CacheEngine_Get d k e = (q, e1)"
      by (cases "CacheEngine_Get d k e") auto
    have "durable I N R e1"
      using Get_durable [OF runningD(1) [OF e] dur _ runningD(3,4) [OF e] g] x EGet by simp
    then show ?thesis
      using s EGet g durable_mono [of I N R e1 I "Suc N"] by auto
  next
    case (EContains k)
    then show ?thesis
      using s durable_mono [OF dur, of I "Suc N"] by auto
  next
    case (EPut k v)
    obtain r2 e2 where p: "Put_admitted d k v (e\<lparr>inFlightWriteCount := 1\<rparr>) = (r2, e2)"
      by (cases "Put_admitted d k v (e\<lparr>inFlightWriteCount := 1\<rparr>)") auto
    then have e': "e' = ReleaseWriteAdmission e2"
      using s EPut ready_checks [OF e] runningD(4) [OF e] by (simp add: CacheEngine_Put_def)
    have "globalVersionCounter (e\<lparr>inFlightWriteCount := 1\<rparr>) \<noteq> - 1"
      using runningD(7) [OF e] unat_max64 by auto
    then show ?thesis
      using Put_admitted_durable [OF adm _ _ _ p] x EPut by (simp add: e' rel)
  next
    case (EInvalidate k)
    then show ?thesis
      using inv [of k False] s x by (auto simp: CacheEngine_Invalidate_def)
  next
    case (EForceInvalidate k)
    then show ?thesis
      using inv [of k True] s x by (auto simp: ForceInvalidate_def)
  next
    case (EFlush k)
    obtain q e1 where g: "FlushKey d k 0 False e = (q, e1)"
      by (cases "FlushKey d k 0 False e") auto
    then show ?thesis
      using FlushKey_durable [OF runningD(1) [OF e] dur g] s EFlush ready_checks(1) [OF e]
        durable_mono [where M = "Suc N", OF _ subset_refl, of I N _ e1]
      by (auto simp: CacheEngine_Flush_def)
  next
    case EFlushAll
    then show ?thesis
      using FlushAll_durable [OF e dur] s durable_mono [where M = "Suc N", OF _ subset_refl, of I N _ e'] by fastforce
  qed
qed

lemma run_engine_durable:
  assumes "running (length xs + n) e" and "durable I N R e" and "\<forall>x\<in>set xs. engine_op_ok x"
    and "run_engine d xs e = Some (rs, e')"
  shows "\<exists>R'. durable (I \<union> \<Union> (invalidates ` set xs)) (N + length xs) R' e'"
  using assms
proof (induction xs arbitrary: e I N R rs)
  case Nil
  then show ?case by auto
next
  case (Cons x xs)
  have ok: "engine_op_storable x" "engine_op_ok x"
    using Cons.prems(3) op_ok_storable by auto
  obtain r e1 where s: "engine_step d x e = Some (r, e1)" "running (length xs + n) e1"
    using engine_step_running [of "length xs + n" e x] Cons.prems(1) ok by auto
  obtain R1 where R1: "durable (I \<union> invalidates x) (Suc N) R1 e1"
    using engine_step_durable [of "length xs + n" e I N R x r e1] Cons.prems(1,2) ok s by auto
  obtain rs1 where "run_engine d xs e1 = Some (rs1, e')"
    using Cons.prems(4) s(1) by auto
  with Cons.IH [OF s(2) R1] Cons.prems(3) show ?case
    by (simp add: Un_assoc)
qed

section \<open>Recovery\<close>

text \<open>One record of the replay.\<close>

lemma replay_record_step:
  assumes r: "rec_ok N r" and raw: "payload raw = Encode r" and b: "bgood b" and pend: "distinct (map fst pend)"
  shows "\<exists>pend' b'. replay_record (store_ops d) raw (pend, b) = (Inr Continue, pend', b') \<and> bgood b' \<and>
    distinct (map fst pend') \<and> map_of pend' = pend_apply r (map_of pend) \<and>
    abs b' = (if recordType r = Invalidate then (abs b)(rec_key r := None) else abs b)"
proof -
  note dec = rec_ok_Decode [OF r, folded raw]
  have "storable (rec_key r)"
    using r by (simp add: rec_ok_def key_ok_storable)
  then obtain b' where rm: "Bs_Remove (store_ops d) (rec_key r) b = (Inr (), b')" "bgood b'"
    "abs b' = (abs b)(rec_key r := None)"
    using bgood_Remove [OF b] by blast
  have del: "map_of (AList.delete k pend) = (map_of pend)(k := None)" for k
    by (rule delete_conv')
  have upd: "map_of (AList.update k x pend) = (map_of pend)(k \<mapsto> x)" for k x
    by (rule update_conv')
  show ?thesis
    using b pend rm
    by (cases "recordType r"; cases "map_of pend (rec_key r)")
      (auto simp: replay_record_def dec Let_def pend_apply_def del upd distinct_delete_keys distinct_update)
qed

lemma replay_all_step:
  assumes "\<forall>r\<in>set R. rec_ok N r" and "map payload raws = map Encode R" and "bgood b" and "distinct (map fst pend)"
  shows "\<exists>pend' b'. replay_all (replay_record (store_ops d)) (pend, b) raws = (Inr (), pend', b') \<and> bgood b' \<and>
    distinct (map fst pend') \<and> map_of pend' = fold pend_apply R (map_of pend) \<and>
    (\<forall>k. abs b' k = (if k \<in> invalidated R then None else abs b k))"
  using assms
proof (induction R arbitrary: raws pend b)
  case Nil
  then show ?case by simp
next
  case (Cons r R)
  then obtain raw raws' where raws: "raws = raw # raws'" "payload raw = Encode r" "map payload raws' = map Encode R"
    by (auto simp: map_eq_Cons_conv)
  obtain pend1 b1 where s: "replay_record (store_ops d) raw (pend, b) = (Inr Continue, pend1, b1)" "bgood b1"
    "distinct (map fst pend1)" "map_of pend1 = pend_apply r (map_of pend)"
    "abs b1 = (if recordType r = Invalidate then (abs b)(rec_key r := None) else abs b)"
    using replay_record_step [of N r raw b pend] Cons.prems raws(2) by auto
  obtain pend' b' where t: "replay_all (replay_record (store_ops d)) (pend1, b1) raws' = (Inr (), pend', b')" "bgood b'"
    "distinct (map fst pend')" "map_of pend' = fold pend_apply R (map_of pend1)"
    "\<forall>k. abs b' k = (if k \<in> invalidated R then None else abs b1 k)"
    using Cons.IH [OF _ raws(3) s(2,3)] Cons.prems(1) by auto
  show ?case
    using s t raws(1) by auto
qed

text \<open>Inserting the pending writes into an empty cache.\<close>

abbreviation pend_entry :: "key \<Rightarrow> PendingEntry \<Rightarrow> Entry" where
  "pend_entry k pe \<equiv> \<lparr>entry_key = k, entry_value = pe_value pe, entry_version = pe_version pe, dirtyState = Dirty\<rparr>"

lemma shrinks_dirty_eq:
  assumes "shrinks m m'" and "\<And>k en. m k = Some en \<Longrightarrow> dirtyState en = Dirty"
  shows "m' = m"
proof
  fix k show "m' k = m k"
    using assms(1) [unfolded shrinks_def, rule_format, of k] assms(2) [of k] by auto
qed

definition frame_of :: "('j, 'b) CacheEngine \<Rightarrow> ('j, 'b) CacheEngine \<Rightarrow> bool" where
  "frame_of e e' \<longleftrightarrow> same_frame e e' \<and> journal e' = journal e \<and> backingStore e' = backingStore e"

lemma insert_pending_fold:
  assumes "shards_inv d e" and "distinct (map fst ps)" and "\<forall>k\<in>fst ` set ps. cached d e k = None"
    and "\<forall>k en. cached d e k = Some en \<longrightarrow> dirtyState en = Dirty"
  shows "shards_inv d (fold (insert_pending d) ps e) \<and> frame_of e (fold (insert_pending d) ps e) \<and>
    cached d (fold (insert_pending d) ps e) =
      (\<lambda>k. case map_of ps k of None \<Rightarrow> cached d e k | Some pe \<Rightarrow> Some (pend_entry k pe))"
  using assms
proof (induction ps arbitrary: e)
  case Nil
  then show ?case by (simp add: frame_of_def)
next
  case (Cons p ps)
  obtain k pe where p: "p = (k, pe)" by (cases p)
  let ?e1 = "insert_pending d p e"
  have e1: "?e1 = on_shard (ShardFor d e k) (InsertOrUpdateLocked (limits e) k (pe_value pe) (pe_version pe) Dirty False) e"
    by (simp add: insert_pending_def p)
  have k: "cached d e k = None" "k \<notin> fst ` set ps"
    using Cons.prems(2,3) p by (auto simp: image_iff)
  have ins: "shards_inv d ?e1 \<and> shrinks ((cached d e)(k \<mapsto> pend_entry k pe)) (cached d ?e1)"
    by (rule insert_correct [OF Cons.prems(1) _ e1]) (simp add: k)
  have c1: "cached d ?e1 = (cached d e)(k \<mapsto> pend_entry k pe)"
    by (rule shrinks_dirty_eq [OF conjunct2 [OF ins]]) (use Cons.prems(4) in \<open>auto split: if_splits\<close>)
  have fr: "frame_of e ?e1"
    unfolding e1 by (simp add: frame_of_def same_frame_def)
  have n1: "\<forall>k'\<in>fst ` set ps. cached d ?e1 k' = None"
    using Cons.prems(3) k(2) c1 by auto
  have n2: "\<forall>k' en. cached d ?e1 k' = Some en \<longrightarrow> dirtyState en = Dirty"
    using Cons.prems(4) c1 by (auto split: if_splits)
  have IH: "shards_inv d (fold (insert_pending d) ps ?e1) \<and> frame_of ?e1 (fold (insert_pending d) ps ?e1) \<and>
    cached d (fold (insert_pending d) ps ?e1) =
      (\<lambda>k. case map_of ps k of None \<Rightarrow> cached d ?e1 k | Some pe \<Rightarrow> Some (pend_entry k pe))"
    using Cons.IH [OF conjunct1 [OF ins] _ n1 n2] Cons.prems(2) by simp
  have "map_of ps k = None"
    using k(2) by (simp add: map_of_eq_None_iff)
  then have "(\<lambda>k'. case map_of ps k' of None \<Rightarrow> cached d ?e1 k' | Some pe \<Rightarrow> Some (pend_entry k' pe)) =
      (\<lambda>k'. case map_of (p # ps) k' of None \<Rightarrow> cached d e k' | Some pe \<Rightarrow> Some (pend_entry k' pe))"
    unfolding c1 by (auto simp: p fun_eq_iff split: option.split)
  moreover have "frame_of e (fold (insert_pending d) ps ?e1)"
    using fr IH same_frame_trans by (auto simp: frame_of_def)
  ultimately show ?case
    using IH by simp
qed

lemma highest_version:
  fixes ps :: pending
  shows "(\<forall>(k, pe)\<in>set ps. pe_version pe \<le> foldl (\<lambda>h (k, pe). max h (pe_version pe)) h ps) \<and>
    h \<le> foldl (\<lambda>h (k, pe). max h (pe_version pe)) h ps \<and>
    (\<forall>N. unat h \<le> N \<longrightarrow> (\<forall>(k, pe)\<in>set ps. unat (pe_version pe) \<le> N) \<longrightarrow>
       unat (foldl (\<lambda>h (k, pe). max h (pe_version pe)) h ps) \<le> N)"
proof (induction ps arbitrary: h)
  case Nil
  then show ?case by simp
next
  case (Cons p ps)
  obtain k pe where p: "p = (k, pe)" by (cases p)
  show ?case
    using Cons.IH [of "max h (pe_version pe)"] by (auto simp: p max_def split: if_splits)
qed

lemma ReplayFromJournal_recovers:
  assumes b: "bgood b" and j: "jgood R j" and R: "\<forall>r\<in>set R. rec_ok N r" and ord: "\<And>p. mset (map_order d p) = mset p"
  shows "\<exists>e. ReplayFromJournal d (new_engine opts b j) = Some (Inr (), e) \<and> core e \<and> settled (cached d e) \<and>
    lifecycle e = NotReady \<and> options e = opts \<and> inFlightWriteCount e = 0 \<and> \<not> compactionPaused e \<and>
    durable (invalidated R) N R e \<and>
    (\<forall>k. view e k = (case pending_map R k of Some pe \<Rightarrow> Some (pe_value pe)
       | None \<Rightarrow> if k \<in> invalidated R then None else abs b k)) \<and>
    cached d e = (\<lambda>k. map_option (pend_entry k) (pending_map R k))"
proof -
  let ?new = "new_engine opts b j"
  obtain pend b1 where ra: "replay_all (replay_record (store_ops d)) ([], b) (jrecords j) = (Inr (), pend, b1)" "bgood b1"
    "distinct (map fst pend)" "map_of pend = pending_map R" "\<forall>k. abs b1 k = (if k \<in> invalidated R then None else abs b k)"
    using replay_all_step [OF R _ b, of "jrecords j" "[]"] j by (auto simp: jgood_def pending_map_def)
  obtain j1 where rp: "Jrn_Replay (journal_ops d) (replay_record (store_ops d)) ([], b) j = Some (Inr (), (pend, b1), j1)"
    and j1: "jgood R j1"
    using jr.replay_healthy [of j "replay_record (store_ops d)" "([], b)"] j ra(1)
      replay_durable [of "replay_record (store_ops d)" "([], b)" j] by (auto simp: jgood_def)
  let ?ps = "map_order d pend"
  have set_ps: "set ?ps = set pend" "distinct (map fst ?ps)"
    using mset_eq_setD [OF ord [of pend]] distinct_fst_mset [OF ord [of pend]] ra(3) by simp_all
  have map_ps: "map_of ?ps = pending_map R"
    using map_of_set_eq [OF set_ps(2) ra(3) set_ps(1)] ra(4) by simp
  have pend_ok: "key_ok k \<and> key_ok (pe_value pe) \<and> unat (pe_version pe) \<le> N" if "pending_map R k = Some pe" for k pe
    by (rule pending_map_ok [OF R that])
  let ?e1 = "?new\<lparr>backingStore := b1, journal := j1\<rparr>"
  have "inv b" using b by (simp add: bgood_def)
  then have c0: "shards_inv d ?e1" "cached d ?e1 = Map.empty"
    using new_engine_core [of b opts j] by (simp_all add: core_def)
  let ?e2 = "fold (insert_pending d) ?ps ?e1"
  have ins: "shards_inv d ?e2" "frame_of ?e1 ?e2"
    "cached d ?e2 = (\<lambda>k. case pending_map R k of None \<Rightarrow> None | Some pe \<Rightarrow> Some (pend_entry k pe))"
    using insert_pending_fold [OF c0(1) set_ps(2)] unfolding c0(2) map_ps by simp_all
  let ?h = "foldl (\<lambda>h (k, pe). max h (pe_version pe)) 0 ?ps"
  have g2: "globalVersionCounter ?e2 = 0" "backingStore ?e2 = b1" "journal ?e2 = j1" "lifecycle ?e2 = NotReady"
    "options ?e2 = opts" "inFlightWriteCount ?e2 = 0" "\<not> compactionPaused ?e2"
    using ins(2) by (simp_all add: frame_of_def same_frame_def) (simp_all add: new_engine_def Let_def)
  let ?e = "?e2\<lparr>globalVersionCounter := max (globalVersionCounter ?e2) ?h\<rparr>"
  have res: "ReplayFromJournal d ?new = Some (Inr (), ?e)"
  proof -
    have "lifecycle ?new = NotReady" "backingStore ?new = b" "journal ?new = j"
      by (simp_all add: new_engine_def Let_def)
    then show ?thesis
      using rp by (simp add: ReplayFromJournal_def Let_def)
  qed
  have le: "pe_version pe \<le> ?h" if "pending_map R k = Some pe" for k pe
    using highest_version [of ?ps 0] map_of_SomeD [of ?ps k pe] that map_ps by auto
  have "unat (pe_version pe) \<le> N" if "(k, pe) \<in> set ?ps" for k pe
    using pend_ok [of k pe] map_of_is_SomeI [OF set_ps(2) that] map_ps by simp
  then have "\<forall>(k, pe)\<in>set ?ps. unat (pe_version pe) \<le> N"
    by auto
  then have hN: "unat ?h \<le> N"
    using highest_version [of ?ps 0] by simp
  have ce: "cached d ?e = (\<lambda>k. case pending_map R k of None \<Rightarrow> None | Some pe \<Rightarrow> Some (pend_entry k pe))"
    using ins(3) by simp
  have core: "core ?e"
    unfolding core_def coherent_def ce
    using ins(1) ra(2) g2 pend_ok le by (auto simp: bgood_def key_ok_storable split: option.splits)
  have se: "settled (cached d ?e)"
    unfolding ce by (auto simp: settled_def split: option.splits)
  have "tracks (invalidated R) R (cached d ?e)"
    unfolding ce by (auto simp: tracks_def split: option.splits)
  moreover have "key_ok k" if "cached d ?e k = Some en" for k en
    using that pend_ok unfolding ce by (auto split: option.splits)
  ultimately have "durable (invalidated R) N R ?e"
    unfolding durable_def using g2 j1 ra(2) hN R by auto
  moreover have "view ?e k = (case pending_map R k of Some pe \<Rightarrow> Some (pe_value pe)
      | None \<Rightarrow> if k \<in> invalidated R then None else abs b k)" for k
    unfolding view_def ce using ra(5) g2(2) by (auto split: option.split)
  moreover have "cached d ?e = (\<lambda>k. map_option (pend_entry k) (pending_map R k))"
    unfolding ce by (simp add: fun_eq_iff split: option.split)
  ultimately show ?thesis
    using res g2 core se by auto
qed

text \<open>What the old engine showed, from its journal and its store.\<close>

lemma durable_view:
  assumes "core e" and "durable I N R e" and "k \<notin> I"
  shows "view e k = (case pending_map R k of Some pe \<Rightarrow> Some (pe_value pe) | None \<Rightarrow> abs (backingStore e) k)"
    and "k \<notin> invalidated R"
proof -
  have a: "k \<notin> invalidated R" "agrees (pending_map R k) (cached d e k)"
    using durableD(6) [OF assms(2)] assms(3) by (auto simp: tracks_def)
  then show "k \<notin> invalidated R" by simp
  show "view e k = (case pending_map R k of Some pe \<Rightarrow> Some (pe_value pe) | None \<Rightarrow> abs (backingStore e) k)"
    using a(2) coherentD [OF coreD(3) [OF assms(1)], of k]
    by (cases "cached d e k") (auto simp: view_def split: if_splits)
qed

lemma MarkRecoveryComplete_running:
  assumes "core e" "settled (cached d e)" "lifecycle e = NotReady" "enabled (options e)" "inFlightWriteCount e = 0"
    "\<not> compactionPaused e" and dur: "durable I N R e" and n: "N + n < 2 ^ 64"
  shows "\<exists>e'. MarkRecoveryComplete e = (Inr (), e') \<and> running n e' \<and> durable I N R e' \<and> view e' = view e \<and>
    options e' = options e"
proof -
  let ?e = "snd (MarkRecoveryComplete e)"
  have m: "MarkRecoveryComplete e = (Inr (), ?e)"
    using assms(3) by (simp add: MarkRecoveryComplete_def)
  have f: "shards ?e = shards e" "journal ?e = journal e" "backingStore ?e = backingStore e"
    "globalVersionCounter ?e = globalVersionCounter e" "options ?e = options e" "lifecycle ?e = Ready"
    "inFlightWriteCount ?e = 0" "\<not> compactionPaused ?e"
    using assms(3,5,6) by (auto simp: MarkRecoveryComplete_def StartBackgroundFlushThreadIfConfigured_def)
  have "running n ?e"
    using f assms(1,2,4) core_cong [OF f(1,3,4)] cached_cong [OF f(1)] durableD(3) [OF dur] n by (simp add: running_def)
  then show ?thesis
    using m core_cong [OF f(1,3,4)] durable_cong [OF f(1-4)] dur f(5) by auto
qed


section \<open>Shutdown and a start without replay\<close>

lemma all_clean_remaining:
  assumes e: "core e" and c: "\<forall>k. clean_at e k"
  shows "remaining_dirty e = 0"
proof -
  have "dirtyCount s = 0" if s: "s \<in> set (shards e)" for s
  proof -
    obtain i where i: "i < length (shards e)" "s = shards e ! i"
      using s by (auto simp: in_set_conv_nth)
    have si: "shard_inv s"
      using coreD(1) [OF e] i by (simp add: shards_inv_def)
    have "\<not> dirty en" if en: "en \<in> set (entries s)" for en
    proof -
      obtain n where "(n, en) \<in> set (lru s)"
        using en by (auto simp: mem_entries)
      then have m: "shard_map s (entry_key en) = Some en"
        using found_entry(3) [OF si] find_entry_iff [OF si] by blast
      then have "ShardFor d e (entry_key en) = i"
        using coreD(1) [OF e] i by (auto simp: shards_inv_def)
      then have "cached d e (entry_key en) = Some en"
        using m i(2) by (simp add: cached_def)
      then show ?thesis
        using c by (auto simp: clean_at_def dirty_def)
    qed
    then show ?thesis
      using si by (simp add: shard_inv_def filter_empty_conv)
  qed
  then show ?thesis
    by (simp add: remaining_dirty_def)
qed

lemma Shutdown_durable:
  assumes e: "running n e" and dur: "durable I N R e"
  shows "\<exists>e'. Shutdown d e = Some (Inr (), e') \<and> durable {} N [] e' \<and> abs (backingStore e') = view e"
proof -
  let ?e1 = "StopBackgroundFlushThread (e\<lparr>lifecycle := Stopping\<rparr>)"
  have s: "shards ?e1 = shards e" "journal ?e1 = journal e" "backingStore ?e1 = backingStore e"
    "globalVersionCounter ?e1 = globalVersionCounter e" "inFlightWriteCount ?e1 = 0" "\<not> compactionPaused ?e1"
    "lifecycle ?e1 = Stopping"
    using runningD [OF e] by (simp_all add: StopBackgroundFlushThread_def)
  have c: "core ?e1" "settled (cached d ?e1)" "view ?e1 = view e" "durable I N R ?e1"
    using runningD [OF e] core_cong [OF s(1,3,4)] cached_cong [OF s(1)] durable_cong [OF s(1-4)] dur by simp_all
  have ready: "CheckReadyForRead ?e1 = Inr ()"
    using s(7) by (simp add: CheckReadyForRead_def)
  obtain e2 R2 where f: "FlushAll d ?e1 = Some (Inr (), e2)" and R2: "durable I N R2 e2"
    using FlushAll_durable_core [OF c(1,2) s(5,6) ready c(4)] by blast
  have fl: "flushed ?e1 e2" "\<forall>k. clean_at e2 k" "abs (backingStore e2) = view e"
    using FlushAll_core [OF c(1,2) s(5,6) ready] f c(3) by auto
  then have rd: "remaining_dirty (e2\<lparr>lifecycle := Stopped\<rparr>) = 0"
    using all_clean_remaining [of e2] by (simp add: flushed_def remaining_dirty_def)
  obtain j where j: "Jrn_Truncate (journal_ops d) (journal e2) = (Inr (), j)" "jgood [] j"
    using Truncate_jgood [OF durableD(1) [OF R2]] by blast
  let ?e' = "e2\<lparr>lifecycle := Stopped, journal := j\<rparr>"
  have c2: "cached d ?e' = cached d e2"
    by (rule cached_cong) simp
  have "Shutdown d e = Some (Inr (), ?e')"
    using runningD [OF e] f rd j(1) by (simp add: Shutdown_def DrainInFlightWrites_def)
  moreover have "tracks {} [] (cached d e2)"
    using fl(2) by (auto simp: tracks_def clean_at_def pending_map_def invalidated_def agrees_def split: option.split)
  then have "durable {} N [] ?e'"
    using durableD [OF R2] j(2) unfolding durable_def c2 by simp
  ultimately show ?thesis
    using fl(3) by (intro exI [of _ ?e']) simp
qed

text \<open>After a clean shutdown the journal is empty and the engine starts without replaying it.\<close>

lemma fresh_durable:
  assumes "bgood b" and "jgood [] j" and "enabled opts" and "n < 2 ^ 64"
  shows "\<exists>e. MarkRecoveryComplete (new_engine opts b j) = (Inr (), e) \<and> running n e \<and> durable {} 0 [] e \<and>
    view e = abs b \<and> options e = opts"
proof -
  let ?new = "new_engine opts b j"
  have c: "core ?new" "view ?new = abs b" "cached d ?new = Map.empty"
    using new_engine_core [of b opts j] assms(1) by (simp_all add: bgood_def)
  have "tracks {} [] (cached d ?new)"
    unfolding c(3) by (simp add: tracks_def pending_map_def invalidated_def)
  moreover have n: "journal ?new = j" "backingStore ?new = b" "globalVersionCounter ?new = 0" "lifecycle ?new = NotReady"
    "options ?new = opts" "inFlightWriteCount ?new = 0" "\<not> compactionPaused ?new"
    by (simp_all add: new_engine_def Let_def)
  ultimately have "durable {} 0 [] ?new"
    using assms(1,2) unfolding durable_def c(3) by simp
  then show ?thesis
    using MarkRecoveryComplete_running [OF c(1) _ n(4) _ n(6,7), of "{}" 0 "[]" n] assms(3,4) c n(5)
    by (simp add: settled_def)
qed

end

end
