(* ===== verification/EngineSessions.thy ===== *)
theory EngineSessions
  imports EngineDurability
begin

text \<open>
  Sessions of the engine with power cuts between them.  The locale \<open>engine_restart\<close> has what a
  restart needs of the files: how the store and the journal are opened on bytes, and what a power cut
  leaves of them.  The sessions are verified in it once, and the locale is interpreted on portable files
  here and on Windows files in \<open>Win32Engine\<close>.
\<close>

section \<open>Starts and sessions\<close>

text \<open>
  A start on the bytes of the two files: open the store, create the journal and the engine, replay,
  mark recovery complete; \<open>None\<close> if any step fails.
\<close>

definition open_store_on :: "'f IFile \<Rightarrow> 'f \<Rightarrow> 'f FileBackingStore option" where
  "open_store_on F f = (case OpenFileBackingStore F (Inr f) of Some (Inr b) \<Rightarrow> Some b | _ \<Rightarrow> None)"

definition open_journal_on :: "'f \<Rightarrow> 'f WriteAheadJournal option" where
  "open_journal_on f = (case CreateWriteAheadJournal (Some f) of Inr j \<Rightarrow> Some j | Inl _ \<Rightarrow> None)"

definition start_engine_on ::
  "('j, 'b) Deps \<Rightarrow> (bytes \<Rightarrow> 'b option) \<Rightarrow> (bytes \<Rightarrow> 'j option) \<Rightarrow> CacheEngineOptions \<Rightarrow> bytes \<times> bytes
     \<Rightarrow> ('j, 'b) CacheEngine option" where
  "start_engine_on d open_store open_journal opts files =
     (case files of (sb, jb) \<Rightarrow>
      case open_store sb of
        None \<Rightarrow> None
      | Some b \<Rightarrow>
          (case open_journal jb of
             None \<Rightarrow> None
           | Some j \<Rightarrow>
               (case CreateCacheEngine opts (Some b) (Some j) of
                  Inl _ \<Rightarrow> None
                | Inr e \<Rightarrow>
                    (case ReplayFromJournal d e of
                       Some (Inr _, e) \<Rightarrow>
                         (case MarkRecoveryComplete e of (Inr _, e) \<Rightarrow> Some e | _ \<Rightarrow> None)
                     | _ \<Rightarrow> None))))"

text \<open>One entry per session: what the engine shows at its start, the replies, and what it shows at the crash.\<close>

fun run_sessions_on ::
  "('j, 'b) Deps \<Rightarrow> ('b \<Rightarrow> key \<rightharpoonup> value) \<Rightarrow> (bytes \<times> bytes \<Rightarrow> ('j, 'b) CacheEngine option)
     \<Rightarrow> (('j, 'b) CacheEngine \<Rightarrow> bytes \<times> bytes) \<Rightarrow> engine_op list list \<Rightarrow> bytes \<times> bytes
     \<Rightarrow> ((key \<rightharpoonup> value) \<times> engine_reply list \<times> (key \<rightharpoonup> value)) list option" where
  "run_sessions_on d store_view start left [] files = Some []"
| "run_sessions_on d store_view start left (xs # xss) files =
     (case start files of
        None \<Rightarrow> None
      | Some e \<Rightarrow>
          (case run_engine d xs e of
             None \<Rightarrow> None
           | Some (rs, e') \<Rightarrow>
               map_option ((#) (engine_view d store_view e, rs, engine_view d store_view e'))
                 (run_sessions_on d store_view start left xss (left e'))))"

definition valid_options :: "CacheEngineOptions \<Rightarrow> bool" where
  "valid_options opts \<longleftrightarrow> enabled opts \<and> shardCount opts \<noteq> 0 \<and> shardCount opts AND (shardCount opts - 1) = 0 \<and>
     capacityBytes opts \<noteq> 0 \<and> maxEntryCount opts \<noteq> 0"

lemma valid_options_Create: "valid_options opts \<Longrightarrow> CreateCacheEngine opts (Some b) (Some j) = Inr (new_engine opts b j)"
  by (simp add: valid_options_def CreateCacheEngine_def)

text \<open>The journal file holds the records \<open>R\<close>, with versions up to \<open>N\<close>.\<close>

definition holds_records :: "nat \<Rightarrow> CacheJournalRecord list \<Rightarrow> bytes \<Rightarrow> bool" where
  "holds_records N R jb \<longleftrightarrow> (\<forall>r\<in>set R. rec_ok N r) \<and>
     (\<exists>raws. jb = concat (map record_frame raws) \<and> map payload raws = map Encode R)"

definition stored_view :: "CacheJournalRecord list \<Rightarrow> bytes \<Rightarrow> key \<rightharpoonup> value" where
  "stored_view R sb k =
     (case pending_map R k of Some pe \<Rightarrow> Some (pe_value pe)
      | None \<Rightarrow> if k \<in> invalidated R then None else store_map (store_scan sb) k)"

text \<open>What a client of the key \<open>k\<close> sees: each session starts with the value the last one ended with.\<close>

fun continues :: "key \<Rightarrow> value option \<Rightarrow> ((key \<rightharpoonup> value) \<times> engine_reply list \<times> (key \<rightharpoonup> value)) list \<Rightarrow> bool" where
  "continues k v [] \<longleftrightarrow> True"
| "continues k v ((m, rs, m') # ts) \<longleftrightarrow> m k = v \<and> continues k (m' k) ts"

text \<open>Files that are opened on bytes, and what a power cut leaves of them.\<close>

context file_contract
begin

lemma opened_journal_good:
  assumes "holds_records N R jb" and f: "content f = jb" "durable f = jb" "healthy f"
  shows "\<exists>w. open_journal_on f = Some w \<and> map payload (wal_records w) = map Encode R \<and> wal_intact w \<and>
    wal_healthy w \<and> wal_durable w"
proof -
  let ?w = "\<lparr>waj_file = f, nextSequenceNumber = 0, recordCount = 0\<rparr>"
  obtain raws where raws: "jb = concat (map record_frame raws)" "map payload raws = map Encode R"
    and R: "\<forall>r\<in>set R. rec_ok N r"
    using assms(1) by (auto simp: holds_records_def)
  have "payload_ok (payload r)" if "r \<in> set raws" for r
  proof -
    have "payload r \<in> set (map Encode R)"
      using that raws(2) by (metis image_eqI list.set_map)
    then show ?thesis
      using R rec_ok_payload by auto
  qed
  moreover have "wal_records ?w = raws"
    using wal_records_frames [of ?w raws "[]"] raws(1) f(1) calculation by simp
  ultimately show ?thesis
    using raws f by (auto simp: open_journal_on_def CreateWriteAheadJournal_def wal_intact_def wal_healthy_def wal_durable_def)
qed

lemma journal_left:
  assumes "map payload (wal_records w) = map Encode R" and "wal_intact w" and "wal_durable w" and "\<forall>r\<in>set R. rec_ok N r"
  shows "holds_records N R (durable (waj_file w))"
proof -
  obtain raws where raws: "content (waj_file w) = concat (map record_frame raws)" "\<forall>r\<in>set raws. payload_ok (payload r)"
    using assms(2) by (auto simp: wal_intact_def)
  then have "wal_records w = raws"
    using wal_records_frames [of w raws "[]"] by simp
  then show ?thesis
    using raws(1) assms by (auto simp: holds_records_def wal_durable_def)
qed

lemma store_left: "fbs_clean b \<Longrightarrow> fbs_abs b = store_map (store_scan (durable (fbs_file b)))"
  by (simp add: fbs_clean_def fbs_abs_def fbs_records_def)

end

section \<open>The sessions over any files\<close>

locale engine_restart = engine_durable d abs disk inv clean bhealthy jrecords intact jhealthy jdurable
  for d :: "('j, 'b) Deps" and abs disk inv clean bhealthy jrecords intact jhealthy jdurable +
  fixes open_store :: "bytes \<Rightarrow> 'b option" and open_journal :: "bytes \<Rightarrow> 'j option"
    and left :: "('j, 'b) CacheEngine \<Rightarrow> bytes \<times> bytes"
  assumes opens_store: "\<exists>b. open_store sb = Some b \<and> bgood b \<and> abs b = store_map (store_scan sb)"
    and opens_journal: "holds_records N R jb \<Longrightarrow> \<exists>j. open_journal jb = Some j \<and> jgood R j"
    and leaves_journal: "jgood R (journal e) \<Longrightarrow> \<forall>r\<in>set R. rec_ok N r \<Longrightarrow> holds_records N R (snd (left e))"
    and leaves_store: "bgood (backingStore e) \<Longrightarrow> abs (backingStore e) = store_map (store_scan (fst (left e)))"
begin

abbreviation start where
  "start \<equiv> start_engine_on d open_store open_journal"

lemma durable_left:
  assumes "durable I N R e"
  shows "holds_records N R (snd (left e))" "abs (backingStore e) = store_map (store_scan (fst (left e)))"
  using leaves_journal [of R e N] leaves_store durableD [OF assms] by auto

lemma restart_recovers:
  assumes opts: "valid_options opts" and ord: "\<And>p. mset (map_order d p) = mset p" and R: "holds_records N R jb"
    and n: "N + n < 2 ^ 64"
  shows "\<exists>b j e1 e. open_store sb = Some b \<and> open_journal jb = Some j \<and>
    ReplayFromJournal d (new_engine opts b j) = Some (Inr (), e1) \<and>
    MarkRecoveryComplete e1 = (Inr (), e) \<and> running n e \<and> durable (invalidated R) N R e \<and>
    engine_view d abs e = stored_view R sb \<and> options e = opts \<and>
    cached d e = (\<lambda>k. map_option (pend_entry k) (pending_map R k))"
proof -
  obtain b where b: "open_store sb = Some b" "bgood b" "abs b = store_map (store_scan sb)"
    using opens_store by blast
  obtain j where j: "open_journal jb = Some j" "jgood R j"
    using opens_journal [OF R] by blast
  have Rok: "\<forall>r\<in>set R. rec_ok N r"
    using R by (simp add: holds_records_def)
  obtain e1 where e1: "ReplayFromJournal d (new_engine opts b j) = Some (Inr (), e1)" "core e1"
    "settled (cached d e1)" "lifecycle e1 = NotReady" "options e1 = opts" "inFlightWriteCount e1 = 0" "\<not> compactionPaused e1"
    "durable (invalidated R) N R e1" "\<forall>k. engine_view d abs e1 k = stored_view R sb k"
    "cached d e1 = (\<lambda>k. map_option (pend_entry k) (pending_map R k))"
    using ReplayFromJournal_recovers [OF b(2) j(2) Rok ord, of opts]
    unfolding b(3) stored_view_def by blast
  have on: "enabled (options e1)"
    using opts e1(5) by (simp add: valid_options_def)
  obtain e where e: "MarkRecoveryComplete e1 = (Inr (), e)" "running n e"
    "durable (invalidated R) N R e" "engine_view d abs e = engine_view d abs e1" "options e = opts"
    using MarkRecoveryComplete_running [OF e1(2,3,4) on e1(6,7,8) n] e1(5) by auto
  moreover have "engine_view d abs e = stored_view R sb"
    using e(4) e1(9) by (simp add: fun_eq_iff)
  moreover have "shards e = shards e1"
    using e(1) e1(4) by (auto simp: MarkRecoveryComplete_def StartBackgroundFlushThreadIfConfigured_def split: if_splits)
  then have "cached d e = (\<lambda>k. map_option (pend_entry k) (pending_map R k))"
    using cached_cong [of e e1] e1(10) by simp
  ultimately show ?thesis
    using b(1) j(1) e1(1) by blast
qed

lemma session_runs:
  assumes e: "running (length xs + 0) e" and dur: "durable I N R e" and xs: "\<forall>x\<in>set xs. engine_op_ok x"
  shows "\<exists>rs e' R'. run_engine d xs e = Some (rs, e') \<and> running 0 e' \<and>
    map_run (writePolicy (options e) = WriteThrough) xs rs (engine_view d abs e) (engine_view d abs e') \<and>
    durable (I \<union> \<Union> (invalidates ` set xs)) (N + length xs) R' e' \<and>
    (\<forall>k. k \<notin> I \<union> \<Union> (invalidates ` set xs) \<longrightarrow> k \<notin> invalidated R' \<and>
       stored_view R' (fst (left e')) k = engine_view d abs e' k)"
proof -
  obtain rs e' where r: "run_engine d xs e = Some (rs, e')" "running 0 e'"
    "map_run (writePolicy (options e) = WriteThrough) xs rs (engine_view d abs e) (engine_view d abs e')"
    using run_engine_running [OF e] xs op_ok_storable by auto
  obtain R' where R': "durable (I \<union> \<Union> (invalidates ` set xs)) (N + length xs) R' e'"
    using run_engine_durable [OF e dur xs r(1)] by blast
  have "k \<notin> invalidated R' \<and> stored_view R' (fst (left e')) k = engine_view d abs e' k"
    if "k \<notin> I \<union> \<Union> (invalidates ` set xs)" for k
    using durable_view [OF runningD(1) [OF r(2)] R' that] durable_left(2) [OF R']
    by (simp add: stored_view_def split: option.split)
  then show ?thesis
    using r R' by blast
qed

lemma session_correct:
  assumes opts: "valid_options opts" and ord: "\<And>p. mset (map_order d p) = mset p" and R: "holds_records N R jb"
    and xs: "\<forall>x\<in>set xs. engine_op_ok x" and n: "N + length xs < 2 ^ 64"
  shows "\<exists>e rs e' R'. start opts (sb, jb) = Some e \<and> run_engine d xs e = Some (rs, e') \<and>
    engine_view d abs e = stored_view R sb \<and>
    map_run (writePolicy opts = WriteThrough) xs rs (engine_view d abs e) (engine_view d abs e') \<and>
    holds_records (N + length xs) R' (snd (left e')) \<and>
    (\<forall>k. k \<notin> invalidated R \<union> \<Union> (invalidates ` set xs) \<longrightarrow> k \<notin> invalidated R' \<and>
       stored_view R' (fst (left e')) k = engine_view d abs e' k)"
proof -
  have "N + (length xs + 0) < 2 ^ 64"
    using n by simp
  from restart_recovers [OF opts ord R this, of sb] obtain b j e1 e where
    s: "open_store sb = Some b" "open_journal jb = Some j" "ReplayFromJournal d (new_engine opts b j) = Some (Inr (), e1)"
      "MarkRecoveryComplete e1 = (Inr (), e)" "running (length xs + 0) e" "durable (invalidated R) N R e"
      "engine_view d abs e = stored_view R sb" "options e = opts"
    by blast
  have "start opts (sb, jb) = Some e"
    using s(1-4) valid_options_Create [OF opts, of b j] by (simp add: start_engine_on_def)
  then show ?thesis
    using session_runs [OF s(5,6) xs] s(7) durable_left(1) unfolding s(8) by blast
qed

lemma sessions_correct:
  assumes opts: "valid_options opts" and ord: "\<And>p. mset (map_order d p) = mset p"
    and "holds_records N R jb" and "\<forall>x\<in>set (concat xss). engine_op_ok x" and "N + length (concat xss) < 2 ^ 64"
  shows "\<exists>ts. run_sessions_on d abs (start opts) left xss (sb, jb) = Some ts \<and>
    list_all2 (\<lambda>xs (m, rs, m'). map_run (writePolicy opts = WriteThrough) xs rs m m') xss ts \<and>
    (\<forall>k. k \<notin> invalidated R \<union> \<Union> (invalidates ` set (concat xss)) \<longrightarrow> continues k (stored_view R sb k) ts)"
  using assms(3-)
proof (induction xss arbitrary: N R sb jb)
  case Nil
  then show ?case by simp
next
  case (Cons xs xss)
  let ?v = "engine_view d abs"
  have xs: "\<forall>x\<in>set xs. engine_op_ok x" "N + length xs < 2 ^ 64"
    using Cons.prems(2,3) by auto
  obtain e rs e' R' where s: "start opts (sb, jb) = Some e" "run_engine d xs e = Some (rs, e')" "?v e = stored_view R sb"
    "map_run (writePolicy opts = WriteThrough) xs rs (?v e) (?v e')"
    "holds_records (N + length xs) R' (snd (left e'))"
    "\<forall>k. k \<notin> invalidated R \<union> \<Union> (invalidates ` set xs) \<longrightarrow>
       k \<notin> invalidated R' \<and> stored_view R' (fst (left e')) k = ?v e' k"
    using session_correct [OF opts ord Cons.prems(1) xs, of sb] by blast
  obtain ts where ts: "run_sessions_on d abs (start opts) left xss (left e') = Some ts"
    "list_all2 (\<lambda>xs (m, rs, m'). map_run (writePolicy opts = WriteThrough) xs rs m m') xss ts"
    "\<forall>k. k \<notin> invalidated R' \<union> \<Union> (invalidates ` set (concat xss)) \<longrightarrow>
       continues k (stored_view R' (fst (left e')) k) ts"
    using Cons.IH [OF s(5), of "fst (left e')"] Cons.prems(2,3) by auto
  have "continues k (stored_view R sb k) ((?v e, rs, ?v e') # ts)"
    if "k \<notin> invalidated R \<union> \<Union> (invalidates ` set (concat (xs # xss)))" for k
    using that s(3) s(6) [rule_format, of k] ts(3) [rule_format, of k] by auto
  then show ?case
    using s(1,2,4) ts(1,2) by auto
qed

text \<open>Any number of sessions on a store file and an empty journal.\<close>

lemma sessions_keep:
  assumes "valid_options opts" and "\<And>p. mset (map_order d p) = mset p" and "\<forall>x\<in>set (concat xss). engine_op_ok x"
    and "length (concat xss) < 2 ^ 64"
  shows "\<exists>ts. run_sessions_on d abs (start opts) left xss (sb, []) = Some ts \<and>
    list_all2 (\<lambda>xs (m, rs, m'). map_run (writePolicy opts = WriteThrough) xs rs m m') xss ts \<and>
    (\<forall>k. k \<notin> \<Union> (invalidates ` set (concat xss)) \<longrightarrow> continues k (store_map (store_scan sb) k) ts)"
proof -
  have "holds_records 0 [] []"
    by (simp add: holds_records_def exI [of _ "[]"])
  from sessions_correct [OF assms(1,2) this assms(3), of sb] assms(4) show ?thesis
    by (simp add: stored_view_def)
qed

end

section \<open>Sessions on portable files\<close>

interpretation dur: engine_durable "portable_deps h ord" pf.fbs_abs pf.fbs_disk pf.fbs_inv pf.fbs_clean pf.fbs_healthy
  pf.wal_records pf.wal_intact pf.wal_healthy pf.wal_durable for h ord
proof (unfold_locales, goal_cases)
  case (1 p j s j')
  then show ?case
    using pf.Append_durable [of p j s j'] by (simp add: portable_deps_def WriteAheadJournal_ops_def)
next
  case (2 j u j')
  then show ?case
    using pf.Truncate_durable [of j u j'] by (simp add: portable_deps_def WriteAheadJournal_ops_def)
next
  case (3 cb a j q a' j')
  then show ?case
    using pf.Replay_durable [of cb a j q a' j'] by (simp add: portable_deps_def WriteAheadJournal_ops_def)
qed

text \<open>A crash keeps what is on stable storage.\<close>

definition portable_open_store :: "bytes \<Rightarrow> PortableFile FileBackingStore option" where
  "portable_open_store sb = open_store_on PortableFile_ops (open_portable sb [])"

definition portable_open_journal :: "bytes \<Rightarrow> PortableFile WriteAheadJournal option" where
  "portable_open_journal jb = open_journal_on (open_portable jb [])"

definition crash :: "(PortableFile WriteAheadJournal, PortableFile FileBackingStore) CacheEngine \<Rightarrow> bytes \<times> bytes" where
  "crash e = (pf_durable (fbs_file (backingStore e)), pf_durable (waj_file (journal e)))"

definition start_engine ::
  "(key \<Rightarrow> nat) \<Rightarrow> (pending \<Rightarrow> pending) \<Rightarrow> CacheEngineOptions \<Rightarrow> bytes \<times> bytes
     \<Rightarrow> (PortableFile WriteAheadJournal, PortableFile FileBackingStore) CacheEngine option" where
  "start_engine h ord = start_engine_on (portable_deps h ord) portable_open_store portable_open_journal"

definition run_sessions ::
  "(key \<Rightarrow> nat) \<Rightarrow> (pending \<Rightarrow> pending) \<Rightarrow> CacheEngineOptions \<Rightarrow> engine_op list list \<Rightarrow> bytes \<times> bytes
     \<Rightarrow> ((key \<rightharpoonup> value) \<times> engine_reply list \<times> (key \<rightharpoonup> value)) list option" where
  "run_sessions h ord opts = run_sessions_on (portable_deps h ord) pf.fbs_abs (start_engine h ord opts) crash"

lemma portable_opens: "portable_open_store sb = Some b \<longleftrightarrow> OpenFileBackingStore PortableFile_ops (Inr (open_portable sb [])) = Some (Inr b)"
  "portable_open_journal jb = Some \<lparr>waj_file = open_portable jb [], nextSequenceNumber = 0, recordCount = 0\<rparr>"
  by (auto simp: portable_open_store_def open_store_on_def portable_open_journal_def open_journal_on_def
      CreateWriteAheadJournal_def split: option.splits sum.splits)

interpretation restart: engine_restart "portable_deps h ord" pf.fbs_abs pf.fbs_disk pf.fbs_inv pf.fbs_clean pf.fbs_healthy
  pf.wal_records pf.wal_intact pf.wal_healthy pf.wal_durable portable_open_store portable_open_journal crash for h ord
proof (unfold_locales, goal_cases)
  case (1 sb)
  show ?case
    using open_bytes [of sb] by (auto simp: portable_opens dur.bgood_def)
next
  case (2 N R jb)
  then show ?case
    using pf.opened_journal_good [of N R jb "open_portable jb []"]
    by (simp add: portable_open_journal_def dur.jgood_def open_portable_def pf_healthy_def)
next
  case (3 R e N)
  then show ?case
    using pf.journal_left [of "journal e" R N] by (simp add: dur.jgood_def crash_def)
next
  case (4 e)
  then show ?case
    using pf.store_left [of "backingStore e"] by (simp add: dur.bgood_def crash_def)
qed

lemma portable_order: "(\<And>p. mset (ord p) = mset p) \<Longrightarrow> mset (map_order (portable_deps h ord) p) = mset p"
  by (simp add: portable_deps_def)

lemmas good_crash = restart.leaves_journal restart.leaves_store

lemmas durable_crash = restart.durable_left

lemma holds_records_jgood:
  "holds_records N R jb \<Longrightarrow> dur.jgood R \<lparr>waj_file = open_portable jb [], nextSequenceNumber = 0, recordCount = 0\<rparr>"
  using restart.opens_journal [of N R jb] by (simp add: portable_opens)

text \<open>A start after an unclean shutdown, and a session on a started engine.\<close>

lemma recovered_start:
  assumes "valid_options opts" and "\<And>p. mset (ord p) = mset p" and "holds_records N R jb" and "N + n < 2 ^ 64"
  shows "\<exists>b e1 e. OpenFileBackingStore PortableFile_ops (Inr (open_portable sb [])) = Some (Inr b) \<and>
    ReplayFromJournal (portable_deps h ord)
      (new_engine opts b \<lparr>waj_file = open_portable jb [], nextSequenceNumber = 0, recordCount = 0\<rparr>) = Some (Inr (), e1) \<and>
    MarkRecoveryComplete e1 = (Inr (), e) \<and> eng.running h ord n e \<and> dur.durable h ord (invalidated R) N R e \<and>
    engine_view (portable_deps h ord) pf.fbs_abs e = stored_view R sb \<and> options e = opts \<and>
    cached (portable_deps h ord) e = (\<lambda>k. map_option (dur.pend_entry k) (pending_map R k))"
  using restart.restart_recovers [OF assms(1) portable_order [OF assms(2)] assms(3,4), of sb h]
  by (simp add: portable_opens)

lemmas started_session = restart.session_runs

lemma session:
  assumes "valid_options opts" and "\<And>p. mset (ord p) = mset p" and "holds_records N R jb"
    and "\<forall>x\<in>set xs. engine_op_ok x" and "N + length xs < 2 ^ 64"
  shows "\<exists>e rs e' R'. start_engine h ord opts (sb, jb) = Some e \<and> run_engine (portable_deps h ord) xs e = Some (rs, e') \<and>
    engine_view (portable_deps h ord) pf.fbs_abs e = stored_view R sb \<and>
    map_run (writePolicy opts = WriteThrough) xs rs (engine_view (portable_deps h ord) pf.fbs_abs e)
      (engine_view (portable_deps h ord) pf.fbs_abs e') \<and>
    holds_records (N + length xs) R' (snd (crash e')) \<and>
    (\<forall>k. k \<notin> invalidated R \<union> \<Union> (invalidates ` set xs) \<longrightarrow> k \<notin> invalidated R' \<and>
       stored_view R' (fst (crash e')) k = engine_view (portable_deps h ord) pf.fbs_abs e' k)"
  unfolding start_engine_def
  by (rule restart.session_correct [OF assms(1) portable_order [OF assms(2)] assms(3-5)])

text \<open>
  C2. \<^bold>\<open>Acknowledged writes survive crashes.\<close>  Start on any store file and an empty journal, run any
  number of sessions, each ended by a power cut after some operation and followed by recovery from
  what is on stable storage.  On devices that do not fail, every start succeeds, every operation
  returns, in each session the engine behaves as a map, and for every key that is never
  invalidated each session starts with exactly the value the last one ended with, whether it had
  been flushed, was only in the journal, or was half way between.  The order in which
  \<^verbatim>\<open>unordered_map\<close> hands out the pending entries does not matter.
\<close>

theorem writes_survive_crashes:
  assumes "valid_options opts" and "\<And>p. mset (ord p) = mset p" and "\<forall>x\<in>set (concat xss). engine_op_ok x"
    and "length (concat xss) < 2 ^ 64"
  shows "\<exists>ts. run_sessions h ord opts xss (sb, []) = Some ts \<and>
    list_all2 (\<lambda>xs (m, rs, m'). map_run (writePolicy opts = WriteThrough) xs rs m m') xss ts \<and>
    (\<forall>k. k \<notin> \<Union> (invalidates ` set (concat xss)) \<longrightarrow> continues k (store_map (store_scan sb) k) ts)"
  unfolding run_sessions_def start_engine_def
  by (rule restart.sessions_keep [OF assms(1) portable_order [OF assms(2)] assms(3,4)])

definition sample_sessions :: "engine_op list list" where
  "sample_sessions = [[EPut (str ''k'') [1, 2]], [EGet (str ''k''), EFlushAll, EPut (str ''k'') [3]], [EGet (str ''k'')]]"

lemma sample_options_valid: "valid_options sample_options"
  by (simp add: valid_options_def sample_options_def)

lemma sample_sessions_ok:
  "\<forall>x\<in>set (concat sample_sessions). engine_op_ok x" "length (concat sample_sessions) < 2 ^ 64"
  "\<Union> (invalidates ` set (concat sample_sessions)) = {}" "(writePolicy sample_options = WriteThrough) = False"
  by (simp_all add: sample_sessions_def sample_options_def key_ok_def str_def)

theorem writes_survive_crashes_witness:
  "\<exists>ts. run_sessions length id sample_options sample_sessions ([], []) = Some ts \<and>
    list_all2 (\<lambda>xs (m, rs, m'). map_run False xs rs m m') sample_sessions ts \<and>
    continues (str ''k'') None ts"
proof -
  have empty: "store_map (store_scan []) (str ''k'') = None"
    by simp
  have "mset (id p) = mset p" for p :: pending
    by simp
  from writes_survive_crashes [OF sample_options_valid this sample_sessions_ok(1,2), of length "[]"] show ?thesis
    unfolding sample_sessions_ok(3,4) using empty by (metis empty_iff)
qed

text \<open>
  C14. \<^bold>\<open>What recovery rebuilds.\<close>  Starting on any store file and any journal file of readable
  records, on devices that do not fail, shows for each key the value of its last pending write, if
  there is one; else nothing, if any record of the journal invalidates the key; else what the store
  file holds.  (\<open>pending_map\<close> is the reference definition of the pending writes: an upsert sets
  one, the completion of the flush of that version and an invalidation remove it.)
\<close>

theorem start_engine_view:
  assumes "valid_options opts" and "\<And>p. mset (ord p) = mset p" and "holds_records N R jb" and "N < 2 ^ 64"
  shows "\<exists>e. start_engine h ord opts (sb, jb) = Some e \<and>
    engine_view (portable_deps h ord) pf.fbs_abs e = stored_view R sb"
  using session [OF assms(1-3), of "[]" h sb] assms(4) by auto

definition sample_records :: "CacheJournalRecord list" where
  "sample_records =
     [journal_record Invalidate (str ''k'') [] 0, journal_record Upsert (str ''k'') [1, 2] 1,
      journal_record FlushIntent (str ''k'') [] 1, journal_record FlushComplete (str ''k'') [] 1]"

definition sample_journal_bytes :: bytes where
  "sample_journal_bytes = concat (map (\<lambda>r. record_frame \<lparr>sequenceNumber = 0, payload = Encode r\<rparr>) sample_records)"

definition sample_store_bytes :: bytes where
  "sample_store_bytes = store_frame \<lparr>sr_sequence = 1, sr_tombstone = 0, sr_key = str ''k'', sr_value = [1, 2]\<rparr>"

lemma sample_journal_holds: "holds_records 1 sample_records sample_journal_bytes"
  unfolding holds_records_def sample_journal_bytes_def
  by (auto simp: sample_records_def key_ok_def str_def
      intro!: exI [of _ "map (\<lambda>r. \<lparr>sequenceNumber = 0, payload = Encode r\<rparr>) sample_records"])

lemma sample_records_facts:
  "str ''k'' \<in> invalidated sample_records" "pending_map sample_records = Map.empty"
  by (simp_all add: sample_records_def) (simp add: pending_map_def pend_apply_def)

theorem start_engine_view_witness:
  "\<exists>e. start_engine length id sample_options (sample_store_bytes, sample_journal_bytes) = Some e \<and>
    engine_view sample_deps pf.fbs_abs e = stored_view sample_records sample_store_bytes"
  by (rule start_engine_view [OF sample_options_valid _ sample_journal_holds]) simp_all



end
