(* ===== verification/SessionMarker.thy ===== *)
theory SessionMarker
  imports Reader Crc32
begin

text \<open>
  The on-disk marker that tells the next process whether the last one shut down in an orderly way:
  \<^verbatim>\<open>ISessionMarker.h\<close> and \<^verbatim>\<open>SessionMarker.cpp\<close>.  The values \<^verbatim>\<open>NowTicks\<close> will return
  are a list in the state (exhausted: 0); they are diagnostics only.
\<close>

section \<open>ISessionMarker\<close>

record SessionMarkerData =
  generation :: u64
  startTimestamp :: u64
  closedCleanly :: bool

record 'm ISessionMarker =
  Sm_ReadLastState :: "'m \<Rightarrow> SessionMarkerData result \<times> 'm"
  Sm_OnSessionStart :: "'m \<Rightarrow> unit result \<times> 'm"
  Sm_OnCleanShutdown :: "'m \<Rightarrow> unit result \<times> 'm"
  Sm_CurrentGeneration :: "'m \<Rightarrow> u64"

text \<open>
  \<open>closed\<close> is what the marker says now, \<open>closed_durable\<close> what a process started after a power
  cut would find.
\<close>

locale session_marker =
  fixes M :: "'m ISessionMarker"
    and closed :: "'m \<Rightarrow> bool"
    and closed_durable :: "'m \<Rightarrow> bool"
    and mhealthy :: "'m \<Rightarrow> bool"
  assumes read_state: "Sm_ReadLastState M m = (Inr d, m') \<Longrightarrow> closedCleanly d = closed m"
    and read_keeps: "Sm_ReadLastState M m = (sr, m') \<Longrightarrow>
       closed m' = closed m \<and> closed_durable m' = closed_durable m \<and> (mhealthy m \<longrightarrow> mhealthy m')"
    and start_ok: "Sm_OnSessionStart M m = (Inr u, m') \<Longrightarrow> \<not> closed m' \<and> \<not> closed_durable m'"
    and start_healthy: "mhealthy m \<Longrightarrow> Sm_OnSessionStart M m = (ur, m') \<Longrightarrow> IsOk ur \<and> mhealthy m'"
    and stop_ok: "Sm_OnCleanShutdown M m = (Inr u, m') \<Longrightarrow> closed m' \<and> closed_durable m'"
    and stop_healthy: "mhealthy m \<Longrightarrow> Sm_OnCleanShutdown M m = (ur, m') \<Longrightarrow> IsOk ur \<and> mhealthy m'"

section \<open>SessionMarker\<close>

definition kMagic :: u32 where
  "kMagic = 0x51434D31"

definition kVersion :: u32 where
  "kVersion = 1"

definition kRecordSize :: nat where
  "kRecordSize = 29"

record RawRecord =
  raw_magic :: u32
  raw_version :: u32
  raw_generation :: u64
  raw_startTimestamp :: u64
  raw_closedCleanly :: byte
  raw_crc32 :: u32

text \<open>The packed structure: the 25 bytes the checksum covers, and all 29.\<close>

definition raw_prefix :: "RawRecord \<Rightarrow> bytes" where
  "raw_prefix raw =
     le_bytes 4 (raw_magic raw) @ le_bytes 4 (raw_version raw) @ le_bytes 8 (raw_generation raw)
     @ le_bytes 8 (raw_startTimestamp raw) @ le_bytes 1 (raw_closedCleanly raw)"

definition raw_bytes :: "RawRecord \<Rightarrow> bytes" where
  "raw_bytes raw = raw_prefix raw @ le_bytes 4 (raw_crc32 raw)"

definition raw_of_bytes :: "bytes \<Rightarrow> RawRecord" where
  "raw_of_bytes bs =
     \<lparr>raw_magic = le_word (take 4 bs), raw_version = le_word (take 4 (drop 4 bs)),
      raw_generation = le_word (take 8 (drop 8 bs)), raw_startTimestamp = le_word (take 8 (drop 16 bs)),
      raw_closedCleanly = le_word (take 1 (drop 24 bs)), raw_crc32 = le_word (take 4 (drop 25 bs))\<rparr>"

record 'f SessionMarker =
  sm_file :: 'f
  lastKnownGeneration :: u64
  sm_clock :: "u64 list"

definition NowTicks :: "'f SessionMarker \<Rightarrow> u64 \<times> 'f SessionMarker" where
  "NowTicks m =
     (case sm_clock m of [] \<Rightarrow> (0, m) | t # ts \<Rightarrow> (t, m\<lparr>sm_clock := ts\<rparr>))"

definition ReadLastState ::
  "'f IFile \<Rightarrow> 'f SessionMarker \<Rightarrow> SessionMarkerData result \<times> 'f SessionMarker" where
  "ReadLastState F m =
     (case IFile_Size F (sm_file m) of
        (Inl e, f) \<Rightarrow> (Failure e, m\<lparr>sm_file := f\<rparr>)
      | (Inr sz, f) \<Rightarrow>
     if sz = 0 then
       (Success \<lparr>generation = 0, startTimestamp = 0, closedCleanly = True\<rparr>, m\<lparr>sm_file := f\<rparr>)
     else if sz < kRecordSize then
       (Success \<lparr>generation = 0, startTimestamp = 0, closedCleanly = False\<rparr>, m\<lparr>sm_file := f\<rparr>)
     else
     (case IFile_Seek F 0 False f of
        (Inl e, f) \<Rightarrow> (Failure e, m\<lparr>sm_file := f\<rparr>)
      | (Inr _, f) \<Rightarrow>
     (case ReadExact F kRecordSize f of
        (None, f) \<Rightarrow> (Failure (mkError CorruptData ''session marker truncated''), m\<lparr>sm_file := f\<rparr>)
      | (Some got, f) \<Rightarrow>
     let raw = raw_of_bytes got in
     if raw_magic raw \<noteq> kMagic \<or> raw_version raw \<noteq> kVersion then
       (Failure (mkError CorruptData ''session marker bad magic/version''), m\<lparr>sm_file := f\<rparr>)
     else if Compute (raw_prefix raw) \<noteq> raw_crc32 raw then
       (Success \<lparr>generation = 0, startTimestamp = 0, closedCleanly = False\<rparr>, m\<lparr>sm_file := f\<rparr>)
     else
       (Success \<lparr>generation = raw_generation raw, startTimestamp = raw_startTimestamp raw,
                 closedCleanly = raw_closedCleanly raw \<noteq> 0\<rparr>,
        m\<lparr>sm_file := f, lastKnownGeneration := raw_generation raw\<rparr>))))"

definition WriteRecord :: "'f IFile \<Rightarrow> RawRecord \<Rightarrow> 'f SessionMarker \<Rightarrow> unit result \<times> 'f SessionMarker" where
  "WriteRecord F raw m =
     (case IFile_Seek F 0 False (sm_file m) of
        (Inl e, f) \<Rightarrow> (Failure e, m\<lparr>sm_file := f\<rparr>)
      | (Inr _, f) \<Rightarrow>
          (case IFile_Write F (raw_bytes raw) f of
             (Inl _, f) \<Rightarrow>
               (Failure (mkError IoError ''failed to write full session marker record''), m\<lparr>sm_file := f\<rparr>)
           | (Inr n, f) \<Rightarrow>
               if n \<noteq> kRecordSize
               then (Failure (mkError IoError ''failed to write full session marker record''), m\<lparr>sm_file := f\<rparr>)
               else (case IFile_FlushDurable F f of (r, f) \<Rightarrow> (r, m\<lparr>sm_file := f\<rparr>))))"

text \<open>The record both writers fill in: everything but the flag, then the checksum.\<close>

definition make_record :: "u64 \<Rightarrow> u64 \<Rightarrow> byte \<Rightarrow> RawRecord" where
  "make_record gen ticks flag =
     (let raw = \<lparr>raw_magic = kMagic, raw_version = kVersion, raw_generation = gen,
                 raw_startTimestamp = ticks, raw_closedCleanly = flag, raw_crc32 = 0\<rparr>
      in raw\<lparr>raw_crc32 := Compute (raw_prefix raw)\<rparr>)"

definition OnSessionStart :: "'f IFile \<Rightarrow> 'f SessionMarker \<Rightarrow> unit result \<times> 'f SessionMarker" where
  "OnSessionStart F m =
     (let m = m\<lparr>lastKnownGeneration := lastKnownGeneration m + 1\<rparr>;
          (ticks, m) = NowTicks m
      in WriteRecord F (make_record (lastKnownGeneration m) ticks 0) m)"

definition OnCleanShutdown :: "'f IFile \<Rightarrow> 'f SessionMarker \<Rightarrow> unit result \<times> 'f SessionMarker" where
  "OnCleanShutdown F m =
     (let (ticks, m) = NowTicks m
      in WriteRecord F (make_record (lastKnownGeneration m) ticks 1) m)"

definition CurrentGeneration :: "'f SessionMarker \<Rightarrow> u64" where
  "CurrentGeneration m = lastKnownGeneration m"

definition SessionMarker_ops :: "'f IFile \<Rightarrow> 'f SessionMarker ISessionMarker" where
  "SessionMarker_ops F =
     \<lparr>Sm_ReadLastState = ReadLastState F, Sm_OnSessionStart = OnSessionStart F,
      Sm_OnCleanShutdown = OnCleanShutdown F, Sm_CurrentGeneration = CurrentGeneration\<rparr>"

definition CreateSessionMarker :: "'f option \<Rightarrow> u64 list \<Rightarrow> 'f SessionMarker result" where
  "CreateSessionMarker file clk =
     (case file of
        None \<Rightarrow> Failure (mkError InvalidArgument ''file must not be null'')
      | Some f \<Rightarrow> Success \<lparr>sm_file = f, lastKnownGeneration = 0, sm_clock = clk\<rparr>)"

section \<open>What the bytes of a marker mean\<close>

definition record_valid :: "bytes \<Rightarrow> bool" where
  "record_valid bs \<longleftrightarrow>
     kRecordSize \<le> length bs \<and> raw_magic (raw_of_bytes bs) = kMagic \<and>
     raw_version (raw_of_bytes bs) = kVersion \<and> Compute (take 25 bs) = raw_crc32 (raw_of_bytes bs)"

definition marker_closed :: "bytes \<Rightarrow> bool" where
  "marker_closed bs \<longleftrightarrow> bs = [] \<or> record_valid bs \<and> raw_closedCleanly (raw_of_bytes bs) \<noteq> 0"

lemma length_raw_prefix [simp]: "length (raw_prefix raw) = 25"
  by (simp add: raw_prefix_def)

lemma length_raw_bytes [simp]: "length (raw_bytes raw) = kRecordSize"
  by (simp add: raw_bytes_def kRecordSize_def)

lemma raw_bytes_fields:
  "raw_of_bytes (raw_bytes raw @ rest) = raw"
  by (simp add: raw_of_bytes_def raw_bytes_def raw_prefix_def del: One_nat_def)

lemma raw_of_bytes_take: "raw_of_bytes (take kRecordSize bs) = raw_of_bytes bs"
  by (simp add: raw_of_bytes_def kRecordSize_def drop_take)

lemma raw_prefix_of_bytes:
  assumes "25 \<le> length bs"
  shows "raw_prefix (raw_of_bytes bs) = take 25 bs"
proof -
  have "take 25 bs = take 4 bs @ take 4 (drop 4 bs) @ take 8 (drop 8 bs) @ take 8 (drop 16 bs) @ take 1 (drop 24 bs)"
    using take_add [of 4 21 bs] take_add [of 4 17 "drop 4 bs"] take_add [of 8 9 "drop 8 bs"]
      take_add [of 8 1 "drop 16 bs"] by simp
  then show ?thesis
    using assms by (simp add: raw_prefix_def raw_of_bytes_def le_bytes_le_word_32 le_bytes_le_word_64
        le_bytes_le_word_8 del: One_nat_def)
qed

lemma make_record_fields [simp]:
  "raw_magic (make_record g t c) = kMagic" "raw_version (make_record g t c) = kVersion"
  "raw_generation (make_record g t c) = g" "raw_startTimestamp (make_record g t c) = t"
  "raw_closedCleanly (make_record g t c) = c"
  "raw_crc32 (make_record g t c) = Compute (raw_prefix (make_record g t c))"
  by (simp_all add: make_record_def Let_def raw_prefix_def)

lemma record_valid_make: "record_valid (raw_bytes (make_record g t c) @ rest)"
  unfolding record_valid_def raw_bytes_fields by (simp add: raw_bytes_def kRecordSize_def)

lemma marker_closed_make: "marker_closed (raw_bytes (make_record g t c) @ rest) \<longleftrightarrow> c \<noteq> 0"
proof -
  have "raw_bytes (make_record g t c) \<noteq> []"
    using length_raw_bytes [of "make_record g t c"]
    by (metis kRecordSize_def list.size(3) zero_neq_numeral)
  then show ?thesis
    by (simp add: marker_closed_def record_valid_make raw_bytes_fields)
qed

section \<open>The operations on a file that meets its contract\<close>

context file_contract
begin

definition sm_closed :: "'f SessionMarker \<Rightarrow> bool" where
  "sm_closed m \<longleftrightarrow> marker_closed (content (sm_file m))"

definition sm_closed_durable :: "'f SessionMarker \<Rightarrow> bool" where
  "sm_closed_durable m \<longleftrightarrow> marker_closed (durable (sm_file m))"

definition sm_healthy :: "'f SessionMarker \<Rightarrow> bool" where
  "sm_healthy m \<longleftrightarrow> healthy (sm_file m)"

lemma ReadLastState_outcome:
  assumes "ReadLastState F m = (r, m')"
  shows "content (sm_file m') = content (sm_file m) \<and> durable (sm_file m') = durable (sm_file m)
    \<and> (healthy (sm_file m) \<longrightarrow> healthy (sm_file m'))
    \<and> (\<forall>d. r = Inr d \<longrightarrow> closedCleanly d = marker_closed (content (sm_file m))
         \<and> (if record_valid (content (sm_file m))
            then generation d = raw_generation (raw_of_bytes (content (sm_file m))) \<and>
                 lastKnownGeneration m' = generation d
            else generation d = 0 \<and> lastKnownGeneration m' = lastKnownGeneration m))"
proof -
  let ?c = "content (sm_file m)"
  obtain r1 f1 where sz: "IFile_Size F (sm_file m) = (r1, f1)"
    by (cases "IFile_Size F (sm_file m)") auto
  have c1: "content f1 = ?c" "durable f1 = durable (sm_file m)" "healthy (sm_file m) \<longrightarrow> healthy f1"
    using size_content [OF sz] size_healthy [OF _ sz] by auto
  show ?thesis
  proof (cases r1)
    case (Inl e)
    then show ?thesis
      using assms sz c1 by (auto simp: ReadLastState_def)
  next
    case (Inr n)
    then have n: "n = length ?c"
      using size_ok sz by blast
    obtain r2 f2 where sk: "IFile_Seek F 0 False f1 = (r2, f2)"
      by (cases "IFile_Seek F 0 False f1") auto
    have c2: "content f2 = ?c" "durable f2 = durable (sm_file m)" "healthy (sm_file m) \<longrightarrow> healthy f2"
      using seek_content [OF sk] seek_healthy [OF _ _ sk] c1 by auto
    obtain r3 f3 where rd: "ReadExact F kRecordSize f2 = (r3, f3)"
      by (cases "ReadExact F kRecordSize f2") auto
    have sim: "rsim f2 (r3, f3) (ReadExact list_file kRecordSize (remaining f2))"
      using rsim_ReadExact [of kRecordSize f2] rd by (simp add: kRecordSize_def)
    have c3: "content f3 = ?c" "durable f3 = durable (sm_file m)" "healthy (sm_file m) \<longrightarrow> healthy f3"
      using sim c2 by (auto simp: rsim_def)
    consider (short) "n < kRecordSize" | (seek) e where "\<not> n < kRecordSize" "r2 = Inl e"
      | (read) p where "\<not> n < kRecordSize" "r2 = Inr p" "r3 = None"
      | (rec) p got where "\<not> n < kRecordSize" "r2 = Inr p" "r3 = Some got"
      by (cases "n < kRecordSize"; cases r2; cases r3) auto
    then show ?thesis
    proof cases
      case short
      then show ?thesis
        using assms sz Inr c1 n
        by (auto simp: ReadLastState_def marker_closed_def record_valid_def split: if_splits)
    next
      case seek
      then show ?thesis
        using assms sz Inr sk c2 by (auto simp: ReadLastState_def kRecordSize_def)
    next
      case read
      then show ?thesis
        using assms sz Inr sk rd c3 by (auto simp: ReadLastState_def kRecordSize_def)
    next
      case rec
      have "position f2 = 0"
        using seek_start_ok [of 0 f1] sk rec(2) by simp
      then have "got = take kRecordSize ?c"
        using sim rec(3) c2(1) by (auto simp: rsim_def ReadExact_list_file remaining_def split: if_splits)
      then have raw: "raw_of_bytes got = raw_of_bytes ?c" "raw_prefix (raw_of_bytes ?c) = take 25 ?c" "?c \<noteq> []"
        using raw_of_bytes_take raw_prefix_of_bytes [of ?c] rec(1) n by (auto simp: kRecordSize_def)
      then show ?thesis
        using assms sz Inr sk rd rec n c3
        by (auto simp: ReadLastState_def Let_def marker_closed_def record_valid_def kRecordSize_def
            split: if_splits)
    qed
  qed
qed

lemma WriteRecord_outcome:
  assumes "WriteRecord F raw m = (r, m')"
  shows "(r = Inr () \<longrightarrow> (\<exists>rest. content (sm_file m') = raw_bytes raw @ rest) \<and>
      durable (sm_file m') = content (sm_file m')) \<and>
    (healthy (sm_file m) \<longrightarrow> IsOk r \<and> healthy (sm_file m')) \<and>
    (\<exists>f'. m' = m\<lparr>sm_file := f'\<rparr>)"
proof -
  obtain r1 f1 where sk: "IFile_Seek F 0 False (sm_file m) = (r1, f1)"
    by (cases "IFile_Seek F 0 False (sm_file m)") auto
  obtain r2 f2 where wr: "IFile_Write F (raw_bytes raw) f1 = (r2, f2)"
    by (cases "IFile_Write F (raw_bytes raw) f1") auto
  obtain r3 f3 where fl: "IFile_FlushDurable F f2 = (r3, f3)"
    by (cases "IFile_FlushDurable F f2") auto
  have h: "healthy (sm_file m) \<longrightarrow> IsOk r1 \<and> healthy f1" "healthy f1 \<longrightarrow> r2 = Inr kRecordSize \<and> healthy f2"
    "healthy f2 \<longrightarrow> IsOk r3 \<and> healthy f3"
    using seek_healthy [OF _ _ sk] write_healthy [OF _ _ wr] flush_healthy [OF _ fl] by (auto simp: kRecordSize_def)
  show ?thesis
  proof (cases "\<exists>p. r1 = Inr p \<and> r2 = Inr kRecordSize")
    case True
    then obtain p where p: "r1 = Inr p" "r2 = Inr kRecordSize" by blast
    have "position f1 = 0"
      using seek_start_ok [of 0] sk p(1) by simp
    then have "content f2 = raw_bytes raw @ drop kRecordSize (content f1)"
      using write_ok [of "raw_bytes raw" f1 kRecordSize f2] wr p(2) by (simp add: overwrite_def)
    then show ?thesis
      using assms sk wr fl p h flush_content [OF fl] flush_ok [of f2 "()" f3]
      by (auto simp: WriteRecord_def)
  next
    case False
    then show ?thesis
      using assms sk wr h by (auto simp: WriteRecord_def split: sum.splits if_splits)
  qed
qed

lemma WriteRecord_make:
  assumes "WriteRecord F (make_record g t c) m = (Inr u, m')"
  shows "sm_closed m' = (c \<noteq> 0) \<and> sm_closed_durable m' = (c \<noteq> 0)"
  using WriteRecord_outcome [OF assms] by (auto simp: sm_closed_def sm_closed_durable_def marker_closed_make)

lemma OnSessionStart_valid:
  assumes "OnSessionStart F m = (Inr u, m')"
  shows "record_valid (durable (sm_file m'))"
proof -
  obtain g t m1 where "WriteRecord F (make_record g t 0) m1 = (Inr u, m')"
    using assms by (auto simp: OnSessionStart_def Let_def split: prod.splits)
  from WriteRecord_outcome [OF this] show ?thesis
    by (auto simp: record_valid_make)
qed

end

sublocale file_contract \<subseteq> sm: session_marker "SessionMarker_ops F" sm_closed sm_closed_durable sm_healthy
proof (unfold_locales, goal_cases)
  case (1 m d m')
  then show ?case
    using ReadLastState_outcome [of m "Inr d" m'] by (simp add: SessionMarker_ops_def sm_closed_def)
next
  case (2 m sr m')
  then show ?case
    using ReadLastState_outcome [of m sr m']
    by (simp add: SessionMarker_ops_def sm_closed_def sm_closed_durable_def sm_healthy_def)
next
  case (3 m u m')
  then show ?case
    by (auto simp: SessionMarker_ops_def OnSessionStart_def Let_def split: prod.splits dest: WriteRecord_make)
next
  case (4 m ur m')
  then show ?case
    by (auto simp: SessionMarker_ops_def OnSessionStart_def NowTicks_def Let_def sm_healthy_def
        split: list.splits dest!: WriteRecord_outcome)
next
  case (5 m u m')
  then show ?case
    by (auto simp: SessionMarker_ops_def OnCleanShutdown_def Let_def split: prod.splits dest: WriteRecord_make)
next
  case (6 m ur m')
  then show ?case
    by (auto simp: SessionMarker_ops_def OnCleanShutdown_def NowTicks_def Let_def sm_healthy_def
        split: list.splits dest!: WriteRecord_outcome)
qed

section \<open>Properties\<close>

definition portable_marker :: "bytes \<Rightarrow> outcome list \<Rightarrow> PortableFile SessionMarker" where
  "portable_marker bs os = \<lparr>sm_file = open_portable bs os, lastKnownGeneration = 0, sm_clock = []\<rparr>"

lemma portable_marker_simps [simp]:
  "pf_content (sm_file (portable_marker bs os)) = bs" "pf_durable (sm_file (portable_marker bs os)) = bs"
  "lastKnownGeneration (portable_marker bs os) = 0"
  by (simp_all add: portable_marker_def open_portable_def)

text \<open>
  \<^bold>\<open>The next process reads what the last one wrote.\<close>  After a successful
  \<open>OnSessionStart\<close> the bytes on stable storage read as an unclean shutdown, and after a successful
  \<open>OnCleanShutdown\<close> as a clean one; the new process continues from the same generation.
\<close>

theorem marker_read_after_write:
  assumes "(if clean then OnCleanShutdown else OnSessionStart) PortableFile_ops m = (Inr (), m')"
    and "ReadLastState PortableFile_ops (portable_marker (pf_durable (sm_file m')) os) = (Inr d, m2)"
  shows "closedCleanly d = clean \<and> generation d = lastKnownGeneration m' \<and>
    lastKnownGeneration m2 = lastKnownGeneration m' \<and>
    lastKnownGeneration m' = (if clean then lastKnownGeneration m else lastKnownGeneration m + 1)"
proof -
  obtain t m1 where w: "WriteRecord PortableFile_ops (make_record (lastKnownGeneration m1) t (if clean then 1 else 0)) m1
      = (Inr (), m')"
    "lastKnownGeneration m1 = (if clean then lastKnownGeneration m else lastKnownGeneration m + 1)"
    using assms(1)
    by (auto simp: OnCleanShutdown_def OnSessionStart_def NowTicks_def Let_def split: if_splits list.splits)
  let ?raw = "make_record (lastKnownGeneration m1) t (if clean then 1 else 0)"
  obtain rest f' where f: "pf_durable (sm_file m') = raw_bytes ?raw @ rest" "m' = m1\<lparr>sm_file := f'\<rparr>"
    using pf.WriteRecord_outcome [OF w(1)] by auto
  have "record_valid (raw_bytes ?raw @ rest)" "raw_of_bytes (raw_bytes ?raw @ rest) = ?raw"
    "marker_closed (raw_bytes ?raw @ rest) = clean"
    by (simp_all only: record_valid_make raw_bytes_fields marker_closed_make) simp
  then show ?thesis
    using pf.ReadLastState_outcome [OF assms(2)] f w(2) by simp
qed

lemma ReadLastState_healthy:
  assumes "record_valid bs"
  shows "\<exists>d m2. ReadLastState PortableFile_ops (portable_marker bs []) = (Inr d, m2)"
  using assms raw_prefix_of_bytes [of bs]
  by (auto simp: ReadLastState_def ReadExact_def PortableFile_defs portable_marker_def open_portable_def
      record_valid_def raw_of_bytes_take kRecordSize_def raw_of_bytes_take [unfolded kRecordSize_def] Let_def)

theorem marker_read_after_write_witness:
  "\<exists>m' d m2. OnSessionStart PortableFile_ops (portable_marker [] []) = (Inr (), m')
     \<and> ReadLastState PortableFile_ops (portable_marker (pf_durable (sm_file m')) []) = (Inr d, m2)
     \<and> \<not> closedCleanly d \<and> generation d = 1"
proof -
  let ?m1 = "(portable_marker [] [])\<lparr>lastKnownGeneration := 1\<rparr>" and ?raw = "make_record 1 0 0"
  have st: "OnSessionStart PortableFile_ops (portable_marker [] []) = WriteRecord PortableFile_ops ?raw ?m1"
    by (simp add: OnSessionStart_def NowTicks_def portable_marker_def)
  obtain r m' where w: "WriteRecord PortableFile_ops ?raw ?m1 = (r, m')"
    by (cases "WriteRecord PortableFile_ops ?raw ?m1") auto
  have "pf_healthy (sm_file ?m1)"
    by (simp add: pf_healthy_def portable_marker_def open_portable_def)
  then have r: "r = Inr ()"
    using pf.WriteRecord_outcome [OF w] by simp
  then obtain rest where "pf_durable (sm_file m') = raw_bytes ?raw @ rest"
    using pf.WriteRecord_outcome [OF w] by auto
  then have "record_valid (pf_durable (sm_file m'))"
    by (simp only: record_valid_make)
  then obtain d m2 where rd: "ReadLastState PortableFile_ops (portable_marker (pf_durable (sm_file m')) []) = (Inr d, m2)"
    using ReadLastState_healthy by blast
  have start: "(if False then OnCleanShutdown else OnSessionStart) PortableFile_ops (portable_marker [] []) = (Inr (), m')"
    using st w r by simp
  show ?thesis
    using marker_read_after_write [OF start rd] start rd by simp
qed

text \<open>
  \<^bold>\<open>A damaged marker is never taken for a clean shutdown.\<close>  If the marker was open and a torn
  write or a burst of up to four bytes damaged it, the next process does not read it as clean: it
  reports an unclean shutdown with generation 0, or an error.
\<close>

theorem damaged_marker_not_clean:
  assumes "bs = take n (raw_bytes (make_record g t c)) \<and> 0 < n \<and> n < kRecordSize
         \<or> raw_bytes (make_record g t c) = pre @ xs @ post \<and> bs = pre @ ys @ post
             \<and> length xs = length ys \<and> length xs \<le> 4 \<and> xs \<noteq> ys"
    and "ReadLastState PortableFile_ops (portable_marker bs os) = (Inr d, m)"
  shows "\<not> closedCleanly d \<and> generation d = 0 \<and> lastKnownGeneration m = 0"
proof -
  have "\<not> record_valid bs \<and> bs \<noteq> []"
    using assms(1)
  proof (elim disjE conjE)
    assume "bs = take n (raw_bytes (make_record g t c))" "0 < n" "n < kRecordSize"
    then show ?thesis
      using length_raw_bytes [of "make_record g t c"]
      by (auto simp: record_valid_def kRecordSize_def dest: arg_cong [of _ _ length])
  next
    assume fr: "raw_bytes (make_record g t c) = pre @ xs @ post" and bs: "bs = pre @ ys @ post"
      and len: "length xs = length ys" "length xs \<le> 4" and neq: "xs \<noteq> ys"
    have lb: "length bs = 29"
      using arg_cong [OF fr, of length] len(1) bs by (simp add: kRecordSize_def)
    have "Compute (take 25 bs) \<noteq> le_word (drop 25 bs)"
    proof
      assume "Compute (take 25 bs) = le_word (drop 25 bs)"
      then have "le_bytes 4 (Compute (take 25 bs)) = drop 25 bs"
        using lb by (simp add: le_bytes_le_word_32)
      then have "crc_reference bs 0xFFFFFFFF = table_rounds 32 0xFFFFFFFF"
        by (metis Compute_eq_iff_residue append_take_drop_id)
      moreover have "crc_reference (raw_bytes (make_record g t c)) 0xFFFFFFFF = table_rounds 32 0xFFFFFFFF"
        unfolding raw_bytes_def by (simp flip: Compute_eq_iff_residue)
      ultimately show False
        using residue_burst [OF len neq, of pre post] fr bs by metis
    qed
    then show ?thesis
      using lb by (auto simp: record_valid_def raw_of_bytes_def)
  qed
  then show ?thesis
    using pf.ReadLastState_outcome [OF assms(2)] by (simp add: marker_closed_def)
qed

theorem damaged_marker_not_clean_witness:
  "\<exists>d m. ReadLastState PortableFile_ops (portable_marker (take 5 (raw_bytes (make_record 1 0 1))) []) = (Inr d, m)
     \<and> \<not> closedCleanly d"
proof -
  let ?bs = "take 5 (raw_bytes (make_record 1 0 1))"
  obtain d m where rd: "ReadLastState PortableFile_ops (portable_marker ?bs []) = (Inr d, m)"
    by (simp add: ReadLastState_def PortableFile_defs portable_marker_def open_portable_def kRecordSize_def)
  have torn: "?bs = take 5 (raw_bytes (make_record 1 0 1)) \<and> 0 < (5 :: nat) \<and> 5 < kRecordSize \<or>
      raw_bytes (make_record 1 0 1) = [] @ [] @ [] \<and> ?bs = [] @ [] @ [] \<and>
      length ([] :: bytes) = length ([] :: bytes) \<and> length ([] :: bytes) \<le> 4 \<and> ([] :: bytes) \<noteq> []"
    by (simp add: kRecordSize_def)
  show ?thesis
    using damaged_marker_not_clean [OF torn rd] rd by blast
qed

end
