(* ===== verification/RecoveryManager.thy ===== *)
theory RecoveryManager
  imports SessionMarker
begin

text \<open>
  The recover-or-quarantine lifecycle at process start: \<^verbatim>\<open>RecoveryState.h\<close> and
  \<^verbatim>\<open>RecoveryManager.cpp\<close>.  The manager takes its marker through the interface; the replay
  handler is a function on the state \<open>'w\<close> of whoever supplied it (in the service, the cache
  engine), \<open>None\<close> where the source passes an empty \<^verbatim>\<open>std::function\<close>.  A handler that never
  returns is a handler whose result is \<open>None\<close>.
\<close>

section \<open>RecoveryManager\<close>

datatype RecoveryState =
    Unknown
  | CleanShutdown
  | UncleanShutdownDetected
  | RecoveryInProgress
  | RecoveryComplete
  | RecoveryFailed

type_synonym 'w JournalReplayHandler = "('w \<Rightarrow> (unit result \<times> 'w) option) option"

record 'm RecoveryManager =
  marker :: 'm
  rm_state :: RecoveryState

text \<open>The part after the replay decision: start the new session.\<close>

definition start_session ::
  "'m ISessionMarker \<Rightarrow> 'm RecoveryManager \<Rightarrow> unit result \<times> 'm RecoveryManager" where
  "start_session M rm =
     (case Sm_OnSessionStart M (marker rm) of
        (Inl e, m) \<Rightarrow> (Failure e, rm\<lparr>marker := m, rm_state := RecoveryFailed\<rparr>)
      | (Inr _, m) \<Rightarrow>
          (Success (),
           rm\<lparr>marker := m,
              rm_state := if rm_state rm = CleanShutdown then RecoveryComplete else rm_state rm\<rparr>))"

definition InitializeAndRecover ::
  "'m ISessionMarker \<Rightarrow> 'w JournalReplayHandler \<Rightarrow> 'm RecoveryManager \<Rightarrow> 'w
     \<Rightarrow> (unit result \<times> 'm RecoveryManager \<times> 'w) option" where
  "InitializeAndRecover M onReplayNeeded rm w =
     (case Sm_ReadLastState M (marker rm) of
        (Inl e, m) \<Rightarrow> Some (Failure e, rm\<lparr>marker := m, rm_state := RecoveryFailed\<rparr>, w)
      | (Inr lastState, m) \<Rightarrow>
          let rm = rm\<lparr>marker := m\<rparr> in
          if closedCleanly lastState then
            (case start_session M (rm\<lparr>rm_state := CleanShutdown\<rparr>) of (r, rm) \<Rightarrow> Some (r, rm, w))
          else
            let rm = rm\<lparr>rm_state := RecoveryInProgress\<rparr> in
            (case onReplayNeeded of
               None \<Rightarrow>
                 (case start_session M (rm\<lparr>rm_state := RecoveryComplete\<rparr>) of (r, rm) \<Rightarrow> Some (r, rm, w))
             | Some handler \<Rightarrow>
                 (case handler w of
                    None \<Rightarrow> None
                  | Some (Inl e, w) \<Rightarrow> Some (Failure e, rm\<lparr>rm_state := RecoveryFailed\<rparr>, w)
                  | Some (Inr _, w) \<Rightarrow>
                      (case start_session M (rm\<lparr>rm_state := RecoveryComplete\<rparr>) of
                         (r, rm) \<Rightarrow> Some (r, rm, w)))))"

definition CurrentState :: "'m RecoveryManager \<Rightarrow> RecoveryState" where
  "CurrentState rm = rm_state rm"

definition MarkCleanShutdown ::
  "'m ISessionMarker \<Rightarrow> 'm RecoveryManager \<Rightarrow> unit result \<times> 'm RecoveryManager" where
  "MarkCleanShutdown M rm =
     (case Sm_OnCleanShutdown M (marker rm) of (r, m) \<Rightarrow> (r, rm\<lparr>marker := m\<rparr>))"

text \<open>\<^verbatim>\<open>CreateRecoveryManager\<close>; a null pointer is \<open>None\<close>.\<close>

definition CreateRecoveryManager :: "'m option \<Rightarrow> 'j option \<Rightarrow> 'm RecoveryManager result" where
  "CreateRecoveryManager mk jrn =
     (case (mk, jrn) of
        (Some m, Some _) \<Rightarrow> Success \<lparr>marker = m, rm_state = Unknown\<rparr>
      | _ \<Rightarrow> Failure (mkError InvalidArgument ''marker and journal must not be null''))"

section \<open>What the manager guarantees of any marker that meets its contract\<close>

context session_marker
begin

lemma start_session_outcome:
  assumes "start_session M rm = (r, rm')"
  shows "(r = Inr () \<longrightarrow> \<not> closed (marker rm') \<and> \<not> closed_durable (marker rm') \<and>
            rm_state rm' = (if rm_state rm = CleanShutdown then RecoveryComplete else rm_state rm)) \<and>
         (r \<noteq> Inr () \<longrightarrow> rm_state rm' = RecoveryFailed) \<and>
         (mhealthy (marker rm) \<longrightarrow> r = Inr () \<and> mhealthy (marker rm'))"
proof -
  obtain r1 m1 where st: "Sm_OnSessionStart M (marker rm) = (r1, m1)"
    by (cases "Sm_OnSessionStart M (marker rm)") auto
  show ?thesis
  proof (cases r1)
    case (Inl e)
    then show ?thesis
      using assms st start_healthy [OF _ st] by (auto simp: start_session_def)
  next
    case (Inr u)
    then show ?thesis
      using assms st start_healthy [OF _ st] start_ok [of "marker rm" u m1] by (auto simp: start_session_def)
  qed
qed

text \<open>
  The session starts (durably marked open) exactly on success, the state tells success from
  failure, and the handler runs exactly when the last shutdown was not clean.
\<close>

lemma InitializeAndRecover_outcome:
  assumes "InitializeAndRecover M h rm w = Some (r, rm', w')"
  shows "(r = Inr () \<longrightarrow> rm_state rm' = RecoveryComplete \<and> \<not> closed (marker rm') \<and> \<not> closed_durable (marker rm')) \<and>
    (r \<noteq> Inr () \<longrightarrow> rm_state rm' = RecoveryFailed) \<and>
    (closed (marker rm) \<longrightarrow> w' = w) \<and>
    (\<not> closed (marker rm) \<and> r = Inr () \<longrightarrow>
       (case h of None \<Rightarrow> w' = w | Some handler \<Rightarrow> handler w = Some (Inr (), w')))"
proof -
  obtain r1 m1 where rd: "Sm_ReadLastState M (marker rm) = (r1, m1)"
    by (cases "Sm_ReadLastState M (marker rm)") auto
  show ?thesis
  proof (cases r1)
    case (Inl e)
    then show ?thesis
      using assms rd by (auto simp: InitializeAndRecover_def)
  next
    case (Inr d)
    then have d: "closedCleanly d = closed (marker rm)"
      using read_state rd by blast
    show ?thesis
      using assms rd Inr d
      by (auto simp: InitializeAndRecover_def Let_def split: if_splits option.splits sum.splits prod.splits
          dest: start_session_outcome)
  qed
qed

end

section \<open>Properties\<close>


definition fresh_manager :: "bytes \<Rightarrow> outcome list \<Rightarrow> PortableFile SessionMarker RecoveryManager" where
  "fresh_manager bs os = \<lparr>marker = portable_marker bs os, rm_state = Unknown\<rparr>"

lemma fresh_manager_simps [simp]:
  "pf_content (sm_file (marker (fresh_manager bs os))) = bs" "rm_state (fresh_manager bs os) = Unknown"
  by (simp_all add: fresh_manager_def)

text \<open>A start on a healthy disk whose marker is absent or whole succeeds.\<close>

lemma fresh_manager_start:
  assumes "bs = [] \<or> record_valid bs"
  shows "\<exists>rm' w'. InitializeAndRecover (SessionMarker_ops PortableFile_ops) (Some (\<lambda>n :: nat. Some (Inr (), Suc n)))
      (fresh_manager bs []) w = Some (Inr (), rm', w') \<and> record_valid (pf_durable (sm_file (marker rm')))"
proof -
  obtain d m where rd: "ReadLastState PortableFile_ops (portable_marker bs []) = (Inr d, m)"
    using assms ReadLastState_healthy [of bs]
    by (auto simp: ReadLastState_def PortableFile_defs portable_marker_def open_portable_def)
  have "pf.sm_healthy (portable_marker bs [])"
    by (simp add: pf.sm_healthy_def pf_healthy_def portable_marker_def open_portable_def)
  then have hm: "pf.sm_healthy m"
    using pf.sm.read_keeps [of "portable_marker bs []" "Inr d" m] rd by (simp add: SessionMarker_ops_def)
  obtain r m' where st: "OnSessionStart PortableFile_ops m = (r, m')"
    by (cases "OnSessionStart PortableFile_ops m") auto
  have r: "r = Inr ()"
    using pf.sm.start_healthy [OF hm] st by (simp add: SessionMarker_ops_def)
  then have "record_valid (pf_durable (sm_file m'))"
    using pf.OnSessionStart_valid st by blast
  then show ?thesis
    using rd st r
    by (cases "closedCleanly d")
      (simp_all add: InitializeAndRecover_def start_session_def SessionMarker_ops_def fresh_manager_def Let_def)
qed


text \<open>
  \<^bold>\<open>A crash is detected, a clean shutdown is believed.\<close>  Of two processes that start one after
  the other, the second one replays the journal unless the first one marked a clean shutdown:
  only what is on stable storage when the first one ends matters.
\<close>

theorem second_start_recovers:
  assumes "InitializeAndRecover (SessionMarker_ops PortableFile_ops) h rm w = Some (Inr (), rm1, w1)"
    and "if clean then MarkCleanShutdown (SessionMarker_ops PortableFile_ops) rm1 = (Inr (), rm2) else rm2 = rm1"
    and "InitializeAndRecover (SessionMarker_ops PortableFile_ops) (Some h')
          (fresh_manager (pf_durable (sm_file (marker rm2))) os) w3 = Some (Inr (), rm4, w4)"
  shows "if clean then w4 = w3 else h' w3 = Some (Inr (), w4)"
proof -
  have "marker_closed (pf_durable (sm_file (marker rm2))) = clean"
  proof (cases clean)
    case True
    then show ?thesis
      using assms(2) pf.sm.stop_ok
      by (auto simp: MarkCleanShutdown_def pf.sm_closed_durable_def split: prod.splits)
  next
    case False
    then show ?thesis
      using assms(2) pf.sm.InitializeAndRecover_outcome [OF assms(1)] by (simp add: pf.sm_closed_durable_def)
  qed
  then show ?thesis
    using pf.sm.InitializeAndRecover_outcome [OF assms(3)] by (auto simp: pf.sm_closed_def)
qed

theorem second_start_recovers_witness:
  "\<exists>rm1 w1 rm4 w4. InitializeAndRecover (SessionMarker_ops PortableFile_ops) (Some (\<lambda>n :: nat. Some (Inr (), Suc n)))
        (fresh_manager [] []) 0 = Some (Inr (), rm1, w1)
     \<and> InitializeAndRecover (SessionMarker_ops PortableFile_ops) (Some (\<lambda>n :: nat. Some (Inr (), Suc n)))
        (fresh_manager (pf_durable (sm_file (marker rm1))) []) w1 = Some (Inr (), rm4, w4)
     \<and> w4 = Suc w1"
proof -
  obtain rm1 w1 where i: "InitializeAndRecover (SessionMarker_ops PortableFile_ops) (Some (\<lambda>n :: nat. Some (Inr (), Suc n)))
      (fresh_manager [] []) 0 = Some (Inr (), rm1, w1)" and v: "record_valid (pf_durable (sm_file (marker rm1)))"
    using fresh_manager_start [of "[]" 0] by blast
  obtain rm4 w4 where j: "InitializeAndRecover (SessionMarker_ops PortableFile_ops) (Some (\<lambda>n :: nat. Some (Inr (), Suc n)))
      (fresh_manager (pf_durable (sm_file (marker rm1))) []) w1 = Some (Inr (), rm4, w4)"
    using fresh_manager_start [of "pf_durable (sm_file (marker rm1))" w1] v by blast
  have "if False then MarkCleanShutdown (SessionMarker_ops PortableFile_ops) rm1 = (Inr (), rm1) else rm1 = rm1"
    by simp
  from second_start_recovers [OF i this j] show ?thesis
    using i j by auto
qed

end
