(* ===== verification/AtomicReplace.thy ===== *)
theory AtomicReplace
  imports Common
begin

text \<open>
  \<^verbatim>\<open>AtomicallyReplaceFileContents\<close> of \<^verbatim>\<open>JsonConfigStore.cpp\<close> (the POSIX branch): write a temporary
  file, \<^verbatim>\<open>fsync\<close> it, \<^verbatim>\<open>rename\<close> it over the target, \<^verbatim>\<open>fsync\<close> the directory.

  The system calls act on a disk with one directory (the temporary file is created beside the
  target).  A directory update is visible at once and durable only after the directory has been
  synchronised: until then a power cut leaves the directory as it was after any of the pending
  updates.  The bytes of a file are durable once \<^verbatim>\<open>fsync\<close> has returned; before that a power cut may
  leave anything.  Whether a call fails, and how many bytes a \<^verbatim>\<open>write\<close> takes, is decided by a
  schedule, and the disks between the calls are kept, so that a property can speak of a power cut at
  any point.
\<close>

section \<open>The file system\<close>

type_synonym path = cstring
type_synonym 'p directory = "'p \<Rightarrow> nat option"

record inode =
  data :: bytes
  synced :: bool

record 'p disk =
  dirs :: "'p directory list"
  inodes :: "nat \<Rightarrow> inode"
  next_inode :: nat

datatype sys_outcome = Fails | Completes nat

record 'p os =
  disk :: "'p disk"
  past :: "'p disk list"
  sched :: "nat \<Rightarrow> sys_outcome"
  calls :: nat

definition current :: "'p disk \<Rightarrow> 'p directory" where
  "current s = hd (dirs s)"

text \<open>What a process reads from a path now, and what it may find there after a power cut.\<close>

definition visible :: "'p disk \<Rightarrow> 'p \<Rightarrow> bytes option" where
  "visible s p = map_option (\<lambda>i. data (inodes s i)) (current s p)"

fun possible :: "(nat \<Rightarrow> inode) \<Rightarrow> nat option \<Rightarrow> bytes option \<Rightarrow> bool" where
  "possible files None c \<longleftrightarrow> c = None"
| "possible files (Some i) c \<longleftrightarrow> c \<noteq> None \<and> (synced (files i) \<longrightarrow> c = Some (data (files i)))"

definition recover :: "'p disk \<Rightarrow> 'p \<Rightarrow> bytes option set" where
  "recover s p = {c. \<exists>d \<in> set (dirs s). possible (inodes s) (d p) c}"

definition effect :: "('p disk \<Rightarrow> 'p disk) \<Rightarrow> 'p os \<Rightarrow> 'p os" where
  "effect f w = w\<lparr>disk := f (disk w), past := disk w # past w, calls := calls w + 1\<rparr>"

definition set_entry :: "'p \<Rightarrow> nat option \<Rightarrow> 'p disk \<Rightarrow> 'p disk" where
  "set_entry p i s = s\<lparr>dirs := (current s)(p := i) # dirs s\<rparr>"

definition set_inode :: "nat \<Rightarrow> inode \<Rightarrow> 'p disk \<Rightarrow> 'p disk" where
  "set_inode i n s = s\<lparr>inodes := (inodes s)(i := n)\<rparr>"

section \<open>System calls\<close>

text \<open>\<^verbatim>\<open>open(path, O_WRONLY | O_CREAT | O_TRUNC)\<close>; the descriptor is the number of the inode.\<close>

definition open_truncated :: "'p \<Rightarrow> 'p disk \<Rightarrow> nat \<times> 'p disk" where
  "open_truncated p s =
     (case current s p of
        Some i \<Rightarrow> (i, set_inode i \<lparr>data = [], synced = False\<rparr> s)
      | None \<Rightarrow>
          (next_inode s,
           set_entry p (Some (next_inode s))
             (set_inode (next_inode s) \<lparr>data = [], synced = False\<rparr> (s\<lparr>next_inode := next_inode s + 1\<rparr>))))"

definition sys_open :: "'p \<Rightarrow> 'p os \<Rightarrow> nat option \<times> 'p os" where
  "sys_open p w =
     (case sched w (calls w) of
        Fails \<Rightarrow> (None, effect id w)
      | Completes _ \<Rightarrow> (Some (fst (open_truncated p (disk w))), effect (snd \<circ> open_truncated p) w))"

definition append_data :: "nat \<Rightarrow> bytes \<Rightarrow> 'p disk \<Rightarrow> 'p disk" where
  "append_data fd bs s = set_inode fd \<lparr>data = data (inodes s fd) @ bs, synced = False\<rparr> s"

definition sys_write :: "nat \<Rightarrow> bytes \<Rightarrow> 'p os \<Rightarrow> nat option \<times> 'p os" where
  "sys_write fd bs w =
     (case sched w (calls w) of
        Fails \<Rightarrow> (None, effect id w)
      | Completes n \<Rightarrow> (Some (min n (length bs)), effect (append_data fd (take n bs)) w))"

definition mark_synced :: "nat \<Rightarrow> 'p disk \<Rightarrow> 'p disk" where
  "mark_synced fd s = set_inode fd ((inodes s fd)\<lparr>synced := True\<rparr>) s"

definition sys_fsync :: "nat \<Rightarrow> 'p os \<Rightarrow> bool \<times> 'p os" where
  "sys_fsync fd w =
     (case sched w (calls w) of
        Fails \<Rightarrow> (False, effect id w)
      | Completes _ \<Rightarrow> (True, effect (mark_synced fd) w))"

definition sys_unlink :: "'p \<Rightarrow> 'p os \<Rightarrow> 'p os" where
  "sys_unlink p w =
     (case sched w (calls w) of
        Fails \<Rightarrow> effect id w
      | Completes _ \<Rightarrow> effect (set_entry p None) w)"

definition move_entry :: "'p \<Rightarrow> 'p \<Rightarrow> 'p disk \<Rightarrow> 'p disk" where
  "move_entry a b s = s\<lparr>dirs := (current s)(b := current s a, a := None) # dirs s\<rparr>"

definition sys_rename :: "'p \<Rightarrow> 'p \<Rightarrow> 'p os \<Rightarrow> bool \<times> 'p os" where
  "sys_rename a b w =
     (case sched w (calls w) of
        Fails \<Rightarrow> (False, effect id w)
      | Completes _ \<Rightarrow>
          if current (disk w) a = None then (False, effect id w) else (True, effect (move_entry a b) w))"

text \<open>\<^verbatim>\<open>open(dirPath, O_RDONLY)\<close>: the empty path does not name a directory (\<^verbatim>\<open>ENOENT\<close>).\<close>

definition sys_open_dir :: "path \<Rightarrow> path os \<Rightarrow> bool \<times> path os" where
  "sys_open_dir p w =
     (case sched w (calls w) of
        Fails \<Rightarrow> (False, effect id w)
      | Completes _ \<Rightarrow> (p \<noteq> [], effect id w))"

definition settle :: "'p disk \<Rightarrow> 'p disk" where
  "settle s = s\<lparr>dirs := [current s]\<rparr>"

definition sys_fsync_dir :: "path os \<Rightarrow> path os" where
  "sys_fsync_dir w =
     (case sched w (calls w) of
        Fails \<Rightarrow> effect id w
      | Completes _ \<Rightarrow> effect settle w)"

section \<open>AtomicallyReplaceFileContents\<close>

text \<open>
  The write loop ends when everything is written or a call fails; nothing but the system keeps
  \<^verbatim>\<open>write\<close> from returning 0 forever.
\<close>

partial_function (option) write_loop :: "nat \<Rightarrow> bytes \<Rightarrow> nat \<Rightarrow> 'p os \<Rightarrow> (bool \<times> 'p os) option" where
  "write_loop fd content totalWritten w =
     (if totalWritten < length content then
        (case sys_write fd (drop totalWritten content) w of
           (None, w) \<Rightarrow> Some (False, w)
         | (Some n, w) \<Rightarrow> write_loop fd content (totalWritten + n) w)
      else Some (True, w))"

declare write_loop.simps [code]

definition tempPath :: "path \<Rightarrow> path" where
  "tempPath targetPath = targetPath @ str ''.tmp''"

text \<open>\<^verbatim>\<open>find_last_of('/')\<close> and \<^verbatim>\<open>substr(0, lastSlash)\<close>.\<close>

definition slash :: byte where
  "slash = 47"

definition dirPath :: "path \<Rightarrow> path" where
  "dirPath targetPath =
     (if slash \<notin> set targetPath then str ''.''
      else rev (tl (dropWhile (\<lambda>c. c \<noteq> slash) (rev targetPath))))"

definition replace_error :: "string \<Rightarrow> Error" where
  "replace_error what = mkError IoError (''AtomicallyReplaceFileContents: '' @ what)"

definition sync_directory :: "path \<Rightarrow> path os \<Rightarrow> path os" where
  "sync_directory targetPath w =
     (case sys_open_dir (dirPath targetPath) w of
        (True, w) \<Rightarrow> sys_fsync_dir w
      | (False, w) \<Rightarrow> w)"

definition AtomicallyReplaceFileContents :: "path \<Rightarrow> bytes \<Rightarrow> path os \<Rightarrow> (unit result \<times> path os) option" where
  "AtomicallyReplaceFileContents targetPath content w =
     (case sys_open (tempPath targetPath) w of
        (None, w) \<Rightarrow> Some (Failure (replace_error ''open (temp) failed''), w)
      | (Some fd, w) \<Rightarrow>
          (case write_loop fd content 0 w of
             None \<Rightarrow> None
           | Some (False, w) \<Rightarrow>
               Some (Failure (replace_error ''write (temp) failed''), sys_unlink (tempPath targetPath) w)
           | Some (True, w) \<Rightarrow>
               (case sys_fsync fd w of
                  (False, w) \<Rightarrow>
                    Some (Failure (replace_error ''fsync (temp) failed''), sys_unlink (tempPath targetPath) w)
                | (True, w) \<Rightarrow>
                    (case sys_rename (tempPath targetPath) targetPath w of
                       (False, w) \<Rightarrow>
                         Some (Failure (replace_error ''rename failed''), sys_unlink (tempPath targetPath) w)
                     | (True, w) \<Rightarrow> Some (Success (), sync_directory targetPath w)))))"

section \<open>Invariant\<close>

text \<open>
  The temporary file is never the file the target names: not in any directory a power cut may leave,
  and the current temporary file is not named by the target in any of them.
\<close>

definition unaliased :: "'p \<Rightarrow> 'p \<Rightarrow> 'p disk \<Rightarrow> bool" where
  "unaliased q t s \<longleftrightarrow>
     q \<noteq> t \<and> dirs s \<noteq> [] \<and>
     (\<forall>d \<in> set (dirs s). \<forall>p i. d p = Some i \<longrightarrow> i < next_inode s) \<and>
     (\<forall>d \<in> set (dirs s). d q \<noteq> None \<longrightarrow> d q \<noteq> d t) \<and>
     (\<forall>d \<in> set (dirs s). \<forall>i. current s q = Some i \<longrightarrow> d t \<noteq> Some i)"

text \<open>The target is as in \<open>s0\<close> in every respect.\<close>

definition untouched :: "'p \<Rightarrow> 'p disk \<Rightarrow> 'p disk \<Rightarrow> bool" where
  "untouched t s0 s \<longleftrightarrow>
     (\<lambda>d. d t) ` set (dirs s) = (\<lambda>d. d t) ` set (dirs s0) \<and> current s t = current s0 t \<and>
     (\<forall>d \<in> set (dirs s0). \<forall>i. d t = Some i \<longrightarrow> inodes s i = inodes s0 i)"

text \<open>While the temporary file \<open>fd\<close> is being written.\<close>

definition writing :: "'p \<Rightarrow> 'p \<Rightarrow> 'p disk \<Rightarrow> nat \<Rightarrow> 'p disk \<Rightarrow> bool" where
  "writing q t s0 fd s \<longleftrightarrow>
     unaliased q t s0 \<and> unaliased q t s \<and> untouched t s0 s \<and> current s q = Some fd"

text \<open>Every disk since \<open>w0\<close> satisfies \<open>P\<close>.\<close>

definition throughout :: "('p disk \<Rightarrow> bool) \<Rightarrow> 'p os \<Rightarrow> 'p os \<Rightarrow> bool" where
  "throughout P w0 w \<longleftrightarrow> P (disk w) \<and> (\<exists>new. past w = new @ past w0 \<and> (\<forall>s \<in> set new. P s))"

section \<open>Lemmas\<close>

lemma effect_simps [simp]:
  "disk (effect f w) = f (disk w)" "past (effect f w) = disk w # past w"
  "sched (effect f w) = sched w" "calls (effect f w) = calls w + 1"
  by (simp_all add: effect_def)

lemma current_in_dirs: "dirs s \<noteq> [] \<Longrightarrow> current s \<in> set (dirs s)"
  by (simp add: current_def)

lemma set_inode_simps [simp]:
  "dirs (set_inode i n s) = dirs s" "next_inode (set_inode i n s) = next_inode s"
  "inodes (set_inode i n s) = (inodes s)(i := n)" "current (set_inode i n s) = current s"
  by (simp_all add: set_inode_def current_def)

lemma set_entry_simps [simp]:
  "dirs (set_entry p i s) = (current s)(p := i) # dirs s" "next_inode (set_entry p i s) = next_inode s"
  "inodes (set_entry p i s) = inodes s" "current (set_entry p i s) = (current s)(p := i)"
  by (simp_all add: set_entry_def current_def)

lemma settle_simps [simp]:
  "current (settle s) = current s" "inodes (settle s) = inodes s" "visible (settle s) t = visible s t"
  "dirs (settle s) = [current s]" "next_inode (settle s) = next_inode s"
  by (simp_all add: settle_def current_def visible_def)

lemma recover_settle:
  assumes "dirs s \<noteq> []"
  shows "recover (settle s) p \<subseteq> recover s p"
  unfolding recover_def settle_def using current_in_dirs [OF assms] by auto

text \<open>Once the directory is on the disk, a file whose bytes are there too is what a power cut leaves.\<close>

lemma recover_settled:
  assumes "current s t = Some i" and "synced (inodes s i)"
  shows "recover (settle s) t = {Some (data (inodes s i))}"
  using assms by (auto simp: recover_def settle_def)

lemma untouched_refl [simp]: "untouched t s s"
  by (simp add: untouched_def)

lemma recover_untouched:
  assumes "untouched t s0 s"
  shows "recover s t = recover s0 t"
proof -
  have rec: "recover r t = {c. \<exists>e \<in> (\<lambda>d. d t) ` set (dirs r). possible (inodes r) e c}" for r
    by (simp add: recover_def)
  have "possible (inodes s) e c = possible (inodes s0) e c" if "e \<in> (\<lambda>d. d t) ` set (dirs s0)" for e c
    using that assms by (cases e) (auto simp: untouched_def)
  then show ?thesis
    using assms unfolding rec by (auto simp: untouched_def)
qed

lemma visible_untouched:
  assumes "untouched t s0 s" and "dirs s0 \<noteq> []"
  shows "visible s t = visible s0 t"
  using assms current_in_dirs [OF assms(2)]
  by (cases "current s0 t") (auto simp: untouched_def visible_def)

lemma unaliased_neq: "unaliased q t s \<Longrightarrow> q \<noteq> t \<and> t \<noteq> q"
  by (auto simp: unaliased_def)

lemma writing_neq: "writing q t s0 fd s \<Longrightarrow> q \<noteq> t \<and> t \<noteq> q"
  by (auto simp: writing_def unaliased_def)

lemma throughout_refl: "P (disk w) \<Longrightarrow> throughout P w w"
  by (simp add: throughout_def)

lemma throughout_effect: "throughout P w0 w \<Longrightarrow> P (f (disk w)) \<Longrightarrow> throughout P w0 (effect f w)"
  by (auto simp: throughout_def)

lemma throughout_mono:
  "throughout P w0 w \<Longrightarrow> (\<And>s. P s \<Longrightarrow> Q s) \<Longrightarrow> throughout Q w0 w"
  by (auto simp: throughout_def)

subsection \<open>The calls before the rename\<close>

lemma open_truncated_writing:
  assumes "unaliased q t s0" and "open_truncated q s0 = (fd, s)"
  shows "writing q t s0 fd s \<and> data (inodes s fd) = []"
proof (cases "current s0 q")
  case None
  then have s: "fd = next_inode s0"
    "s = set_entry q (Some fd) (set_inode fd \<lparr>data = [], synced = False\<rparr> (s0\<lparr>next_inode := fd + 1\<rparr>))"
    using assms(2) by (auto simp: open_truncated_def)
  have c: "current s = (current s0)(q := Some fd)" "dirs s = current s # dirs s0"
    by (simp_all add: s(2) current_def)
  have old: "d p \<noteq> Some fd" if "d \<in> set (dirs s0)" for d p
    using that assms(1) s(1) unfolding unaliased_def by blast
  have in0: "current s0 \<in> set (dirs s0)"
    using assms(1) by (auto simp: unaliased_def intro: current_in_dirs)
  have "unaliased q t s"
    using assms(1) c old old [OF in0, of t, symmetric] in0 s unfolding unaliased_def
    by (auto simp: less_Suc_eq split: if_splits)
  moreover have "untouched t s0 s"
    using c old in0 s unaliased_neq [OF assms(1)] unfolding untouched_def by auto
  ultimately show ?thesis
    using assms(1) c s(2) by (simp add: writing_def)
next
  case (Some i)
  then have "s = set_inode i \<lparr>data = [], synced = False\<rparr> s0" "fd = i"
    using assms(2) by (auto simp: open_truncated_def)
  then show ?thesis
    using assms(1) Some by (auto simp: writing_def unaliased_def untouched_def)
qed

lemma writing_set_inode:
  assumes "writing q t s0 fd s"
  shows "writing q t s0 fd (set_inode fd n s)"
proof -
  have "Some fd \<notin> (\<lambda>d. d t) ` set (dirs s)"
    using assms by (auto simp: writing_def unaliased_def)
  moreover have "d t \<in> (\<lambda>d. d t) ` set (dirs s)" if "d \<in> set (dirs s0)" for d
    using assms that by (simp add: writing_def untouched_def)
  ultimately have "d t \<noteq> Some fd" if "d \<in> set (dirs s0)" for d
    using that by metis
  then show ?thesis
    using assms by (auto simp: writing_def unaliased_def untouched_def)
qed

lemma writing_append_data: "writing q t s0 fd s \<Longrightarrow> writing q t s0 fd (append_data fd bs s)"
  by (simp add: append_data_def writing_set_inode)

lemma writing_mark_synced: "writing q t s0 fd s \<Longrightarrow> writing q t s0 fd (mark_synced fd s)"
  by (simp add: mark_synced_def writing_set_inode)

definition progress :: "(nat \<Rightarrow> sys_outcome) \<Rightarrow> bool" where
  "progress sc \<longleftrightarrow> (\<forall>i. sc i \<noteq> Completes 0)"

lemma write_loop_spec:
  assumes "progress (sched w)" and "writing q t s0 fd (disk w)" and "throughout (writing q t s0 fd) w0 w"
    and "data (inodes (disk w) fd) = take n content" and "n \<le> length content"
  shows "\<exists>ok w'. write_loop fd content n w = Some (ok, w') \<and> sched w' = sched w \<and>
           throughout (writing q t s0 fd) w0 w' \<and> (ok \<longrightarrow> data (inodes (disk w') fd) = content) \<and>
           (\<not> ok \<longrightarrow> (\<exists>i. sched w i = Fails))"
  using assms
proof (induction "length content - n" arbitrary: n w rule: less_induct)
  case less
  show ?case
  proof (cases "n < length content")
    case False
    then show ?thesis
      using less.prems by (auto simp: write_loop.simps intro!: exI [of _ True])
  next
    case True
    show ?thesis
    proof (cases "sched w (calls w)")
      case Fails
      then have "write_loop fd content n w = Some (False, effect id w)"
        using True by (simp add: write_loop.simps sys_write_def)
      then show ?thesis
        using less.prems(2) Fails throughout_effect [OF less.prems(3), of id] by auto
    next
      case (Completes m)
      let ?m = "min m (length content - n)"
      let ?w = "effect (append_data fd (take m (drop n content))) w"
      have "m \<noteq> 0"
        using less.prems(1) Completes unfolding progress_def by metis
      then have m: "0 < ?m"
        using True by simp
      have step: "write_loop fd content n w = write_loop fd content (n + ?m) ?w"
        using True Completes by (simp add: write_loop.simps [of fd content n] sys_write_def)
      have "take m (drop n content) = take ?m (drop n content)"
        by (simp add: min_def)
      then have data: "data (inodes (disk ?w) fd) = take (n + ?m) content"
        using less.prems(4) by (simp add: append_data_def take_add)
      have "writing q t s0 fd (disk ?w)"
        using less.prems(2) by (simp add: writing_append_data)
      moreover have "throughout (writing q t s0 fd) w0 ?w"
        using less.prems(2,3) by (intro throughout_effect writing_append_data)
      ultimately show ?thesis
        unfolding step using less.hyps [of "n + ?m" ?w] less.prems(1) data m True by auto
    qed
  qed
qed

subsection \<open>The rename and the calls after it\<close>

text \<open>A power cut now leaves the old contents or the new ones.\<close>

definition safe :: "'p \<Rightarrow> 'p \<Rightarrow> 'p disk \<Rightarrow> bytes \<Rightarrow> 'p disk \<Rightarrow> bool" where
  "safe q t s0 content s \<longleftrightarrow> unaliased q t s \<and> recover s t \<subseteq> recover s0 t \<union> {Some content}"

lemma writing_safe: "writing q t s0 fd s \<Longrightarrow> safe q t s0 content s"
  using recover_untouched [of t s0 s] by (auto simp: writing_def safe_def)

lemma writing_visible: "writing q t s0 fd s \<Longrightarrow> visible s t = visible s0 t"
  using visible_untouched [of t s0 s] by (auto simp: writing_def unaliased_def)

lemma writing_unlink:
  assumes "writing q t s0 fd s"
  shows "unaliased q t (set_entry q None s) \<and> untouched t s0 (set_entry q None s)"
proof -
  have "current s \<in> set (dirs s)"
    using assms by (auto simp: writing_def unaliased_def intro: current_in_dirs)
  then have "(\<lambda>d. d t) ` set (dirs (set_entry q None s)) = (\<lambda>d. d t) ` set (dirs s)"
    using writing_neq [OF assms] by auto
  then have "untouched t s0 (set_entry q None s)"
    using assms writing_neq [OF assms] by (simp add: writing_def untouched_def)
  moreover have "unaliased q t (set_entry q None s)"
    using assms \<open>current s \<in> set (dirs s)\<close> unfolding writing_def unaliased_def by simp
  ultimately show ?thesis by simp
qed

lemma sys_unlink_safe:
  assumes "writing q t s0 fd (disk w)" and "throughout (safe q t s0 content) w0 w"
  shows "throughout (safe q t s0 content) w0 (sys_unlink q w)
       \<and> visible (disk (sys_unlink q w)) t = visible s0 t"
proof (cases "sched w (calls w)")
  case Fails
  then show ?thesis
    using assms writing_safe [OF assms(1)] writing_visible [OF assms(1)]
    by (auto simp: sys_unlink_def intro: throughout_effect)
next
  case (Completes n)
  have ne: "dirs s0 \<noteq> []"
    using assms(1) by (simp add: writing_def unaliased_def)
  have u: "untouched t s0 (set_entry q None (disk w))"
    using writing_unlink [OF assms(1)] by simp
  then have "safe q t s0 content (set_entry q None (disk w))"
    "visible (set_entry q None (disk w)) t = visible s0 t"
    using writing_unlink [OF assms(1)] recover_untouched [OF u] visible_untouched [OF u ne]
    by (auto simp: safe_def)
  then show ?thesis
    using assms Completes by (auto simp: sys_unlink_def intro: throughout_effect)
qed

lemma move_entry_safe:
  assumes "writing q t s0 fd s" and "synced (inodes s fd)" and "data (inodes s fd) = content"
  shows "safe q t s0 content (move_entry q t s)"
    and "visible (move_entry q t s) t = Some content"
    and "current (move_entry q t s) t = Some fd"
proof -
  let ?s = "move_entry q t s"
  have c: "current s q = Some fd" "current s \<in> set (dirs s)"
    using assms(1) by (auto simp: writing_def unaliased_def intro: current_in_dirs)
  have d: "dirs ?s = (current s)(t := Some fd, q := None) # dirs s" "inodes ?s = inodes s"
    "next_inode ?s = next_inode s" "current ?s = (current s)(t := Some fd, q := None)"
    using c by (simp_all add: move_entry_def current_def)
  have "recover ?s t \<subseteq> recover s t \<union> {Some content}"
    unfolding recover_def d using assms(2,3) writing_neq [OF assms(1)] by auto
  moreover have "recover s t = recover s0 t"
    using assms(1) by (simp add: writing_def recover_untouched)
  moreover have "unaliased q t ?s"
  proof -
    have u: "unaliased q t s"
      using assms(1) by (simp add: writing_def)
    then have "fd < next_inode s"
      using c unfolding unaliased_def by blast
    then show ?thesis
      using u c(2) unfolding unaliased_def d by simp
  qed
  ultimately show "safe q t s0 content ?s"
    by (simp add: safe_def)
  show "visible ?s t = Some content" "current ?s t = Some fd"
    using assms(3) writing_neq [OF assms(1)] by (simp_all add: visible_def d)
qed

lemma settle_safe:
  assumes "safe q t s0 content s"
  shows "safe q t s0 content (settle s)"
proof -
  have ne: "dirs s \<noteq> []"
    using assms by (simp add: safe_def unaliased_def)
  have "unaliased q t (settle s)"
    using assms current_in_dirs [OF ne] unfolding safe_def unaliased_def by auto
  then show ?thesis
    using assms recover_settle [OF ne, of t] by (auto simp: safe_def)
qed

lemma sync_directory_safe:
  assumes "safe q t s0 content (disk w)" and "throughout (safe q t s0 content) w0 w"
  shows "throughout (safe q t s0 content) w0 (sync_directory t w)
       \<and> visible (disk (sync_directory t w)) t = visible (disk w) t"
  using assms settle_safe [OF assms(1)]
  by (auto simp: sync_directory_def sys_open_dir_def sys_fsync_dir_def
      intro!: throughout_effect split: sys_outcome.split bool.split)

lemma tempPath_neq [simp]: "tempPath t \<noteq> t" "t \<noteq> tempPath t"
  by (simp_all add: tempPath_def str_def)

subsection \<open>All together\<close>

text \<open>The new contents are in the temporary file and synchronised.\<close>

definition staged :: "'p \<Rightarrow> 'p \<Rightarrow> 'p disk \<Rightarrow> nat \<Rightarrow> bytes \<Rightarrow> 'p disk \<Rightarrow> bool" where
  "staged q t s0 fd content s \<longleftrightarrow>
     writing q t s0 fd s \<and> synced (inodes s fd) \<and> data (inodes s fd) = content"

text \<open>Success, and durably so unless the directory's path is empty.\<close>

definition committed :: "path \<Rightarrow> bytes \<Rightarrow> unit result \<Rightarrow> path os \<Rightarrow> bool" where
  "committed t content r w \<longleftrightarrow>
     IsOk r \<and> (dirPath t \<noteq> [] \<longrightarrow> recover (disk w) t = {Some content})"

lemma committed_sync:
  assumes "staged (tempPath t) t s0 fd content s" and "\<forall>i. sched w i \<noteq> Fails" and "disk w = move_entry (tempPath t) t s"
  shows "committed t content (Success ()) (sync_directory t w)"
proof -
  obtain m n where o: "sched w (calls w) = Completes m" "sched w (Suc (calls w)) = Completes n"
    using assms(2) by (metis sys_outcome.exhaust)
  have c: "current (disk w) t = Some fd" "inodes (disk w) = inodes s"
    using assms(1,3) move_entry_safe(3) [of "tempPath t" t s0 fd s] by (simp_all add: staged_def move_entry_def)
  have "recover (disk (sync_directory t w)) t = {Some content}" if "dirPath t \<noteq> []"
    using that assms(1) o c recover_settled [OF c(1)]
    by (simp add: sync_directory_def sys_open_dir_def sys_fsync_dir_def staged_def)
  then show ?thesis
    by (simp add: committed_def)
qed

lemma replace_rename:
  assumes "staged (tempPath t) t s0 fd content (disk w)" and "throughout (safe (tempPath t) t s0 content) w0 w"
  shows "\<exists>r w'. (case sys_rename (tempPath t) t w of
       (False, w) \<Rightarrow> Some (Failure (replace_error ''rename failed''), sys_unlink (tempPath t) w)
     | (True, w) \<Rightarrow> Some (Success (), sync_directory t w)) = Some (r, w') \<and>
     throughout (safe (tempPath t) t s0 content) w0 w' \<and>
     visible (disk w') t = (if IsOk r then Some content else visible s0 t) \<and>
     ((\<forall>i. sched w i \<noteq> Fails) \<longrightarrow> committed t content r w')"
proof -
  have w: "writing (tempPath t) t s0 fd (disk w)" "current (disk w) (tempPath t) = Some fd"
    using assms(1) by (simp_all add: staged_def writing_def)
  show ?thesis
  proof (cases "sched w (calls w)")
    case Fails
    have "throughout (safe (tempPath t) t s0 content) w0 (effect id w)"
      using assms(2) writing_safe [OF w(1)] by (intro throughout_effect) simp_all
    moreover have "writing (tempPath t) t s0 fd (disk (effect id w))"
      using w by simp
    ultimately show ?thesis
      using sys_unlink_safe [of "tempPath t" t s0 fd "effect id w" content w0] Fails
      by (auto simp: sys_rename_def simp del: effect_simps(1))
  next
    case (Completes n)
    let ?w = "effect (move_entry (tempPath t) t) w"
    have "safe (tempPath t) t s0 content (disk ?w)" "visible (disk ?w) t = Some content"
      using assms(1) move_entry_safe [of "tempPath t" t s0 fd "disk w" content] by (simp_all add: staged_def)
    moreover from this have "throughout (safe (tempPath t) t s0 content) w0 ?w"
      using assms(2) by (intro throughout_effect) simp_all
    ultimately show ?thesis
      using sync_directory_safe [of "tempPath t" t s0 content ?w w0] Completes w(2) committed_sync [OF assms(1), of ?w]
      by (simp add: sys_rename_def)
  qed
qed

lemma replace_fsync:
  assumes "writing (tempPath t) t s0 fd (disk w)" and "data (inodes (disk w) fd) = content"
    and "throughout (safe (tempPath t) t s0 content) w0 w"
  shows "\<exists>r w'. (case sys_fsync fd w of
       (False, w) \<Rightarrow> Some (Failure (replace_error ''fsync (temp) failed''), sys_unlink (tempPath t) w)
     | (True, w) \<Rightarrow>
        (case sys_rename (tempPath t) t w of
           (False, w) \<Rightarrow> Some (Failure (replace_error ''rename failed''), sys_unlink (tempPath t) w)
         | (True, w) \<Rightarrow> Some (Success (), sync_directory t w))) = Some (r, w') \<and>
     throughout (safe (tempPath t) t s0 content) w0 w' \<and>
     visible (disk w') t = (if IsOk r then Some content else visible s0 t) \<and>
     ((\<forall>i. sched w i \<noteq> Fails) \<longrightarrow> committed t content r w')"
proof (cases "sched w (calls w)")
  case Fails
  have "throughout (safe (tempPath t) t s0 content) w0 (effect id w)"
    using assms(3) writing_safe [OF assms(1)] by (intro throughout_effect) simp_all
  moreover have "writing (tempPath t) t s0 fd (disk (effect id w))"
    using assms(1) by simp
  ultimately show ?thesis
    using sys_unlink_safe [of "tempPath t" t s0 fd "effect id w" content w0] Fails
    by (auto simp: sys_fsync_def simp del: effect_simps(1))
next
  case (Completes n)
  let ?w = "effect (mark_synced fd) w"
  have wr: "writing (tempPath t) t s0 fd (disk ?w)"
    using assms(1) by (simp add: writing_mark_synced)
  then have "staged (tempPath t) t s0 fd content (disk ?w)"
    using assms(2) by (simp add: staged_def mark_synced_def)
  moreover have "throughout (safe (tempPath t) t s0 content) w0 ?w"
    using assms(3) writing_safe [OF wr] by (intro throughout_effect) simp_all
  ultimately show ?thesis
    using replace_rename [of t s0 fd content ?w w0] Completes
    by (simp add: sys_fsync_def del: effect_simps(1))
qed

lemma replace_spec:
  assumes "unaliased (tempPath t) t (disk w)" and "progress (sched w)"
  shows "\<exists>r w'. AtomicallyReplaceFileContents t content w = Some (r, w') \<and>
     throughout (safe (tempPath t) t (disk w) content) w w' \<and>
     visible (disk w') t = (if IsOk r then Some content else visible (disk w) t) \<and>
     ((\<forall>i. sched w i \<noteq> Fails) \<longrightarrow> committed t content r w')"
proof -
  have s0: "safe (tempPath t) t (disk w) content (disk w)"
    using assms(1) by (auto simp: safe_def)
  show ?thesis
  proof (cases "sched w (calls w)")
    case Fails
    then have "AtomicallyReplaceFileContents t content w = Some (Failure (replace_error ''open (temp) failed''), effect id w)"
      by (simp add: AtomicallyReplaceFileContents_def sys_open_def)
    then show ?thesis
      using s0 Fails throughout_effect [OF throughout_refl, of "safe (tempPath t) t (disk w) content" w id] by auto
  next
    case (Completes n)
    obtain fd s where o: "open_truncated (tempPath t) (disk w) = (fd, s)"
      by fastforce
    let ?w = "effect (snd \<circ> open_truncated (tempPath t)) w"
    have op: "sys_open (tempPath t) w = (Some fd, ?w)" and s: "disk ?w = s"
      using Completes o by (simp_all add: sys_open_def)
    have wr: "writing (tempPath t) t (disk w) fd (disk ?w)" "data (inodes (disk ?w) fd) = take 0 content"
      using open_truncated_writing [OF assms(1) o] s by (simp_all del: effect_simps(1))
    obtain ok w2 where loop: "write_loop fd content 0 ?w = Some (ok, w2)" "sched w2 = sched ?w"
      "throughout (writing (tempPath t) t (disk w) fd) ?w w2" "ok \<longrightarrow> data (inodes (disk w2) fd) = content"
      "\<not> ok \<longrightarrow> (\<exists>i. sched ?w i = Fails)"
      using write_loop_spec [of ?w "tempPath t" t "disk w" fd ?w 0 content] wr assms(2)
        throughout_refl [of "writing (tempPath t) t (disk w) fd" ?w] by auto
    have "throughout (safe (tempPath t) t (disk w) content) ?w w2"
      using loop(3) by (rule throughout_mono) (rule writing_safe)
    then have th: "throughout (safe (tempPath t) t (disk w) content) w w2"
      using s0 by (auto simp: throughout_def)
    have w2: "writing (tempPath t) t (disk w) fd (disk w2)"
      using loop(3) by (simp add: throughout_def)
    show ?thesis
    proof (cases ok)
      case True
      then show ?thesis
        using replace_fsync [OF w2 _ th] loop
        by (simp add: AtomicallyReplaceFileContents_def op)
    next
      case False
      then show ?thesis
        using sys_unlink_safe [OF w2 th] loop
        by (auto simp: AtomicallyReplaceFileContents_def op)
    qed
  qed
qed

section \<open>Properties\<close>

text \<open>
  C18. \<^bold>\<open>Replacing the configuration file is atomic.\<close>  The call returns, whatever calls fail and however
  short the writes are, as long as \<^verbatim>\<open>write\<close> makes progress.  At every point on the way a power cut
  leaves under the target's name what could be there before, or the complete new contents: never a
  partial file.  Success means that the new contents are in place, failure that the old ones are.
\<close>

theorem replace_atomic:
  assumes "unaliased (tempPath t) t (disk w)" and "progress (sched w)"
  shows "\<exists>r w'. AtomicallyReplaceFileContents t content w = Some (r, w') \<and>
     throughout (\<lambda>s. recover s t \<subseteq> recover (disk w) t \<union> {Some content}) w w' \<and>
     visible (disk w') t = (if IsOk r then Some content else visible (disk w) t) \<and>
     unaliased (tempPath t) t (disk w')"
proof -
  obtain r w' where r: "AtomicallyReplaceFileContents t content w = Some (r, w')"
    "throughout (safe (tempPath t) t (disk w) content) w w'"
    "visible (disk w') t = (if IsOk r then Some content else visible (disk w) t)"
    using replace_spec [OF assms] by blast
  moreover have "throughout (\<lambda>s. recover s t \<subseteq> recover (disk w) t \<union> {Some content}) w w'"
    using r(2) by (rule throughout_mono) (simp add: safe_def)
  moreover have "unaliased (tempPath t) t (disk w')"
    using r(2) by (simp add: throughout_def safe_def)
  ultimately show ?thesis by blast
qed

text \<open>A disk that holds an old configuration file, and a system that writes three bytes at a time
  and fails the fifth call.\<close>

definition sample_disk :: "path disk" where
  "sample_disk = \<lparr>dirs = [(\<lambda>p. if p = str ''c.json'' then Some 0 else None)],
                  inodes = (\<lambda>i. \<lparr>data = str ''{}'', synced = True\<rparr>), next_inode = 1\<rparr>"

definition sample_os :: "path os" where
  "sample_os = \<lparr>disk = sample_disk, past = [], sched = (\<lambda>i. if i = 4 then Fails else Completes 3), calls = 0\<rparr>"

lemma unaliased_sample: "unaliased (tempPath (str ''c.json'')) (str ''c.json'') sample_disk"
  by (auto simp: unaliased_def sample_disk_def current_def tempPath_def str_def split: if_splits)

lemma sample_os_ok:
  "unaliased (tempPath (str ''c.json'')) (str ''c.json'') (disk sample_os)" "progress (sched sample_os)"
  "dirPath (str ''c.json'') \<noteq> []"
  using unaliased_sample by (simp_all add: sample_os_def progress_def dirPath_def slash_def str_def)

theorem replace_atomic_witness:
  "\<exists>r w'. AtomicallyReplaceFileContents (str ''c.json'') (str ''{new}'') sample_os = Some (r, w') \<and>
     throughout (\<lambda>s. recover s (str ''c.json'')
                      \<subseteq> recover (disk sample_os) (str ''c.json'') \<union> {Some (str ''{new}'')}) sample_os w' \<and>
     visible (disk w') (str ''c.json'') =
       (if IsOk r then Some (str ''{new}'') else visible (disk sample_os) (str ''c.json'')) \<and>
     unaliased (tempPath (str ''c.json'')) (str ''c.json'') (disk w')"
  by (rule replace_atomic) (fact sample_os_ok)+

text \<open>
  \<^bold>\<open>A replacement that succeeds is durable.\<close>  When no system call fails, the call succeeds and after
  it a power cut leaves exactly the new contents, provided the target does not lie directly in the
  root directory: there the code computes an empty directory path, whose \<^verbatim>\<open>open\<close> fails, and skips
  the \<^verbatim>\<open>fsync\<close>.
\<close>

theorem replace_durable:
  assumes "unaliased (tempPath t) t (disk w)" and "\<forall>i. \<exists>n > 0. sched w i = Completes n" and "dirPath t \<noteq> []"
  shows "\<exists>w'. AtomicallyReplaceFileContents t content w = Some (Success (), w') \<and>
     recover (disk w') t = {Some content}"
proof -
  have "\<forall>i. sched w i \<noteq> Fails" "progress (sched w)"
    using assms(2) by (metis sys_outcome.distinct(1), metis progress_def sys_outcome.inject less_irrefl)
  then show ?thesis
    using replace_spec [OF assms(1), of content] assms(3) by (auto simp: committed_def)
qed

theorem replace_durable_witness:
  "\<exists>w'. AtomicallyReplaceFileContents (str ''c.json'') (str ''{new}'')
          (sample_os\<lparr>sched := \<lambda>_. Completes 3\<rparr>) = Some (Success (), w') \<and>
     recover (disk w') (str ''c.json'') = {Some (str ''{new}'')}"
  by (rule replace_durable) (use sample_os_ok in \<open>simp_all add: sample_os_def\<close>)

end
