(* ===== verification/Configuration.thy ===== *)
theory Configuration
  imports AtomicReplace
begin

text \<open>
  \<^verbatim>\<open>src/src/Configuration\<close>: the settings (\<^verbatim>\<open>AppConfig.h\<close>) and their JSON store
  (\<^verbatim>\<open>JsonConfigStore.cpp\<close>).

  The JSON library (\<^verbatim>\<open>nlohmann::json\<close>) is a parameter: the record \<open>Json\<close> holds the operations
  the store uses.  An operation that may throw returns the text of the exception on the left; what
  the store relies on is in \<open>json_laws\<close>.  An exception that leaves a function is \<open>Throws\<close>.
  A \<^verbatim>\<open>wchar_t\<close> has the 16 bits it has on Windows, where the service runs.
\<close>

section \<open>The JSON library\<close>

datatype json_exception = parse_error cstring | other_exception cstring

record 'j Json =
  json_null :: 'j
  json_set :: "cstring \<Rightarrow> 'j \<Rightarrow> 'j \<Rightarrow> 'j"
  json_of_unsigned :: "u64 \<Rightarrow> 'j"
  json_of_int :: "u32 \<Rightarrow> 'j"
  json_of_string :: "cstring \<Rightarrow> 'j"
  json_of_bool :: "bool \<Rightarrow> 'j"
  json_at :: "cstring \<Rightarrow> 'j \<Rightarrow> cstring + 'j"
  json_contains :: "cstring \<Rightarrow> 'j \<Rightarrow> bool"
  json_get_u32 :: "'j \<Rightarrow> cstring + u32"
  json_get_u64 :: "'j \<Rightarrow> cstring + u64"
  json_get_int :: "'j \<Rightarrow> cstring + u32"
  json_get_string :: "'j \<Rightarrow> cstring + cstring"
  json_get_bool :: "'j \<Rightarrow> cstring + bool"
  json_dump :: "'j \<Rightarrow> cstring + bytes"
  json_parse :: "bytes \<Rightarrow> json_exception + 'j"

datatype 'a call = Returns 'a | Throws cstring

section \<open>AppConfig\<close>

type_synonym wide = "16 word list"

text \<open>A wide literal; the solidus stands for the backslash, which a literal of HOL cannot contain.\<close>

definition wstr :: "string \<Rightarrow> wide" where
  "wstr s = map (\<lambda>c. if c = CHR ''/'' then 0x5C else of_char c) s"

text \<open>What \<^verbatim>\<open>c_str()\<close> of a wide string means to a system call.\<close>

definition wide_c_str :: "wide \<Rightarrow> wide" where
  "wide_c_str = takeWhile (\<lambda>c. c \<noteq> 0)"

text \<open>A number in decimal, as \<^verbatim>\<open>std::to_wstring\<close> and \<^verbatim>\<open>winrt::to_hstring\<close> print it, over any characters.\<close>

fun decimal :: "(nat \<Rightarrow> 'c) \<Rightarrow> nat \<Rightarrow> 'c list" where
  "decimal digit n = (if n < 10 then [digit n] else decimal digit (n div 10) @ [digit (n mod 10)])"

declare decimal.simps [simp del]

lemma decimal_not_Nil [simp]: "decimal digit n \<noteq> []"
  by (subst decimal.simps) simp

lemma decimal_inject:
  assumes "inj_on digit {..<10}"
  shows "decimal digit m = decimal digit n \<Longrightarrow> m = n"
  using assms
proof (induction digit m arbitrary: n rule: decimal.induct)
  case (1 digit m)
  have digit: "a = b" if "digit a = digit b" "a < 10" "b < 10" for a b
    using that "1.prems"(2) by (simp add: inj_on_def)
  show ?case
  proof (cases "m < 10")
    case True
    then have "decimal digit n = [digit m]"
      using 1 by (simp add: decimal.simps [of digit m])
    moreover have "n < 10"
    proof (rule ccontr)
      assume "\<not> n < 10"
      then have "length (decimal digit n) \<noteq> 1"
        by (simp add: decimal.simps [of digit n])
      then show False using calculation by simp
    qed
    ultimately show ?thesis
      using True by (simp add: decimal.simps [of digit n] digit)
  next
    case False
    have "\<not> n < 10"
    proof
      assume "n < 10"
      then have "length (decimal digit m) = 1"
        using "1.prems"(1) by (simp add: decimal.simps [of digit n])
      then show False
        using False by (simp add: decimal.simps [of digit m])
    qed
    then have "decimal digit (m div 10) = decimal digit (n div 10)" "digit (m mod 10) = digit (n mod 10)"
      using "1.prems"(1) False by (simp_all add: decimal.simps [of digit m] decimal.simps [of digit n])
    then have "m div 10 = n div 10" "m mod 10 = n mod 10"
      using "1.IH" [OF False] "1.prems"(2) digit by simp_all
    then show ?thesis
      by (metis div_mult_mod_eq)
  qed
qed

record AppConfig =
  schemaVersion :: u32
  stateDirectory :: wide
  logDirectory :: wide
  minimumLogLevel :: u32
  ipcPipeName :: wide
  cacheEnabled :: bool
  backingStoreDataFile :: wide
  cacheCapacityBytes :: u64
  cacheMaxEntryCount :: u64
  cacheShardCount :: u32
  cfg_evictionPolicy :: cstring
  cfg_writePolicy :: cstring
  cfg_flushPolicy :: cstring
  cfg_flushIntervalSeconds :: u32

text \<open>The default member initialisers.\<close>

definition default_AppConfig :: AppConfig where
  "default_AppConfig =
     \<lparr>schemaVersion = 2,
      stateDirectory = wstr ''C:/ProgramData/QuantumCache/State'',
      logDirectory = wstr ''C:/ProgramData/QuantumCache/Logs'',
      minimumLogLevel = 2,
      ipcPipeName = wstr ''//./pipe/QuantumCacheControl'',
      cacheEnabled = True,
      backingStoreDataFile = wstr ''C:/ProgramData/QuantumCache/State/backingstore.data'',
      cacheCapacityBytes = 256 * 1024 * 1024,
      cacheMaxEntryCount = 100000,
      cacheShardCount = 16,
      cfg_evictionPolicy = str ''LeastRecentlyUsed'',
      cfg_writePolicy = str ''WriteBackDeferred'',
      cfg_flushPolicy = str ''Manual'',
      cfg_flushIntervalSeconds = 30\<rparr>"

section \<open>Conversions\<close>

definition NarrowFromWide :: "wide \<Rightarrow> cstring" where
  "NarrowFromWide w = map ucast w"

definition WideFromNarrow :: "cstring \<Rightarrow> wide" where
  "WideFromNarrow s = map ucast s"

definition ToJson :: "'j Json \<Rightarrow> AppConfig \<Rightarrow> 'j" where
  "ToJson J config =
     (let j = json_null J;
          j = json_set J (str ''schemaVersion'') (json_of_unsigned J (ucast (schemaVersion config))) j;
          j = json_set J (str ''stateDirectory'') (json_of_string J (NarrowFromWide (stateDirectory config))) j;
          j = json_set J (str ''logDirectory'') (json_of_string J (NarrowFromWide (logDirectory config))) j;
          j = json_set J (str ''minimumLogLevel'') (json_of_int J (minimumLogLevel config)) j;
          j = json_set J (str ''ipcPipeName'') (json_of_string J (NarrowFromWide (ipcPipeName config))) j;
          j = json_set J (str ''cacheEnabled'') (json_of_bool J (cacheEnabled config)) j;
          j = json_set J (str ''backingStoreDataFile'') (json_of_string J (NarrowFromWide (backingStoreDataFile config))) j;
          j = json_set J (str ''cacheCapacityBytes'') (json_of_unsigned J (cacheCapacityBytes config)) j;
          j = json_set J (str ''cacheMaxEntryCount'') (json_of_unsigned J (cacheMaxEntryCount config)) j;
          j = json_set J (str ''cacheShardCount'') (json_of_unsigned J (ucast (cacheShardCount config))) j;
          j = json_set J (str ''evictionPolicy'') (json_of_string J (cfg_evictionPolicy config)) j;
          j = json_set J (str ''writePolicy'') (json_of_string J (cfg_writePolicy config)) j;
          j = json_set J (str ''flushPolicy'') (json_of_string J (cfg_flushPolicy config)) j;
          j = json_set J (str ''flushIntervalSeconds'') (json_of_unsigned J (ucast (cfg_flushIntervalSeconds config))) j
      in j)"

text \<open>Inside the \<^verbatim>\<open>try\<close> block: the first exception ends the block.\<close>

definition then_try :: "'e + 'a \<Rightarrow> ('a \<Rightarrow> 'e + 'b) \<Rightarrow> 'e + 'b" where
  "then_try m k = (case m of Inl e \<Rightarrow> Inl e | Inr x \<Rightarrow> k x)"

lemma then_try_simps [simp]: "then_try (Inl e) k = Inl e" "then_try (Inr x) k = k x"
  by (simp_all add: then_try_def)

definition field :: "'j Json \<Rightarrow> ('j \<Rightarrow> cstring + 'a) \<Rightarrow> string \<Rightarrow> 'j \<Rightarrow> cstring + 'a" where
  "field J get k j = then_try (json_at J (str k) j) get"

definition optional_field :: "'j Json \<Rightarrow> ('j \<Rightarrow> cstring + 'a) \<Rightarrow> string \<Rightarrow> 'a \<Rightarrow> 'j \<Rightarrow> cstring + 'a" where
  "optional_field J get k initial j =
     (if json_contains J (str k) j then field J get k j else Inr initial)"

definition required_fields :: "'j Json \<Rightarrow> 'j \<Rightarrow> AppConfig \<Rightarrow> cstring + AppConfig" where
  "required_fields J j config =
     then_try (field J (json_get_u32 J) ''schemaVersion'' j) (\<lambda>x. let config = config\<lparr>schemaVersion := x\<rparr> in
     then_try (field J (json_get_string J) ''stateDirectory'' j) (\<lambda>x. let config = config\<lparr>stateDirectory := WideFromNarrow x\<rparr> in
     then_try (field J (json_get_string J) ''logDirectory'' j) (\<lambda>x. let config = config\<lparr>logDirectory := WideFromNarrow x\<rparr> in
     then_try (field J (json_get_int J) ''minimumLogLevel'' j) (\<lambda>x. let config = config\<lparr>minimumLogLevel := x\<rparr> in
     then_try (field J (json_get_string J) ''ipcPipeName'' j) (\<lambda>x.
       Inr (config\<lparr>ipcPipeName := WideFromNarrow x\<rparr>))))))"

definition optional_fields :: "'j Json \<Rightarrow> 'j \<Rightarrow> AppConfig \<Rightarrow> cstring + AppConfig" where
  "optional_fields J j config =
     then_try (optional_field J (json_get_bool J) ''cacheEnabled'' (cacheEnabled config) j)
       (\<lambda>x. let config = config\<lparr>cacheEnabled := x\<rparr> in
     then_try (if json_contains J (str ''backingStoreDataFile'') j
               then then_try (field J (json_get_string J) ''backingStoreDataFile'' j) (\<lambda>x. Inr (WideFromNarrow x))
               else Inr (backingStoreDataFile config))
       (\<lambda>x. let config = config\<lparr>backingStoreDataFile := x\<rparr> in
     then_try (optional_field J (json_get_u64 J) ''cacheCapacityBytes'' (cacheCapacityBytes config) j)
       (\<lambda>x. let config = config\<lparr>cacheCapacityBytes := x\<rparr> in
     then_try (optional_field J (json_get_u64 J) ''cacheMaxEntryCount'' (cacheMaxEntryCount config) j)
       (\<lambda>x. let config = config\<lparr>cacheMaxEntryCount := x\<rparr> in
     then_try (optional_field J (json_get_u32 J) ''cacheShardCount'' (cacheShardCount config) j)
       (\<lambda>x. let config = config\<lparr>cacheShardCount := x\<rparr> in
     then_try (optional_field J (json_get_string J) ''evictionPolicy'' (cfg_evictionPolicy config) j)
       (\<lambda>x. let config = config\<lparr>cfg_evictionPolicy := x\<rparr> in
     then_try (optional_field J (json_get_string J) ''writePolicy'' (cfg_writePolicy config) j)
       (\<lambda>x. let config = config\<lparr>cfg_writePolicy := x\<rparr> in
     then_try (optional_field J (json_get_string J) ''flushPolicy'' (cfg_flushPolicy config) j)
       (\<lambda>x. let config = config\<lparr>cfg_flushPolicy := x\<rparr> in
     then_try (optional_field J (json_get_u32 J) ''flushIntervalSeconds'' (cfg_flushIntervalSeconds config) j)
       (\<lambda>x. Inr (config\<lparr>cfg_flushIntervalSeconds := x\<rparr>))))))))))"

definition FromJson :: "'j Json \<Rightarrow> 'j \<Rightarrow> AppConfig result" where
  "FromJson J j =
     (case then_try (required_fields J j default_AppConfig) (optional_fields J j) of
        Inl what \<Rightarrow> Failure \<lparr>code = CorruptData, message = str ''config JSON malformed: '' @ what,
                             platformErrorValue = 0\<rparr>
      | Inr config \<Rightarrow> Success config)"

section \<open>Validate\<close>

definition kMaxSaneCapacityBytes :: u64 where
  "kMaxSaneCapacityBytes = 1024 * 1024 * 1024 * 1024"

definition Validate :: "AppConfig \<Rightarrow> unit result" where
  "Validate config =
     (if schemaVersion config = 0 \<or> schemaVersion config > 2 then
        Failure (mkError VersionMismatch ''unsupported config schemaVersion (this build supports versions 1-2)'')
      else if stateDirectory config = [] then
        Failure (mkError InvalidArgument ''stateDirectory must not be empty'')
      else if logDirectory config = [] then
        Failure (mkError InvalidArgument ''logDirectory must not be empty'')
      else if sint (minimumLogLevel config) < 0 \<or> sint (minimumLogLevel config) > 5 then
        Failure (mkError InvalidArgument ''minimumLogLevel out of range [0,5]'')
      else if ipcPipeName config = [] \<or> take 9 (ipcPipeName config) \<noteq> wstr ''//./pipe/'' then
        Failure (mkError InvalidArgument ''ipcPipeName must be a well-formed local named pipe path'')
      else if backingStoreDataFile config = [] then
        Failure (mkError InvalidArgument ''backingStoreDataFile must not be empty'')
      else if cacheCapacityBytes config = 0 then
        Failure (mkError InvalidArgument ''cacheCapacityBytes must be > 0'')
      else if cacheCapacityBytes config > kMaxSaneCapacityBytes then
        Failure (mkError InvalidArgument ''cacheCapacityBytes exceeds the maximum sane value (1 TiB)'')
      else if cacheMaxEntryCount config = 0 then
        Failure (mkError InvalidArgument ''cacheMaxEntryCount must be > 0'')
      else if cacheShardCount config = 0 \<or> cacheShardCount config AND (cacheShardCount config - 1) \<noteq> 0 then
        Failure (mkError InvalidArgument ''cacheShardCount must be a power of two >= 1'')
      else if cacheShardCount config > 4096 then
        Failure (mkError InvalidArgument ''cacheShardCount exceeds the maximum sane value (4096)'')
      else if cfg_evictionPolicy config \<noteq> str ''LeastRecentlyUsed'' then
        Failure (mkError InvalidArgument ''evictionPolicy must be 'LeastRecentlyUsed' (the only policy implemented)'')
      else if cfg_writePolicy config \<noteq> str ''WriteThrough'' \<and> cfg_writePolicy config \<noteq> str ''WriteBackDeferred'' then
        Failure (mkError InvalidArgument (''writePolicy must be 'WriteThrough' or 'WriteBackDeferred'' @ [CHR 0x27]))
      else if cfg_flushPolicy config \<noteq> str ''Manual'' \<and> cfg_flushPolicy config \<noteq> str ''PeriodicBackground'' then
        Failure (mkError InvalidArgument (''flushPolicy must be 'Manual' or 'PeriodicBackground'' @ [CHR 0x27]))
      else if cfg_flushPolicy config = str ''PeriodicBackground'' \<and> cfg_flushIntervalSeconds config = 0 then
        Failure (mkError InvalidArgument (''flushIntervalSeconds must be >= 1 when flushPolicy is 'PeriodicBackground'' @ [CHR 0x27]))
      else Success ())"

section \<open>JsonConfigStore\<close>

definition CreateJsonConfigStore :: "path \<Rightarrow> path result" where
  "CreateJsonConfigStore p =
     (if p = [] then Failure (mkError InvalidArgument ''path must not be empty'') else Success p)"

text \<open>What \<open>Load\<close> makes of the file, \<open>None\<close> when it cannot be opened.\<close>

definition load_text :: "'j Json \<Rightarrow> path \<Rightarrow> bytes option \<Rightarrow> AppConfig result call" where
  "load_text J pathOf file =
     (case file of
        None \<Rightarrow> Returns (Failure (mkError_key NotFound ''config file not found: '' pathOf []))
      | Some text \<Rightarrow>
          (case json_parse J text of
             Inl (parse_error what) \<Rightarrow>
               Returns (Failure \<lparr>code = CorruptData, message = str ''config JSON parse error: '' @ what,
                                 platformErrorValue = 0\<rparr>)
           | Inl (other_exception what) \<Rightarrow> Throws what
           | Inr parsed \<Rightarrow>
               (case FromJson J parsed of
                  Inl e \<Rightarrow> Returns (Failure e)
                | Inr config \<Rightarrow>
                    (case Validate config of
                       Inl e \<Rightarrow> Returns (Failure e)
                     | Inr _ \<Rightarrow> Returns (Success config)))))"

definition Load :: "'j Json \<Rightarrow> path \<Rightarrow> path disk \<Rightarrow> AppConfig result call" where
  "Load J pathOf s = load_text J pathOf (visible s pathOf)"

text \<open>\<open>Save\<close> over the file replacement it calls.\<close>

definition save_by ::
  "(bytes \<Rightarrow> 'w \<Rightarrow> (unit result \<times> 'w) option) \<Rightarrow> 'j Json \<Rightarrow> AppConfig \<Rightarrow> 'w \<Rightarrow> (unit result call \<times> 'w) option" where
  "save_by replace J config w =
     (case Validate config of
        Inl e \<Rightarrow> Some (Returns (Failure e), w)
      | Inr _ \<Rightarrow>
          (case json_dump J (ToJson J config) of
             Inl what \<Rightarrow> Some (Throws what, w)
           | Inr serialized \<Rightarrow>
               map_option (\<lambda>(r, w). (Returns r, w)) (replace serialized w)))"

definition Save :: "'j Json \<Rightarrow> path \<Rightarrow> AppConfig \<Rightarrow> path os \<Rightarrow> (unit result call \<times> path os) option" where
  "Save J pathOf = save_by (AtomicallyReplaceFileContents pathOf) J"

section \<open>What the store relies on\<close>

text \<open>An object built by successive assignments \<^verbatim>\<open>j[key] = value\<close> from \<^verbatim>\<open>json j;\<close>, and scalars.\<close>

definition json_object :: "'j Json \<Rightarrow> (cstring \<times> 'j) list \<Rightarrow> 'j" where
  "json_object J kvs = fold (\<lambda>(k, v). json_set J k v) kvs (json_null J)"

definition ascii :: "cstring \<Rightarrow> bool" where
  "ascii s \<longleftrightarrow> list_all (\<lambda>b. b < 0x80) s"

definition json_scalar :: "'j Json \<Rightarrow> (cstring \<Rightarrow> bool) \<Rightarrow> 'j \<Rightarrow> bool" where
  "json_scalar J P v \<longleftrightarrow>
     (\<exists>w. v = json_of_unsigned J w) \<or> (\<exists>i. v = json_of_int J i) \<or> (\<exists>b. v = json_of_bool J b) \<or>
     (\<exists>s. v = json_of_string J s \<and> P s)"

definition json_scalars :: "'j Json \<Rightarrow> (cstring \<Rightarrow> bool) \<Rightarrow> (cstring \<times> 'j) list \<Rightarrow> bool" where
  "json_scalars J P kvs \<longleftrightarrow> (\<forall>(k, v) \<in> set kvs. ascii k \<and> json_scalar J P v)"

text \<open>\<open>v'\<close> can be read at every type that \<open>v\<close> can be read at, with the same value.\<close>

definition json_reads_as :: "'j Json \<Rightarrow> 'j \<Rightarrow> 'j \<Rightarrow> bool" where
  "json_reads_as J v v' \<longleftrightarrow>
     (\<forall>x. json_get_u32 J v = Inr x \<longrightarrow> json_get_u32 J v' = Inr x) \<and>
     (\<forall>x. json_get_u64 J v = Inr x \<longrightarrow> json_get_u64 J v' = Inr x) \<and>
     (\<forall>x. json_get_int J v = Inr x \<longrightarrow> json_get_int J v' = Inr x) \<and>
     (\<forall>x. json_get_string J v = Inr x \<longrightarrow> json_get_string J v' = Inr x) \<and>
     (\<forall>x. json_get_bool J v = Inr x \<longrightarrow> json_get_bool J v' = Inr x)"

text \<open>
  A scalar is read back at the type it was made from; an object returns for a key the value last
  assigned to it; a text printed from an object whose strings are ASCII parses to an object that reads
  the same.
\<close>

definition json_access_laws :: "'j Json \<Rightarrow> bool" where
  "json_access_laws J \<longleftrightarrow>
     (\<forall>w. json_get_u32 J (json_of_unsigned J (ucast w)) = Inr w) \<and>
     (\<forall>w. json_get_u64 J (json_of_unsigned J w) = Inr w) \<and>
     (\<forall>i. json_get_int J (json_of_int J i) = Inr i) \<and>
     (\<forall>x. json_get_string J (json_of_string J x) = Inr x) \<and>
     (\<forall>b. json_get_bool J (json_of_bool J b) = Inr b) \<and>
     (\<forall>kvs k. json_scalars J (\<lambda>_. True) kvs \<longrightarrow>
        (\<forall>v. json_at J k (json_object J kvs) = Inr v \<longleftrightarrow> map_of (rev kvs) k = Some v) \<and>
        (json_contains J k (json_object J kvs) \<longleftrightarrow> k \<in> fst ` set kvs))"

definition json_text_laws :: "'j Json \<Rightarrow> bool" where
  "json_text_laws J \<longleftrightarrow>
     (\<forall>kvs. json_scalars J ascii kvs \<longrightarrow>
        (\<exists>t j. json_dump J (json_object J kvs) = Inr t \<and> json_parse J t = Inr j \<and>
           (\<forall>k. json_contains J k j = json_contains J k (json_object J kvs)) \<and>
           (\<forall>k v. json_at J k (json_object J kvs) = Inr v \<longrightarrow>
              (\<exists>v'. json_at J k j = Inr v' \<and> json_reads_as J v v'))))"

text \<open>\<^verbatim>\<open>dump\<close> refuses a string that is not UTF-8: here, one that is ASCII but for its last byte.\<close>

definition ends_in_lone_byte :: "cstring \<Rightarrow> bool" where
  "ends_in_lone_byte s \<longleftrightarrow> s \<noteq> [] \<and> ascii (butlast s) \<and> 0x80 \<le> last s"

definition json_utf8_law :: "'j Json \<Rightarrow> bool" where
  "json_utf8_law J \<longleftrightarrow>
     (\<forall>kvs k s. json_scalars J (\<lambda>_. True) kvs \<and> distinct (map fst kvs) \<and>
        (k, json_of_string J s) \<in> set kvs \<and> ends_in_lone_byte s \<longrightarrow>
        (\<exists>what. json_dump J (json_object J kvs) = Inl what))"

section \<open>Lemmas\<close>

lemma of_char_byte_inject: "(of_char c :: byte) = of_char d \<Longrightarrow> c = d"
proof -
  assume eq: "(of_char c :: byte) = of_char d"
  have b: "bit (of_char x :: byte) n \<longleftrightarrow>
      n < 8 \<and> [digit0 x, digit1 x, digit2 x, digit3 x, digit4 x, digit5 x, digit6 x, digit7 x] ! n" for x n
    unfolding of_char_def bit_horner_sum_bit_word_iff by (simp only: list.size) (simp add: min_def)
  show "c = d"
    using eq b [of c 0] b [of c 1] b [of c 2] b [of c 3] b [of c 4] b [of c 5] b [of c 6] b [of c 7]
      b [of d 0] b [of d 1] b [of d 2] b [of d 3] b [of d 4] b [of d 5] b [of d 6] b [of d 7]
    by (intro char.expand) simp
qed

lemma str_inject [simp]: "str a = str b \<longleftrightarrow> a = b"
  using of_char_byte_inject by (auto simp: str_def inj_map_eq_map inj_def)

subsection \<open>Reading an object\<close>

definition presents :: "'j Json \<Rightarrow> (cstring \<times> 'j) list \<Rightarrow> 'j \<Rightarrow> bool" where
  "presents J kvs j \<longleftrightarrow>
     (\<forall>k v. map_of (rev kvs) k = Some v \<longrightarrow> (\<exists>v'. json_at J k j = Inr v' \<and> json_reads_as J v v')) \<and>
     (\<forall>k. json_contains J k j \<longleftrightarrow> k \<in> fst ` set kvs)"

lemma json_reads_as_refl [simp]: "json_reads_as J v v"
  by (simp add: json_reads_as_def)

lemma presents_object:
  "json_access_laws J \<Longrightarrow> json_scalars J (\<lambda>_. True) kvs \<Longrightarrow> presents J kvs (json_object J kvs)"
  unfolding json_access_laws_def presents_def by (metis json_reads_as_refl)

lemma json_scalars_mono: "json_scalars J P kvs \<Longrightarrow> json_scalars J (\<lambda>_. True) kvs"
  by (auto simp: json_scalars_def json_scalar_def)

lemma presents_parsed:
  assumes "json_access_laws J" and "json_text_laws J" and "json_scalars J ascii kvs"
  shows "\<exists>t j. json_dump J (json_object J kvs) = Inr t \<and> json_parse J t = Inr j \<and> presents J kvs j"
proof -
  obtain t j where t: "json_dump J (json_object J kvs) = Inr t" "json_parse J t = Inr j"
    "\<forall>k. json_contains J k j = json_contains J k (json_object J kvs)"
    "\<forall>k v. json_at J k (json_object J kvs) = Inr v \<longrightarrow> (\<exists>v'. json_at J k j = Inr v' \<and> json_reads_as J v v')"
    using assms(2,3) unfolding json_text_laws_def by blast
  have "presents J kvs j"
    using t(3,4) assms(1) json_scalars_mono [OF assms(3)]
    unfolding presents_def json_access_laws_def by auto
  then show ?thesis
    using t by blast
qed

lemma field_presents:
  assumes "presents J kvs j" and "map_of (rev kvs) (str k) = Some v"
  shows "json_get_u32 J v = Inr a \<Longrightarrow> field J (json_get_u32 J) k j = Inr a"
    and "json_get_u64 J v = Inr b \<Longrightarrow> field J (json_get_u64 J) k j = Inr b"
    and "json_get_int J v = Inr c \<Longrightarrow> field J (json_get_int J) k j = Inr c"
    and "json_get_string J v = Inr d \<Longrightarrow> field J (json_get_string J) k j = Inr d"
    and "json_get_bool J v = Inr f \<Longrightarrow> field J (json_get_bool J) k j = Inr f"
proof -
  obtain v' where "json_at J (str k) j = Inr v'" "json_reads_as J v v'"
    using assms unfolding presents_def by blast
  then show "json_get_u32 J v = Inr a \<Longrightarrow> field J (json_get_u32 J) k j = Inr a"
    and "json_get_u64 J v = Inr b \<Longrightarrow> field J (json_get_u64 J) k j = Inr b"
    and "json_get_int J v = Inr c \<Longrightarrow> field J (json_get_int J) k j = Inr c"
    and "json_get_string J v = Inr d \<Longrightarrow> field J (json_get_string J) k j = Inr d"
    and "json_get_bool J v = Inr f \<Longrightarrow> field J (json_get_bool J) k j = Inr f"
    by (simp_all add: field_def json_reads_as_def)
qed

lemma contains_presents: "presents J kvs j \<Longrightarrow> json_contains J k j \<longleftrightarrow> k \<in> fst ` set kvs"
  by (simp add: presents_def)

lemma json_gets:
  assumes "json_access_laws J"
  shows "json_get_u32 J (json_of_unsigned J (ucast w)) = Inr w"
    and "json_get_u64 J (json_of_unsigned J x) = Inr x"
    and "json_get_int J (json_of_int J i) = Inr i"
    and "json_get_string J (json_of_string J t) = Inr t"
    and "json_get_bool J (json_of_bool J b) = Inr b"
  using assms by (simp_all add: json_access_laws_def)

subsection \<open>The two schemas\<close>

text \<open>The fields of a version 1 file, and the ones added by version 2.\<close>

definition stage1_fields :: "'j Json \<Rightarrow> AppConfig \<Rightarrow> (cstring \<times> 'j) list" where
  "stage1_fields J c =
     [(str ''schemaVersion'', json_of_unsigned J (ucast (schemaVersion c))),
      (str ''stateDirectory'', json_of_string J (NarrowFromWide (stateDirectory c))),
      (str ''logDirectory'', json_of_string J (NarrowFromWide (logDirectory c))),
      (str ''minimumLogLevel'', json_of_int J (minimumLogLevel c)),
      (str ''ipcPipeName'', json_of_string J (NarrowFromWide (ipcPipeName c)))]"

definition stage2_fields :: "'j Json \<Rightarrow> AppConfig \<Rightarrow> (cstring \<times> 'j) list" where
  "stage2_fields J c =
     [(str ''cacheEnabled'', json_of_bool J (cacheEnabled c)),
      (str ''backingStoreDataFile'', json_of_string J (NarrowFromWide (backingStoreDataFile c))),
      (str ''cacheCapacityBytes'', json_of_unsigned J (cacheCapacityBytes c)),
      (str ''cacheMaxEntryCount'', json_of_unsigned J (cacheMaxEntryCount c)),
      (str ''cacheShardCount'', json_of_unsigned J (ucast (cacheShardCount c))),
      (str ''evictionPolicy'', json_of_string J (cfg_evictionPolicy c)),
      (str ''writePolicy'', json_of_string J (cfg_writePolicy c)),
      (str ''flushPolicy'', json_of_string J (cfg_flushPolicy c)),
      (str ''flushIntervalSeconds'', json_of_unsigned J (ucast (cfg_flushIntervalSeconds c)))]"

lemma ToJson_object: "ToJson J c = json_object J (stage1_fields J c @ stage2_fields J c)"
  by (simp add: ToJson_def json_object_def stage1_fields_def stage2_fields_def)

definition narrowed :: "wide \<Rightarrow> wide" where
  "narrowed w = WideFromNarrow (NarrowFromWide w)"

lemma required_fields_presents:
  assumes J: "json_access_laws J" and p: "presents J kvs j"
    and m: "\<And>k v. map_of (stage1_fields J c) k = Some v \<Longrightarrow> map_of (rev kvs) k = Some v"
  shows "required_fields J j d = Inr (d\<lparr>schemaVersion := schemaVersion c,
     stateDirectory := narrowed (stateDirectory c), logDirectory := narrowed (logDirectory c),
     minimumLogLevel := minimumLogLevel c, ipcPipeName := narrowed (ipcPipeName c)\<rparr>)"
proof -
  note f = field_presents [OF p m]
  have "field J (json_get_u32 J) ''schemaVersion'' j = Inr (schemaVersion c)"
    by (rule f(1) [where v = "json_of_unsigned J (ucast (schemaVersion c))"])
      (simp_all add: stage1_fields_def json_gets [OF J])
  moreover have "field J (json_get_string J) ''stateDirectory'' j = Inr (NarrowFromWide (stateDirectory c))"
    by (rule f(4) [where v = "json_of_string J (NarrowFromWide (stateDirectory c))"])
      (simp_all add: stage1_fields_def json_gets [OF J])
  moreover have "field J (json_get_string J) ''logDirectory'' j = Inr (NarrowFromWide (logDirectory c))"
    by (rule f(4) [where v = "json_of_string J (NarrowFromWide (logDirectory c))"])
      (simp_all add: stage1_fields_def json_gets [OF J])
  moreover have "field J (json_get_int J) ''minimumLogLevel'' j = Inr (minimumLogLevel c)"
    by (rule f(3) [where v = "json_of_int J (minimumLogLevel c)"])
      (simp_all add: stage1_fields_def json_gets [OF J])
  moreover have "field J (json_get_string J) ''ipcPipeName'' j = Inr (NarrowFromWide (ipcPipeName c))"
    by (rule f(4) [where v = "json_of_string J (NarrowFromWide (ipcPipeName c))"])
      (simp_all add: stage1_fields_def json_gets [OF J])
  ultimately show ?thesis
    by (simp add: required_fields_def narrowed_def)
qed

lemma optional_fields_presents:
  assumes J: "json_access_laws J" and p: "presents J kvs j"
    and m: "\<And>k v. map_of (stage2_fields J c) k = Some v \<Longrightarrow> map_of (rev kvs) k = Some v"
  shows "optional_fields J j d = Inr (d\<lparr>cacheEnabled := cacheEnabled c,
     backingStoreDataFile := narrowed (backingStoreDataFile c), cacheCapacityBytes := cacheCapacityBytes c,
     cacheMaxEntryCount := cacheMaxEntryCount c, cacheShardCount := cacheShardCount c,
     cfg_evictionPolicy := cfg_evictionPolicy c, cfg_writePolicy := cfg_writePolicy c,
     cfg_flushPolicy := cfg_flushPolicy c, cfg_flushIntervalSeconds := cfg_flushIntervalSeconds c\<rparr>)"
proof -
  note f = field_presents [OF p m]
  have "field J (json_get_bool J) ''cacheEnabled'' j = Inr (cacheEnabled c)"
    by (rule f(5) [where v = "json_of_bool J (cacheEnabled c)"])
      (simp_all add: stage2_fields_def json_gets [OF J])
  moreover have "field J (json_get_string J) ''backingStoreDataFile'' j = Inr (NarrowFromWide (backingStoreDataFile c))"
    by (rule f(4) [where v = "json_of_string J (NarrowFromWide (backingStoreDataFile c))"])
      (simp_all add: stage2_fields_def json_gets [OF J])
  moreover have "field J (json_get_u64 J) ''cacheCapacityBytes'' j = Inr (cacheCapacityBytes c)"
    by (rule f(2) [where v = "json_of_unsigned J (cacheCapacityBytes c)"])
      (simp_all add: stage2_fields_def json_gets [OF J])
  moreover have "field J (json_get_u64 J) ''cacheMaxEntryCount'' j = Inr (cacheMaxEntryCount c)"
    by (rule f(2) [where v = "json_of_unsigned J (cacheMaxEntryCount c)"])
      (simp_all add: stage2_fields_def json_gets [OF J])
  moreover have "field J (json_get_u32 J) ''cacheShardCount'' j = Inr (cacheShardCount c)"
    by (rule f(1) [where v = "json_of_unsigned J (ucast (cacheShardCount c))"])
      (simp_all add: stage2_fields_def json_gets [OF J])
  moreover have "field J (json_get_string J) ''evictionPolicy'' j = Inr (cfg_evictionPolicy c)"
    by (rule f(4) [where v = "json_of_string J (cfg_evictionPolicy c)"])
      (simp_all add: stage2_fields_def json_gets [OF J])
  moreover have "field J (json_get_string J) ''writePolicy'' j = Inr (cfg_writePolicy c)"
    by (rule f(4) [where v = "json_of_string J (cfg_writePolicy c)"])
      (simp_all add: stage2_fields_def json_gets [OF J])
  moreover have "field J (json_get_string J) ''flushPolicy'' j = Inr (cfg_flushPolicy c)"
    by (rule f(4) [where v = "json_of_string J (cfg_flushPolicy c)"])
      (simp_all add: stage2_fields_def json_gets [OF J])
  moreover have "field J (json_get_u32 J) ''flushIntervalSeconds'' j = Inr (cfg_flushIntervalSeconds c)"
    by (rule f(1) [where v = "json_of_unsigned J (ucast (cfg_flushIntervalSeconds c))"])
      (simp_all add: stage2_fields_def json_gets [OF J])
  moreover have "json_contains J (str k) j" if s: "map_of (stage2_fields J c) (str k) \<noteq> None" for k
  proof -
    obtain v where "map_of (rev kvs) (str k) = Some v"
      using m s by auto
    then have "str k \<in> fst ` set kvs"
      by (force dest: map_of_SomeD)
    then show ?thesis
      using p by (simp add: presents_def)
  qed
  ultimately show ?thesis
    by (simp add: optional_fields_def optional_field_def narrowed_def stage2_fields_def)
qed

lemma optional_fields_absent:
  assumes "\<And>k. k \<in> fst ` set (stage2_fields J c) \<Longrightarrow> \<not> json_contains J k j"
  shows "optional_fields J j d = Inr d"
proof -
  have a: "\<not> json_contains J k j" if "k \<in> fst ` set (stage2_fields J c)" for k
    using assms that by blast
  show ?thesis
    using a [of "str ''cacheEnabled''"] a [of "str ''backingStoreDataFile''"] a [of "str ''cacheCapacityBytes''"]
      a [of "str ''cacheMaxEntryCount''"] a [of "str ''cacheShardCount''"] a [of "str ''evictionPolicy''"]
      a [of "str ''writePolicy''"] a [of "str ''flushPolicy''"] a [of "str ''flushIntervalSeconds''"]
    by (simp add: optional_fields_def optional_field_def stage2_fields_def)
qed

definition narrow_config :: "AppConfig \<Rightarrow> AppConfig" where
  "narrow_config c =
     c\<lparr>stateDirectory := narrowed (stateDirectory c), logDirectory := narrowed (logDirectory c),
       ipcPipeName := narrowed (ipcPipeName c), backingStoreDataFile := narrowed (backingStoreDataFile c)\<rparr>"

lemma map_of_config_fields:
  "map_of (stage1_fields J c) k = Some v \<Longrightarrow> map_of (rev (stage1_fields J c @ stage2_fields J c)) k = Some v"
  "map_of (stage2_fields J c) k = Some v \<Longrightarrow> map_of (rev (stage1_fields J c @ stage2_fields J c)) k = Some v"
  by (auto simp: stage1_fields_def stage2_fields_def split: if_splits)

lemma FromJson_presents:
  assumes "json_access_laws J" and "presents J (stage1_fields J c @ stage2_fields J c) j"
  shows "FromJson J j = Success (narrow_config c)"
proof -
  have "required_fields J j d = Inr (d\<lparr>schemaVersion := schemaVersion c,
     stateDirectory := narrowed (stateDirectory c), logDirectory := narrowed (logDirectory c),
     minimumLogLevel := minimumLogLevel c, ipcPipeName := narrowed (ipcPipeName c)\<rparr>)" for d
    by (rule required_fields_presents [OF assms map_of_config_fields(1)])
  moreover have "optional_fields J j d = Inr (d\<lparr>cacheEnabled := cacheEnabled c,
     backingStoreDataFile := narrowed (backingStoreDataFile c), cacheCapacityBytes := cacheCapacityBytes c,
     cacheMaxEntryCount := cacheMaxEntryCount c, cacheShardCount := cacheShardCount c,
     cfg_evictionPolicy := cfg_evictionPolicy c, cfg_writePolicy := cfg_writePolicy c,
     cfg_flushPolicy := cfg_flushPolicy c, cfg_flushIntervalSeconds := cfg_flushIntervalSeconds c\<rparr>)" for d
    by (rule optional_fields_presents [OF assms map_of_config_fields(2)])
  ultimately show ?thesis
    by (simp add: FromJson_def narrow_config_def default_AppConfig_def)
qed

lemma ascii_key [simp]: "ascii (str k) \<longleftrightarrow> list_all (\<lambda>c. of_char c < (0x80 :: byte)) k"
  by (simp add: ascii_def str_def list_all_iff)

lemma scalar_config_fields:
  assumes "P (NarrowFromWide (stateDirectory c))" "P (NarrowFromWide (logDirectory c))"
    "P (NarrowFromWide (ipcPipeName c))" "P (NarrowFromWide (backingStoreDataFile c))"
    "P (cfg_evictionPolicy c)" "P (cfg_writePolicy c)" "P (cfg_flushPolicy c)"
  shows "json_scalars J P (stage1_fields J c @ stage2_fields J c)"
  using assms by (simp add: json_scalars_def json_scalar_def stage1_fields_def stage2_fields_def) blast

lemma narrowed_id:
  assumes "list_all (\<lambda>c. c < 256) w"
  shows "narrowed w = w"
proof -
  have "ucast (ucast c :: byte) = c" if "c < 256" for c :: "16 word"
  proof -
    have "unat c < 2 ^ 8" "unat c < 2 ^ 16"
      using that by (simp_all add: word_less_nat_alt)
    then show ?thesis
      by (simp add: word_unat_eq_iff unsigned_ucast_eq unsigned_take_bit_eq take_bit_nat_eq_self)
  qed
  then show ?thesis
    using assms by (induction w) (simp_all add: narrowed_def WideFromNarrow_def NarrowFromWide_def)
qed

section \<open>A small JSON library\<close>

text \<open>An instance of the parameter, with flat objects and a binary text format.\<close>

datatype scalar = SUnsigned u64 | SInt u32 | SString cstring | SBool bool

datatype jvalue = JScalar scalar | JObject "(cstring \<times> scalar) list"

fun put_string :: "cstring \<Rightarrow> bytes" where
  "put_string [] = [0]"
| "put_string (c # cs) = 1 # c # put_string cs"

fun get_string :: "bytes \<Rightarrow> (cstring \<times> bytes) option" where
  "get_string (t # bs) =
     (if t = 0 then Some ([], bs)
      else case bs of [] \<Rightarrow> None | c # bs \<Rightarrow> map_option (map_prod ((#) c) id) (get_string bs))"
| "get_string [] = None"

fun put_scalar :: "scalar \<Rightarrow> bytes" where
  "put_scalar (SUnsigned w) = 0 # le_bytes 8 w"
| "put_scalar (SInt w) = 1 # le_bytes 4 w"
| "put_scalar (SString x) = 2 # put_string x"
| "put_scalar (SBool b) = [3, if b then 1 else 0]"

definition get_scalar :: "bytes \<Rightarrow> (scalar \<times> bytes) option" where
  "get_scalar bs =
     (case bs of [] \<Rightarrow> None | t # bs \<Rightarrow>
        if t = 0 then Some (SUnsigned (le_word (take 8 bs)), drop 8 bs)
        else if t = 1 then Some (SInt (le_word (take 4 bs)), drop 4 bs)
        else if t = 2 then map_option (map_prod SString id) (get_string bs)
        else (case bs of [] \<Rightarrow> None | b # bs \<Rightarrow> Some (SBool (b \<noteq> 0), bs)))"

fun put_object :: "(cstring \<times> scalar) list \<Rightarrow> bytes" where
  "put_object [] = [0]"
| "put_object ((k, v) # kvs) = 1 # put_string k @ put_scalar v @ put_object kvs"

fun get_object :: "nat \<Rightarrow> bytes \<Rightarrow> (cstring \<times> scalar) list option" where
  "get_object (Suc n) (t # bs) =
     (if t = 0 then Some []
      else case get_string bs of None \<Rightarrow> None | Some (k, bs) \<Rightarrow>
        (case get_scalar bs of None \<Rightarrow> None | Some (v, bs) \<Rightarrow> map_option ((#) (k, v)) (get_object n bs)))"
| "get_object _ _ = None"

fun ascii_scalar :: "scalar \<Rightarrow> bool" where
  "ascii_scalar (SString s) \<longleftrightarrow> ascii s"
| "ascii_scalar _ \<longleftrightarrow> True"

definition type_error :: cstring where
  "type_error = str ''type_error''"

definition sample_json :: "jvalue Json" where
  "sample_json =
     \<lparr>json_null = JObject [],
      json_set = (\<lambda>k v j. case (v, j) of (JScalar x, JObject kvs) \<Rightarrow> JObject (kvs @ [(k, x)]) | _ \<Rightarrow> j),
      json_of_unsigned = (\<lambda>w. JScalar (SUnsigned w)), json_of_int = (\<lambda>i. JScalar (SInt i)),
      json_of_string = (\<lambda>s. JScalar (SString s)), json_of_bool = (\<lambda>b. JScalar (SBool b)),
      json_at = (\<lambda>k j. case j of
         JObject kvs \<Rightarrow> (case map_of (rev kvs) k of None \<Rightarrow> Inl type_error | Some x \<Rightarrow> Inr (JScalar x))
       | _ \<Rightarrow> Inl type_error),
      json_contains = (\<lambda>k j. case j of JObject kvs \<Rightarrow> k \<in> fst ` set kvs | _ \<Rightarrow> False),
      json_get_u32 = (\<lambda>j. case j of JScalar (SUnsigned w) \<Rightarrow> Inr (ucast w) | _ \<Rightarrow> Inl type_error),
      json_get_u64 = (\<lambda>j. case j of JScalar (SUnsigned w) \<Rightarrow> Inr w | _ \<Rightarrow> Inl type_error),
      json_get_int = (\<lambda>j. case j of JScalar (SInt w) \<Rightarrow> Inr w | _ \<Rightarrow> Inl type_error),
      json_get_string = (\<lambda>j. case j of JScalar (SString w) \<Rightarrow> Inr w | _ \<Rightarrow> Inl type_error),
      json_get_bool = (\<lambda>j. case j of JScalar (SBool w) \<Rightarrow> Inr w | _ \<Rightarrow> Inl type_error),
      json_dump = (\<lambda>j. case j of
         JObject kvs \<Rightarrow> if list_all (\<lambda>(k, v). ascii_scalar v) kvs then Inr (put_object kvs) else Inl type_error
       | _ \<Rightarrow> Inl type_error),
      json_parse = (\<lambda>t. case get_object (Suc (length t)) t of
         None \<Rightarrow> Inl (parse_error type_error) | Some kvs \<Rightarrow> Inr (JObject kvs))\<rparr>"

lemma get_string_put [simp]: "get_string (put_string s @ bs) = Some (s, bs)"
  by (induction s) auto

lemma get_scalar_put [simp]: "get_scalar (put_scalar v @ bs) = Some (v, bs)"
  by (cases v) (auto simp: get_scalar_def)

lemma get_object_put: "length kvs < n \<Longrightarrow> get_object n (put_object kvs) = Some kvs"
proof (induction kvs arbitrary: n)
  case (Cons kv kvs)
  then show ?case by (cases n; cases kv) auto
qed (auto simp: gr0_conv_Suc)

lemma length_put_object: "length kvs < length (put_object kvs)"
  by (induction kvs) auto

lemma json_object_sample:
  "json_object sample_json (map (\<lambda>(k, x). (k, JScalar x)) kvs) = JObject kvs"
proof -
  have "fold (\<lambda>(k, v). json_set sample_json k v) (map (\<lambda>(k, x). (k, JScalar x)) kvs) (JObject acc) = JObject (acc @ kvs)"
    for acc
    by (induction kvs arbitrary: acc) (auto simp: sample_json_def)
  from this [of "[]"] show ?thesis
    by (simp add: json_object_def sample_json_def)
qed

lemma json_scalars_sample:
  assumes "json_scalars sample_json P kvs"
  obtains xs where "kvs = map (\<lambda>(k, x). (k, JScalar x)) xs"
    and "\<And>k s. (k, SString s) \<in> set xs \<Longrightarrow> P s"
proof -
  have "\<exists>x. v = JScalar x \<and> (\<forall>s. x = SString s \<longrightarrow> P s)" if "(k, v) \<in> set kvs" for k v
    using assms that by (fastforce simp: json_scalars_def json_scalar_def sample_json_def)
  then obtain f where f: "\<And>k v. (k, v) \<in> set kvs \<Longrightarrow> v = JScalar (f k v) \<and> (\<forall>s. f k v = SString s \<longrightarrow> P s)"
    by metis
  show thesis
  proof (rule that [of "map (\<lambda>(k, v). (k, f k v)) kvs"])
    show "kvs = map (\<lambda>(k, x). (k, JScalar x)) (map (\<lambda>(k, v). (k, f k v)) kvs)"
      using f by (force intro: map_idI [symmetric] simp: comp_def case_prod_beta)
    show "P s" if "(k, SString s) \<in> set (map (\<lambda>(k, v). (k, f k v)) kvs)" for k s
      using that f by auto
  qed
qed

lemma sample_at_contains:
  "json_at sample_json k (JObject xs) = Inr v \<longleftrightarrow> (\<exists>x. map_of (rev xs) k = Some x \<and> v = JScalar x)"
  "json_contains sample_json k (JObject xs) \<longleftrightarrow> k \<in> fst ` set xs"
  by (auto simp: sample_json_def split: option.splits)

lemma map_of_rev_JScalar:
  "map_of (rev (map (\<lambda>(k, x). (k, JScalar x)) xs)) k = map_option JScalar (map_of (rev xs) k)"
  using map_of_map [of JScalar "rev xs"] by (simp add: rev_map)

lemma ucast_ucast_u32: "ucast (ucast (w :: u32) :: u64) = w"
  by (rule bit_word_eqI) (auto simp: bit_ucast_iff dest: bit_imp_le_length)

lemma sample_access_laws: "json_access_laws sample_json"
proof -
  have "(json_at sample_json k (json_object sample_json kvs) = Inr v \<longleftrightarrow> map_of (rev kvs) k = Some v)
     \<and> (json_contains sample_json k (json_object sample_json kvs) \<longleftrightarrow> k \<in> fst ` set kvs)"
    if sc: "json_scalars sample_json P kvs" for kvs k v P
  proof -
    obtain xs where "kvs = map (\<lambda>(k, x). (k, JScalar x)) xs"
      using sc by (rule json_scalars_sample)
    then show ?thesis
      by (force simp: json_object_sample sample_at_contains map_of_rev_JScalar)
  qed
  moreover have "json_get_u32 sample_json (json_of_unsigned sample_json (ucast w)) = Inr w" for w
    by (simp add: sample_json_def ucast_ucast_u32)
  moreover have "json_get_u64 sample_json (json_of_unsigned sample_json x) = Inr x"
    "json_get_int sample_json (json_of_int sample_json i) = Inr i"
    "json_get_string sample_json (json_of_string sample_json s) = Inr s"
    "json_get_bool sample_json (json_of_bool sample_json b) = Inr b" for x i s b
    by (simp_all add: sample_json_def)
  ultimately show ?thesis
    unfolding json_access_laws_def by blast
qed

lemma sample_text_laws: "json_text_laws sample_json"
  unfolding json_text_laws_def
proof (intro allI impI)
  fix kvs assume "json_scalars sample_json ascii kvs"
  then obtain xs where xs: "kvs = map (\<lambda>(k, x). (k, JScalar x)) xs"
    "\<And>k s. (k, SString s) \<in> set xs \<Longrightarrow> ascii s"
    by (rule json_scalars_sample) blast
  have "ascii_scalar v" if "(k, v) \<in> set xs" for k v
    using xs(2) that by (cases v) auto
  then have "list_all (\<lambda>(k, v). ascii_scalar v) xs"
    by (auto simp: list_all_iff)
  then have "json_dump sample_json (JObject xs) = Inr (put_object xs)"
    by (simp add: sample_json_def)
  moreover have "json_parse sample_json (put_object xs) = Inr (JObject xs)"
    using get_object_put [of xs "Suc (length (put_object xs))"] length_put_object [of xs]
    by (simp add: sample_json_def)
  ultimately show "\<exists>t j. json_dump sample_json (json_object sample_json kvs) = Inr t \<and>
     json_parse sample_json t = Inr j \<and>
     (\<forall>k. json_contains sample_json k j = json_contains sample_json k (json_object sample_json kvs)) \<and>
     (\<forall>k v. json_at sample_json k (json_object sample_json kvs) = Inr v \<longrightarrow>
        (\<exists>v'. json_at sample_json k j = Inr v' \<and> json_reads_as sample_json v v'))"
    unfolding xs(1) json_object_sample by (intro exI [of _ "put_object xs"] exI [of _ "JObject xs"]) auto
qed

lemma sample_utf8_law: "json_utf8_law sample_json"
  unfolding json_utf8_law_def
proof (intro allI impI, elim conjE)
  fix kvs k s
  assume k: "json_scalars sample_json (\<lambda>_. True) kvs" "(k, json_of_string sample_json s) \<in> set kvs"
    "ends_in_lone_byte s"
  obtain xs where xs: "kvs = map (\<lambda>(k, x). (k, JScalar x)) xs"
    using k(1) by (rule json_scalars_sample)
  have "(k, SString s) \<in> set xs"
    using k(2) xs by (auto simp: sample_json_def)
  moreover have "\<not> ascii s"
    using k(3) by (auto simp: ends_in_lone_byte_def ascii_def list_all_iff not_less intro!: bexI [of _ "last s"])
  ultimately have "\<not> list_all (\<lambda>(k, v). ascii_scalar v) xs"
    by (force simp: list_all_iff)
  then show "\<exists>what. json_dump sample_json (json_object sample_json kvs) = Inl what"
    unfolding xs json_object_sample by (simp add: sample_json_def)
qed

section \<open>Properties\<close>

text \<open>
  \<^bold>\<open>Both schema versions load.\<close>  A printed configuration reads back field by field, the wide
  strings truncated to one byte a character; a version 1 object, which has only the first five
  fields, reads as those fields over the built-in defaults of the others.
\<close>

theorem FromJson_schemas:
  assumes "json_access_laws J"
  shows "FromJson J (ToJson J c) = Success (narrow_config c)
    \<and> FromJson J (json_object J (stage1_fields J c)) = Success
        (default_AppConfig\<lparr>schemaVersion := schemaVersion c, stateDirectory := narrowed (stateDirectory c),
           logDirectory := narrowed (logDirectory c), minimumLogLevel := minimumLogLevel c,
           ipcPipeName := narrowed (ipcPipeName c)\<rparr>)"
proof
  have all: "json_scalars J (\<lambda>_. True) (stage1_fields J c @ stage2_fields J c)"
    by (rule scalar_config_fields) simp_all
  then show "FromJson J (ToJson J c) = Success (narrow_config c)"
    unfolding ToJson_object by (intro FromJson_presents [OF assms] presents_object [OF assms])
  let ?j = "json_object J (stage1_fields J c)"
  have p: "presents J (stage1_fields J c) ?j"
    using all by (intro presents_object [OF assms]) (simp add: json_scalars_def)
  have "required_fields J ?j d = Inr (d\<lparr>schemaVersion := schemaVersion c,
     stateDirectory := narrowed (stateDirectory c), logDirectory := narrowed (logDirectory c),
     minimumLogLevel := minimumLogLevel c, ipcPipeName := narrowed (ipcPipeName c)\<rparr>)" for d
    by (rule required_fields_presents [OF assms p]) (auto simp: stage1_fields_def split: if_splits)
  moreover have "optional_fields J ?j d = Inr d" for d
  proof (rule optional_fields_absent [of J c])
    show "\<not> json_contains J k ?j" if "k \<in> fst ` set (stage2_fields J c)" for k
      unfolding contains_presents [OF p] using that by (auto simp: stage1_fields_def stage2_fields_def)
  qed
  ultimately show "FromJson J ?j = Success
        (default_AppConfig\<lparr>schemaVersion := schemaVersion c, stateDirectory := narrowed (stateDirectory c),
           logDirectory := narrowed (logDirectory c), minimumLogLevel := minimumLogLevel c,
           ipcPipeName := narrowed (ipcPipeName c)\<rparr>)"
    by (simp add: FromJson_def)
qed

theorem FromJson_schemas_witness:
  "FromJson sample_json (ToJson sample_json default_AppConfig) = Success (narrow_config default_AppConfig)"
  using FromJson_schemas [OF sample_access_laws, of default_AppConfig] by blast

text \<open>Configurations whose wide strings are ASCII.\<close>

definition ascii_config :: "AppConfig \<Rightarrow> bool" where
  "ascii_config c \<longleftrightarrow>
     list_all (\<lambda>x. x < 0x80)
       (stateDirectory c @ logDirectory c @ ipcPipeName c @ backingStoreDataFile c)"

lemma ascii_NarrowFromWide: "list_all (\<lambda>x. x < 0x80) w \<Longrightarrow> ascii (NarrowFromWide w)"
proof (induction w)
  case (Cons x w)
  have "(ucast x :: byte) < 0x80" if "x < 0x80"
    using that by (simp add: word_less_nat_alt unsigned_ucast_eq take_bit_nat_eq_self)
  with Cons show ?case
    by (simp add: NarrowFromWide_def ascii_def)
qed (simp add: NarrowFromWide_def ascii_def)

lemma narrow_ascii_config:
  assumes "ascii_config c"
  shows "narrow_config c = c"
proof -
  have "list_all (\<lambda>x. x < 256) w" if "list_all (\<lambda>x. x < 0x80) w" for w :: wide
    using that by (auto simp: list_all_iff word_less_nat_alt dest!: bspec)
  then show ?thesis
    using assms by (simp add: narrow_config_def ascii_config_def narrowed_id)
qed

lemma Validate_policies:
  assumes "Validate c = Success ()"
  shows "ascii (cfg_evictionPolicy c) \<and> ascii (cfg_writePolicy c) \<and> ascii (cfg_flushPolicy c)"
proof -
  have "ascii (str ''LeastRecentlyUsed'')" "ascii (str ''WriteThrough'')" "ascii (str ''WriteBackDeferred'')"
    "ascii (str ''Manual'')" "ascii (str ''PeriodicBackground'')"
    by simp_all
  then show ?thesis
    using assms unfolding Validate_def by (auto split: if_splits)
qed

lemma saved_text_loads:
  assumes "json_access_laws J" and "json_text_laws J" and "Validate c = Success ()" and "ascii_config c"
  obtains t where "json_dump J (ToJson J c) = Inr t" "\<And>p. load_text J p (Some t) = Returns (Success c)"
proof -
  have "json_scalars J ascii (stage1_fields J c @ stage2_fields J c)"
    using assms(4) Validate_policies [OF assms(3)]
    by (intro scalar_config_fields) (auto simp: ascii_config_def intro: ascii_NarrowFromWide)
  then obtain t j where t: "json_dump J (ToJson J c) = Inr t" "json_parse J t = Inr j"
    "presents J (stage1_fields J c @ stage2_fields J c) j"
    using presents_parsed [OF assms(1,2)] unfolding ToJson_object by blast
  have "FromJson J j = Success c"
    using FromJson_presents [OF assms(1) t(3)] narrow_ascii_config [OF assms(4)] by simp
  then show thesis
    using that [OF t(1)] t(2) assms(3) by (simp add: load_text_def)
qed


lemma default_config_ok: "Validate default_AppConfig = Success ()" "ascii_config default_AppConfig"
  by (simp_all add: Validate_def default_AppConfig_def ascii_config_def wstr_def kMaxSaneCapacityBytes_def)


text \<open>
  \<^bold>\<open>Save throws on a directory outside ASCII.\<close>  \<open>Validate\<close> accepts a directory that ends in a
  character such as \<^verbatim>\<open>e-acute\<close>, but \<^verbatim>\<open>NarrowFromWide\<close> turns it into a byte that is not UTF-8,
  which the JSON library refuses to print: an exception leaves \<open>Save\<close>, which promises a
  \<^verbatim>\<open>Result\<close>, and the file is not written.
\<close>

theorem Save_throws_on_latin1:
  assumes "json_utf8_law J" and "Validate c = Success ()" and "stateDirectory c = d @ [x]"
    and "list_all (\<lambda>y. y < 0x80) d" and "0x80 \<le> (ucast x :: byte)"
  shows "\<exists>what. Save J p c w = Some (Throws what, w)"
proof -
  let ?kvs = "stage1_fields J c @ stage2_fields J c" and ?s = "NarrowFromWide (stateDirectory c)"
  have "json_scalars J (\<lambda>_. True) ?kvs"
    by (rule scalar_config_fields) simp_all
  moreover have "distinct (map fst ?kvs)"
    by (simp add: stage1_fields_def stage2_fields_def)
  moreover have "(str ''stateDirectory'', json_of_string J ?s) \<in> set ?kvs"
    by (simp add: stage1_fields_def)
  moreover have "ends_in_lone_byte ?s"
    using assms(3,5) ascii_NarrowFromWide [OF assms(4)]
    by (simp add: ends_in_lone_byte_def NarrowFromWide_def)
  ultimately obtain what where "json_dump J (ToJson J c) = Inl what"
    using assms(1) unfolding json_utf8_law_def ToJson_object by blast
  then show ?thesis
    using assms(2) by (simp add: Save_def save_by_def)
qed

definition latin1_config :: AppConfig where
  "latin1_config = default_AppConfig\<lparr>stateDirectory := wstr ''C:/Jos'' @ [0xE9]\<rparr>"

theorem Save_throws_on_latin1_witness:
  "\<exists>what. Save sample_json (str ''c.json'') latin1_config sample_os = Some (Throws what, sample_os)"
proof (rule Save_throws_on_latin1)
  show "json_utf8_law sample_json" by (fact sample_utf8_law)
  show "Validate latin1_config = Success ()"
    by (simp add: Validate_def latin1_config_def default_AppConfig_def wstr_def kMaxSaneCapacityBytes_def)
  show "stateDirectory latin1_config = wstr ''C:/Jos'' @ [0xE9]"
    by (simp add: latin1_config_def)
qed (simp_all add: wstr_def)

end
