(* ===== verification/Service.thy ===== *)
theory Service
  imports EngineSessions RecoveryManager MessageCodec Configuration
begin

text \<open>
  The service process (\<^verbatim>\<open>src/src/Service/src/main_service.cpp\<close>): its start, stop and pre-shutdown
  callbacks and its IPC server, over the globals \<^verbatim>\<open>g_...\<close>.

  What the process runs on is in the record \<open>Host\<close>: the file operations, what
  \<^verbatim>\<open>Storage::OpenFile\<close> returns for a path, the clock of the session marker, the hash function and
  the iteration order the engine uses, and whether the named pipe can be created.  The logger has no
  effect on the state and is left out.  A call that never returns is \<open>None\<close>.
\<close>

section \<open>State\<close>

record 'f Service =
  g_recoveryManager :: "'f SessionMarker RecoveryManager option"
  g_cacheEngine :: "('f WriteAheadJournal, 'f FileBackingStore) CacheEngine option"
  g_ipcServer :: bool
  g_ipcShouldStop :: bool
  g_ipcThread :: bool

definition new_process :: "'f Service" where
  "new_process = \<lparr>g_recoveryManager = None, g_cacheEngine = None, g_ipcServer = False,
                  g_ipcShouldStop = False, g_ipcThread = False\<rparr>"

record 'f Host =
  host_file :: "'f IFile"
  host_open :: "wide \<Rightarrow> 'f result"
  host_clock :: "u64 list"
  host_hash :: "key \<Rightarrow> nat"
  host_order :: "pending \<Rightarrow> pending"
  host_pipe :: "wide \<Rightarrow> unit result"

definition host_deps :: "'f Host \<Rightarrow> ('f WriteAheadJournal, 'f FileBackingStore) Deps" where
  "host_deps H =
     \<lparr>hash = host_hash H, store_ops = FileBackingStore_ops (host_file H),
      journal_ops = WriteAheadJournal_ops (host_file H), map_order = host_order H\<rparr>"

definition host_marker :: "'f Host \<Rightarrow> 'f SessionMarker ISessionMarker" where
  "host_marker H = SessionMarker_ops (host_file H)"

section \<open>Conversions\<close>

definition BuildEngineOptions :: "AppConfig \<Rightarrow> CacheEngineOptions" where
  "BuildEngineOptions config =
     \<lparr>enabled = cacheEnabled config,
      capacityBytes = cacheCapacityBytes config,
      maxEntryCount = cacheMaxEntryCount config,
      evictionPolicy = LeastRecentlyUsed,
      writePolicy = (if cfg_writePolicy config = str ''WriteThrough'' then WriteThrough else WriteBackDeferred),
      flushPolicy = (if cfg_flushPolicy config = str ''PeriodicBackground'' then PeriodicBackground else Manual),
      flushIntervalSeconds = cfg_flushIntervalSeconds config,
      shardCount = cacheShardCount config\<rparr>"

definition ToIpcPayload :: "CacheStatistics \<Rightarrow> CacheStatisticsPayload" where
  "ToIpcPayload s =
     \<lparr>ipc_hitCount = hitCount s, ipc_missCount = missCount s, ipc_insertCount = insertCount s,
      ipc_updateCount = updateCount s, ipc_invalidationCount = invalidationCount s,
      ipc_evictionCount = evictionCount s, ipc_flushSuccessCount = flushSuccessCount s,
      ipc_flushFailureCount = flushFailureCount s, ipc_currentEntryCount = currentEntryCount s,
      ipc_currentMemoryBytes = currentMemoryBytes s, ipc_dirtyEntryCount = dirtyEntryCount s,
      ipc_dirtyBytes = stat_dirtyBytes s\<rparr>"

text \<open>\<^verbatim>\<open>static_cast<std::uint32_t>\<close> of a \<^verbatim>\<open>RecoveryState\<close>.\<close>

fun RecoveryState_value :: "RecoveryState \<Rightarrow> u32" where
  "RecoveryState_value Unknown = 0"
| "RecoveryState_value CleanShutdown = 1"
| "RecoveryState_value UncleanShutdownDetected = 2"
| "RecoveryState_value RecoveryInProgress = 3"
| "RecoveryState_value RecoveryComplete = 4"
| "RecoveryState_value RecoveryState.RecoveryFailed = 5"

section \<open>IPC requests\<close>

definition status_payload :: "'f Service \<Rightarrow> StatusResponsePayload" where
  "status_payload svc =
     \<lparr>recoveryState = RecoveryState_value
        (case g_recoveryManager svc of Some rm \<Rightarrow> CurrentState rm | None \<Rightarrow> RecoveryState.Unknown),
      sessionGeneration = 0,
      cacheEngineActive = (g_cacheEngine svc \<noteq> None \<and>
        (case g_recoveryManager svc of Some rm \<Rightarrow> CurrentState rm = RecoveryComplete | None \<Rightarrow> False))\<rparr>"

definition no_engine_payload :: OperationResultPayload where
  "no_engine_payload =
     \<lparr>succeeded = False, errorCode = ErrorCode_value RecoveryNotComplete,
      resultMessage = str ''cache engine is not available''\<rparr>"

definition result_payload :: "string \<Rightarrow> unit result \<Rightarrow> OperationResultPayload" where
  "result_payload done r =
     \<lparr>succeeded = IsOk r, errorCode = ErrorCode_value (code (Err_void r)),
      resultMessage = (if IsOk r then str done else message (Err_void r))\<rparr>"

text \<open>
  The argument is what \<^verbatim>\<open>ReceiveFrame\<close> returned; the result has the frame given to
  \<^verbatim>\<open>SendFrame\<close>, if any (whether sending succeeds is ignored by the code).
\<close>

definition HandleOneIpcRequest ::
  "'f Host \<Rightarrow> bytes result \<Rightarrow> 'f Service \<Rightarrow> (bytes option \<times> 'f Service) option" where
  "HandleOneIpcRequest H frameResult svc =
     (case frameResult of
        Inl _ \<Rightarrow> Some (None, svc)
      | Inr frame \<Rightarrow>
     (case PeekMessageType frame of
        Inl _ \<Rightarrow> Some (None, svc)
      | Inr type \<Rightarrow>
     (case type of
        GetStatusRequest \<Rightarrow> Some (Some (EncodeStatusResponse (status_payload svc)), svc)
      | GetCacheStatisticsRequest \<Rightarrow>
          (case g_cacheEngine svc of
             None \<Rightarrow> Some (None, svc)
           | Some e \<Rightarrow> Some (Some (EncodeCacheStatisticsResponse (ToIpcPayload (GetStatistics e))), svc))
      | FlushAllRequest \<Rightarrow>
          (case g_cacheEngine svc of
             None \<Rightarrow> Some (Some (EncodeOperationResult FlushAllResponse no_engine_payload), svc)
           | Some e \<Rightarrow>
               (case FlushAll (host_deps H) e of
                  None \<Rightarrow> None
                | Some (r, e) \<Rightarrow>
                    Some (Some (EncodeOperationResult FlushAllResponse (result_payload ''flush complete'' r)),
                          svc\<lparr>g_cacheEngine := Some e\<rparr>)))
      | InvalidateKeyRequest \<Rightarrow>
          (case DecodeInvalidateKeyRequest frame of
             Inl er \<Rightarrow>
               Some (Some (EncodeOperationResult InvalidateKeyResponse
                 \<lparr>succeeded = False, errorCode = ErrorCode_value (code er), resultMessage = message er\<rparr>), svc)
           | Inr request \<Rightarrow>
               (case g_cacheEngine svc of
                  None \<Rightarrow> Some (Some (EncodeOperationResult InvalidateKeyResponse no_engine_payload), svc)
                | Some e \<Rightarrow>
                    (case ForceInvalidate (host_deps H) (request_key request) e of
                       None \<Rightarrow> None
                     | Some (r, e) \<Rightarrow>
                         Some (Some (EncodeOperationResult InvalidateKeyResponse (result_payload ''invalidated'' r)),
                               svc\<lparr>g_cacheEngine := Some e\<rparr>))))
      | _ \<Rightarrow> Some (None, svc))))"

text \<open>
  The IPC thread.  Each round has one event: whether one of the two reads of
  \<^verbatim>\<open>g_ipcShouldStop\<close> returned true, and what \<^verbatim>\<open>AcceptOnce\<close> returned, with the outcome of
  \<^verbatim>\<open>ReceiveFrame\<close> on the accepted connection.  An empty list is a thread that waits.
\<close>

fun IpcServerThreadBody ::
  "'f Host \<Rightarrow> (bool \<times> bytes result result) list \<Rightarrow> 'f Service \<Rightarrow> (bytes option list \<times> 'f Service) option" where
  "IpcServerThreadBody H [] svc = Some ([], svc)"
| "IpcServerThreadBody H ((stop, transportResult) # events) svc =
     (if stop then Some ([], svc)
      else
      (case transportResult of
         Inl er \<Rightarrow>
           if code er = ServiceStopping then Some ([], svc) else IpcServerThreadBody H events svc
       | Inr frameResult \<Rightarrow>
           (case HandleOneIpcRequest H frameResult svc of
              None \<Rightarrow> None
            | Some (reply, svc) \<Rightarrow>
                map_option (map_prod ((#) reply) id) (IpcServerThreadBody H events svc))))"

section \<open>Callbacks of the service host\<close>

text \<open>From \<^verbatim>\<open>MarkRecoveryComplete\<close> on.\<close>

definition begin_serving ::
  "'f Host \<Rightarrow> AppConfig \<Rightarrow> ('f WriteAheadJournal, 'f FileBackingStore) CacheEngine \<Rightarrow> 'f Service
     \<Rightarrow> unit result \<times> 'f Service" where
  "begin_serving H config e svc =
     (case MarkRecoveryComplete e of
        (Inl er, e) \<Rightarrow> (Failure er, svc\<lparr>g_cacheEngine := Some e\<rparr>)
      | (Inr _, e) \<Rightarrow>
          (case host_pipe H (ipcPipeName config) of
             Inl _ \<Rightarrow> (Success (), svc\<lparr>g_cacheEngine := Some e\<rparr>)
           | Inr _ \<Rightarrow>
               (Success (), svc\<lparr>g_cacheEngine := Some e, g_ipcServer := True, g_ipcShouldStop := False,
                                g_ipcThread := True\<rparr>)))"

text \<open>From the creation of the engine on.\<close>

definition recover_engine ::
  "'f Host \<Rightarrow> AppConfig \<Rightarrow> 'f SessionMarker RecoveryManager \<Rightarrow> 'f WriteAheadJournal \<Rightarrow> 'f FileBackingStore
     \<Rightarrow> 'f Service \<Rightarrow> (unit result \<times> 'f Service) option" where
  "recover_engine H config rm jrn b svc =
     (case CreateCacheEngine (BuildEngineOptions config) (Some b) (Some jrn) of
        Inl er \<Rightarrow> Some (Failure er, svc)
      | Inr e \<Rightarrow>
          (case InitializeAndRecover (host_marker H) (Some (ReplayFromJournal (host_deps H))) rm e of
             None \<Rightarrow> None
           | Some (r, rm, e) \<Rightarrow>
               let svc = svc\<lparr>g_recoveryManager := Some rm, g_cacheEngine := Some e\<rparr> in
               (case r of
                  Inl er \<Rightarrow> Some (Failure er, svc)
                | Inr _ \<Rightarrow> Some (begin_serving H config e svc))))"

definition start_with_config :: "'f Host \<Rightarrow> AppConfig \<Rightarrow> 'f Service \<Rightarrow> (unit result \<times> 'f Service) option" where
  "start_with_config H config svc =
     (case host_open H (stateDirectory config @ wstr ''/session.marker'') of
        Inl er \<Rightarrow> Some (Failure er, svc)
      | Inr markerFile \<Rightarrow>
     (case host_open H (stateDirectory config @ wstr ''/writeahead.journal'') of
        Inl er \<Rightarrow> Some (Failure er, svc)
      | Inr journalFile \<Rightarrow>
     (case CreateSessionMarker (Some markerFile) (host_clock H) of
        Inl er \<Rightarrow> Some (Failure er, svc)
      | Inr mk \<Rightarrow>
     (case CreateWriteAheadJournal (Some journalFile) of
        Inl er \<Rightarrow> Some (Failure er, svc)
      | Inr jrn \<Rightarrow>
     (case CreateRecoveryManager (Some mk) (Some jrn) of
        Inl er \<Rightarrow> Some (Failure er, svc)
      | Inr rm \<Rightarrow>
     (let svc = svc\<lparr>g_recoveryManager := Some rm\<rparr> in
      case OpenFileBackingStore (host_file H) (host_open H (backingStoreDataFile config)) of
        None \<Rightarrow> None
      | Some (Inl er) \<Rightarrow> Some (Failure er, svc)
      | Some (Inr b) \<Rightarrow> recover_engine H config rm jrn b svc))))))"

text \<open>The argument is what \<open>Load\<close> returned for the configuration file of the service.\<close>

definition OnServiceStart ::
  "'f Host \<Rightarrow> AppConfig result call \<Rightarrow> 'f Service \<Rightarrow> (unit result call \<times> 'f Service) option" where
  "OnServiceStart H loadResult svc =
     (case loadResult of
        Throws what \<Rightarrow> Some (Throws what, svc)
      | Returns lr \<Rightarrow>
          (let config = (case lr of Inr c \<Rightarrow> c | Inl _ \<Rightarrow> default_AppConfig)
           in map_option (map_prod Returns id) (start_with_config H config svc)))"

definition OnServiceStop :: "'f Host \<Rightarrow> 'f Service \<Rightarrow> (unit result \<times> 'f Service) option" where
  "OnServiceStop H svc =
     (let svc = svc\<lparr>g_ipcShouldStop := True, g_ipcThread := False\<rparr> in
      case (case g_cacheEngine svc of
              None \<Rightarrow> Some svc
            | Some e \<Rightarrow> map_option (\<lambda>(_, e). svc\<lparr>g_cacheEngine := Some e\<rparr>) (Shutdown (host_deps H) e)) of
        None \<Rightarrow> None
      | Some svc \<Rightarrow>
          (case g_recoveryManager svc of
             None \<Rightarrow> Some (Success (), svc)
           | Some rm \<Rightarrow>
               (case MarkCleanShutdown (host_marker H) rm of
                  (r, rm) \<Rightarrow> Some (r, svc\<lparr>g_recoveryManager := Some rm\<rparr>))))"

definition OnServicePreShutdown :: "'f Host \<Rightarrow> 'f Service \<Rightarrow> (unit result \<times> 'f Service) option" where
  "OnServicePreShutdown H svc =
     (case g_cacheEngine svc of
        None \<Rightarrow> Some (Success (), svc)
      | Some e \<Rightarrow>
          map_option (\<lambda>(_, e). (Success (), svc\<lparr>g_cacheEngine := Some e\<rparr>)) (FlushAll (host_deps H) e))"

section \<open>Validated configurations\<close>

lemma Validate_cacheD:
  assumes "Validate c = Success ()"
  shows "cacheShardCount c \<noteq> 0" "cacheShardCount c AND (cacheShardCount c - 1) = 0" "cacheShardCount c \<le> 4096"
    "cacheCapacityBytes c \<noteq> 0" "cacheMaxEntryCount c \<noteq> 0"
  using assms by (auto simp: Validate_def split: if_splits)

lemma Validate_options:
  "Validate c = Success () \<Longrightarrow> cacheEnabled c \<Longrightarrow> valid_options (BuildEngineOptions c)"
  using Validate_cacheD [of c] by (simp add: valid_options_def BuildEngineOptions_def)

section \<open>A host with three files\<close>

definition marker_path :: "AppConfig \<Rightarrow> wide" where
  "marker_path c = stateDirectory c @ wstr ''/session.marker''"

definition journal_path :: "AppConfig \<Rightarrow> wide" where
  "journal_path c = stateDirectory c @ wstr ''/writeahead.journal''"

type_synonym files = "bytes \<times> bytes \<times> bytes"

text \<open>Files that work, with the given contents of the marker, the store and the journal.\<close>

definition service_host ::
  "(key \<Rightarrow> nat) \<Rightarrow> (pending \<Rightarrow> pending) \<Rightarrow> (wide \<Rightarrow> unit result) \<Rightarrow> u64 list \<Rightarrow> AppConfig \<Rightarrow> files
     \<Rightarrow> PortableFile Host" where
  "service_host h ord pipe clk c files =
     (case files of (mb, sb, jb) \<Rightarrow>
        \<lparr>host_file = PortableFile_ops,
         host_open = (\<lambda>p. Inr (open_portable
           (if p = marker_path c then mb else if p = journal_path c then jb else sb) [])),
         host_clock = clk, host_hash = h, host_order = ord, host_pipe = pipe\<rparr>)"

text \<open>The data file is none of the two state files.\<close>

definition separate_files :: "AppConfig \<Rightarrow> bool" where
  "separate_files c \<longleftrightarrow> backingStoreDataFile c \<noteq> marker_path c \<and> backingStoreDataFile c \<noteq> journal_path c"

lemma service_host_simps [simp]:
  "host_deps (service_host h ord pipe clk c f) = portable_deps h ord"
  "host_marker (service_host h ord pipe clk c f) = SessionMarker_ops PortableFile_ops"
  "host_file (service_host h ord pipe clk c f) = PortableFile_ops"
  "host_clock (service_host h ord pipe clk c f) = clk"
  by (simp_all add: service_host_def host_deps_def host_marker_def portable_deps_def split: prod.split)

lemma service_host_open:
  assumes "separate_files c"
  shows "host_open (service_host h ord pipe clk c (mb, sb, jb)) (marker_path c) = Inr (open_portable mb [])"
    and "host_open (service_host h ord pipe clk c (mb, sb, jb)) (journal_path c) = Inr (open_portable jb [])"
    and "host_open (service_host h ord pipe clk c (mb, sb, jb)) (backingStoreDataFile c) = Inr (open_portable sb [])"
  using assms by (simp_all add: service_host_def separate_files_def marker_path_def journal_path_def wstr_def)

subsection \<open>The marker\<close>

definition new_marker :: "bytes \<Rightarrow> u64 list \<Rightarrow> PortableFile SessionMarker" where
  "new_marker mb clk = \<lparr>sm_file = open_portable mb [], lastKnownGeneration = 0, sm_clock = clk\<rparr>"

lemma ReadLastState_clock:
  "ReadLastState F (m\<lparr>sm_clock := c\<rparr>) = map_prod id (\<lambda>m. m\<lparr>sm_clock := c\<rparr>) (ReadLastState F m)"
  by (simp add: ReadLastState_def Let_def split: prod.split sum.split option.split)

lemma new_marker_clock: "new_marker mb clk = (portable_marker mb [])\<lparr>sm_clock := clk\<rparr>"
  by (simp add: new_marker_def portable_marker_def)

lemma new_marker_reads:
  assumes "mb = [] \<or> record_valid mb"
  shows "\<exists>d m. ReadLastState PortableFile_ops (new_marker mb clk) = (Inr d, m) \<and>
    closedCleanly d = marker_closed mb \<and> pf.sm_healthy m"
proof -
  have h: "pf.sm_healthy (new_marker mb clk)" "pf_content (sm_file (new_marker mb clk)) = mb"
    by (simp_all add: pf.sm_healthy_def pf_healthy_def new_marker_def open_portable_def)
  have "\<exists>d m. ReadLastState PortableFile_ops (portable_marker mb []) = (Inr d, m)"
    using assms ReadLastState_healthy [of mb]
    by (auto simp: ReadLastState_def PortableFile_defs portable_marker_def open_portable_def)
  then obtain d m where rd: "ReadLastState PortableFile_ops (new_marker mb clk) = (Inr d, m)"
    unfolding new_marker_clock ReadLastState_clock by auto
  then show ?thesis
    using pf.ReadLastState_outcome [OF rd] pf.sm.read_keeps [of "new_marker mb clk" "Inr d" m] h
    by (simp add: SessionMarker_ops_def)
qed

text \<open>On working files the startup protocol succeeds if the handler it may call does.\<close>

lemma start_protocol:
  assumes mb: "mb = [] \<or> record_valid mb" and h: "\<not> marker_closed mb \<Longrightarrow> handler w = Some (Inr (), w')"
  shows "\<exists>rm. InitializeAndRecover (SessionMarker_ops PortableFile_ops) (Some handler)
      \<lparr>marker = new_marker mb clk, rm_state = Unknown\<rparr> w = Some (Inr (), rm, if marker_closed mb then w else w') \<and>
    rm_state rm = RecoveryComplete \<and> pf.sm_healthy (marker rm) \<and>
    record_valid (pf_durable (sm_file (marker rm))) \<and> \<not> marker_closed (pf_durable (sm_file (marker rm)))"
proof -
  obtain d m where rd: "ReadLastState PortableFile_ops (new_marker mb clk) = (Inr d, m)"
    "closedCleanly d = marker_closed mb" "pf.sm_healthy m"
    using new_marker_reads [OF mb] by blast
  obtain r m' where st: "OnSessionStart PortableFile_ops m = (r, m')"
    by (cases "OnSessionStart PortableFile_ops m") auto
  have r: "r = Inr ()" "pf.sm_healthy m'"
    using pf.sm.start_healthy [OF rd(3)] st by (simp_all add: SessionMarker_ops_def)
  then have "record_valid (pf_durable (sm_file m'))" "\<not> marker_closed (pf_durable (sm_file m'))"
    using pf.OnSessionStart_valid st pf.sm.start_ok [of m "()" m']
    by (auto simp: SessionMarker_ops_def pf.sm_closed_durable_def)
  then show ?thesis
    using rd st r h
    by (cases "marker_closed mb")
      (simp_all add: InitializeAndRecover_def start_session_def SessionMarker_ops_def Let_def)
qed

subsection \<open>Start\<close>

text \<open>
  The files a session may start on: the marker is absent or whole, the journal holds the records
  \<open>R\<close>, and a marker that says the last shutdown was clean goes with an empty journal.
\<close>

definition ready_files :: "nat \<Rightarrow> CacheJournalRecord list \<Rightarrow> files \<Rightarrow> bool" where
  "ready_files N R files \<longleftrightarrow>
     (case files of (mb, sb, jb) \<Rightarrow>
        (mb = [] \<or> record_valid mb) \<and> holds_records N R jb \<and> (marker_closed mb \<longrightarrow> R = []))"

definition started ::
  "(key \<Rightarrow> nat) \<Rightarrow> (pending \<Rightarrow> pending) \<Rightarrow> AppConfig \<Rightarrow> nat \<Rightarrow> nat \<Rightarrow> CacheJournalRecord list \<Rightarrow> bytes
     \<Rightarrow> PortableFile Service \<Rightarrow> bool" where
  "started h ord c n N R sb svc \<longleftrightarrow>
     (\<exists>e rm. g_cacheEngine svc = Some e \<and> g_recoveryManager svc = Some rm \<and> rm_state rm = RecoveryComplete \<and>
        pf.sm_healthy (marker rm) \<and> record_valid (pf_durable (sm_file (marker rm))) \<and>
        \<not> marker_closed (pf_durable (sm_file (marker rm))) \<and>
        eng.running h ord n e \<and> dur.durable h ord (invalidated R) N R e \<and>
        engine_view (portable_deps h ord) pf.fbs_abs e = stored_view R sb \<and> options e = BuildEngineOptions c)"

lemma begin_serving_engine:
  assumes "MarkRecoveryComplete e1 = (Inr (), e)"
  shows "\<exists>svc'. begin_serving H c e1 svc = (Inr (), svc') \<and> g_cacheEngine svc' = Some e \<and>
    g_recoveryManager svc' = g_recoveryManager svc"
  using assms by (simp add: begin_serving_def split: sum.split)

lemma start_with_config_files:
  fixes jb :: bytes
  assumes "separate_files c" and "valid_options (BuildEngineOptions c)"
    and "OpenFileBackingStore PortableFile_ops (Inr (open_portable sb [])) = Some (Inr b)"
  defines "j \<equiv> \<lparr>waj_file = open_portable jb [], nextSequenceNumber = 0, recordCount = 0\<rparr>"
  shows "start_with_config (service_host h ord pipe clk c (mb, sb, jb)) c svc =
    (case InitializeAndRecover (SessionMarker_ops PortableFile_ops) (Some (ReplayFromJournal (portable_deps h ord)))
            \<lparr>marker = new_marker mb clk, rm_state = Unknown\<rparr> (new_engine (BuildEngineOptions c) b j) of
       None \<Rightarrow> None
     | Some (r, rm, e) \<Rightarrow>
         let svc = svc\<lparr>g_recoveryManager := Some rm, g_cacheEngine := Some e\<rparr> in
         (case r of
            Inl er \<Rightarrow> Some (Failure er, svc)
          | Inr _ \<Rightarrow> Some (begin_serving (service_host h ord pipe clk c (mb, sb, jb)) c e svc)))"
  using assms(3) service_host_open [OF assms(1), of h ord pipe clk mb sb jb]
    valid_options_Create [OF assms(2), of b j]
  by (simp add: start_with_config_def recover_engine_def CreateSessionMarker_def CreateWriteAheadJournal_def
      CreateRecoveryManager_def new_marker_def j_def Let_def split: option.split
      flip: marker_path_def journal_path_def)

lemma service_starts:
  assumes c: "Validate c = Success ()" "cacheEnabled c" "separate_files c" and ord: "\<And>p. mset (ord p) = mset p"
    and f: "ready_files N R (mb, sb, jb)" and n: "N + n < 2 ^ 64"
  shows "\<exists>svc. OnServiceStart (service_host h ord pipe clk c (mb, sb, jb)) (Returns (Inr c)) new_process
      = Some (Returns (Inr ()), svc) \<and> started h ord c n N R sb svc"
proof -
  let ?d = "portable_deps h ord" and ?o = "BuildEngineOptions c"
    and ?j = "\<lparr>waj_file = open_portable jb [], nextSequenceNumber = 0, recordCount = 0\<rparr>"
  let ?H = "service_host h ord pipe clk c (mb, sb, jb)"
  have opts: "valid_options ?o"
    using Validate_options [OF c(1,2)] .
  have mb: "mb = [] \<or> record_valid mb" and R: "holds_records N R jb" and cl: "marker_closed mb \<Longrightarrow> R = []"
    using f by (simp_all add: ready_files_def)
  obtain b e1 e2 where r: "OpenFileBackingStore PortableFile_ops (Inr (open_portable sb [])) = Some (Inr b)"
    "ReplayFromJournal ?d (new_engine ?o b ?j) = Some (Inr (), e1)" "MarkRecoveryComplete e1 = (Inr (), e2)"
    "eng.running h ord n e2" "dur.durable h ord (invalidated R) N R e2"
    "engine_view ?d pf.fbs_abs e2 = stored_view R sb" "options e2 = ?o"
    using recovered_start [OF opts ord R n, of sb h] by blast
  obtain rm where i: "InitializeAndRecover (SessionMarker_ops PortableFile_ops) (Some (ReplayFromJournal ?d))
      \<lparr>marker = new_marker mb clk, rm_state = Unknown\<rparr> (new_engine ?o b ?j)
      = Some (Inr (), rm, if marker_closed mb then new_engine ?o b ?j else e1)"
    "rm_state rm = RecoveryComplete" "pf.sm_healthy (marker rm)" "record_valid (pf_durable (sm_file (marker rm)))"
    "\<not> marker_closed (pf_durable (sm_file (marker rm)))"
    using start_protocol [OF mb, of "ReplayFromJournal ?d" "new_engine ?o b ?j" e1 clk] r(2) by blast
  have "\<exists>e. MarkRecoveryComplete (if marker_closed mb then new_engine ?o b ?j else e1) = (Inr (), e) \<and>
    eng.running h ord n e \<and> dur.durable h ord (invalidated R) N R e \<and>
    engine_view ?d pf.fbs_abs e = stored_view R sb \<and> options e = ?o"
  proof (cases "marker_closed mb")
    case True
    have b: "dur.bgood b" "pf.fbs_abs b = store_map (store_scan sb)"
      using open_bytes [of sb] r(1) by (auto simp: dur.bgood_def)
    have R0: "R = []" using cl True .
    obtain e where e: "MarkRecoveryComplete (new_engine ?o b ?j) = (Inr (), e)" "eng.running h ord n e"
      "dur.durable h ord {} 0 [] e" "engine_view ?d pf.fbs_abs e = pf.fbs_abs b" "options e = ?o"
      using dur.fresh_durable [OF b(1) holds_records_jgood [OF R [unfolded R0]], of ?o n h ord] n opts
      by (auto simp: valid_options_def)
    have "dur.durable h ord {} N [] e"
      using dur.durableD [OF e(3)] by (simp add: dur.durable_def)
    moreover have "stored_view [] sb = store_map (store_scan sb)"
      by (simp add: stored_view_def fun_eq_iff pending_map_def invalidated_def)
    ultimately show ?thesis
      using e b(2) True by (simp add: R0 invalidated_def)
  next
    case False
    then show ?thesis
      using r by simp
  qed
  then obtain e where e: "MarkRecoveryComplete (if marker_closed mb then new_engine ?o b ?j else e1) = (Inr (), e)"
    "eng.running h ord n e" "dur.durable h ord (invalidated R) N R e"
    "engine_view ?d pf.fbs_abs e = stored_view R sb" "options e = ?o"
    by blast
  let ?e0 = "if marker_closed mb then new_engine ?o b ?j else e1"
  obtain svc where svc: "begin_serving ?H c ?e0 (new_process\<lparr>g_recoveryManager := Some rm, g_cacheEngine := Some ?e0\<rparr>)
      = (Inr (), svc)" "g_cacheEngine svc = Some e" "g_recoveryManager svc = Some rm"
    using begin_serving_engine [OF e(1), of ?H c "new_process\<lparr>g_recoveryManager := Some rm, g_cacheEngine := Some ?e0\<rparr>"]
    by auto
  then have "OnServiceStart ?H (Returns (Inr c)) new_process = Some (Returns (Inr ()), svc)"
    using start_with_config_files [OF c(3) opts r(1), of h ord pipe clk mb jb new_process] i(1)
    by (simp add: OnServiceStart_def Let_def)
  then show ?thesis
    using svc(2,3) i e(2-5) by (auto simp: started_def)
qed

subsection \<open>Stop\<close>

text \<open>What is on stable storage when the process ends.\<close>

definition service_files :: "PortableFile Service \<Rightarrow> files" where
  "service_files svc =
     (case (g_recoveryManager svc, g_cacheEngine svc) of
        (Some rm, Some e) \<Rightarrow> (pf_durable (sm_file (marker rm)), crash e)
      | _ \<Rightarrow> ([], [], []))"

lemma stored_view_Nil: "stored_view [] sb = store_map (store_scan sb)"
  by (simp add: stored_view_def fun_eq_iff pending_map_def invalidated_def)

lemma service_stops:
  assumes e: "g_cacheEngine svc = Some e" "eng.running h ord n e" "dur.durable h ord I N R e"
    and rm: "g_recoveryManager svc = Some rm" "pf.sm_healthy (marker rm)"
  shows "\<exists>svc'. OnServiceStop (service_host h ord pipe clk c files) svc = Some (Inr (), svc') \<and>
    ready_files N [] (service_files svc') \<and>
    stored_view [] (fst (snd (service_files svc'))) = engine_view (portable_deps h ord) pf.fbs_abs e"
proof -
  obtain e' where sh: "Shutdown (portable_deps h ord) e = Some (Inr (), e')" "dur.durable h ord {} N [] e'"
    "pf.fbs_abs (backingStore e') = engine_view (portable_deps h ord) pf.fbs_abs e"
    using dur.Shutdown_durable [OF e(2,3)] by blast
  obtain r m where cl: "OnCleanShutdown PortableFile_ops (marker rm) = (r, m)"
    by (cases "OnCleanShutdown PortableFile_ops (marker rm)") auto
  have r: "r = Inr ()"
    using pf.sm.stop_healthy [OF rm(2)] cl by (simp add: SessionMarker_ops_def)
  then have mc: "marker_closed (pf_durable (sm_file m))"
    using pf.sm.stop_ok [of "marker rm" "()" m] cl by (simp add: SessionMarker_ops_def pf.sm_closed_durable_def)
  let ?svc = "svc\<lparr>g_ipcShouldStop := True, g_ipcThread := False, g_cacheEngine := Some e',
                  g_recoveryManager := Some (rm\<lparr>marker := m\<rparr>)\<rparr>"
  have "OnServiceStop (service_host h ord pipe clk c files) svc = Some (Inr (), ?svc)"
    using e(1) rm(1) sh(1) cl r
    by (simp add: OnServiceStop_def Let_def MarkCleanShutdown_def SessionMarker_ops_def)
  moreover have "ready_files N [] (service_files ?svc)"
    using durable_crash(1) [OF sh(2)] mc
    by (auto simp: ready_files_def service_files_def marker_closed_def split: prod.split)
  moreover have "stored_view [] (fst (snd (service_files ?svc))) = engine_view (portable_deps h ord) pf.fbs_abs e"
    using durable_crash(2) [OF sh(2)] sh(3) by (simp add: service_files_def stored_view_Nil)
  ultimately show ?thesis
    by blast
qed

section \<open>Sessions of the service\<close>

text \<open>
  A session: the process starts on what the last one left on stable storage, clients call the engine,
  and it ends by an orderly stop (\<open>True\<close>) or by a power cut (\<open>False\<close>).  \<open>None\<close> if a start fails.
\<close>

fun run_service ::
  "(key \<Rightarrow> nat) \<Rightarrow> (pending \<Rightarrow> pending) \<Rightarrow> (wide \<Rightarrow> unit result) \<Rightarrow> u64 list \<Rightarrow> AppConfig
     \<Rightarrow> (engine_op list \<times> bool) list \<Rightarrow> files
     \<Rightarrow> ((key \<rightharpoonup> value) \<times> engine_reply list \<times> (key \<rightharpoonup> value)) list option" where
  "run_service h ord pipe clk c [] files = Some []"
| "run_service h ord pipe clk c ((xs, orderly) # sessions) files =
     (case OnServiceStart (service_host h ord pipe clk c files) (Returns (Inr c)) new_process of
        Some (Returns (Inr _), svc) \<Rightarrow>
          (case g_cacheEngine svc of
             None \<Rightarrow> None
           | Some e \<Rightarrow>
               (case run_engine (portable_deps h ord) xs e of
                  None \<Rightarrow> None
                | Some (rs, e') \<Rightarrow>
                    (let svc = svc\<lparr>g_cacheEngine := Some e'\<rparr> in
                     case (if orderly
                           then map_option snd (OnServiceStop (service_host h ord pipe clk c files) svc)
                           else Some svc) of
                       None \<Rightarrow> None
                     | Some svc \<Rightarrow>
                         map_option ((#) (engine_view (portable_deps h ord) pf.fbs_abs e, rs,
                                          engine_view (portable_deps h ord) pf.fbs_abs e'))
                           (run_service h ord pipe clk c sessions (service_files svc)))))
      | _ \<Rightarrow> None)"

text \<open>One session.\<close>

lemma service_session:
  assumes c: "Validate c = Success ()" "cacheEnabled c" "separate_files c" and ord: "\<And>p. mset (ord p) = mset p"
    and f: "ready_files N R (mb, sb, jb)" and xs: "\<forall>x\<in>set xs. engine_op_ok x" and n: "N + length xs < 2 ^ 64"
  shows "\<exists>svc e rs e' svc' R'.
    OnServiceStart (service_host h ord pipe clk c (mb, sb, jb)) (Returns (Inr c)) new_process = Some (Returns (Inr ()), svc) \<and>
    g_cacheEngine svc = Some e \<and> run_engine (portable_deps h ord) xs e = Some (rs, e') \<and>
    engine_view (portable_deps h ord) pf.fbs_abs e = stored_view R sb \<and>
    map_run (writePolicy (BuildEngineOptions c) = WriteThrough) xs rs (engine_view (portable_deps h ord) pf.fbs_abs e)
      (engine_view (portable_deps h ord) pf.fbs_abs e') \<and>
    (if orderly then map_option snd (OnServiceStop (service_host h ord pipe clk c (mb, sb, jb)) (svc\<lparr>g_cacheEngine := Some e'\<rparr>))
     else Some (svc\<lparr>g_cacheEngine := Some e'\<rparr>)) = Some svc' \<and>
    ready_files (N + length xs) R' (service_files svc') \<and> (orderly \<longrightarrow> R' = []) \<and>
    (\<forall>k. k \<notin> invalidated R \<union> \<Union> (invalidates ` set xs) \<or> orderly \<longrightarrow> k \<notin> invalidated R' \<and>
       stored_view R' (fst (snd (service_files svc'))) k = engine_view (portable_deps h ord) pf.fbs_abs e' k)"
proof -
  let ?d = "portable_deps h ord" and ?H = "service_host h ord pipe clk c (mb, sb, jb)"
  have n': "N + (length xs + 0) < 2 ^ 64"
    using n by simp
  obtain svc where svc: "OnServiceStart ?H (Returns (Inr c)) new_process = Some (Returns (Inr ()), svc)"
    "started h ord c (length xs + 0) N R sb svc"
    using service_starts [OF c ord f n'] by blast
  then obtain e rm where e: "g_cacheEngine svc = Some e" "g_recoveryManager svc = Some rm"
    "pf.sm_healthy (marker rm)" "record_valid (pf_durable (sm_file (marker rm)))"
    "\<not> marker_closed (pf_durable (sm_file (marker rm)))"
    "eng.running h ord (length xs + 0) e" "dur.durable h ord (invalidated R) N R e"
    "engine_view ?d pf.fbs_abs e = stored_view R sb" "options e = BuildEngineOptions c"
    unfolding started_def by blast
  obtain rs e' R' where s: "run_engine ?d xs e = Some (rs, e')" "eng.running h ord 0 e'"
    "map_run (writePolicy (options e) = WriteThrough) xs rs (engine_view ?d pf.fbs_abs e) (engine_view ?d pf.fbs_abs e')"
    "dur.durable h ord (invalidated R \<union> \<Union> (invalidates ` set xs)) (N + length xs) R' e'"
    "\<forall>k. k \<notin> invalidated R \<union> \<Union> (invalidates ` set xs) \<longrightarrow> k \<notin> invalidated R' \<and>
       stored_view R' (fst (crash e')) k = engine_view ?d pf.fbs_abs e' k"
    using started_session [OF e(6,7) xs] by blast
  let ?svc = "svc\<lparr>g_cacheEngine := Some e'\<rparr>"
  show ?thesis
  proof (cases orderly)
    case True
    obtain svc' where st: "OnServiceStop ?H ?svc = Some (Inr (), svc')"
      "ready_files (N + length xs) [] (service_files svc')"
      "stored_view [] (fst (snd (service_files svc'))) = engine_view ?d pf.fbs_abs e'"
      using service_stops [OF _ s(2,4), of ?svc rm pipe clk c "(mb, sb, jb)"] e(2,3) by auto
    have "invalidated [] = {}"
      by (simp add: invalidated_def)
    then show ?thesis
      using svc(1) e(1,8,9) s(1,3) st True
      by (intro exI [of _ svc] exI [of _ e] exI [of _ rs] exI [of _ e'] exI [of _ svc'] exI [of _ "[]"]) simp
  next
    case False
    have sf: "service_files ?svc = (pf_durable (sm_file (marker rm)), crash e')"
      using e(2) by (simp add: service_files_def)
    then have "ready_files (N + length xs) R' (service_files ?svc)"
      using e(4,5) durable_crash(1) [OF s(4)] by (auto simp: ready_files_def split: prod.split)
    then show ?thesis
      using svc(1) e(1,8,9) s(1,3,5) False sf
      by (intro exI [of _ svc] exI [of _ e] exI [of _ rs] exI [of _ e'] exI [of _ ?svc] exI [of _ R']) simp
  qed
qed

lemma run_service_correct:
  assumes c: "Validate c = Success ()" "cacheEnabled c" "separate_files c" and ord: "\<And>p. mset (ord p) = mset p"
    and "ready_files N R (mb, sb, jb)" and "\<forall>x\<in>set (concat (map fst ss)). engine_op_ok x"
    and "N + length (concat (map fst ss)) < 2 ^ 64"
  shows "\<exists>ts. run_service h ord pipe clk c ss (mb, sb, jb) = Some ts \<and>
    list_all2 (\<lambda>(xs, _) (m, rs, m'). map_run (writePolicy (BuildEngineOptions c) = WriteThrough) xs rs m m') ss ts \<and>
    (\<forall>k. k \<notin> invalidated R \<union> \<Union> (invalidates ` set (concat (map fst ss))) \<or> R = [] \<and> list_all snd ss \<longrightarrow>
       continues k (stored_view R sb k) ts)"
  using assms(5-)
proof (induction ss arbitrary: N R mb sb jb)
  case Nil
  then show ?case by simp
next
  case (Cons s ss)
  obtain xs orderly where s: "s = (xs, orderly)"
    by (cases s)
  let ?d = "portable_deps h ord" and ?v = "engine_view (portable_deps h ord) pf.fbs_abs"
  have xs: "\<forall>x\<in>set xs. engine_op_ok x" "N + length xs < 2 ^ 64"
    using Cons.prems(2,3) by (auto simp: s)
  obtain svc e rs e' svc' R' where o:
    "OnServiceStart (service_host h ord pipe clk c (mb, sb, jb)) (Returns (Inr c)) new_process = Some (Returns (Inr ()), svc)"
    "g_cacheEngine svc = Some e" "run_engine ?d xs e = Some (rs, e')" "?v e = stored_view R sb"
    "map_run (writePolicy (BuildEngineOptions c) = WriteThrough) xs rs (?v e) (?v e')"
    "(if orderly then map_option snd (OnServiceStop (service_host h ord pipe clk c (mb, sb, jb)) (svc\<lparr>g_cacheEngine := Some e'\<rparr>))
      else Some (svc\<lparr>g_cacheEngine := Some e'\<rparr>)) = Some svc'"
    "ready_files (N + length xs) R' (service_files svc')" "orderly \<longrightarrow> R' = []"
    "\<forall>k. k \<notin> invalidated R \<union> \<Union> (invalidates ` set xs) \<or> orderly \<longrightarrow> k \<notin> invalidated R' \<and>
       stored_view R' (fst (snd (service_files svc'))) k = ?v e' k"
    using service_session [OF c ord Cons.prems(1) xs, of h pipe clk orderly] by blast
  obtain mb' sb' jb' where f: "service_files svc' = (mb', sb', jb')"
    by (metis prod.exhaust)
  have ss: "\<forall>x\<in>set (concat (map fst ss)). engine_op_ok x" "N + length xs + length (concat (map fst ss)) < 2 ^ 64"
    using Cons.prems(2,3) by (auto simp: s)
  obtain ts where ts: "run_service h ord pipe clk c ss (mb', sb', jb') = Some ts"
    "list_all2 (\<lambda>(xs, _) (m, rs, m'). map_run (writePolicy (BuildEngineOptions c) = WriteThrough) xs rs m m') ss ts"
    "\<forall>k. k \<notin> invalidated R' \<union> \<Union> (invalidates ` set (concat (map fst ss))) \<or> R' = [] \<and> list_all snd ss \<longrightarrow>
       continues k (stored_view R' sb' k) ts"
    using Cons.IH [OF o(7) [unfolded f] ss] by blast
  have "run_service h ord pipe clk c (s # ss) (mb, sb, jb) = Some ((?v e, rs, ?v e') # ts)"
    using o(1-3,6) ts(1) f by (simp add: s Let_def)
  moreover have "continues k (stored_view R sb k) ((?v e, rs, ?v e') # ts)"
    if "k \<notin> invalidated R \<union> \<Union> (invalidates ` set (concat (map fst (s # ss)))) \<or> R = [] \<and> list_all snd (s # ss)" for k
    using that o(4,8) o(9) [rule_format, of k] ts(3) [rule_format, of k] f by (auto simp: s)
  ultimately show ?case
    using o(5) ts(2) by (auto simp: s)
qed

section \<open>Properties of the service\<close>

text \<open>
  C1. \<^bold>\<open>Nothing acknowledged is lost, over any number of starts, stops and power cuts.\<close>  Run the service
  with a validated configuration on an empty marker and journal and any data file, for any number of
  sessions, each ended by an orderly stop or by a power cut.  On files that work every start succeeds,
  whether the named pipe can be created or not; in each session the engine behaves as a map; and
  each session starts with exactly the contents the last one ended with, for every key that is never
  invalidated, and for all keys if every session ends in order.
\<close>

theorem service_keeps_contents:
  assumes "Validate c = Success ()" and "cacheEnabled c" and "separate_files c" and "\<And>p. mset (ord p) = mset p"
    and "\<forall>x\<in>set (concat (map fst ss)). engine_op_ok x" and "length (concat (map fst ss)) < 2 ^ 64"
  shows "\<exists>ts. run_service h ord pipe clk c ss ([], sb, []) = Some ts \<and>
    list_all2 (\<lambda>(xs, _) (m, rs, m'). map_run (writePolicy (BuildEngineOptions c) = WriteThrough) xs rs m m') ss ts \<and>
    (\<forall>k. k \<notin> \<Union> (invalidates ` set (concat (map fst ss))) \<or> list_all snd ss \<longrightarrow>
       continues k (store_map (store_scan sb) k) ts)"
proof -
  have "ready_files 0 [] ([], sb, [])"
    by (simp add: ready_files_def holds_records_def exI [of _ "[]"])
  moreover have "0 + length (concat (map fst ss)) < 2 ^ 64"
    using assms(6) by simp
  moreover have "invalidated [] = {}"
    by (simp add: invalidated_def)
  ultimately show ?thesis
    using run_service_correct [OF assms(1-4) _ assms(5), of 0 "[]" "[]" sb "[]" h pipe clk]
    by (simp add: stored_view_Nil)
qed

definition sample_service_sessions :: "(engine_op list \<times> bool) list" where
  "sample_service_sessions =
     [([EPut (str ''k'') [1, 2]], False), ([EGet (str ''k''), EPut (str ''k'') [3]], True), ([EGet (str ''k'')], False)]"

lemma sample_config_ok:
  "cacheEnabled default_AppConfig" "separate_files default_AppConfig"
  by (simp_all add: default_AppConfig_def separate_files_def marker_path_def journal_path_def wstr_def)

lemma sample_service_sessions_ok:
  "\<forall>x\<in>set (concat (map fst sample_service_sessions)). engine_op_ok x"
  "length (concat (map fst sample_service_sessions)) < 2 ^ 64"
  "str ''k'' \<notin> \<Union> (invalidates ` set (concat (map fst sample_service_sessions)))"
  by (simp_all add: sample_service_sessions_def key_ok_def str_def)

theorem service_keeps_contents_witness:
  "\<exists>ts. run_service length id (\<lambda>_. Inr ()) [] default_AppConfig sample_service_sessions ([], [], []) = Some ts \<and>
    continues (str ''k'') (store_map (store_scan []) (str ''k'')) ts"
  using service_keeps_contents [OF default_config_ok(1) sample_config_ok _ sample_service_sessions_ok(1,2),
      of id length "\<lambda>_. Inr ()" "[]" "[]"] sample_service_sessions_ok(3)
  by auto

section \<open>IPC\<close>

text \<open>The engine operation a request asks for.\<close>

definition request_op :: "bytes result \<Rightarrow> engine_op option" where
  "request_op frameResult =
     (case frameResult of
        Inl _ \<Rightarrow> None
      | Inr frame \<Rightarrow>
          (case PeekMessageType frame of
             Inr FlushAllRequest \<Rightarrow> Some EFlushAll
           | Inr InvalidateKeyRequest \<Rightarrow>
               (case DecodeInvalidateKeyRequest frame of
                  Inl _ \<Rightarrow> None
                | Inr q \<Rightarrow> Some (EForceInvalidate (request_key q)))
           | _ \<Rightarrow> None))"

text \<open>The answer to it.\<close>

fun reply_frame :: "engine_op \<Rightarrow> engine_reply \<Rightarrow> bytes option" where
  "reply_frame EFlushAll (RUnit r) =
     Some (EncodeOperationResult FlushAllResponse (result_payload ''flush complete'' r))"
| "reply_frame (EForceInvalidate k) (RUnit r) =
     Some (EncodeOperationResult InvalidateKeyResponse (result_payload ''invalidated'' r))"
| "reply_frame _ _ = None"

text \<open>The connections a run of the IPC thread serves.\<close>

fun served :: "(bool \<times> bytes result result) list \<Rightarrow> bytes result list" where
  "served [] = []"
| "served ((stop, transportResult) # events) =
     (if stop then []
      else
      (case transportResult of
         Inl er \<Rightarrow> if code er = ServiceStopping then [] else served events
       | Inr frameResult \<Rightarrow> frameResult # served events))"

lemma length_served: "length (served events) \<le> length events"
  by (induction events rule: served.induct) (auto split: sum.split)

lemma HandleOneIpcRequest_query:
  assumes "request_op f = None" and "g_cacheEngine svc = Some e"
  shows "\<exists>reply. HandleOneIpcRequest H f svc = Some (reply, svc)"
  using assms by (auto simp: HandleOneIpcRequest_def request_op_def split: sum.splits MessageType.splits)

lemma HandleOneIpcRequest_op:
  assumes "request_op f = Some x" and "g_cacheEngine svc = Some e" and "engine_step (host_deps H) x e = Some (r, e')"
  shows "HandleOneIpcRequest H f svc = Some (reply_frame x r, svc\<lparr>g_cacheEngine := Some e'\<rparr>)"
  using assms by (auto simp: HandleOneIpcRequest_def request_op_def split: sum.splits MessageType.splits)

lemma request_op_storable: "request_op f = Some x \<Longrightarrow> engine_op_storable x"
  by (auto simp: request_op_def storable_def DecodeInvalidateKeyRequest_iff
      split: sum.splits MessageType.splits)

text \<open>A run of the IPC thread is a run of the engine.\<close>

lemma IpcServerThreadBody_run:
  assumes "g_cacheEngine svc = Some e"
    and "run_engine (host_deps H) (List.map_filter request_op (served events)) e = Some (rs, e')"
  shows "\<exists>replies. IpcServerThreadBody H events svc = Some (replies, svc\<lparr>g_cacheEngine := Some e'\<rparr>) \<and>
    length replies = length (served events) \<and>
    map snd (filter (\<lambda>(f, _). request_op f \<noteq> None) (zip (served events) replies)) =
      map2 reply_frame (List.map_filter request_op (served events)) rs"
  using assms
proof (induction events arbitrary: svc e rs rule: served.induct)
  case 1
  then show ?case by (simp add: List.map_filter_def)
next
  case (2 stop tr events)
  show ?case
  proof (cases "stop \<or> (\<exists>er. tr = Inl er \<and> code er = ServiceStopping)")
    case True
    then show ?thesis
      using 2 by (auto simp: List.map_filter_def)
  next
    case False
    show ?thesis
    proof (cases tr)
      case (Inl er)
      then show ?thesis
        using 2 False by simp
    next
      case (Inr f)
      show ?thesis
      proof (cases "request_op f")
        case None
        then obtain reply where h: "HandleOneIpcRequest H f svc = Some (reply, svc)"
          using HandleOneIpcRequest_query 2(3) by blast
        obtain replies where r: "IpcServerThreadBody H events svc = Some (replies, svc\<lparr>g_cacheEngine := Some e'\<rparr>)"
          "length replies = length (served events)"
          "map snd (filter (\<lambda>(f, _). request_op f \<noteq> None) (zip (served events) replies)) =
             map2 reply_frame (List.map_filter request_op (served events)) rs"
          using 2(2) [OF _ Inr 2(3), of rs] 2(4) False Inr None by (auto simp: List.map_filter_simps)
        show ?thesis
          using r h False Inr None by (auto simp: List.map_filter_simps)
      next
        case (Some x)
        then obtain y e1 rs1 where st: "engine_step (host_deps H) x e = Some (y, e1)" "rs = y # rs1"
          "run_engine (host_deps H) (List.map_filter request_op (served events)) e1 = Some (rs1, e')"
          using 2(4) False Inr by (auto simp: List.map_filter_simps split: option.splits)
        have h: "HandleOneIpcRequest H f svc = Some (reply_frame x y, svc\<lparr>g_cacheEngine := Some e1\<rparr>)"
          using HandleOneIpcRequest_op [OF Some 2(3) st(1)] .
        obtain replies where r: "IpcServerThreadBody H events (svc\<lparr>g_cacheEngine := Some e1\<rparr>) = Some (replies, svc\<lparr>g_cacheEngine := Some e'\<rparr>)"
          "length replies = length (served events)"
          "map snd (filter (\<lambda>(f, _). request_op f \<noteq> None) (zip (served events) replies)) =
             map2 reply_frame (List.map_filter request_op (served events)) rs1"
          using 2(2) [OF _ Inr _ st(3), of "svc\<lparr>g_cacheEngine := Some e1\<rparr>"] False by auto
        show ?thesis
          using r h st(2) False Inr Some by (auto simp: List.map_filter_simps)
      qed
    qed
  qed
qed

section \<open>Properties of the IPC server\<close>


text \<open>A client that flushes, sends garbage, and invalidates a key.\<close>

definition sample_events :: "(bool \<times> bytes result result) list" where
  "sample_events =
     [(False, Inr (Inr (EncodeEmpty FlushAllRequest))), (False, Inr (Inr [1, 2, 3])),
      (False, Inr (Inr (EncodeInvalidateKeyRequest sample_request))), (True, Inr (Inr []))]"

definition sample_service :: "PortableFile Service" where
  "sample_service = new_process\<lparr>g_cacheEngine := Some (sample_engine\<lparr>lifecycle := Ready\<rparr>)\<rparr>"

definition sample_host :: "PortableFile Host" where
  "sample_host = service_host length id (\<lambda>_. Inr ()) [] default_AppConfig ([], [], [])"

lemma sample_requests:
  "List.map_filter request_op (served sample_events) = [EFlushAll, EForceInvalidate (str ''user:42'')]"
proof -
  have "DecodeInvalidateKeyRequest (EncodeInvalidateKeyRequest sample_request) = Success sample_request"
    by (auto simp: DecodeInvalidateKeyRequest_iff encoder_frames PatchLength_extend sample_request_def str_def
        intro: exI [of _ "[]"])
  then have "request_op (Inr (EncodeInvalidateKeyRequest sample_request)) = Some (EForceInvalidate (str ''user:42''))"
    by (simp add: request_op_def encoder_frames MessageType_cast_def) (simp add: sample_request_def)
  moreover have "request_op (Inr (EncodeEmpty FlushAllRequest)) = Some EFlushAll"
    by (simp add: request_op_def encoder_frames MessageType_cast_def)
  moreover have "request_op (Inr [1, 2, 3]) = None"
    by (simp add: request_op_def PeekMessageType_def ReadU32_def ReadRaw_def)
  ultimately show ?thesis
    by (simp add: sample_events_def List.map_filter_simps)
qed


text \<open>
  \<^bold>\<open>Requests without a payload are not checked for their version.\<close>  Any frame that has the type of a
  request without payload in its second word is served as that request, whatever its length field, its
  protocol version and its other bytes are, or even if it ends after the type: a client of another
  protocol version can flush the cache.
\<close>

theorem bare_requests_unchecked:
  fixes len :: u32
  assumes "type \<in> {GetStatusRequest, GetCacheStatisticsRequest, FlushAllRequest}"
  shows "HandleOneIpcRequest H (Inr (le_bytes 4 len @ le_bytes 4 (MessageType_value type) @ rest)) svc
       = HandleOneIpcRequest H (Inr (EncodeEmpty type)) svc"
proof -
  have "PeekMessageType (le_bytes 4 (len :: u32) @ le_bytes 4 (MessageType_value type) @ rest) = PeekMessageType (EncodeEmpty type)"
    by (simp add: encoder_frames) (simp add: PeekMessageType_def ReadU32_def ReadRaw_def)
  then show ?thesis
    using assms by (auto simp: HandleOneIpcRequest_def encoder_frames MessageType_cast_def)
qed

theorem bare_requests_unchecked_witness:
  "HandleOneIpcRequest sample_host (Inr (le_bytes 4 (0 :: u32) @ le_bytes 4 (MessageType_value FlushAllRequest) @ [])) sample_service
     = HandleOneIpcRequest sample_host (Inr (EncodeEmpty FlushAllRequest)) sample_service"
  by (rule bare_requests_unchecked) simp

section \<open>Properties of the stop\<close>

lemma clean_start_shows_store:
  assumes c: "Validate c = Success ()" "cacheEnabled c" "separate_files c" and mb: "marker_closed mb"
  shows "\<exists>svc e. OnServiceStart (service_host h ord pipe clk c (mb, sb, jb)) (Returns (Inr c)) new_process
      = Some (Returns (Inr ()), svc) \<and> g_cacheEngine svc = Some e \<and>
    engine_view (portable_deps h ord) pf.fbs_abs e = store_map (store_scan sb)"
proof -
  let ?o = "BuildEngineOptions c" and ?H = "service_host h ord pipe clk c (mb, sb, jb)"
    and ?j = "\<lparr>waj_file = open_portable jb [], nextSequenceNumber = 0, recordCount = 0\<rparr>"
  have opts: "valid_options ?o"
    using Validate_options [OF c(1,2)] .
  obtain b where b: "OpenFileBackingStore PortableFile_ops (Inr (open_portable sb [])) = Some (Inr b)"
    "pf.fbs_inv b" "pf.fbs_abs b = store_map (store_scan sb)"
    using open_bytes [of sb] by auto
  have "mb = [] \<or> record_valid mb"
    using mb by (auto simp: marker_closed_def)
  then obtain rm where i: "InitializeAndRecover (SessionMarker_ops PortableFile_ops) (Some (ReplayFromJournal (portable_deps h ord)))
      \<lparr>marker = new_marker mb clk, rm_state = Unknown\<rparr> (new_engine ?o b ?j) = Some (Inr (), rm, new_engine ?o b ?j)"
    using start_protocol [of mb "ReplayFromJournal (portable_deps h ord)" "new_engine ?o b ?j" undefined clk] mb by auto
  obtain e where e: "MarkRecoveryComplete (new_engine ?o b ?j) = (Inr (), e)"
    by (simp add: MarkRecoveryComplete_def new_engine_def Let_def)
  have v: "engine_view (portable_deps h ord) pf.fbs_abs e = pf.fbs_abs b"
    using eng.Create_running [OF b(2) valid_options_Create [OF opts, of b ?j] e, of 0 h ord] opts
    by (simp add: valid_options_def)
  let ?svc = "new_process\<lparr>g_recoveryManager := Some rm, g_cacheEngine := Some (new_engine ?o b ?j)\<rparr>"
  obtain svc where "begin_serving ?H c (new_engine ?o b ?j) ?svc = (Inr (), svc)" "g_cacheEngine svc = Some e"
    using begin_serving_engine [OF e, of ?H c ?svc] by auto
  then show ?thesis
    using start_with_config_files [OF c(3) opts b(1), of h ord pipe clk mb jb new_process] i v b(3)
    by (simp add: OnServiceStart_def Let_def)
qed

text \<open>
  C39. \<^bold>\<open>After a stop that reports success only the store counts.\<close>  \<open>OnServiceStop\<close> marks the
  shutdown as clean whether or not \<^verbatim>\<open>Shutdown\<close> could flush everything, so the next start does not
  replay the journal: it shows exactly what the data file held on stable storage.  An acknowledged
  write whose flush failed during the stop is gone, although its journal record is still there: the
  witness is such a write.
\<close>

theorem stop_then_start_shows_store_only:
  assumes "OnServiceStop (service_host h ord pipe clk c files) svc = Some (Inr (), svc')"
    and "g_recoveryManager svc = Some rm" and "g_cacheEngine svc' = Some e'"
    and "Validate c = Success ()" and "cacheEnabled c" and "separate_files c"
  shows "\<exists>svc2 e2. OnServiceStart (service_host h ord pipe clk c (service_files svc')) (Returns (Inr c)) new_process
      = Some (Returns (Inr ()), svc2) \<and> g_cacheEngine svc2 = Some e2 \<and>
    engine_view (portable_deps h ord) pf.fbs_abs e2 = store_map (store_scan (fst (crash e')))"
proof -
  obtain svc1 m where st: "MarkCleanShutdown (SessionMarker_ops PortableFile_ops) rm = (Inr (), m)"
    "svc' = svc1\<lparr>g_recoveryManager := Some m\<rparr>"
    using assms(1,2)
    by (auto simp: OnServiceStop_def Let_def split: option.splits prod.splits)
  then have mc: "marker_closed (pf_durable (sm_file (marker m)))"
    using pf.sm.stop_ok by (auto simp: MarkCleanShutdown_def pf.sm_closed_durable_def split: prod.splits)
  have sf: "service_files svc' = (pf_durable (sm_file (marker m)), fst (crash e'), snd (crash e'))"
    using st(2) assms(3) by (simp add: service_files_def)
  show ?thesis
    unfolding sf by (rule clean_start_shows_store [OF assms(4-6) mc])
qed

text \<open>One dirty entry, with its record in the journal, and a journal file that fails from now on.\<close>

definition unflushed_shard :: Shard where
  "unflushed_shard =
     fst (InsertOrUpdateLocked (limits sample_engine) (str ''k'') [1] 1 Dirty False (empty_shard, no_statistics))"

definition unflushed_engine :: "(PortableFile WriteAheadJournal, PortableFile FileBackingStore) CacheEngine" where
  "unflushed_engine = sample_engine\<lparr>lifecycle := Ready, globalVersionCounter := 1, shards := [empty_shard, unflushed_shard],
     journal := \<lparr>waj_file = open_portable (record_frame \<lparr>sequenceNumber = 0,
         payload = Encode (journal_record Upsert (str ''k'') [1] 1)\<rparr>) [Breaks 0],
       nextSequenceNumber = 1, recordCount = 1\<rparr>\<rparr>"

definition unflushed_service :: "PortableFile Service" where
  "unflushed_service = new_process\<lparr>g_cacheEngine := Some unflushed_engine,
     g_recoveryManager := Some \<lparr>marker = new_marker [] [], rm_state = RecoveryComplete\<rparr>\<rparr>"

lemma unflushed_shard_facts:
  "begin_flush (str ''k'') 0 False unflushed_shard = (FlushValue [1] 1, snd (begin_flush (str ''k'') 0 False unflushed_shard))"
  "RevertFlushInProgressLocked (str ''k'') 1 (snd (begin_flush (str ''k'') 0 False unflushed_shard)) = unflushed_shard"
  "dirty_keys unflushed_shard = [str ''k'']" "dirty_keys empty_shard = []" "dirtyCount unflushed_shard = 1"
  "shard_map unflushed_shard (str ''k'') \<noteq> None"
  by code_simp+

lemma failing_append:
  assumes "pf_outcomes (waj_file (journal e)) = [Breaks 0]"
  shows "AppendJournalRecord (portable_deps h ord) rec e =
    (Failure (mkError IoError ''fseek failed''),
     e\<lparr>journal := (journal e)\<lparr>waj_file := (waj_file (journal e))\<lparr>pf_outcomes := []\<rparr>\<rparr>\<rparr>)"
  using assms by (simp add: AppendJournalRecord_def portable_deps_def WriteAheadJournal_ops_def Append_def
      PortableFile_ops_def PortableFile_Seek_def next_outcome_def Let_def)

lemma unflushed_Shutdown:
  "\<exists>e'. Shutdown sample_deps unflushed_engine = Some (Inr (), e') \<and> crash e' = crash unflushed_engine \<and>
     cached sample_deps e' (str ''k'') \<noteq> None"
proof -
  let ?e = "unflushed_engine\<lparr>lifecycle := Stopping\<rparr>" and ?k = "str ''k''"
  obtain s where bf: "begin_flush ?k 0 False unflushed_shard = (FlushValue [1] 1, s)"
    using unflushed_shard_facts(1) by blast
  then have rv: "RevertFlushInProgressLocked ?k 1 s = unflushed_shard"
    using unflushed_shard_facts(2) by (metis snd_conv)
  have e: "shards ?e = [empty_shard, unflushed_shard]" "lifecycle unflushed_engine = Ready"
    "inFlightWriteCount ?e = 0" "StopBackgroundFlushThread ?e = ?e"
    "pf_outcomes (waj_file (journal (upd_shard 1 s ?e))) = [Breaks 0]"
    by (simp_all add: unflushed_engine_def sample_engine_def new_engine_def Let_def StopBackgroundFlushThread_def
        open_portable_def)
  have i: "ShardFor sample_deps ?e ?k = 1"
    unfolding ShardFor_def e(1) by (simp add: portable_deps_def str_def)
  let ?j = "(journal ?e)\<lparr>waj_file := (waj_file (journal ?e))\<lparr>pf_outcomes := []\<rparr>\<rparr>"
  define e1 where "e1 = flush_failed 1 ?k 1 ((upd_shard 1 s ?e)\<lparr>journal := ?j\<rparr>)"
  have fk: "FlushKey sample_deps ?k 0 False ?e = (Failure (mkError IoError ''fseek failed''), e1)"
    unfolding FlushKey_def i using failing_append [OF e(5), of length id] bf
    by (simp add: e(1) write_back_def e1_def Let_def)
  have s1: "shards e1 = [empty_shard, unflushed_shard]" "backingStore e1 = backingStore unflushed_engine"
    "pf_durable (waj_file (journal e1)) = pf_durable (waj_file (journal unflushed_engine))"
    using rv e(1) by (simp_all add: e1_def flush_failed_def Let_def upd_shard_def)
  have fs: "flush_shards sample_deps [0..<length (shards ?e)] None ?e = (Some (mkError IoError ''fseek failed''), e1)"
    using fk unflushed_shard_facts(3,4) by (simp add: e(1) upt_rec)
  have "FlushAll sample_deps ?e = Some (Failure (mkError IoError ''fseek failed''), e1)"
    using fs by (simp add: FlushAll_def CheckReadyForRead_def)
  then have "Shutdown sample_deps unflushed_engine = Some (Inr (), e1\<lparr>lifecycle := Stopped\<rparr>)"
    using e s1(1) unflushed_shard_facts(5)
    by (simp add: Shutdown_def DrainInFlightWrites_def remaining_dirty_def Let_def)
  moreover have "cached sample_deps (e1\<lparr>lifecycle := Stopped\<rparr>) ?k \<noteq> None"
    using s1(1) unflushed_shard_facts(6) by (simp add: cached_def ShardFor_def portable_deps_def str_def)
  ultimately show ?thesis
    using s1(2,3) by (intro exI [of _ "e1\<lparr>lifecycle := Stopped\<rparr>"]) (simp add: crash_def)
qed

theorem stop_then_start_shows_store_only_witness:
  "\<exists>svc' e' svc2 e2. OnServiceStop sample_host unflushed_service = Some (Inr (), svc') \<and>
    g_cacheEngine svc' = Some e' \<and> engine_view sample_deps pf.fbs_abs e' (str ''k'') \<noteq> None \<and>
    OnServiceStart (service_host length id (\<lambda>_. Inr ()) [] default_AppConfig (service_files svc'))
      (Returns (Inr default_AppConfig)) new_process = Some (Returns (Inr ()), svc2) \<and>
    g_cacheEngine svc2 = Some e2 \<and> engine_view sample_deps pf.fbs_abs e2 (str ''k'') = None"
proof -
  obtain e' where e': "Shutdown sample_deps unflushed_engine = Some (Inr (), e')" "crash e' = crash unflushed_engine"
    "cached sample_deps e' (str ''k'') \<noteq> None"
    using unflushed_Shutdown by blast
  let ?rm = "\<lparr>marker = new_marker [] [], rm_state = RecoveryComplete\<rparr>"
  obtain r m1 where cl: "Sm_OnCleanShutdown (SessionMarker_ops PortableFile_ops) (new_marker [] []) = (r, m1)"
    by (cases "Sm_OnCleanShutdown (SessionMarker_ops PortableFile_ops) (new_marker [] [])") auto
  have "pf.sm_healthy (new_marker [] [])"
    by (simp add: pf.sm_healthy_def pf_healthy_def new_marker_def open_portable_def)
  then obtain m where m: "MarkCleanShutdown (SessionMarker_ops PortableFile_ops) ?rm = (Inr (), m)"
    using pf.sm.stop_healthy [OF _ cl] cl by (simp add: MarkCleanShutdown_def)
  let ?svc = "unflushed_service\<lparr>g_ipcShouldStop := True, g_ipcThread := False, g_cacheEngine := Some e',
                g_recoveryManager := Some m\<rparr>"
  have st: "OnServiceStop sample_host unflushed_service = Some (Inr (), ?svc)"
    using e'(1) m by (simp add: OnServiceStop_def Let_def unflushed_service_def sample_host_def)
  have "fst (crash e') = []"
    unfolding e'(2) by (simp add: crash_def unflushed_engine_def sample_engine_def new_engine_def Let_def
        sample_store_def portable_store_def open_portable_def)
  moreover have "store_map (store_scan []) (str ''k'') = None"
    by simp
  moreover obtain svc2 e2 where
    "OnServiceStart (service_host length id (\<lambda>_. Inr ()) [] default_AppConfig (service_files ?svc))
      (Returns (Inr default_AppConfig)) new_process = Some (Returns (Inr ()), svc2)" "g_cacheEngine svc2 = Some e2"
    "engine_view sample_deps pf.fbs_abs e2 = store_map (store_scan (fst (crash e')))"
    using stop_then_start_shows_store_only [OF st [unfolded sample_host_def] _ _ default_config_ok(1) sample_config_ok,
        of ?rm e'] by (auto simp: unflushed_service_def)
  ultimately show ?thesis
    using st e'(3) by (intro exI [of _ ?svc] exI [of _ e'] exI [of _ svc2] exI [of _ e2])
      (auto simp: engine_view_def)
qed

end
