(* ===== verification/StatusClient.thy ===== *)
theory StatusClient
  imports NamedPipe Service
begin

text \<open>
  The status query from end to end: the client of the user interface
  (\<^verbatim>\<open>src/gui/QuantumCacheGui/RecoveryStatusClient.cpp\<close>), which encodes the request and decodes the
  response by hand, and one connection of the service, over the named pipe between them.
\<close>

section \<open>RecoveryStatusClient\<close>

record RecoveryStatus =
  rs_recoveryState :: u32
  rs_sessionGeneration :: u64
  rs_cacheEngineActive :: bool

definition status_request :: bytes where
  "status_request =
     le_bytes 4 (12 :: u32) @ le_bytes 4 (MessageType_value GetStatusRequest) @ le_bytes 4 kProtocolVersion"

text \<open>The response once it is in the buffer.\<close>

definition parse_status :: "bytes \<Rightarrow> RecoveryStatus option" where
  "parse_status buffer =
     (let type = (le_word (take 4 (drop 4 buffer)) :: u32);
          version = (le_word (take 4 (drop 8 buffer)) :: u32)
      in if type \<noteq> MessageType_value GetStatusResponse \<or> version \<noteq> kProtocolVersion then None
         else if length buffer < 12 + 4 + 8 + 1 then None
         else Some \<lparr>rs_recoveryState = le_word (take 4 (drop 12 buffer)),
                    rs_sessionGeneration = le_word (take 8 (drop 16 buffer)),
                    rs_cacheEngineActive = (buffer ! 24 \<noteq> 0)\<rparr>)"

text \<open>
  The first argument says whether the pipe could be opened.  The loop that reads the rest of the
  response is that of \<^verbatim>\<open>ReceiveFrame\<close>, except that a failure has no description.
\<close>

definition FetchStatus :: "bool \<Rightarrow> Pipe \<Rightarrow> (RecoveryStatus option \<times> Pipe) option" where
  "FetchStatus opened p =
     (if \<not> opened then Some (None, p)
      else case WriteFile status_request p of
        (written, p) \<Rightarrow>
          (if written \<noteq> Some (length status_request) then Some (None, p)
           else case ReadFile 4 p of
             None \<Rightarrow> None
           | Some (r, p) \<Rightarrow>
               (case r of
                  None \<Rightarrow> Some (None, p)
                | Some prefix \<Rightarrow>
                    (if length prefix \<noteq> 4 then Some (None, p)
                     else
                     let responseLength = (le_word prefix :: u32) in
                     if responseLength < 12 \<or> responseLength > 4096 then Some (None, p)
                     else case receive_payload (unat (responseLength - 4)) [] p of
                       None \<Rightarrow> None
                     | Some (Inl _, p) \<Rightarrow> Some (None, p)
                     | Some (Inr got, p) \<Rightarrow> Some (parse_status (le_bytes 4 responseLength @ got), p)))))"

definition DescribeRecoveryState :: "u32 \<Rightarrow> string" where
  "DescribeRecoveryState state =
     (if state = 0 then ''Unknown''
      else if state = 1 then ''Clean shutdown (no recovery needed)''
      else if state = 2 then ''Unclean shutdown detected (possible power loss)''
      else if state = 3 then ''Recovery in progress...''
      else if state = 4 then ''Recovery complete''
      else if state = 5 then ''Recovery FAILED - store may be inconsistent''
      else ''Invalid state value'')"

section \<open>One connection of the service\<close>

text \<open>
  \<^verbatim>\<open>HandleOneIpcRequest\<close> on a connected pipe: receive, handle, send the reply if there is one.
\<close>

definition serve_connection :: "'f Host \<Rightarrow> Pipe \<Rightarrow> 'f Service \<Rightarrow> (Pipe \<times> 'f Service) option" where
  "serve_connection H p svc =
     (case ReceiveFrame p of
        None \<Rightarrow> None
      | Some (frameResult, p) \<Rightarrow>
          (case HandleOneIpcRequest H frameResult svc of
             None \<Rightarrow> None
           | Some (reply, svc) \<Rightarrow>
               Some (case reply of None \<Rightarrow> p | Some frame \<Rightarrow> snd (SendFrame frame p), svc)))"

section \<open>The exchange\<close>

lemma status_request_frame: "status_request = EncodeEmpty GetStatusRequest"
  by (simp add: status_request_def encoder_frames frame_with_def)

lemma parse_status_response:
  "parse_status (EncodeStatusResponse q) =
     Some \<lparr>rs_recoveryState = recoveryState q, rs_sessionGeneration = sessionGeneration q,
           rs_cacheEngineActive = cacheEngineActive q\<rparr>"
proof -
  have "(le_bytes 1 (if b then 1 else 0 :: byte)) = [if b then 1 else 0]" for b
    by simp
  then show ?thesis
    by (simp add: parse_status_def encoder_frames frame_with_def status_body_def nth_append Let_def)
qed

lemma take_drop_join: "m + n = k \<Longrightarrow> take n (drop m xs) @ drop k xs = drop m xs"
  by (metis add.commute append_take_drop_id drop_drop)

lemma parse_status_Some:
  assumes "parse_status buffer = Some st" and "4 \<le> length buffer"
    and "take 4 buffer = le_bytes 4 (of_nat (length buffer) :: u32)"
  shows "\<exists>b rest. buffer = frame_with kProtocolVersion GetStatusResponse
           (le_bytes 4 (rs_recoveryState st) @ le_bytes 8 (rs_sessionGeneration st) @ b # rest) \<and>
           (rs_cacheEngineActive st \<longleftrightarrow> b \<noteq> 0)"
proof -
  define body where "body = drop 12 buffer"
  have len: "25 \<le> length buffer" and ty: "le_word (take 4 (drop 4 buffer)) = MessageType_value GetStatusResponse"
    and ver: "le_word (take 4 (drop 8 buffer)) = kProtocolVersion"
    and st: "st = \<lparr>rs_recoveryState = le_word (take 4 (drop 12 buffer)), rs_sessionGeneration = le_word (take 8 (drop 16 buffer)),
                   rs_cacheEngineActive = (buffer ! 24 \<noteq> 0)\<rparr>"
    using assms(1) by (auto simp: parse_status_def Let_def split: if_splits)
  have "take 4 buffer @ take 4 (drop 4 buffer) @ take 4 (drop 8 buffer) @ drop 12 buffer = buffer"
    by (simp add: take_drop_join [of 8 4 12] take_drop_join [of 4 4 8])
  moreover have "take 4 (drop 4 buffer) = le_bytes 4 (MessageType_value GetStatusResponse)"
    "take 4 (drop 8 buffer) = le_bytes 4 kProtocolVersion"
    using len le_bytes_le_word_32 [of "take 4 (drop 4 buffer)"] le_bytes_le_word_32 [of "take 4 (drop 8 buffer)"] ty ver
    by auto
  ultimately have "frame_with kProtocolVersion GetStatusResponse body = buffer"
    using assms(3) len by (simp add: frame_with_def body_def)
  moreover have "le_bytes 4 (rs_recoveryState st) @ le_bytes 8 (rs_sessionGeneration st) @ body ! 12 # drop 13 body = body"
  proof -
    have "le_bytes 4 (rs_recoveryState st) = take 4 (drop 12 buffer)" "le_bytes 8 (rs_sessionGeneration st) = take 8 (drop 16 buffer)"
      using len by (simp_all add: st le_bytes_le_word_32 le_bytes_le_word_64)
    moreover have "body ! 12 # drop 13 body = drop 24 buffer"
      using len Cons_nth_drop_Suc [of 24 buffer] by (simp add: body_def)
    ultimately show ?thesis
      by (simp add: body_def take_drop_join [of 16 8 24] take_drop_join [of 12 4 16])
  qed
  moreover have "rs_cacheEngineActive st \<longleftrightarrow> body ! 12 \<noteq> 0"
    using len by (simp add: st body_def)
  ultimately show ?thesis
    by metis
qed

lemma frame_ok_status:
  "frame_ok (EncodeStatusResponse q)" "frame_ok (EncodeEmpty t)" "length (EncodeStatusResponse q) = 25"
  by (simp_all add: encoder_frames frame_ok_frame_with)

lemma HandleOneIpcRequest_status:
  "HandleOneIpcRequest H (Success (EncodeEmpty GetStatusRequest)) svc
     = Some (Some (EncodeStatusResponse (status_payload svc)), svc)"
  by (simp add: HandleOneIpcRequest_def EncodeEmpty_frame MessageType_cast_def)

text \<open>A connection over which \<open>cs\<close> arrives, and everything written is sent.\<close>

definition connection :: "bytes list \<Rightarrow> Pipe" where
  "connection cs = \<lparr>pipe_buffer = [], pipe_arrivals = map Arrives cs, pipe_sent = [], pipe_writes = [], lastError = 0\<rparr>"

lemma ReceiveFrame_connection:
  assumes "frame_ok f" "concat cs = f" "list_all (\<lambda>c. c \<noteq> []) cs" "4 \<le> length (hd cs)"
  shows "\<exists>p. ReceiveFrame (connection cs) = Some (Success f, p) \<and> pipe_output p = ([], [])"
  using ReceiveFrame_carries [OF assms(1), of cs "[]" "connection cs" "[]"] assms(2-4)
  by (auto simp: connection_def carries_def pipe_output_def)

lemma FetchStatus_connection:
  assumes "concat cs = EncodeStatusResponse q" "list_all (\<lambda>c. c \<noteq> []) cs" "4 \<le> length (hd cs)"
  shows "\<exists>p. FetchStatus True (connection cs) =
           Some (Some \<lparr>rs_recoveryState = recoveryState q, rs_sessionGeneration = sessionGeneration q,
                       rs_cacheEngineActive = cacheEngineActive q\<rparr>, p) \<and> pipe_sent p = status_request"
proof -
  let ?p = "(connection cs)\<lparr>pipe_sent := status_request\<rparr>"
  have len: "length (EncodeStatusResponse q) = 25" "frame_ok (EncodeStatusResponse q)"
    by (rule frame_ok_status)+
  have pre: "take 4 (EncodeStatusResponse q) = le_bytes 4 (25 :: u32)"
    using len by (simp add: frame_ok_def)
  obtain p where rf: "ReceiveFrame ?p = Some (Success (EncodeStatusResponse q), p)" and out: "pipe_sent p = status_request"
    using ReceiveFrame_carries [OF len(2), of cs "[]" ?p "[]"] assms
    by (auto simp: connection_def carries_def pipe_output_def)
  obtain p1 where rd: "ReadFile 4 ?p = Some (Some (le_bytes 4 (25 :: u32)), p1)"
    and pl: "receive_payload 21 [] p1 = Some (Success (drop 4 (EncodeStatusResponse q)), p)"
  proof (rule ReceiveFrame_SuccessE [OF rf])
    fix prefix p1 bs
    assume rd: "ReadFile 4 ?p = Some (Some prefix, p1)" and n: "length prefix = 4"
      and pl: "receive_payload (unat ((le_word prefix :: u32) - 4)) [] p1 = Some (Success bs, p)"
      and f: "EncodeStatusResponse q = prefix @ bs"
    have prefix: "prefix = le_bytes 4 (25 :: u32)" and bs: "bs = drop 4 (EncodeStatusResponse q)"
      using f n pre by simp_all
    show ?thesis
      using rd pl unfolding prefix bs by (intro that) simp_all
  qed
  have "le_bytes 4 (25 :: u32) @ drop 4 (EncodeStatusResponse q) = EncodeStatusResponse q"
    by (metis append_take_drop_id pre)
  moreover have "WriteFile status_request (connection cs) = (Some (length status_request), ?p)"
    by (simp add: WriteFile_def connection_def)
  ultimately show ?thesis
    using rd pl out parse_status_response [of q] by (simp add: FetchStatus_def)
qed

lemma serve_connection_status:
  assumes "concat req = status_request" "list_all (\<lambda>c. c \<noteq> []) req" "4 \<le> length (hd req)"
  shows "\<exists>sp. serve_connection H (connection req) svc = Some (sp, svc) \<and>
              pipe_sent sp = EncodeStatusResponse (status_payload svc)"
proof -
  obtain p where "ReceiveFrame (connection req) = Some (Success (EncodeEmpty GetStatusRequest), p)" "pipe_output p = ([], [])"
    using ReceiveFrame_connection [OF frame_ok_status(2)] assms status_request_frame by metis
  then show ?thesis
    by (simp add: serve_connection_def HandleOneIpcRequest_status SendFrame_def WriteFile_def pipe_output_def frame_ok_status(3))
qed

section \<open>Properties\<close>

text \<open>
  C19. \<^bold>\<open>The user interface shows the state the service is in.\<close>  When the request the client writes
  reaches the service in any chunks (the first with the length prefix), the service answers and its state
  is unchanged; when the answer reaches the client in any such chunks, the client shows the recovery state
  of the service, and the cache as active exactly when there is an engine and recovery is complete.
\<close>

theorem status_reaches_client:
  assumes "concat req = status_request" "list_all (\<lambda>c. c \<noteq> []) req" "4 \<le> length (hd req)"
  shows "\<exists>sp. serve_connection H (connection req) svc = Some (sp, svc) \<and>
    (\<forall>resp. concat resp = pipe_sent sp \<and> list_all (\<lambda>c. c \<noteq> []) resp \<and> 4 \<le> length (hd resp) \<longrightarrow>
      (\<exists>p. FetchStatus True (connection resp) = Some (Some
         \<lparr>rs_recoveryState = (case g_recoveryManager svc of Some rm \<Rightarrow> RecoveryState_value (CurrentState rm) | None \<Rightarrow> 0),
          rs_sessionGeneration = 0,
          rs_cacheEngineActive = (g_cacheEngine svc \<noteq> None \<and>
            (\<exists>rm. g_recoveryManager svc = Some rm \<and> CurrentState rm = RecoveryComplete))\<rparr>, p) \<and>
         pipe_sent p = status_request))"
proof -
  let ?q = "status_payload svc"
  obtain sp where sv: "serve_connection H (connection req) svc = Some (sp, svc)" "pipe_sent sp = EncodeStatusResponse ?q"
    using serve_connection_status [OF assms] by blast
  have q: "recoveryState ?q = (case g_recoveryManager svc of Some rm \<Rightarrow> RecoveryState_value (CurrentState rm) | None \<Rightarrow> 0)"
    "sessionGeneration ?q = 0"
    "cacheEngineActive ?q = (g_cacheEngine svc \<noteq> None \<and>
       (\<exists>rm. g_recoveryManager svc = Some rm \<and> CurrentState rm = RecoveryComplete))"
    by (auto simp: status_payload_def split: option.split)
  show ?thesis
    unfolding q [symmetric] using sv FetchStatus_connection [of _ ?q] by (intro exI [of _ sp]) simp
qed

theorem status_reaches_client_witness:
  "\<exists>p. FetchStatus True (connection [EncodeStatusResponse (status_payload (new_process :: PortableFile Service))]) =
     Some (Some \<lparr>rs_recoveryState = 0, rs_sessionGeneration = 0, rs_cacheEngineActive = False\<rparr>, p) \<and>
     pipe_sent p = status_request"
proof -
  let ?svc = "new_process :: PortableFile Service" and ?req = "[status_request]"
  have req: "concat ?req = status_request" "list_all (\<lambda>c. c \<noteq> []) ?req" "4 \<le> length (hd ?req)"
    by (simp_all add: status_request_def le_bytes.simps(2) numeral_eq_Suc del: length_greater_0_conv)
  obtain sp where sp: "serve_connection sample_host (connection ?req) ?svc = Some (sp, ?svc)"
    "pipe_sent sp = EncodeStatusResponse (status_payload ?svc)"
    using serve_connection_status [OF req] by blast
  have "list_all (\<lambda>c. c \<noteq> []) [EncodeStatusResponse (status_payload ?svc)]"
    "4 \<le> length (hd [EncodeStatusResponse (status_payload ?svc)])"
    using frame_ok_status(3) [of "status_payload ?svc"] by auto
  then show ?thesis
    using status_reaches_client [OF req, of sample_host ?svc] sp by (auto simp: new_process_def)
qed

text \<open>
  \<^bold>\<open>The client never makes up a status.\<close>  Whatever the other end sends, a status the client shows was
  taken from a response of the right type and protocol version whose length field is its length, at the
  offsets the encoder of the service writes to.
\<close>

theorem FetchStatus_genuine:
  assumes "FetchStatus opened p = Some (Some st, p')"
  shows "opened \<and> (\<exists>b rest. incoming p = frame_with kProtocolVersion GetStatusResponse
           (le_bytes 4 (rs_recoveryState st) @ le_bytes 8 (rs_sessionGeneration st) @ b # rest) @ incoming p' \<and>
           (rs_cacheEngineActive st \<longleftrightarrow> b \<noteq> 0))"
proof -
  obtain p1 prefix p2 got where op: "opened" and w: "p1 = snd (WriteFile status_request p)"
    and rd: "ReadFile 4 p1 = Some (Some prefix, p2)" and n: "length prefix = 4"
    and lim: "\<not> (le_word prefix :: u32) < 12" "\<not> (le_word prefix :: u32) > 4096"
    and pl: "receive_payload (unat ((le_word prefix :: u32) - 4)) [] p2 = Some (Success got, p')"
    and st: "parse_status (prefix @ got) = Some st"
    using assms by (auto simp: FetchStatus_def Let_def le_bytes_le_word_32
        split: if_splits option.splits prod.splits sum.splits)
  have "incoming p1 = incoming p"
    by (simp add: w WriteFile_def incoming_def split: list.split sum.split)
  then have "incoming p = (prefix @ got) @ incoming p'"
    using ReadFile_Some(1) [OF rd] receive_payload_Success [OF pl] by simp
  moreover have len: "length (prefix @ got) = unat (le_word prefix :: u32)"
    using receive_payload_Success [OF pl] n lim(1) by (simp add: unat_sub not_less word_le_nat_alt)
  have "take 4 (prefix @ got) = le_bytes 4 (of_nat (length (prefix @ got)) :: u32)"
    unfolding len using n by (simp add: le_bytes_le_word_32)
  then obtain b rest where "prefix @ got = frame_with kProtocolVersion GetStatusResponse
      (le_bytes 4 (rs_recoveryState st) @ le_bytes 8 (rs_sessionGeneration st) @ b # rest)" "rs_cacheEngineActive st \<longleftrightarrow> b \<noteq> 0"
    using parse_status_Some [OF st] n by auto
  ultimately show ?thesis
    using op by metis
qed

theorem FetchStatus_genuine_witness:
  "\<exists>p' b rest. incoming (connection [EncodeStatusResponse (status_payload (new_process :: PortableFile Service))])
     = frame_with kProtocolVersion GetStatusResponse (le_bytes 4 (0 :: u32) @ le_bytes 8 (0 :: u64) @ b # rest) @ incoming p' \<and> b = 0"
proof -
  let ?q = "status_payload (new_process :: PortableFile Service)"
  have "list_all (\<lambda>c. c \<noteq> []) [EncodeStatusResponse ?q]" "4 \<le> length (hd [EncodeStatusResponse ?q])"
    using frame_ok_status(3) [of ?q] by auto
  then obtain p where "FetchStatus True (connection [EncodeStatusResponse ?q]) =
      Some (Some \<lparr>rs_recoveryState = 0, rs_sessionGeneration = 0, rs_cacheEngineActive = False\<rparr>, p)"
    using FetchStatus_connection [of "[EncodeStatusResponse ?q]" ?q] by (auto simp: new_process_def status_payload_def)
  from FetchStatus_genuine [OF this] show ?thesis
    by simp blast
qed

end
