(* ===== verification/MainWindow.thy ===== *)
theory MainWindow
  imports StatusClient
begin

text \<open>
  The main window of the user interface (\<^verbatim>\<open>src/gui/QuantumCacheGui/MainWindow.xaml.cpp\<close>): its two texts, and
  what refreshing them shows.
\<close>

section \<open>MainWindow\<close>

record MainWindow =
  RecoveryStateText :: string
  SessionGenerationText :: string

definition to_hstring :: "nat \<Rightarrow> string" where
  "to_hstring = decimal (\<lambda>d. char_of (48 + d))"

text \<open>\<open>None\<close> when the query never returns; a dash stands for the em dash of the source.\<close>

definition RefreshStatus :: "bool \<Rightarrow> Pipe \<Rightarrow> MainWindow \<Rightarrow> (MainWindow \<times> Pipe) option" where
  "RefreshStatus opened p w =
     (case FetchStatus opened p of
        None \<Rightarrow> None
      | Some (None, p) \<Rightarrow>
          Some (w\<lparr>RecoveryStateText := ''Service unreachable (not running, or IPC pipe not yet available).'',
                  SessionGenerationText := ''Session generation: -''\<rparr>, p)
      | Some (Some status, p) \<Rightarrow>
          Some (w\<lparr>RecoveryStateText := DescribeRecoveryState (rs_recoveryState status),
                  SessionGenerationText := ''Session generation: '' @ to_hstring (unat (rs_sessionGeneration status))\<rparr>, p))"

definition OnRefreshClicked :: "bool \<Rightarrow> Pipe \<Rightarrow> MainWindow \<Rightarrow> (MainWindow \<times> Pipe) option" where
  "OnRefreshClicked = RefreshStatus"

section \<open>Lemmas\<close>

lemma char_digits: "inj_on (\<lambda>d :: nat. char_of (48 + d) :: char) {..<10}"
proof (rule inj_onI)
  fix a b :: nat
  assume "a \<in> {..<10}" "b \<in> {..<10}" "char_of (48 + a) = (char_of (48 + b) :: char)"
  then have "(48 + a) mod 256 = (48 + b) mod 256" "a < 10" "b < 10"
    by (simp_all add: char_of_eq_iff take_bit_eq_mod)
  then show "a = b" by simp
qed

lemma digit_not_dash:
  assumes "(d :: nat) < 10"
  shows "char_of (48 + d) \<noteq> CHR ''-''"
proof
  assume "char_of (48 + d) = CHR ''-''"
  then have "of_char (char_of (48 + d) :: char) = (of_char (CHR ''-'') :: nat)"
    by (rule arg_cong)
  then show False
    using assms by simp
qed

lemma to_hstring_not_dash: "to_hstring n \<noteq> ''-''"
proof
  assume "to_hstring n = ''-''"
  then have one: "decimal (\<lambda>d. char_of (48 + d)) n = [CHR ''-'']"
    by (simp add: to_hstring_def)
  then have "n < 10"
    using decimal.simps [of "\<lambda>d. char_of (48 + d)" n] by (auto split: if_splits)
  then show False
    using one digit_not_dash [of n] by (simp add: decimal.simps)
qed

lemma to_hstring_0: "to_hstring 0 = ''0''"
  by code_simp

section \<open>Properties\<close>

text \<open>What the window shows of a status, whatever it showed before.\<close>

definition shows_status :: "RecoveryStatus option \<Rightarrow> MainWindow" where
  "shows_status st =
     \<lparr>RecoveryStateText = (case st of None \<Rightarrow> ''Service unreachable (not running, or IPC pipe not yet available).''
                         | Some s \<Rightarrow> DescribeRecoveryState (rs_recoveryState s)),
      SessionGenerationText = ''Session generation: '' @
        (case st of None \<Rightarrow> ''-'' | Some s \<Rightarrow> to_hstring (unat (rs_sessionGeneration s)))\<rparr>"

lemma RefreshStatus_shows:
  "RefreshStatus opened p w = map_option (\<lambda>(st, p'). (shows_status st, p')) (FetchStatus opened p)"
  by (auto simp: RefreshStatus_def shows_status_def split: option.split intro!: MainWindow.equality)

definition known_state :: "RecoveryStatus option \<Rightarrow> bool" where
  "known_state st = (case st of None \<Rightarrow> True | Some s \<Rightarrow> rs_recoveryState s \<le> 5)"

lemma DescribeRecoveryState_known:
  assumes "DescribeRecoveryState x = DescribeRecoveryState y" and "x \<le> 5" and "y \<le> 5"
  shows "x = y"
proof -
  have "x \<in> {0, 1, 2, 3, 4, 5}" if "x \<le> 5" for x :: u32
  proof -
    have "unat x \<le> 5"
      using that by (simp add: word_le_nat_alt)
    then have "unat x = 0 \<or> unat x = 1 \<or> unat x = 2 \<or> unat x = 3 \<or> unat x = 4 \<or> unat x = 5"
      by arith
    then show ?thesis
      by (auto simp: word_unat_eq_iff)
  qed
  then have "x \<in> {0, 1, 2, 3, 4, 5}" "y \<in> {0, 1, 2, 3, 4, 5}"
    using assms by simp_all
  then show ?thesis
    using assms(1) by (auto simp: DescribeRecoveryState_def)
qed

text \<open>
  \<^bold>\<open>The window tells the truth.\<close>  Refreshing returns when the query does.  Two refreshes that show the same
  texts have got the same reply: no status at all, or the same generation and, of the states the service
  has, the same recovery state.
\<close>

theorem window_shows_status:
  assumes "FetchStatus opened p = Some (st, p')" and "FetchStatus opened2 p2 = Some (st2, p2')"
    and "known_state st" and "known_state st2"
  shows "\<exists>v v2. RefreshStatus opened p w = Some (v, p') \<and> RefreshStatus opened2 p2 w2 = Some (v2, p2') \<and>
     (v = v2 \<longleftrightarrow> map_option (\<lambda>s. (rs_recoveryState s, rs_sessionGeneration s)) st
               = map_option (\<lambda>s. (rs_recoveryState s, rs_sessionGeneration s)) st2)"
proof -
  have dec: "to_hstring (unat a) = to_hstring (unat b) \<longleftrightarrow> a = b" for a b :: u64
    using decimal_inject [OF char_digits, of "unat a" "unat b"] by (auto simp: to_hstring_def word_unat_eq_iff)
  have "shows_status st = shows_status st2 \<longleftrightarrow> map_option (\<lambda>s. (rs_recoveryState s, rs_sessionGeneration s)) st
      = map_option (\<lambda>s. (rs_recoveryState s, rs_sessionGeneration s)) st2"
    using assms(3,4) to_hstring_not_dash to_hstring_not_dash [symmetric]
    by (cases st; cases st2) (auto simp: shows_status_def known_state_def dec dest: DescribeRecoveryState_known)
  then show ?thesis
    using assms(1,2) by (simp add: RefreshStatus_shows)
qed

text \<open>\<^bold>\<open>From the service to the screen.\<close>  A status response the service sends, in any chunks, is what the window shows.\<close>

theorem window_shows_service:
  assumes "concat resp = EncodeStatusResponse (status_payload svc)" "list_all (\<lambda>c. c \<noteq> []) resp" "4 \<le> length (hd resp)"
  shows "\<exists>p. RefreshStatus True (connection resp) w = Some
     (w\<lparr>RecoveryStateText := (case g_recoveryManager svc of
                                Some rm \<Rightarrow> DescribeRecoveryState (RecoveryState_value (CurrentState rm))
                              | None \<Rightarrow> ''Unknown''),
        SessionGenerationText := ''Session generation: 0''\<rparr>, p)"
proof -
  obtain p where "FetchStatus True (connection resp) = Some (Some
      \<lparr>rs_recoveryState = recoveryState (status_payload svc), rs_sessionGeneration = sessionGeneration (status_payload svc),
       rs_cacheEngineActive = cacheEngineActive (status_payload svc)\<rparr>, p)"
    using FetchStatus_connection [OF assms] by auto
  then show ?thesis
    by (auto simp: RefreshStatus_def status_payload_def to_hstring_0 DescribeRecoveryState_def
        split: option.split)
qed

end
