(* ===== verification/PipeHandles.thy ===== *)
theory PipeHandles
  imports NamedPipe
begin

text \<open>
  The life of the named pipe's handles (\<^verbatim>\<open>Win32NamedPipeTransport.cpp\<close>): the transport that owns a
  connected pipe and closes it, connecting as a client, the server's stop event from its constructor to
  its destructor, and the loop of the service that accepts one client after the other while another
  thread may request the shutdown.
\<close>

section \<open>Win32NamedPipeTransport\<close>

text \<open>\<open>None\<close> is \<^verbatim>\<open>INVALID_HANDLE_VALUE\<close>.\<close>

record Transport =
  transport_handle :: "nat option"

definition Transport_Close :: "Transport \<Rightarrow> Server \<Rightarrow> Transport \<times> Server" where
  "Transport_Close t s =
     (case transport_handle t of
        Some h \<Rightarrow> (t\<lparr>transport_handle := None\<rparr>, CloseHandle h s)
      | None \<Rightarrow> (t, s))"

text \<open>The destructor.\<close>

definition destroy_Transport :: "Transport \<Rightarrow> Server \<Rightarrow> Server" where
  "destroy_Transport t s = snd (Transport_Close t s)"

text \<open>
  What \<^verbatim>\<open>CreateFileW\<close> gives for the pipe name; the outcome of \<^verbatim>\<open>SetNamedPipeHandleState\<close> is ignored.  The
  second component stands for the handles of the client's process.
\<close>

definition ConnectNamedPipeClient :: "u32 + nat \<Rightarrow> Server \<Rightarrow> Transport result \<times> Server" where
  "ConnectNamedPipeClient created s =
     (case created of
        Inl e \<Rightarrow> (Failure (MakeWin32Error ''CreateFileW (named pipe client) failed'' e), s)
      | Inr h \<Rightarrow> (Success \<lparr>transport_handle = Some h\<rparr>, open_handle h s))"

section \<open>Win32NamedPipeServer\<close>

text \<open>The stop event's handle, if there is one, is closed with the server.\<close>

definition destroy_Server :: "u32 + nat \<Rightarrow> Server \<Rightarrow> nat set" where
  "destroy_Server event s =
     (case event of Inl _ \<Rightarrow> openHandles s | Inr h \<Rightarrow> openHandles (CloseHandle h s))"

text \<open>
  One round of \<^verbatim>\<open>IpcServerThreadBody\<close>: the transport of an accepted client is destroyed at the end of the
  round; before that it has been served and closed (\<open>closes\<close>), unless the stop flag was set meanwhile.  Between
  the rounds another thread may call \<^verbatim>\<open>RequestShutdown\<close>.  The thread returns when it finds the flag set or
  \<^verbatim>\<open>ServiceStopping\<close> reported; the rounds of the model may go on, but accept nothing.
\<close>

datatype server_step = Round AcceptCalls bool | Shutdown_requested

fun server_round :: "server_step \<Rightarrow> Server \<Rightarrow> Server option" where
  "server_round (Round c closes) s =
     (case AcceptOnce c s of
        None \<Rightarrow> None
      | Some (Inl _, s) \<Rightarrow> Some s
      | Some (Inr h, s) \<Rightarrow>
          (let (t, s) = (if closes then Transport_Close \<lparr>transport_handle = Some h\<rparr> s
                         else (\<lparr>transport_handle = Some h\<rparr>, s))
           in Some (destroy_Transport t s)))"
| "server_round Shutdown_requested s = Some (RequestShutdown s)"

fun server_rounds :: "server_step list \<Rightarrow> Server \<Rightarrow> Server option" where
  "server_rounds [] s = Some s"
| "server_rounds (x # xs) s = (case server_round x s of None \<Rightarrow> None | Some s \<Rightarrow> server_rounds xs s)"

section \<open>Lemmas\<close>

text \<open>The handles the system gives out are not open already.\<close>

definition new_handles :: "AcceptCalls \<Rightarrow> nat set \<Rightarrow> bool" where
  "new_handles c hs \<longleftrightarrow>
     (case create_pipe c of Inl _ \<Rightarrow> True | Inr h \<Rightarrow> h \<notin> hs \<and>
       (case create_event c of Inl _ \<Rightarrow> True | Inr ev \<Rightarrow> ev \<noteq> h \<and> ev \<notin> hs))"

fun new_in_step :: "nat set \<Rightarrow> server_step \<Rightarrow> bool" where
  "new_in_step hs (Round c _) = new_handles c hs"
| "new_in_step hs Shutdown_requested = True"

lemma accept_effect:
  assumes "new_handles c (openHandles s)" and "AcceptOnce c s = Some (r, s')"
  shows "case r of Inl e \<Rightarrow> s' = s | Inr h \<Rightarrow> h \<notin> openHandles s \<and> s' = open_handle h s"
  using assms
  by (auto simp: new_handles_def AcceptOnce_def await_client_def open_handle_def CloseHandle_def Let_def
      split: if_splits option.splits sum.splits connect_outcome.splits wait_outcome.splits intro!: Server.equality)

lemma close_opened [simp]:
  "h \<notin> openHandles s \<Longrightarrow> CloseHandle h (open_handle h s) = s"
  by (simp add: CloseHandle_def open_handle_def)

lemma destroy_closed [simp]: "destroy_Transport \<lparr>transport_handle = None\<rparr> s = s"
  "destroy_Transport \<lparr>transport_handle = Some h\<rparr> s = CloseHandle h s"
  by (simp_all add: destroy_Transport_def Transport_Close_def)

lemma Transport_Close_Some [simp]:
  "Transport_Close \<lparr>transport_handle = Some h\<rparr> s = (\<lparr>transport_handle = None\<rparr>, CloseHandle h s)"
  by (simp add: Transport_Close_def)

text \<open>Closing twice, or closing and destroying, is closing once.\<close>

lemma Transport_Close_idem:
  "(case Transport_Close t s of (t', s') \<Rightarrow> Transport_Close t' s') = Transport_Close t s"
  by (simp add: Transport_Close_def split: option.split)

lemma round_effect:
  assumes "new_in_step (openHandles s) x" and "server_round x s = Some s'"
  shows "openHandles s' = openHandles s \<and> (stopEvent s = Some True \<longrightarrow> stopEvent s' = Some True)"
proof (cases x)
  case (Round c closes)
  with assms obtain r s1 where a: "AcceptOnce c s = Some (r, s1)"
    by (auto split: option.splits)
  then show ?thesis
    using assms Round accept_effect [OF _ a] by (auto simp: Let_def split: sum.splits if_splits)
next
  case Shutdown_requested
  then show ?thesis
    using assms by (auto simp: RequestShutdown_def)
qed

lemma rounds_effect:
  assumes "list_all (new_in_step (openHandles s)) xs" and "server_rounds xs s = Some s'"
  shows "openHandles s' = openHandles s"
  using assms
proof (induction xs arbitrary: s)
  case (Cons x xs)
  then obtain s1 where "server_round x s = Some s1" "server_rounds xs s1 = Some s'"
    by (auto split: option.splits)
  then show ?case
    using Cons.IH [of s1] Cons.prems(1) round_effect [of s x s1] by simp
qed simp

text \<open>Once the stop event is signalled no round waits and no client is accepted any more.\<close>

lemma stopped_round: "stopEvent s = Some True \<Longrightarrow> server_round x s = Some s"
  by (cases x) (simp_all add: AcceptOnce_def RequestShutdown_def)

lemma stopped_rounds: "stopEvent s = Some True \<Longrightarrow> server_rounds xs s = Some s"
  by (induction xs) (simp_all add: stopped_round)

lemma server_rounds_append:
  "server_rounds (xs @ ys) s = (case server_rounds xs s of None \<Rightarrow> None | Some s \<Rightarrow> server_rounds ys s)"
  by (induction xs arbitrary: s) (simp_all split: option.split)

lemma round_keeps_event:
  assumes "server_round x s = Some s1"
  shows "stopEvent s1 = None \<longleftrightarrow> stopEvent s = None"
proof (cases x)
  case (Round c b)
  have "stopEvent s1 = stopEvent s"
    using assms unfolding Round
    by (auto simp: AcceptOnce_def await_client_def open_handle_def CloseHandle_def Let_def
        split: if_splits option.splits sum.splits connect_outcome.splits wait_outcome.splits)
  then show ?thesis by simp
qed (use assms in \<open>auto simp: RequestShutdown_def\<close>)

lemma stop_event_kept: "server_rounds xs s = Some s' \<Longrightarrow> stopEvent s' = None \<longleftrightarrow> stopEvent s = None"
proof (induction xs arbitrary: s)
  case (Cons x xs)
  then obtain s1 where "server_round x s = Some s1" "server_rounds xs s1 = Some s'"
    by (auto split: option.splits)
  then show ?case
    using Cons.IH round_keeps_event by blast
qed simp

section \<open>Properties\<close>

text \<open>
  C34. \<^bold>\<open>The pipe server leaks no handle over its life and stops when asked.\<close>  Create the server, run any
  number of rounds, whichever calls of the system fail in them and whether or not the stop flag is
  found set after an accept, with shutdown requests at any point between them, and destroy it: the handles that are
  open are those from before.  After a shutdown request, with a stop event that could be created, every
  further round returns and changes nothing, so no client is accepted any more.
\<close>

theorem pipe_server_accounts:
  assumes "CreateNamedPipeServer pipeName event handles = Success s"
    and "\<forall>h. event = Inr h \<longrightarrow> h \<notin> handles"
    and "list_all (new_in_step (openHandles s)) xs" and "server_rounds xs s = Some s'"
  shows "destroy_Server event s' = handles \<and>
     (event = Inr h \<longrightarrow> server_rounds ys (RequestShutdown s') = Some (RequestShutdown s'))"
proof (cases event)
  case (Inl e)
  then show ?thesis
    using assms(1) rounds_effect [OF assms(3,4)]
    by (auto simp: CreateNamedPipeServer_def destroy_Server_def split: if_splits)
next
  case (Inr k)
  then have s: "openHandles s = insert k handles" "stopEvent s \<noteq> None"
    using assms(1) by (auto simp: CreateNamedPipeServer_def split: if_splits)
  have "k \<notin> handles"
    using assms(2) Inr by simp
  then have "destroy_Server event s' = handles"
    using rounds_effect [OF assms(3,4)] s(1) by (simp add: Inr destroy_Server_def CloseHandle_def)
  moreover have "stopEvent (RequestShutdown s') = Some True"
    using s(2) stop_event_kept [OF assms(4)] by (auto simp: RequestShutdown_def)
  ultimately show ?thesis
    by (simp add: stopped_rounds)
qed

text \<open>A client that comes at once, one whose wait is ended by the shutdown, and a round after it.\<close>

definition sample_client :: AcceptCalls where
  "sample_client = \<lparr>convert_descriptor = None, create_pipe = Inr 7, create_event = Inr 8,
     connect_pipe = Connected, wait_objects = None, overlapped_result = None\<rparr>"

theorem pipe_server_accounts_witness:
  "destroy_Server (Inr 5) \<lparr>stopEvent = Some True, openHandles = {5, 9}\<rparr> = {9} \<and>
   server_rounds [Round sample_client False] (RequestShutdown \<lparr>stopEvent = Some True, openHandles = {5, 9}\<rparr>)
     = Some (RequestShutdown \<lparr>stopEvent = Some True, openHandles = {5, 9}\<rparr>)"
proof -
  have "CreateNamedPipeServer [0 :: nat] (Inr 5) {9} = Success \<lparr>stopEvent = Some False, openHandles = {5, 9}\<rparr>"
    by (simp add: CreateNamedPipeServer_def)
  moreover have "list_all (new_in_step {5, 9}) [Round sample_client True, Round sample_calls False, Shutdown_requested]"
    by (simp add: new_handles_def sample_client_def sample_calls_def)
  moreover have "server_rounds [Round sample_client True, Round sample_calls False, Shutdown_requested]
      \<lparr>stopEvent = Some False, openHandles = {5, 9}\<rparr> = Some \<lparr>stopEvent = Some True, openHandles = {5, 9}\<rparr>"
    by (simp add: AcceptOnce_def await_client_def sample_client_def sample_calls_def Let_def RequestShutdown_def
        CloseHandle_def open_handle_def insert_commute insert_Diff_if)
  ultimately show ?thesis
    using pipe_server_accounts [of "[0 :: nat]" "Inr 5" "{9}" "\<lparr>stopEvent = Some False, openHandles = {5, 9}\<rparr>"
        "[Round sample_client True, Round sample_calls False, Shutdown_requested]"
        "\<lparr>stopEvent = Some True, openHandles = {5, 9}\<rparr>" 5 "[Round sample_client False]"]
    by simp
qed

text \<open>
  \<^bold>\<open>A client's connection leaks no handle.\<close>  A connection that fails opens nothing, and one that succeeds
  is gone when the transport is closed, however often, and destroyed.
\<close>

theorem client_connection_accounts:
  assumes "\<forall>h. created = Inr h \<longrightarrow> h \<notin> openHandles s" and "ConnectNamedPipeClient created s = (r, s1)"
  shows "case r of
       Inl e \<Rightarrow> s1 = s
     | Inr t \<Rightarrow> destroy_Transport t s1 = s \<and> (case Transport_Close t s1 of (t', s2) \<Rightarrow> destroy_Transport t' s2 = s)"
  using assms by (auto simp: ConnectNamedPipeClient_def split: sum.splits)

end
