(* ===== verification/ServiceHost.thy ===== *)
theory ServiceHost
  imports Service
begin

text \<open>
  The Windows service host (\<^verbatim>\<open>IServiceHost.h\<close>, \<^verbatim>\<open>Win32ServiceHost.cpp\<close>) and the main function
  that registers the callbacks (\<^verbatim>\<open>wmain\<close> in \<^verbatim>\<open>main_service.cpp\<close>): a state machine driven by the
  service control manager.

  The service manager starts \<^verbatim>\<open>ServiceMain\<close> on one thread and delivers control requests to
  \<^verbatim>\<open>HandleControl\<close> on another, one at a time and only those the last reported status accepts.
  \<open>host_step\<close> interleaves them at the points where a thread waits or reports.  The state has the
  trace of what the outside sees, latest event first: the statuses reported and the callbacks that
  have returned.  A callback that never returns takes no step.
\<close>

section \<open>State\<close>

datatype ServiceState = SERVICE_STOPPED | SERVICE_START_PENDING | SERVICE_STOP_PENDING | SERVICE_RUNNING

record SERVICE_STATUS =
  dwCurrentState :: ServiceState
  dwWin32ExitCode :: u32
  dwWaitHint :: u32
  dwControlsAccepted :: u32
  dwCheckPoint :: u32

datatype Control =
    SERVICE_CONTROL_INTERROGATE
  | SERVICE_CONTROL_PRESHUTDOWN
  | SERVICE_CONTROL_STOP
  | SERVICE_CONTROL_SHUTDOWN
  | Other_control u32

datatype Callback = OnStart | OnStop | OnPreShutdown

record 's ServiceCallbacks =
  onStart :: "('s \<Rightarrow> (unit result \<times> 's) option) option"
  onStop :: "('s \<Rightarrow> (unit result \<times> 's) option) option"
  onPreShutdown :: "('s \<Rightarrow> (unit result \<times> 's) option) option"

datatype host_event = Reported SERVICE_STATUS | Called Callback "unit result"

datatype main_thread = Not_started | Starting | Waiting_for_stop | Returned

record 's ServiceHost =
  sh_thread :: main_thread
  sh_stopEvent :: bool
  sh_checkpoint :: u32
  sh_runResult :: "unit result"
  sh_service :: 's
  sh_trace :: "host_event list"

definition new_host :: "'s \<Rightarrow> 's ServiceHost" where
  "new_host s = \<lparr>sh_thread = Not_started, sh_stopEvent = False, sh_checkpoint = 0, sh_runResult = Success (),
                 sh_service = s, sh_trace = []\<rparr>"

definition NO_ERROR :: u32 where "NO_ERROR = 0"

definition ERROR_SERVICE_SPECIFIC_ERROR :: u32 where "ERROR_SERVICE_SPECIFIC_ERROR = 1066"

definition ERROR_CALL_NOT_IMPLEMENTED :: u32 where "ERROR_CALL_NOT_IMPLEMENTED = 120"

definition SERVICE_ACCEPT_STOP :: u32 where "SERVICE_ACCEPT_STOP = 0x1"

definition SERVICE_ACCEPT_SHUTDOWN :: u32 where "SERVICE_ACCEPT_SHUTDOWN = 0x4"

definition SERVICE_ACCEPT_PRESHUTDOWN :: u32 where "SERVICE_ACCEPT_PRESHUTDOWN = 0x100"

section \<open>Operations\<close>

definition ReportStatus :: "ServiceState \<Rightarrow> u32 \<Rightarrow> u32 \<Rightarrow> 's ServiceHost \<Rightarrow> 's ServiceHost" where
  "ReportStatus state exitCode waitHintMs h =
     (let settled = (state = SERVICE_RUNNING \<or> state = SERVICE_STOPPED);
          cp = (if settled then sh_checkpoint h else sh_checkpoint h + 1);
          status = \<lparr>dwCurrentState = state, dwWin32ExitCode = exitCode, dwWaitHint = waitHintMs,
                    dwControlsAccepted =
                      (if state = SERVICE_START_PENDING then 0
                       else SERVICE_ACCEPT_STOP OR SERVICE_ACCEPT_SHUTDOWN OR SERVICE_ACCEPT_PRESHUTDOWN),
                    dwCheckPoint = (if settled then 0 else cp)\<rparr>
      in h\<lparr>sh_checkpoint := cp, sh_trace := Reported status # sh_trace h\<rparr>)"

text \<open>A call of a \<^verbatim>\<open>std::function\<close> that was tested for emptiness first; its result is the event.\<close>

definition call_back ::
  "Callback \<Rightarrow> ('s \<Rightarrow> (unit result \<times> 's) option) option \<Rightarrow> 's ServiceHost \<Rightarrow> (unit result \<times> 's ServiceHost) option" where
  "call_back c f h =
     (case f of
        None \<Rightarrow> Some (Success (), h)
      | Some g \<Rightarrow>
          map_option (\<lambda>(r, s). (r, h\<lparr>sh_service := s, sh_trace := Called c r # sh_trace h\<rparr>)) (g (sh_service h)))"

text \<open>
  \<^verbatim>\<open>ServiceMain\<close> up to its first report; the first argument is the error of
  \<^verbatim>\<open>RegisterServiceCtrlHandlerExW\<close>, if it fails.
\<close>

definition ServiceMain_register :: "u32 option \<Rightarrow> 's ServiceHost \<Rightarrow> 's ServiceHost" where
  "ServiceMain_register failed h =
     (case failed of
        Some err \<Rightarrow>
          h\<lparr>sh_runResult := Failure \<lparr>code = Win32ApiFailure, message = str ''RegisterServiceCtrlHandlerExW failed'',
                                     platformErrorValue = err\<rparr>,
            sh_thread := Returned\<rparr>
      | None \<Rightarrow> (ReportStatus SERVICE_START_PENDING NO_ERROR 3000 h)\<lparr>sh_thread := Starting\<rparr>)"

text \<open>From there to the wait for the stop event.\<close>

definition ServiceMain_start :: "'s ServiceCallbacks \<Rightarrow> 's ServiceHost \<Rightarrow> 's ServiceHost option" where
  "ServiceMain_start cb h =
     map_option
       (\<lambda>(r, h). case r of
          Inl e \<Rightarrow> (ReportStatus SERVICE_STOPPED ERROR_SERVICE_SPECIFIC_ERROR 0 h)
                     \<lparr>sh_runResult := Failure e, sh_thread := Returned\<rparr>
        | Inr _ \<Rightarrow> (ReportStatus SERVICE_RUNNING NO_ERROR 0 h)\<lparr>sh_thread := Waiting_for_stop\<rparr>)
       (call_back OnStart (onStart cb) h)"

text \<open>After the wait.\<close>

definition ServiceMain_finish :: "'s ServiceHost \<Rightarrow> 's ServiceHost" where
  "ServiceMain_finish h =
     (ReportStatus SERVICE_STOPPED NO_ERROR 0 h)\<lparr>sh_runResult := Success (), sh_thread := Returned\<rparr>"

definition HandleControl :: "'s ServiceCallbacks \<Rightarrow> Control \<Rightarrow> 's ServiceHost \<Rightarrow> (u32 \<times> 's ServiceHost) option" where
  "HandleControl cb control h =
     (case control of
        SERVICE_CONTROL_INTERROGATE \<Rightarrow> Some (NO_ERROR, h)
      | SERVICE_CONTROL_PRESHUTDOWN \<Rightarrow>
          map_option (\<lambda>(_, h). (NO_ERROR, h))
            (call_back OnPreShutdown (onPreShutdown cb) (ReportStatus SERVICE_STOP_PENDING NO_ERROR 10000 h))
      | Other_control _ \<Rightarrow> Some (ERROR_CALL_NOT_IMPLEMENTED, h)
      | _ \<Rightarrow>
          map_option (\<lambda>(_, h). (NO_ERROR, h\<lparr>sh_stopEvent := True\<rparr>))
            (call_back OnStop (onStop cb) (ReportStatus SERVICE_STOP_PENDING NO_ERROR 5000 h)))"

text \<open>What \<^verbatim>\<open>Run\<close> returns once the dispatcher has, given the dispatcher's error if it fails.\<close>

definition Run_result :: "u32 option \<Rightarrow> 's ServiceHost \<Rightarrow> unit result" where
  "Run_result failed h =
     (case failed of
        Some err \<Rightarrow>
          Failure \<lparr>code = Win32ApiFailure,
                   message = str ''StartServiceCtrlDispatcherW failed (note: this call only succeeds when the process was actually launched by the Service Control Manager, not when run interactively)'',
                   platformErrorValue = err\<rparr>
      | None \<Rightarrow> sh_runResult h)"

definition CreateServiceHost :: "'a list \<Rightarrow> 's \<Rightarrow> 's ServiceHost result" where
  "CreateServiceHost serviceName s =
     (if serviceName = [] then Failure (mkError InvalidArgument ''serviceName must not be empty'')
      else Success (new_host s))"

section \<open>The service manager\<close>

text \<open>
  Which controls may be delivered: an interrogation at any time, the others when the status
  reported last accepts them.
\<close>

definition accepted_flag :: "Control \<Rightarrow> u32" where
  "accepted_flag c =
     (case c of
        SERVICE_CONTROL_STOP \<Rightarrow> SERVICE_ACCEPT_STOP
      | SERVICE_CONTROL_SHUTDOWN \<Rightarrow> SERVICE_ACCEPT_SHUTDOWN
      | SERVICE_CONTROL_PRESHUTDOWN \<Rightarrow> SERVICE_ACCEPT_PRESHUTDOWN
      | _ \<Rightarrow> - 1)"

fun last_status :: "host_event list \<Rightarrow> SERVICE_STATUS option" where
  "last_status [] = None"
| "last_status (Reported s # es) = Some s"
| "last_status (Called _ _ # es) = last_status es"

definition delivers :: "Control \<Rightarrow> 's ServiceHost \<Rightarrow> bool" where
  "delivers c h \<longleftrightarrow> sh_thread h \<noteq> Returned \<and>
     (case last_status (sh_trace h) of
        None \<Rightarrow> False
      | Some s \<Rightarrow> c = SERVICE_CONTROL_INTERROGATE \<or> dwControlsAccepted s AND accepted_flag c \<noteq> 0)"

inductive host_step :: "'s ServiceCallbacks \<Rightarrow> 's ServiceHost \<Rightarrow> 's ServiceHost \<Rightarrow> bool" for cb where
  register: "sh_thread h = Not_started \<Longrightarrow> host_step cb h (ServiceMain_register failed h)"
| start: "sh_thread h = Starting \<Longrightarrow> ServiceMain_start cb h = Some h' \<Longrightarrow> host_step cb h h'"
| control: "delivers c h \<Longrightarrow> HandleControl cb c h = Some (r, h') \<Longrightarrow> host_step cb h h'"
| finish: "sh_thread h = Waiting_for_stop \<Longrightarrow> sh_stopEvent h \<Longrightarrow> host_step cb h (ServiceMain_finish h)"

inductive host_run :: "'s ServiceCallbacks \<Rightarrow> 's ServiceHost \<Rightarrow> 's ServiceHost \<Rightarrow> bool" for cb h where
  refl: "host_run cb h h"
| step: "host_run cb h h1 \<Longrightarrow> host_step cb h1 h2 \<Longrightarrow> host_run cb h h2"

inductive_cases host_stepE: "host_step cb h h'"

section \<open>The lifecycle the manager sees\<close>

text \<open>
  \<open>orderly\<close>: the service is reported running only after its start callback has succeeded, and
  stopped without an error only after its stop callback has returned; the start callback is called
  once, and no other callback before it has succeeded.
\<close>

definition start_succeeded :: "host_event list \<Rightarrow> bool" where
  "start_succeeded es \<longleftrightarrow> Called OnStart (Success ()) \<in> set es"

fun orderly :: "host_event list \<Rightarrow> bool" where
  "orderly [] \<longleftrightarrow> True"
| "orderly (Reported s # es) \<longleftrightarrow> orderly es \<and>
     (dwCurrentState s = SERVICE_RUNNING \<longrightarrow> start_succeeded es) \<and>
     (dwCurrentState s = SERVICE_STOPPED \<and> dwWin32ExitCode s = NO_ERROR \<longrightarrow> (\<exists>r. Called OnStop r \<in> set es))"
| "orderly (Called OnStart r # es) \<longleftrightarrow> orderly es \<and> (\<forall>c r. Called c r \<notin> set es)"
| "orderly (Called c r # es) \<longleftrightarrow> orderly es \<and> start_succeeded es"

text \<open>The pending statuses carry the checkpoints \<open>n, n - 1, \<dots>, 1\<close>, latest first; the settled ones 0.\<close>

fun counts_up :: "nat \<Rightarrow> host_event list \<Rightarrow> bool" where
  "counts_up n [] \<longleftrightarrow> n = 0"
| "counts_up n (Called _ _ # es) \<longleftrightarrow> counts_up n es"
| "counts_up n (Reported s # es) \<longleftrightarrow>
     (if dwCurrentState s = SERVICE_RUNNING \<or> dwCurrentState s = SERVICE_STOPPED
      then dwCheckPoint s = 0 \<and> counts_up n es
      else dwCheckPoint s = of_nat n \<and> 0 < n \<and> counts_up (n - 1) es)"

definition complete_callbacks :: "'s ServiceCallbacks \<Rightarrow> bool" where
  "complete_callbacks cb \<longleftrightarrow> onStart cb \<noteq> None \<and> onStop cb \<noteq> None"

definition host_inv :: "'s ServiceHost \<Rightarrow> bool" where
  "host_inv h \<longleftrightarrow> orderly (sh_trace h) \<and> (\<exists>n. counts_up n (sh_trace h) \<and> sh_checkpoint h = of_nat n) \<and>
     (sh_thread h = Not_started \<longrightarrow> sh_trace h = []) \<and>
     (sh_thread h = Starting \<longrightarrow> (\<exists>s. sh_trace h = [Reported s] \<and> dwControlsAccepted s = 0)) \<and>
     (sh_thread h = Waiting_for_stop \<longrightarrow> start_succeeded (sh_trace h) \<and>
        (\<exists>s. last_status (sh_trace h) = Some s \<and> dwCurrentState s \<noteq> SERVICE_START_PENDING \<and>
             dwControlsAccepted s = SERVICE_ACCEPT_STOP OR SERVICE_ACCEPT_SHUTDOWN OR SERVICE_ACCEPT_PRESHUTDOWN)) \<and>
     (sh_stopEvent h \<longrightarrow> (\<exists>r. Called OnStop r \<in> set (sh_trace h)))"

lemma start_succeeded_mono: "start_succeeded es \<Longrightarrow> start_succeeded (e # es)"
  by (simp add: start_succeeded_def)

lemma ReportStatus_simps [simp]:
  "sh_thread (ReportStatus st x w h) = sh_thread h" "sh_stopEvent (ReportStatus st x w h) = sh_stopEvent h"
  "sh_service (ReportStatus st x w h) = sh_service h" "sh_runResult (ReportStatus st x w h) = sh_runResult h"
  by (simp_all add: ReportStatus_def Let_def)

text \<open>A report keeps the count of the checkpoints.\<close>

lemma ReportStatus_counts:
  assumes "counts_up n (sh_trace h)" and "sh_checkpoint h = of_nat n"
  shows "\<exists>n. counts_up n (sh_trace (ReportStatus st x w h)) \<and> sh_checkpoint (ReportStatus st x w h) = of_nat n"
  using assms
  by (intro exI [of _ "if st = SERVICE_RUNNING \<or> st = SERVICE_STOPPED then n else Suc n"])
    (auto simp: ReportStatus_def Let_def)

lemma call_back_Some:
  assumes "call_back c f h = Some (r, h')"
  shows "(f = None \<and> r = Success () \<and> h' = h) \<or>
         (\<exists>g s. f = Some g \<and> g (sh_service h) = Some (r, s) \<and>
            h' = h\<lparr>sh_service := s, sh_trace := Called c r # sh_trace h\<rparr>)"
  using assms by (auto simp: call_back_def split: option.splits)

text \<open>The controls that stop or prepare a stop: report the stop as pending, then call back.\<close>

lemma HandleControl_Some:
  assumes "HandleControl cb c h = Some (r, h')"
  shows "h' = h \<or>
    (\<exists>k f w r1 h1. (k = OnPreShutdown \<and> f = onPreShutdown cb \<and> h' = h1 \<or>
                  k = OnStop \<and> f = onStop cb \<and> h' = h1\<lparr>sh_stopEvent := True\<rparr>) \<and>
       call_back k f (ReportStatus SERVICE_STOP_PENDING NO_ERROR w h) = Some (r1, h1))"
  using assms by (cases c) (force simp: HandleControl_def)+

lemma host_inv_counts: "host_inv h \<Longrightarrow> \<exists>n. counts_up n (sh_trace h) \<and> sh_checkpoint h = of_nat n"
  by (simp add: host_inv_def)

lemma host_inv_report_counts:
  "host_inv h \<Longrightarrow> \<exists>n. counts_up n (sh_trace (ReportStatus st x w h)) \<and> sh_checkpoint (ReportStatus st x w h) = of_nat n"
  using host_inv_counts ReportStatus_counts by blast

lemma host_inv_register: "host_inv h \<Longrightarrow> sh_thread h = Not_started \<Longrightarrow> host_inv (ServiceMain_register failed h)"
  using host_inv_report_counts [of h SERVICE_START_PENDING NO_ERROR 3000]
  by (auto simp: ServiceMain_register_def host_inv_def split: option.split)
    (auto simp: ReportStatus_def Let_def start_succeeded_def)

text \<open>The step that ends the start: one callback, one report.\<close>

lemma host_inv_start:
  assumes inv: "host_inv h" and th: "sh_thread h = Starting" and st: "ServiceMain_start cb h = Some h'"
    and cb: "complete_callbacks cb"
  shows "host_inv h'"
proof -
  obtain s where tr: "sh_trace h = [Reported s]" and s: "dwControlsAccepted s = 0"
    using inv th by (auto simp: host_inv_def)
  obtain r h1 where cbk: "call_back OnStart (onStart cb) h = Some (r, h1)"
    using st by (auto simp: ServiceMain_start_def)
  then have h1: "sh_trace h1 = [Called OnStart r, Reported s]" "sh_checkpoint h1 = sh_checkpoint h" "sh_stopEvent h1 = sh_stopEvent h"
    using cb call_back_Some [OF cbk] tr by (auto simp: complete_callbacks_def)
  obtain n where n: "counts_up n (sh_trace h1)" "sh_checkpoint h1 = of_nat n"
    using host_inv_counts [OF inv] tr h1 by auto
  have se: "\<not> sh_stopEvent h1"
    using inv tr h1 by (simp add: host_inv_def)
  have ord: "orderly (sh_trace h1)"
    using inv tr h1 by (auto simp: host_inv_def)
  show ?thesis
  proof (cases r)
    case (Inl e)
    have "\<exists>n. counts_up n (sh_trace (ReportStatus SERVICE_STOPPED ERROR_SERVICE_SPECIFIC_ERROR 0 h1)) \<and>
             sh_checkpoint (ReportStatus SERVICE_STOPPED ERROR_SERVICE_SPECIFIC_ERROR 0 h1) = of_nat n"
      by (rule ReportStatus_counts [OF n])
    then show ?thesis
      using st cbk Inl ord se
      by (auto simp: ServiceMain_start_def host_inv_def)
        (auto simp: ReportStatus_def Let_def NO_ERROR_def ERROR_SERVICE_SPECIFIC_ERROR_def)
  next
    case (Inr u)
    have "\<exists>n. counts_up n (sh_trace (ReportStatus SERVICE_RUNNING NO_ERROR 0 h1)) \<and>
             sh_checkpoint (ReportStatus SERVICE_RUNNING NO_ERROR 0 h1) = of_nat n"
      by (rule ReportStatus_counts [OF n])
    then show ?thesis
      using st cbk Inr ord se h1(1)
      by (auto simp: ServiceMain_start_def host_inv_def)
        (auto simp: ReportStatus_def Let_def start_succeeded_def)
  qed
qed

lemma host_inv_finish:
  assumes "host_inv h" and "sh_stopEvent h"
  shows "host_inv (ServiceMain_finish h)"
  using assms host_inv_report_counts [OF assms(1), of SERVICE_STOPPED NO_ERROR 0]
  by (auto simp: ServiceMain_finish_def host_inv_def) (auto simp: ReportStatus_def Let_def)

lemma not_delivered_starting:
  assumes "host_inv h" and "delivers c h" and "HandleControl cb c h = Some (r, h')" and "h' \<noteq> h"
  shows "sh_thread h = Waiting_for_stop"
  using assms by (cases "sh_thread h") (auto simp: delivers_def host_inv_def HandleControl_def)

lemma host_inv_control:
  assumes inv: "host_inv h" and d: "delivers c h" and hc: "HandleControl cb c h = Some (r, h')" and cb: "complete_callbacks cb"
  shows "host_inv h'"
proof (cases "h' = h")
  case False
  have th: "sh_thread h = Waiting_for_stop"
    by (rule not_delivered_starting [OF inv d hc False])
  obtain k f w r1 h1 where k: "k = OnPreShutdown \<and> f = onPreShutdown cb \<and> h' = h1 \<or>
      k = OnStop \<and> f = onStop cb \<and> h' = h1\<lparr>sh_stopEvent := True\<rparr>"
    and call: "call_back k f (ReportStatus SERVICE_STOP_PENDING NO_ERROR w h) = Some (r1, h1)"
    using HandleControl_Some [OF hc] False by blast
  let ?h = "ReportStatus SERVICE_STOP_PENDING NO_ERROR w h"
  have rep: "orderly (sh_trace ?h)" "start_succeeded (sh_trace ?h)"
    "\<exists>n. counts_up n (sh_trace ?h) \<and> sh_checkpoint ?h = of_nat n"
    "\<exists>s. last_status (sh_trace ?h) = Some s \<and> dwCurrentState s \<noteq> SERVICE_START_PENDING \<and>
         dwControlsAccepted s = SERVICE_ACCEPT_STOP OR SERVICE_ACCEPT_SHUTDOWN OR SERVICE_ACCEPT_PRESHUTDOWN"
    "sh_stopEvent h \<Longrightarrow> \<exists>r. Called OnStop r \<in> set (sh_trace ?h)"
    using inv th host_inv_report_counts [OF inv, of SERVICE_STOP_PENDING NO_ERROR w]
    by (auto simp: host_inv_def ReportStatus_def Let_def start_succeeded_def)
  have "host_inv h1" "k = OnStop \<Longrightarrow> \<exists>r. Called OnStop r \<in> set (sh_trace h1)"
    using call_back_Some [OF call] k rep th cb
    by (auto simp: host_inv_def complete_callbacks_def intro: start_succeeded_mono)
  then show ?thesis
    using k by (auto simp: host_inv_def)
qed (use inv in simp)

lemma host_run_inv:
  assumes "host_run cb (new_host s) h" and "complete_callbacks cb"
  shows "host_inv h"
  using assms
proof (induction rule: host_run.induct)
  case refl
  then show ?case
    by (auto simp: host_inv_def new_host_def intro: exI [of _ 0])
next
  case (step h1 h2)
  from step.hyps(2) show ?case
    using step host_inv_register host_inv_start host_inv_control host_inv_finish
    by (auto elim!: host_stepE)
qed

text \<open>A stop request to a running service is delivered, and two steps later the service has stopped.\<close>

lemma stop_runs_to_end:
  assumes inv: "host_inv h" and th: "sh_thread h = Waiting_for_stop" and c: "c = SERVICE_CONTROL_STOP \<or> c = SERVICE_CONTROL_SHUTDOWN"
    and f: "onStop cb = Some f" and ret: "f (sh_service h) = Some (r, s)"
  shows "delivers c h \<and> (\<exists>h1 h2. HandleControl cb c h = Some (NO_ERROR, h1) \<and> host_step cb h1 h2 \<and>
    sh_thread h2 = Returned \<and> sh_runResult h2 = Success () \<and> sh_service h2 = s \<and>
    (\<exists>st. last_status (sh_trace h2) = Some st \<and> dwCurrentState st = SERVICE_STOPPED \<and> dwWin32ExitCode st = NO_ERROR))"
proof -
  let ?h = "ReportStatus SERVICE_STOP_PENDING NO_ERROR 5000 h"
  let ?h1 = "?h\<lparr>sh_service := s, sh_trace := Called OnStop r # sh_trace ?h, sh_stopEvent := True\<rparr>"
  have d: "delivers c h"
    using inv th c
    by (auto simp: host_inv_def delivers_def accepted_flag_def SERVICE_ACCEPT_STOP_def SERVICE_ACCEPT_SHUTDOWN_def
        SERVICE_ACCEPT_PRESHUTDOWN_def)
  have hc: "HandleControl cb c h = Some (NO_ERROR, ?h1)"
    using c f ret by (auto simp: HandleControl_def call_back_def)
  have "host_step cb ?h1 (ServiceMain_finish ?h1)"
    using th by (intro host_step.finish) simp_all
  then show ?thesis
    using d hc by (intro conjI exI) (auto simp: ServiceMain_finish_def ReportStatus_def Let_def)
qed

section \<open>The callbacks of the service\<close>

text \<open>
  The callbacks \<^verbatim>\<open>wmain\<close> registers.  An exception that leaves \<^verbatim>\<open>OnServiceStart\<close> ends the process, so
  the call does not return.
\<close>

definition service_callbacks :: "'f Host \<Rightarrow> AppConfig result call \<Rightarrow> 'f Service ServiceCallbacks" where
  "service_callbacks H loadResult =
     \<lparr>onStart = Some (\<lambda>svc. case OnServiceStart H loadResult svc of
                        Some (Returns r, svc) \<Rightarrow> Some (r, svc)
                      | _ \<Rightarrow> None),
      onStop = Some (OnServiceStop H),
      onPreShutdown = Some (OnServicePreShutdown H)\<rparr>"

text \<open>The exit code of the process.\<close>

definition wmain_exit :: "'s ServiceHost result \<Rightarrow> u32 option \<Rightarrow> 's ServiceHost \<Rightarrow> nat" where
  "wmain_exit hostResult failed h =
     (if \<not> IsOk hostResult then 1 else if IsOk (Run_result failed h) then 0 else 1)"

lemma start_session_state:
  "start_session M rm = (Inr u, rm') \<Longrightarrow>
     rm_state rm' = (if rm_state rm = CleanShutdown then RecoveryComplete else rm_state rm)"
  by (cases "Sm_OnSessionStart M (marker rm)") (auto simp: start_session_def split: sum.splits)

lemma InitializeAndRecover_complete:
  assumes "InitializeAndRecover M h rm w = Some (Inr u, rm', w')"
  shows "CurrentState rm' = RecoveryComplete"
proof -
  obtain d m where "Sm_ReadLastState M (marker rm) = (Inr d, m)"
    using assms by (cases "Sm_ReadLastState M (marker rm)") (auto simp: InitializeAndRecover_def split: sum.splits)
  then show ?thesis
    using assms by (auto simp: InitializeAndRecover_def CurrentState_def Let_def dest!: start_session_state
        split: if_splits option.splits sum.splits prod.splits)
qed

lemma MarkRecoveryComplete_ready:
  "MarkRecoveryComplete e = (Inr u, e') \<Longrightarrow> lifecycle e' = Ready"
  by (auto simp: MarkRecoveryComplete_def StartBackgroundFlushThreadIfConfigured_def split: if_splits)

definition recovered :: "'f Service \<Rightarrow> bool" where
  "recovered svc \<longleftrightarrow> (\<exists>rm e. g_recoveryManager svc = Some rm \<and> CurrentState rm = RecoveryComplete \<and>
                            g_cacheEngine svc = Some e \<and> lifecycle e = Ready)"

lemma recover_engine_recovered:
  assumes "recover_engine H config rm jrn b svc = Some (Inr u, svc')"
  shows "recovered svc'"
proof -
  obtain e rm1 e1 where "InitializeAndRecover (host_marker H) (Some (ReplayFromJournal (host_deps H))) rm e = Some (Inr (), rm1, e1)"
    and "begin_serving H config e1 (svc\<lparr>g_recoveryManager := Some rm1, g_cacheEngine := Some e1\<rparr>) = (Inr u, svc')"
    using assms by (auto simp: recover_engine_def Let_def split: sum.splits option.splits)
  then show ?thesis
    using InitializeAndRecover_complete MarkRecoveryComplete_ready
    by (fastforce simp: begin_serving_def recovered_def split: prod.splits sum.splits)
qed

lemma OnServiceStart_recovered:
  assumes "OnServiceStart H lr svc = Some (Returns (Inr u), svc')"
  shows "recovered svc'"
  using assms recover_engine_recovered
  by (fastforce simp: OnServiceStart_def start_with_config_def Let_def split: call.splits sum.splits option.splits)

lemma complete_service_callbacks: "complete_callbacks (service_callbacks H lr)"
  by (simp add: complete_callbacks_def service_callbacks_def)

definition just_running :: "'s ServiceHost \<Rightarrow> bool" where
  "just_running h \<longleftrightarrow> (\<exists>st es. sh_trace h = Reported st # es \<and> dwCurrentState st = SERVICE_RUNNING)"

text \<open>Only the end of a successful start reports the service as running.\<close>

lemma host_step_running:
  assumes "host_step (service_callbacks H lr) h h'" and "just_running h'" and "just_running h \<Longrightarrow> recovered (sh_service h)"
  shows "recovered (sh_service h')"
  using assms(1)
proof (cases rule: host_step.cases)
  case start
  obtain r h1 where call: "call_back OnStart (onStart (service_callbacks H lr)) h = Some (r, h1)"
    using start(2) by (auto simp: ServiceMain_start_def)
  have h': "h' = (case r of
      Inl e \<Rightarrow> (ReportStatus SERVICE_STOPPED ERROR_SERVICE_SPECIFIC_ERROR 0 h1)\<lparr>sh_runResult := Failure e, sh_thread := Returned\<rparr>
    | Inr _ \<Rightarrow> (ReportStatus SERVICE_RUNNING NO_ERROR 0 h1)\<lparr>sh_thread := Waiting_for_stop\<rparr>)"
    using start(2) call by (simp add: ServiceMain_start_def)
  then have r: "r = Success ()"
    using assms(2) by (cases r) (auto simp: just_running_def ReportStatus_def Let_def)
  then have "OnServiceStart H lr (sh_service h) = Some (Returns (Success ()), sh_service h1)"
    using call by (auto simp: call_back_def service_callbacks_def split: option.splits call.splits)
  then show ?thesis
    using OnServiceStart_recovered h' r by simp
next
  case (control c r)
  then show ?thesis
    using assms(2,3)
    by (cases c) (auto simp: HandleControl_def call_back_def service_callbacks_def just_running_def)
next
  case (register failed)
  then show ?thesis
    using assms(2,3) by (auto simp: ServiceMain_register_def just_running_def ReportStatus_def Let_def split: option.splits)
qed (use assms(2) in \<open>auto simp: ServiceMain_finish_def just_running_def ReportStatus_def Let_def\<close>)

section \<open>Properties\<close>



text \<open>
  \<^bold>\<open>A stop request is honoured.\<close>  In every state a running service can reach, the manager may
  deliver a stop or shutdown request, and if the stop callback returns, the main thread wakes up, the service
  is reported stopped without an error and the main function's result is success, whatever the callback returned.
\<close>

theorem stop_request_honoured:
  assumes "complete_callbacks cb" and "host_run cb (new_host s0) h" and "sh_thread h = Waiting_for_stop"
    and "c = SERVICE_CONTROL_STOP \<or> c = SERVICE_CONTROL_SHUTDOWN"
    and "onStop cb = Some f" and "f (sh_service h) = Some (r, s)"
  shows "delivers c h \<and> (\<exists>h1 h2. HandleControl cb c h = Some (NO_ERROR, h1) \<and> host_step cb h1 h2 \<and>
    sh_thread h2 = Returned \<and> wmain_exit (Success h) None h2 = 0 \<and> sh_service h2 = s \<and>
    (\<exists>st. last_status (sh_trace h2) = Some st \<and> dwCurrentState st = SERVICE_STOPPED \<and> dwWin32ExitCode st = NO_ERROR))"
  using stop_runs_to_end [OF host_run_inv [OF assms(2,1)] assms(3-6)]
  by (auto simp: wmain_exit_def Run_result_def)

text \<open>
  C10. \<^bold>\<open>The service is not reported running before it has recovered.\<close>  With the callbacks of the service,
  at the moment it is reported running the recovery manager is in state \<open>RecoveryComplete\<close> and the engine is
  ready; a failed recovery is never reported as running.
\<close>

theorem running_means_recovered:
  assumes "host_run (service_callbacks H lr) (new_host svc) h" and "just_running h"
  shows "recovered (sh_service h)"
  using assms
proof (induction rule: host_run.induct)
  case (step h1 h2)
  then show ?case
    using host_step_running by blast
qed (simp add: just_running_def new_host_def)

text \<open>A run of the service on empty files, up to the report that it is running.\<close>

definition first_host :: "PortableFile Host" where
  "first_host = service_host length id (\<lambda>_. Success ()) [] default_AppConfig ([], [], [])"

abbreviation first_callbacks :: "PortableFile Service ServiceCallbacks" where
  "first_callbacks \<equiv> service_callbacks first_host (Returns (Success default_AppConfig))"

lemma first_run:
  "\<exists>h. host_run first_callbacks (new_host new_process) h \<and> just_running h \<and> sh_thread h = Waiting_for_stop \<and>
       sh_service h \<noteq> new_process \<and> (\<exists>s. OnServiceStop first_host (sh_service h) = Some (Success (), s))"
proof -
  have "ready_files 0 [] ([], [], [])"
    by (simp add: ready_files_def holds_records_def exI [of _ "[]"])
  then obtain svc where start: "OnServiceStart first_host (Returns (Success default_AppConfig)) new_process
      = Some (Returns (Success ()), svc)" and svc: "started length id default_AppConfig 0 0 [] [] svc"
    using service_starts [OF default_config_ok(1) sample_config_ok, of id 0 "[]" "[]" "[]" "[]" 0 length "\<lambda>_. Success ()" "[]"]
    by (auto simp: first_host_def)
  define h1 where "h1 = ServiceMain_register None (new_host (new_process :: PortableFile Service))"
  have r1: "host_run first_callbacks (new_host new_process) h1"
    unfolding h1_def by (intro host_run.step [OF host_run.refl] host_step.register) (simp add: new_host_def)
  have h1: "sh_thread h1 = Starting" "sh_service h1 = new_process"
    by (simp_all add: h1_def ServiceMain_register_def) (simp add: new_host_def)
  define h2 where "h2 = (ReportStatus SERVICE_RUNNING NO_ERROR 0
    (h1\<lparr>sh_service := svc, sh_trace := Called OnStart (Success ()) # sh_trace h1\<rparr>))\<lparr>sh_thread := Waiting_for_stop\<rparr>"
  have "ServiceMain_start first_callbacks h1 = Some h2"
    using start h1(2) by (simp add: ServiceMain_start_def call_back_def service_callbacks_def h2_def)
  then have "host_run first_callbacks (new_host new_process) h2"
    using r1 h1(1) host_step.start host_run.step by blast
  moreover have "just_running h2" "sh_thread h2 = Waiting_for_stop" "sh_service h2 = svc"
    by (simp_all add: h2_def just_running_def ReportStatus_def Let_def)
  moreover have "svc \<noteq> new_process"
    using OnServiceStart_recovered [OF start] by (auto simp: recovered_def new_process_def)
  moreover have "\<exists>s. OnServiceStop first_host svc = Some (Success (), s)"
    using svc service_stops [of svc _ length id 0 "invalidated []" 0 "[]"]
    unfolding started_def first_host_def by blast
  ultimately show ?thesis
    by blast
qed

theorem running_means_recovered_witness:
  "\<exists>h. just_running h \<and> recovered (sh_service h) \<and> sh_service h \<noteq> (new_process :: PortableFile Service)"
  using first_run running_means_recovered [of first_host "Returns (Success default_AppConfig)" new_process] by blast

theorem stop_request_honoured_witness:
  "\<exists>h h1 h2. HandleControl first_callbacks SERVICE_CONTROL_SHUTDOWN h = Some (NO_ERROR, h1) \<and>
     host_step first_callbacks h1 h2 \<and> sh_thread h2 = Returned"
proof -
  obtain h s where h: "host_run first_callbacks (new_host new_process) h" "just_running h" "sh_thread h = Waiting_for_stop"
    and stop: "OnServiceStop first_host (sh_service h) = Some (Success (), s)"
    using first_run by blast
  have cb: "onStop first_callbacks = Some (OnServiceStop first_host)"
    by (simp add: service_callbacks_def)
  show ?thesis
    using stop_request_honoured [OF complete_service_callbacks h(1,3) _ cb stop, of SERVICE_CONTROL_SHUTDOWN] by blast
qed

end
