(* ===== verification/Win32File.thy ===== *)
theory Win32File
  imports SessionMarker BackingStore WriteAheadJournal
begin

text \<open>
  The Windows implementation of \<^verbatim>\<open>IFile\<close> (\<^verbatim>\<open>Win32File.cpp\<close>), the one the product runs on: the handle of
  an open file as the kernel keeps it, with the outcomes of the calls to come, as for
  \<^verbatim>\<open>PortableFile\<close>.  Two things differ from the portable file.  The byte count of a transfer is cast to a
  \<^verbatim>\<open>DWORD\<close>, so \<open>2\<^sup>3\<^sup>2\<close> bytes or more are cut to the count modulo \<open>2\<^sup>3\<^sup>2\<close>, and reported as such; and
  \<^verbatim>\<open>SetLength\<close> leaves the file position at the new end.

  The interpretation of \<open>file_contract\<close> at the end carries every lemma on the journal, the session
  marker and the backing store over to this file.
\<close>

section \<open>The handle\<close>

text \<open>A call that fails leaves an error code; a write may have transferred some bytes before it failed.\<close>

datatype win32_outcome = Returns_true | Returns_false u32 nat

record Win32File =
  wf_content :: bytes
  wf_position :: nat
  wf_durable :: bytes
  wf_outcomes :: "win32_outcome list"

definition win32_call :: "Win32File \<Rightarrow> win32_outcome \<times> Win32File" where
  "win32_call f = (case wf_outcomes f of [] \<Rightarrow> (Returns_true, f) | x # xs \<Rightarrow> (x, f\<lparr>wf_outcomes := xs\<rparr>))"

definition file_MakeWin32Error :: "string \<Rightarrow> u32 \<Rightarrow> Error" where
  "file_MakeWin32Error context err = \<lparr>code = Win32ApiFailure, message = str context, platformErrorValue = err\<rparr>"

definition DWORD_cast :: "nat \<Rightarrow> nat" where
  "DWORD_cast n = unat (of_nat n :: u32)"

section \<open>Operations\<close>

definition Win32File_Read :: "nat \<Rightarrow> Win32File \<Rightarrow> bytes result \<times> Win32File" where
  "Win32File_Read n f0 =
     (case win32_call f0 of
        (Returns_false e _, f) \<Rightarrow> (Failure (file_MakeWin32Error ''ReadFile failed'' e), f)
      | (Returns_true, f) \<Rightarrow>
          (let got = take (DWORD_cast n) (drop (wf_position f) (wf_content f))
           in (Success got, f\<lparr>wf_position := wf_position f + length got\<rparr>)))"

definition Win32File_Write :: "bytes \<Rightarrow> Win32File \<Rightarrow> nat result \<times> Win32File" where
  "Win32File_Write bs f0 =
     (case win32_call f0 of
        (Returns_false e k, f) \<Rightarrow>
          (Failure (file_MakeWin32Error ''WriteFile failed'' e),
           f\<lparr>wf_content := overwrite (wf_content f) (wf_position f) (take (min k (length bs)) bs),
             wf_position := wf_position f + min k (length bs)\<rparr>)
      | (Returns_true, f) \<Rightarrow>
          (let n = DWORD_cast (length bs)
           in (Success n,
               f\<lparr>wf_content := overwrite (wf_content f) (wf_position f) (take n bs),
                 wf_position := wf_position f + n\<rparr>)))"

text \<open>\<^verbatim>\<open>SetFilePointerEx\<close> fails for a negative position and leaves the pointer where it was.\<close>

definition Win32File_Seek :: "int \<Rightarrow> bool \<Rightarrow> Win32File \<Rightarrow> nat result \<times> Win32File" where
  "Win32File_Seek off fromEnd f0 =
     (let (oc, f) = win32_call f0;
          target = (if fromEnd then int (length (wf_content f)) + off else off)
      in case oc of
           Returns_false e _ \<Rightarrow> (Failure (file_MakeWin32Error ''SetFilePointerEx failed'' e), f)
         | Returns_true \<Rightarrow>
             if target < 0 then (Failure (file_MakeWin32Error ''SetFilePointerEx failed'' 131), f)
             else (Success (nat target), f\<lparr>wf_position := nat target\<rparr>))"

definition Win32File_Size :: "Win32File \<Rightarrow> nat result \<times> Win32File" where
  "Win32File_Size f0 =
     (case win32_call f0 of
        (Returns_false e _, f) \<Rightarrow> (Failure (file_MakeWin32Error ''GetFileSizeEx failed'' e), f)
      | (Returns_true, f) \<Rightarrow> (Success (length (wf_content f)), f))"

definition Win32File_SetLength :: "nat \<Rightarrow> Win32File \<Rightarrow> unit result \<times> Win32File" where
  "Win32File_SetLength n f0 =
     (case win32_call f0 of
        (Returns_false e _, f) \<Rightarrow> (Failure (file_MakeWin32Error ''SetFilePointerEx (SetLength) failed'' e), f)
      | (Returns_true, f1) \<Rightarrow>
          (case win32_call (f1\<lparr>wf_position := n\<rparr>) of
             (Returns_false e _, f) \<Rightarrow> (Failure (file_MakeWin32Error ''SetEndOfFile failed'' e), f)
           | (Returns_true, f) \<Rightarrow> (Success (), f\<lparr>wf_content := set_length (wf_content f) n\<rparr>)))"

definition Win32File_FlushDurable :: "Win32File \<Rightarrow> unit result \<times> Win32File" where
  "Win32File_FlushDurable f0 =
     (case win32_call f0 of
        (Returns_false e _, f) \<Rightarrow> (Failure (file_MakeWin32Error ''FlushFileBuffers failed'' e), f)
      | (Returns_true, f) \<Rightarrow> (Success (), f\<lparr>wf_durable := wf_content f\<rparr>))"

definition Win32File_ops :: "Win32File IFile" where
  "Win32File_ops =
     \<lparr>IFile_Read = Win32File_Read,
      IFile_Write = Win32File_Write,
      IFile_Seek = Win32File_Seek,
      IFile_Size = Win32File_Size,
      IFile_SetLength = Win32File_SetLength,
      IFile_FlushDurable = Win32File_FlushDurable\<rparr>"

lemmas Win32File_defs =
  Win32File_ops_def Win32File_Read_def Win32File_Write_def Win32File_Seek_def Win32File_Size_def
  Win32File_SetLength_def Win32File_FlushDurable_def win32_call_def

definition wf_healthy :: "Win32File \<Rightarrow> bool" where
  "wf_healthy f \<longleftrightarrow> wf_outcomes f = []"

lemma DWORD_cast_id [simp]: "n < 4294967296 \<Longrightarrow> DWORD_cast n = n"
  by (simp add: DWORD_cast_def)

lemma DWORD_cast_le: "DWORD_cast n \<le> n"
  by (simp add: DWORD_cast_def unat_of_nat)

text \<open>Transfers of less than 4 GiB, and every other operation, are those of the contract.\<close>

interpretation wf: file_contract Win32File_ops wf_content wf_position wf_durable wf_healthy
proof (unfold_locales, goal_cases)
  case (5 f bs r f')
  then show ?case
    by (intro exI [of _ "case wf_outcomes f of Returns_false _ k # _ \<Rightarrow> min k (length bs) | _ \<Rightarrow> DWORD_cast (length bs)"])
      (auto simp: Win32File_defs Let_def DWORD_cast_le split: list.splits win32_outcome.splits)
qed (auto simp: Win32File_defs wf_healthy_def file_MakeWin32Error_def Let_def
       split: list.splits win32_outcome.splits if_splits)

section \<open>Opening a file\<close>

datatype creation = OPEN_EXISTING | CREATE_NEW | OPEN_ALWAYS

text \<open>
  \<^verbatim>\<open>CreateFileW\<close> for the dispositions the code uses, on the files a path may name; the argument before
  the file system is the error, if the call fails for a reason of its own.
\<close>

definition CreateFileW ::
  "'p \<Rightarrow> creation \<Rightarrow> u32 option \<Rightarrow> ('p \<Rightarrow> bytes option) \<Rightarrow> (u32 + bytes) \<times> ('p \<Rightarrow> bytes option)" where
  "CreateFileW path disp failed fs =
     (case failed of
        Some e \<Rightarrow> (Inl e, fs)
      | None \<Rightarrow>
          (case (fs path, disp) of
             (Some c, CREATE_NEW) \<Rightarrow> (Inl 80, fs)
           | (Some c, _) \<Rightarrow> (Inr c, fs)
           | (None, OPEN_EXISTING) \<Rightarrow> (Inl 2, fs)
           | (None, _) \<Rightarrow> (Inr [], fs(path \<mapsto> []))))"

definition OpenFile_creation :: "OpenMode \<Rightarrow> creation" where
  "OpenFile_creation mode =
     (case mode of OpenExisting \<Rightarrow> OPEN_EXISTING | CreateNew \<Rightarrow> CREATE_NEW | OpenOrCreate \<Rightarrow> OPEN_ALWAYS)"

definition Win32_OpenFile ::
  "'p \<Rightarrow> OpenMode \<Rightarrow> u32 option \<Rightarrow> win32_outcome list \<Rightarrow> ('p \<Rightarrow> bytes option)
     \<Rightarrow> Win32File result \<times> ('p \<Rightarrow> bytes option)" where
  "Win32_OpenFile path mode failed os fs =
     (case CreateFileW path (OpenFile_creation mode) failed fs of
        (Inl e, fs) \<Rightarrow> (Failure (file_MakeWin32Error ''CreateFileW failed'' e), fs)
      | (Inr c, fs) \<Rightarrow> (Success \<lparr>wf_content = c, wf_position = 0, wf_durable = c, wf_outcomes = os\<rparr>, fs))"

text \<open>Unlike the portable version, opening never changes a file that exists.\<close>

lemma Win32_OpenFile_keeps:
  assumes "fs path = Some c"
  shows "snd (Win32_OpenFile path mode failed os fs) = fs"
    and "fst (Win32_OpenFile path mode failed os fs) = Inr f \<Longrightarrow> wf_content f = c \<and> wf_position f = 0"
  using assms by (auto simp: Win32_OpenFile_def CreateFileW_def OpenFile_creation_def split: option.splits OpenMode.splits)

end
