(* ===== verification/Win32Engine.thy ===== *)
theory Win32Engine
  imports Win32File EngineSessions
begin

text \<open>
  The cache engine on Windows files.  The contracts of the journal and the backing store hold over
  \<^verbatim>\<open>Win32File\<close> by its interpretation of \<open>file_contract\<close>; with them the engine's environment is
  interpreted a second time, and its lemmas hold of the engine the product runs: it refines a map, and
  acknowledged writes survive power cuts.
\<close>

definition win32_deps ::
  "(key \<Rightarrow> nat) \<Rightarrow> (pending \<Rightarrow> pending) \<Rightarrow> (Win32File WriteAheadJournal, Win32File FileBackingStore) Deps" where
  "win32_deps h ord =
     \<lparr>hash = h, store_ops = FileBackingStore_ops Win32File_ops, journal_ops = WriteAheadJournal_ops Win32File_ops,
      map_order = ord\<rparr>"

interpretation weng: engine_env "win32_deps h ord" wf.fbs_abs wf.fbs_disk wf.fbs_inv wf.fbs_clean wf.fbs_healthy
  wf.wal_records wf.wal_intact wf.wal_healthy for h ord
  by (simp add: engine_env_def win32_deps_def wf.fbs.backing_store_axioms wf.wal.journal_contract_axioms)

interpretation wdur: engine_durable "win32_deps h ord" wf.fbs_abs wf.fbs_disk wf.fbs_inv wf.fbs_clean wf.fbs_healthy
  wf.wal_records wf.wal_intact wf.wal_healthy wf.wal_durable for h ord
proof (unfold_locales, goal_cases)
  case (1 p j s j')
  then show ?case
    using wf.Append_durable [of p j s j'] by (simp add: win32_deps_def WriteAheadJournal_ops_def)
next
  case (2 j u j')
  then show ?case
    using wf.Truncate_durable [of j u j'] by (simp add: win32_deps_def WriteAheadJournal_ops_def)
next
  case (3 cb a j q a' j')
  then show ?case
    using wf.Replay_durable [of cb a j q a' j'] by (simp add: win32_deps_def WriteAheadJournal_ops_def)
qed

section \<open>Restarting on Windows files\<close>

definition open_win32 :: "bytes \<Rightarrow> win32_outcome list \<Rightarrow> Win32File" where
  "open_win32 c os = \<lparr>wf_content = c, wf_position = 0, wf_durable = c, wf_outcomes = os\<rparr>"

definition win32_open_store :: "bytes \<Rightarrow> Win32File FileBackingStore option" where
  "win32_open_store sb = open_store_on Win32File_ops (open_win32 sb [])"

definition win32_open_journal :: "bytes \<Rightarrow> Win32File WriteAheadJournal option" where
  "win32_open_journal jb = open_journal_on (open_win32 jb [])"

definition win32_crash :: "(Win32File WriteAheadJournal, Win32File FileBackingStore) CacheEngine \<Rightarrow> bytes \<times> bytes" where
  "win32_crash e = (wf_durable (fbs_file (backingStore e)), wf_durable (waj_file (journal e)))"

definition win32_sessions ::
  "(key \<Rightarrow> nat) \<Rightarrow> (pending \<Rightarrow> pending) \<Rightarrow> CacheEngineOptions \<Rightarrow> engine_op list list \<Rightarrow> bytes \<times> bytes
     \<Rightarrow> ((key \<rightharpoonup> value) \<times> engine_reply list \<times> (key \<rightharpoonup> value)) list option" where
  "win32_sessions h ord opts = run_sessions_on (win32_deps h ord) wf.fbs_abs
     (start_engine_on (win32_deps h ord) win32_open_store win32_open_journal opts) win32_crash"

lemmas win32_restarts =
  file_contract.opened_journal_good [OF wf.file_contract_axioms]
  file_contract.journal_left [OF wf.file_contract_axioms]
  file_contract.store_left [OF wf.file_contract_axioms]

interpretation wrestart: engine_restart "win32_deps h ord" wf.fbs_abs wf.fbs_disk wf.fbs_inv wf.fbs_clean wf.fbs_healthy
  wf.wal_records wf.wal_intact wf.wal_healthy wf.wal_durable win32_open_store win32_open_journal win32_crash for h ord
proof (unfold_locales, goal_cases)
  case (1 sb)
  show ?case
    using wf.Open_healthy [of "open_win32 sb []"]
    by (auto simp: win32_open_store_def open_store_on_def open_win32_def wf_healthy_def wdur.bgood_def)
next
  case (2 N R jb)
  then show ?case
    using win32_restarts(1) [of N R jb "open_win32 jb []"]
    by (simp add: win32_open_journal_def wdur.jgood_def open_win32_def wf_healthy_def)
next
  case (3 R e N)
  then show ?case
    using win32_restarts(2) [of "journal e" R N] by (simp add: wdur.jgood_def win32_crash_def)
next
  case (4 e)
  then show ?case
    using win32_restarts(3) [of "backingStore e"] by (simp add: wdur.bgood_def win32_crash_def)
qed

section \<open>Properties\<close>

lemma win32_Open_inv:
  "OpenFileBackingStore Win32File_ops (Inr f) = Some (Inr b) \<Longrightarrow> wf.fbs_inv b"
  using wf.Initialize_outcome [of f]
  by (auto simp: OpenFileBackingStore_def wf.fbs_fresh_def split: sum.splits)

text \<open>
  C12. \<^bold>\<open>On Windows files the engine is a map as well, and a successful flush leaves it in the store.\<close>
  Whatever calls of the Windows file interface fail, operations on the engine get the replies of a map
  that starts as the contents of the store, and every operation returns.  If \<^verbatim>\<open>FlushAll\<close> then reports
  success, the store alone holds what the engine showed.
\<close>

theorem Win32_engine_refines_map:
  assumes "OpenFileBackingStore Win32File_ops (Inr f) = Some (Inr b)"
    and "CreateCacheEngine opts (Some b) (Some j) = Inr e0" and "MarkRecoveryComplete e0 = (r, e)"
    and "enabled opts" and "\<forall>x\<in>set xs. engine_op_storable x" and "length xs < 2 ^ 64"
  shows "\<exists>rs e1. run_engine (win32_deps h ord) xs e = Some (rs, e1) \<and>
    map_run (writePolicy opts = WriteThrough) xs rs (wf.fbs_abs b) (engine_view (win32_deps h ord) wf.fbs_abs e1) \<and>
    (\<forall>e2. FlushAll (win32_deps h ord) e1 = Some (Success (), e2) \<longrightarrow>
       wf.fbs_abs (backingStore e2) = engine_view (win32_deps h ord) wf.fbs_abs e1)"
proof -
  obtain rs e1 where run: "run_engine (win32_deps h ord) xs e = Some (rs, e1)" "weng.running h ord 0 e1"
    "map_run (writePolicy opts = WriteThrough) xs rs (wf.fbs_abs b) (engine_view (win32_deps h ord) wf.fbs_abs e1)"
    using weng.Create_running [OF win32_Open_inv [OF assms(1)] assms(2-4,6), of h ord]
      weng.run_engine_running [of h ord xs 0 e] assms(5) by auto
  have "wf.fbs_abs (backingStore e2) = engine_view (win32_deps h ord) wf.fbs_abs e1"
    if "FlushAll (win32_deps h ord) e1 = Some (Success (), e2)" for e2
    using weng.FlushAll_core [OF weng.runningD(1,2,5,6) [OF run(2)] weng.ready_checks(1) [OF run(2)]] that
    by (auto simp: weng.flushed_def)
  then show ?thesis
    using run by blast
qed

definition win32_store :: "Win32File FileBackingStore" where
  "win32_store = \<lparr>fbs_file = open_win32 [] [], index = [], endOffset = 0, nextSequence = 1\<rparr>"

definition win32_journal :: "Win32File WriteAheadJournal" where
  "win32_journal = \<lparr>waj_file = open_win32 [] [Returns_true, Returns_false 112 3], nextSequenceNumber = 0, recordCount = 0\<rparr>"

text \<open>A run in which a write of the journal fails with a full disk after three bytes.\<close>

theorem Win32_engine_refines_map_witness:
  "\<exists>rs e1. run_engine (win32_deps length id) sample_engine_ops
      ((new_engine sample_options win32_store win32_journal)\<lparr>lifecycle := Ready\<rparr>) = Some (rs, e1) \<and>
    map_run False sample_engine_ops rs (wf.fbs_abs win32_store) (engine_view (win32_deps length id) wf.fbs_abs e1)"
proof -
  have o: "OpenFileBackingStore Win32File_ops (Inr (open_win32 [] [])) = Some (Inr win32_store)"
    by code_simp
  have c: "CreateCacheEngine sample_options (Some win32_store) (Some win32_journal)
      = Inr (new_engine sample_options win32_store win32_journal)"
    by (simp add: CreateCacheEngine_def sample_options_def)
  have r: "MarkRecoveryComplete (new_engine sample_options win32_store win32_journal)
      = (Inr (), (new_engine sample_options win32_store win32_journal)\<lparr>lifecycle := Ready\<rparr>)"
    by (simp add: MarkRecoveryComplete_def new_engine_def Let_def StartBackgroundFlushThreadIfConfigured_def sample_options_def)
  show ?thesis
    using Win32_engine_refines_map [OF o c r _ sample_engine_ops_ok, of length id] by (auto simp: sample_options_def)
qed

text \<open>
  C13. \<^bold>\<open>Acknowledged writes survive power cuts on Windows files.\<close>  As for portable files, but with
  \<^verbatim>\<open>ReadFile\<close>, \<^verbatim>\<open>WriteFile\<close>, \<^verbatim>\<open>SetFilePointerEx\<close>, \<^verbatim>\<open>SetEndOfFile\<close> and \<^verbatim>\<open>FlushFileBuffers\<close> underneath: start on
  any store file and an empty journal, run any number of sessions, each ended by a power cut after some
  operation and followed by recovery from what \<^verbatim>\<open>FlushFileBuffers\<close> made durable.  On devices that do not
  fail every start succeeds, every operation returns, each session behaves as a map, and for every key
  that is never invalidated each session starts with the value the last one ended with.
\<close>

theorem Win32_writes_survive_crashes:
  assumes "valid_options opts" and "\<And>p. mset (ord p) = mset p" and "\<forall>x\<in>set (concat xss). engine_op_ok x"
    and "length (concat xss) < 2 ^ 64"
  shows "\<exists>ts. win32_sessions h ord opts xss (sb, []) = Some ts \<and>
    list_all2 (\<lambda>xs (m, rs, m'). map_run (writePolicy opts = WriteThrough) xs rs m m') xss ts \<and>
    (\<forall>k. k \<notin> \<Union> (invalidates ` set (concat xss)) \<longrightarrow> continues k (store_map (store_scan sb) k) ts)"
  unfolding win32_sessions_def
  by (rule wrestart.sessions_keep [OF assms(1) _ assms(3,4)]) (simp add: win32_deps_def assms(2))

theorem Win32_writes_survive_crashes_witness:
  "\<exists>ts. win32_sessions length id sample_options sample_sessions (sample_store_bytes, []) = Some ts \<and>
    list_all2 (\<lambda>xs (m, rs, m'). map_run False xs rs m m') sample_sessions ts \<and>
    continues (str ''k'') (store_map (store_scan sample_store_bytes) (str ''k'')) ts"
proof -
  have "mset (id p) = mset p" for p :: pending
    by simp
  from Win32_writes_survive_crashes [OF sample_options_valid this sample_sessions_ok(1,2), of length sample_store_bytes]
  show ?thesis
    unfolding sample_sessions_ok(3,4) by (metis empty_iff)
qed

end
