(* ===== verification/Win32ConfigStore.thy ===== *)
theory Win32ConfigStore
  imports Configuration Win32File
begin

text \<open>
  The configuration store as it is built for Windows (\<^verbatim>\<open>JsonConfigStore.cpp\<close>): \<open>Save\<close> converts the
  path with \<^verbatim>\<open>NarrowPathToWide\<close> and replaces the file with the Windows branch of
  \<^verbatim>\<open>AtomicallyReplaceFileContents\<close>, over the disk and the schedule of \<open>AtomicReplace\<close>.  \<open>Load\<close> hands the
  narrow path to \<^verbatim>\<open>std::ifstream\<close>.  Both conversions belong to Windows and are parameters:
  \<open>utf8\<close> is \<^verbatim>\<open>MultiByteToWideChar(CP_UTF8, ...)\<close> on a NUL-terminated string and gives the characters it
  writes with the final NUL, none on failure; \<open>acp\<close> is the conversion the C++ runtime applies to a narrow
  path.  \<open>rd\<close> is the value \<^verbatim>\<open>std::random_device\<close> draws and \<open>lastError\<close> gives the code of a failed call.
\<close>

section \<open>Paths\<close>

definition NarrowPathToWide :: "(cstring \<Rightarrow> wide) \<Rightarrow> cstring \<Rightarrow> wide" where
  "NarrowPathToWide utf8 narrow =
     (if narrow = [] then []
      else let c_str = takeWhile (\<lambda>c. c \<noteq> 0) narrow;
               required = length (utf8 c_str)
           in if required \<le> 0 then [] else take (required - 1) (utf8 c_str))"

text \<open>\<^verbatim>\<open>std::to_wstring\<close>.\<close>

definition to_wstring :: "nat \<Rightarrow> wide" where
  "to_wstring = decimal (\<lambda>d. 48 + of_nat d)"

definition tempWide :: "wide \<Rightarrow> u32 \<Rightarrow> wide" where
  "tempWide targetWide rd = targetWide @ wstr ''.tmp'' @ to_wstring (unat rd)"

section \<open>System calls\<close>

text \<open>
  \<^verbatim>\<open>CreateFileW\<close> with \<^verbatim>\<open>CREATE_ALWAYS\<close>, \<^verbatim>\<open>WriteFile\<close>, \<^verbatim>\<open>FlushFileBuffers\<close> and \<^verbatim>\<open>DeleteFileW\<close> act on the
  disk as \<^verbatim>\<open>open\<close>, \<^verbatim>\<open>write\<close>, \<^verbatim>\<open>fsync\<close> and \<^verbatim>\<open>unlink\<close> do.  \<^verbatim>\<open>MoveFileExW\<close> with \<^verbatim>\<open>MOVEFILE_REPLACE_EXISTING\<close>
  replaces the entry and, because of \<^verbatim>\<open>MOVEFILE_WRITE_THROUGH\<close>, returns once the directory is on the
  disk; a power cut may come between the two.  It refuses an empty name.
\<close>

definition MoveFileExW :: "wide \<Rightarrow> wide \<Rightarrow> wide os \<Rightarrow> bool \<times> wide os" where
  "MoveFileExW a b w =
     (if b = [] then (False, effect id w)
      else case sys_rename a b w of
             (False, w) \<Rightarrow> (False, w)
           | (True, w) \<Rightarrow> (True, effect settle w))"

section \<open>AtomicallyReplaceFileContents\<close>

definition win32_replace_error :: "string \<Rightarrow> u32 \<Rightarrow> Error" where
  "win32_replace_error what err =
     \<lparr>code = IoError, message = str (''AtomicallyReplaceFileContents: '' @ what), platformErrorValue = err\<rparr>"

definition AtomicallyReplaceFileContents_win32 ::
  "(cstring \<Rightarrow> wide) \<Rightarrow> u32 \<Rightarrow> (nat \<Rightarrow> u32) \<Rightarrow> cstring \<Rightarrow> bytes \<Rightarrow> wide os \<Rightarrow> unit result \<times> wide os" where
  "AtomicallyReplaceFileContents_win32 utf8 rd lastError targetPath content w =
     (let targetWide = NarrowPathToWide utf8 targetPath;
          temp = tempWide targetWide rd
      in case sys_open temp w of
           (None, w) \<Rightarrow> (Failure (win32_replace_error ''CreateFileW (temp) failed'' (lastError (calls w))), w)
         | (Some handle, w) \<Rightarrow>
             (case sys_write handle (take (DWORD_cast (length content)) content) w of
                (written, w) \<Rightarrow>
                  if written \<noteq> Some (length content)
                  then (Failure (win32_replace_error ''WriteFile (temp) failed'' (lastError (calls w))),
                        sys_unlink temp w)
                  else case sys_fsync handle w of
                         (False, w) \<Rightarrow>
                           (Failure (win32_replace_error ''FlushFileBuffers (temp) failed'' (lastError (calls w))),
                            sys_unlink temp w)
                       | (True, w) \<Rightarrow>
                           (case MoveFileExW temp targetWide w of
                              (False, w) \<Rightarrow>
                                (Failure (win32_replace_error ''MoveFileExW failed'' (lastError (calls w))),
                                 sys_unlink temp w)
                            | (True, w) \<Rightarrow> (Success (), w))))"

section \<open>The store\<close>

definition Load_win32 :: "'j Json \<Rightarrow> (cstring \<Rightarrow> wide) \<Rightarrow> cstring \<Rightarrow> wide disk \<Rightarrow> AppConfig result call" where
  "Load_win32 J acp pathOf s = load_text J pathOf (visible s (acp pathOf))"

definition Save_win32 ::
  "'j Json \<Rightarrow> (cstring \<Rightarrow> wide) \<Rightarrow> u32 \<Rightarrow> (nat \<Rightarrow> u32) \<Rightarrow> cstring \<Rightarrow> AppConfig \<Rightarrow> wide os \<Rightarrow>
   (unit result call \<times> wide os) option" where
  "Save_win32 J utf8 rd lastError pathOf =
     save_by (\<lambda>content w. Some (AtomicallyReplaceFileContents_win32 utf8 rd lastError pathOf content w)) J"

section \<open>Lemmas\<close>

text \<open>What one step of the replacement keeps, with its result: a power cut finds the old contents or the
  new ones, success shows and keeps the new ones, failure the old ones.\<close>

definition replaced :: "wide \<Rightarrow> wide \<Rightarrow> wide os \<Rightarrow> bytes \<Rightarrow> unit result \<times> wide os \<Rightarrow> bool" where
  "replaced q t w0 content = (\<lambda>(r, w).
     throughout (safe q t (disk w0) content) w0 w \<and>
     visible (disk w) t = (if IsOk r then Some content else visible (disk w0) t) \<and>
     (IsOk r \<longrightarrow> recover (disk w) t = {Some content}))"

lemma replaced_abandoned:
  assumes "writing q t (disk w0) fd (disk w)" and "throughout (safe q t (disk w0) content) w0 w"
  shows "replaced q t w0 content (Failure e, sys_unlink q w)"
  using sys_unlink_safe [OF assms] by (simp add: replaced_def)

lemma replaced_move:
  assumes "staged q t (disk w0) fd content (disk w)" and "throughout (safe q t (disk w0) content) w0 w"
  shows "replaced q t w0 content
     (case MoveFileExW q t w of (False, w) \<Rightarrow> (Failure (e w), sys_unlink q w) | (True, w) \<Rightarrow> (Success (), w))"
proof -
  have w: "writing q t (disk w0) fd (disk w)" "current (disk w) q = Some fd"
    using assms(1) by (simp_all add: staged_def writing_def)
  have same: "writing q t (disk w0) fd (disk (effect id w))"
    using w by simp
  have failed: "replaced q t w0 content (Failure (e (effect id w)), sys_unlink q (effect id w))"
    using assms(2) writing_safe [OF w(1)]
    by (intro replaced_abandoned [OF same] throughout_effect) simp_all
  let ?w = "effect (move_entry q t) w"
  have moved: "safe q t (disk w0) content (disk ?w)" "visible (disk ?w) t = Some content"
    "current (disk ?w) t = Some fd" "inodes (disk ?w) fd = inodes (disk w) fd"
    using assms(1) move_entry_safe [of q t "disk w0" fd "disk w" content]
    by (simp_all add: staged_def move_entry_def)
  have "throughout (safe q t (disk w0) content) w0 ?w"
    using assms(2) moved(1) by (intro throughout_effect) simp_all
  then have "throughout (safe q t (disk w0) content) w0 (effect settle ?w)"
    by (rule throughout_effect) (rule settle_safe [OF moved(1)])
  then have "replaced q t w0 content (Success (), effect settle ?w)"
    using assms(1) moved recover_settled [OF moved(3)] by (simp add: replaced_def staged_def)
  then show ?thesis
    using failed w(2)
    by (cases "sched w (calls w)") (auto simp: MoveFileExW_def sys_rename_def del: effect_simps)
qed

lemma replaced_flush:
  assumes "writing q t (disk w0) fd (disk w)" and "data (inodes (disk w) fd) = content"
    and "throughout (safe q t (disk w0) content) w0 w"
    and moved: "\<And>w. staged q t (disk w0) fd content (disk w) \<Longrightarrow>
      throughout (safe q t (disk w0) content) w0 w \<Longrightarrow> replaced q t w0 content (f w)"
  shows "replaced q t w0 content
     (case sys_fsync fd w of (False, w) \<Rightarrow> (Failure (e w), sys_unlink q w) | (True, w) \<Rightarrow> f w)"
proof (cases "sched w (calls w)")
  case Fails
  have "replaced q t w0 content (Failure (e (effect id w)), sys_unlink q (effect id w))"
    using assms(1,3) writing_safe [OF assms(1)]
    by (intro replaced_abandoned [of q t w0 fd] throughout_effect) simp_all
  then show ?thesis
    using Fails by (simp add: sys_fsync_def)
next
  case (Completes n)
  let ?w = "effect (mark_synced fd) w"
  have wr: "writing q t (disk w0) fd (disk ?w)"
    using assms(1) by (simp add: writing_mark_synced)
  then have "staged q t (disk w0) fd content (disk ?w)"
    using assms(2) by (simp add: staged_def mark_synced_def)
  then have "replaced q t w0 content (f ?w)"
    using assms(3) writing_safe [OF wr] by (intro moved throughout_effect) simp_all
  then show ?thesis
    using Completes by (simp add: sys_fsync_def)
qed

lemma replaced_write:
  assumes "unaliased (tempWide (NarrowPathToWide utf8 p) rd) (NarrowPathToWide utf8 p) (disk w)"
  shows "replaced (tempWide (NarrowPathToWide utf8 p) rd) (NarrowPathToWide utf8 p) w content
     (AtomicallyReplaceFileContents_win32 utf8 rd lastError p content w)"
proof (cases "sched w (calls w)")
  let ?t = "NarrowPathToWide utf8 p"
  let ?q = "tempWide ?t rd"
  have s0: "safe ?q ?t (disk w) content (disk w)"
    using assms by (auto simp: safe_def)
  {
    case Fails
    then show ?thesis
      using s0 throughout_effect [OF throughout_refl, of "safe ?q ?t (disk w) content" w id]
      by (simp add: AtomicallyReplaceFileContents_win32_def sys_open_def replaced_def)
  next
    case (Completes n)
    obtain fd s where o: "open_truncated ?q (disk w) = (fd, s)"
      by fastforce
    define w1 where "w1 = effect (snd \<circ> open_truncated ?q) w"
    have op: "sys_open ?q w = (Some fd, w1)" and w1: "disk w1 = s"
      using Completes o by (simp_all add: sys_open_def w1_def)
    have wr: "writing ?q ?t (disk w) fd (disk w1)" "data (inodes (disk w1) fd) = []"
      using open_truncated_writing [OF assms o] w1 by simp_all
    have th: "throughout (safe ?q ?t (disk w) content) w w1"
      unfolding w1_def by (rule throughout_effect [OF throughout_refl [of _ w]])
        (use s0 writing_safe [OF wr(1)] in \<open>simp_all add: w1_def\<close>)
    let ?sent = "take (DWORD_cast (length content)) content"
    obtain x w2 where x: "sys_write fd ?sent w1 = (x, w2)"
      by fastforce
    have w2: "writing ?q ?t (disk w) fd (disk w2)" "throughout (safe ?q ?t (disk w) content) w w2"
      "x = Some (length content) \<Longrightarrow> data (inodes (disk w2) fd) = content"
      using x wr th writing_safe [OF wr(1)] writing_safe [OF writing_append_data [OF wr(1)]]
      by (auto simp: sys_write_def append_data_def writing_set_inode
          intro!: throughout_effect split: sys_outcome.splits)
    show ?thesis
    proof (cases "x = Some (length content)")
      case True
      show ?thesis
        unfolding AtomicallyReplaceFileContents_win32_def Let_def op x True prod.case option.case
        by simp (rule replaced_flush [OF w2(1) w2(3) [OF True] w2(2)], erule (1) replaced_move)
    next
      case False
      then show ?thesis
        using replaced_abandoned [OF w2(1,2)]
        by (simp add: AtomicallyReplaceFileContents_win32_def Let_def op x)
    qed
  }
qed

lemma DWORD_cast_small: "n < 2 ^ 32 \<Longrightarrow> DWORD_cast n = n"
  by (simp add: DWORD_cast_def unat_of_nat)

lemma DWORD_cast_less: "DWORD_cast n < 2 ^ 32"
  by (simp add: DWORD_cast_def unat_of_nat)

text \<open>A system in which no call fails and a write takes everything it is given.\<close>

definition reliable :: "nat \<Rightarrow> (nat \<Rightarrow> sys_outcome) \<Rightarrow> bool" where
  "reliable n sc \<longleftrightarrow> (\<forall>i. \<exists>m \<ge> n. sc i = Completes m)"

lemma reliable_replace:
  assumes "reliable (length content) (sched w)" and "length content < 2 ^ 32" and "NarrowPathToWide utf8 p \<noteq> []"
    and "unaliased (tempWide (NarrowPathToWide utf8 p) rd) (NarrowPathToWide utf8 p) (disk w)"
  shows "IsOk (fst (AtomicallyReplaceFileContents_win32 utf8 rd lastError p content w))"
proof -
  let ?t = "NarrowPathToWide utf8 p"
  let ?q = "tempWide ?t rd"
  obtain m where m: "\<And>i. sched w i = Completes (m i)" "\<And>i. min (m i) (length content) = length content"
    using assms(1) unfolding reliable_def by (metis min.absorb2)
  obtain fd s where o: "open_truncated ?q (disk w) = (fd, s)"
    by fastforce
  have "current s ?q = Some fd"
    using open_truncated_writing [OF assms(4) o] by (simp add: writing_def)
  then show ?thesis
    using o m assms(3) by (simp add: AtomicallyReplaceFileContents_win32_def Let_def sys_open_def sys_write_def sys_fsync_def
        MoveFileExW_def sys_rename_def append_data_def mark_synced_def DWORD_cast_small [OF assms(2)])
qed

text \<open>Different draws of the random device name different temporary files.\<close>

lemma wide_digits: "inj_on (\<lambda>d. 48 + of_nat d :: 16 word) {..<10}"
proof (rule inj_onI)
  fix a b :: nat
  assume "a \<in> {..<10}" "b \<in> {..<10}" "48 + of_nat a = (48 + of_nat b :: 16 word)"
  then have "unat (of_nat a :: 16 word) = unat (of_nat b :: 16 word)" "a < 10" "b < 10"
    by simp_all
  then show "a = b"
    by (simp add: unat_of_nat)
qed

lemma tempWide_inject: "tempWide t a = tempWide t b \<longleftrightarrow> a = b"
  using decimal_inject [OF wide_digits, of "unat a" "unat b"] by (auto simp: tempWide_def to_wstring_def word_unat_eq_iff)

lemma tempWide_neq [simp]: "tempWide t rd \<noteq> t"
  by (simp add: tempWide_def wstr_def)

section \<open>Properties\<close>

text \<open>
  C30. \<^bold>\<open>On Windows, replacing the configuration file is atomic and a success is durable.\<close>  At every
  point a power cut leaves under the target's name what could be there before, or the complete new
  contents.  After success it leaves exactly the new contents (on POSIX only when the directory could
  be synchronised too); after a failure the target is as it was.  Contents of 4 GiB or more, whose size
  does not fit the \<^verbatim>\<open>DWORD\<close> it is cast to, are reported as a failure; any others are replaced when no
  call fails.
\<close>

theorem win32_replace_atomic:
  assumes "t = NarrowPathToWide utf8 p" and "unaliased (tempWide t rd) t (disk w)"
    and "AtomicallyReplaceFileContents_win32 utf8 rd lastError p content w = (r, w')"
  shows "throughout (\<lambda>s. recover s t \<subseteq> recover (disk w) t \<union> {Some content}) w w' \<and>
     visible (disk w') t = (if IsOk r then Some content else visible (disk w) t) \<and>
     (IsOk r \<longrightarrow> recover (disk w') t = {Some content}) \<and>
     (IsOk r \<longrightarrow> length content < 2 ^ 32) \<and>
     (reliable (length content) (sched w) \<and> length content < 2 ^ 32 \<and> t \<noteq> [] \<longrightarrow> IsOk r)"
proof -
  have *: "replaced (tempWide t rd) t w content (r, w')"
    using replaced_write [of utf8 p rd w content lastError] assms by simp
  then have "throughout (safe (tempWide t rd) t (disk w) content) w w'"
    by (simp add: replaced_def)
  then have "throughout (\<lambda>s. recover s t \<subseteq> recover (disk w) t \<union> {Some content}) w w'"
    by (rule throughout_mono) (simp add: safe_def)
  moreover have "length content < 2 ^ 32" if "IsOk r"
    using that assms(3) DWORD_cast_less [of "length content"]
    by (auto simp: AtomicallyReplaceFileContents_win32_def sys_write_def Let_def
        split: prod.splits option.splits if_splits sys_outcome.splits)
  moreover have "IsOk r" if "reliable (length content) (sched w) \<and> length content < 2 ^ 32 \<and> t \<noteq> []"
    using reliable_replace [of content w utf8 p rd lastError] that assms by simp
  ultimately show ?thesis
    using * by (auto simp: replaced_def)
qed


text \<open>
  The configuration file of the service, an ASCII path, on a disk that holds an older one; the
  system fails the flush.
\<close>

definition widen :: "cstring \<Rightarrow> wide" where
  "widen = map (\<lambda>c. of_nat (unat c))"

definition ascii_utf8 :: "cstring \<Rightarrow> wide" where
  "ascii_utf8 p = widen p @ [0]"

definition sample_wide_os :: "wide os" where
  "sample_wide_os =
     \<lparr>disk = \<lparr>dirs = [(\<lambda>p. if p = wstr ''c.json'' then Some 0 else None)],
              inodes = (\<lambda>i. \<lparr>data = str ''{}'', synced = True\<rparr>), next_inode = 1\<rparr>,
      past = [], sched = (\<lambda>i. if i = 2 then Fails else Completes 4096), calls = 0\<rparr>"

lemma sample_wide_path: "NarrowPathToWide ascii_utf8 (str ''c.json'') = wstr ''c.json''"
  by code_simp

lemma unaliased_sample_wide: "unaliased (tempWide (wstr ''c.json'') 7) (wstr ''c.json'') (disk sample_wide_os)"
  by (auto simp: unaliased_def sample_wide_os_def current_def tempWide_def wstr_def split: if_splits)

theorem win32_replace_atomic_witness:
  "(case AtomicallyReplaceFileContents_win32 ascii_utf8 7 (\<lambda>_. 112) (str ''c.json'') (str ''{new}'') sample_wide_os of
      (r, w) \<Rightarrow> \<not> IsOk r \<and> visible (disk w) (wstr ''c.json'') = Some (str ''{}'')
             \<and> throughout (\<lambda>s. recover s (wstr ''c.json'')
                 \<subseteq> recover (disk sample_wide_os) (wstr ''c.json'') \<union> {Some (str ''{new}'')}) sample_wide_os w)"
proof -
  obtain r w where rw: "AtomicallyReplaceFileContents_win32 ascii_utf8 7 (\<lambda>_. 112) (str ''c.json'') (str ''{new}'') sample_wide_os = (r, w)"
    by fastforce
  have "\<not> IsOk (fst (AtomicallyReplaceFileContents_win32 ascii_utf8 7 (\<lambda>_. 112) (str ''c.json'') (str ''{new}'') sample_wide_os))"
    by code_simp
  moreover have "visible (disk sample_wide_os) (wstr ''c.json'') = Some (str ''{}'')"
    by (simp add: sample_wide_os_def visible_def current_def)
  ultimately show ?thesis
    using win32_replace_atomic [OF sample_wide_path [symmetric] unaliased_sample_wide rw] by (simp add: rw)
qed

text \<open>
  \<^bold>\<open>What was saved is what is loaded\<close>, on Windows too, when the runtime's conversion of the path gives the
  file that \<^verbatim>\<open>MultiByteToWideChar\<close> gives: the store saves and loads under two conversions of one path.
\<close>

theorem win32_Load_after_Save:
  assumes "json_access_laws J" and "json_text_laws J" and "Validate c = Success ()" and "ascii_config c"
    and "t = NarrowPathToWide utf8 p" and "acp p = t" and "unaliased (tempWide t rd) t (disk w)"
  shows "\<exists>r w'. Save_win32 J utf8 rd lastError p c w = Some (Returns r, w') \<and>
     Load_win32 J acp p (disk w') = (if IsOk r then Returns (Success c) else Load_win32 J acp p (disk w))"
proof -
  obtain contents where contents: "json_dump J (ToJson J c) = Inr contents" "\<And>p. load_text J p (Some contents) = Returns (Success c)"
    using saved_text_loads [OF assms(1-4)] by blast
  obtain r w' where r: "AtomicallyReplaceFileContents_win32 utf8 rd lastError p contents w = (r, w')"
    by fastforce
  then have "Save_win32 J utf8 rd lastError p c w = Some (Returns r, w')"
    using contents(1) assms(3) by (simp add: Save_win32_def save_by_def)
  moreover have "visible (disk w') t = (if IsOk r then Some contents else visible (disk w) t)"
    using replaced_write [of utf8 p rd w contents lastError] assms(5,7) r by (simp add: replaced_def)
  ultimately show ?thesis
    using contents(2) assms(6) by (auto simp: Load_win32_def)
qed

lemma win32_Load_after_Save_sample:
  "\<exists>r w'. Save_win32 sample_json ascii_utf8 7 (\<lambda>_. 112) (str ''c.json'') default_AppConfig sample_wide_os
        = Some (Returns r, w') \<and>
     Load_win32 sample_json widen (str ''c.json'') (disk w') =
       (if IsOk r then Returns (Success default_AppConfig)
        else Load_win32 sample_json widen (str ''c.json'') (disk sample_wide_os))"
  by (rule win32_Load_after_Save [OF sample_access_laws sample_text_laws default_config_ok
        sample_wide_path [symmetric] _ unaliased_sample_wide]) (simp add: widen_def wstr_def str_def)

end
