(* ===== verification/ServiceInstaller.thy ===== *)
theory ServiceInstaller
  imports Configuration
begin

text \<open>
  Installing and removing the service (\<^verbatim>\<open>Win32ServiceInstaller.cpp\<close>), over the database of the
  service control manager: its services, the handles that are open, and which of the calls to come
  fail.  The manager compares names without regard to case; \<open>ci\<close>, a parameter, maps a name to the
  form it compares.  A service that has been marked for deletion stays in the database until it does
  not run and its last handle is closed.
\<close>

section \<open>The database\<close>

datatype sc_object = Manager_handle u32 | Service_handle wide u32

record service_entry =
  svc_display :: wide
  svc_binary :: wide
  svc_start :: u32
  svc_description :: "wide option"
  svc_running :: bool
  svc_deleting :: bool

record SCM =
  services :: "(wide \<times> service_entry) list"
  sc_handles :: "(nat \<times> sc_object) list"
  sc_next :: nat
  sc_fails :: "nat \<Rightarrow> u32 option"
  sc_calls :: nat

definition SC_MANAGER_CONNECT :: u32 where "SC_MANAGER_CONNECT = 0x1"
definition SC_MANAGER_CREATE_SERVICE :: u32 where "SC_MANAGER_CREATE_SERVICE = 0x2"
definition DELETE_access :: u32 where "DELETE_access = 0x10000"
definition SERVICE_STOP :: u32 where "SERVICE_STOP = 0x20"
definition SERVICE_CHANGE_CONFIG :: u32 where "SERVICE_CHANGE_CONFIG = 0x2"
definition SERVICE_ALL_ACCESS :: u32 where "SERVICE_ALL_ACCESS = 0xF01FF"
definition SERVICE_AUTO_START :: u32 where "SERVICE_AUTO_START = 2"
definition SERVICE_DEMAND_START :: u32 where "SERVICE_DEMAND_START = 3"

definition ERROR_ACCESS_DENIED :: u32 where "ERROR_ACCESS_DENIED = 5"
definition ERROR_INVALID_NAME :: u32 where "ERROR_INVALID_NAME = 123"
definition ERROR_SERVICE_DOES_NOT_EXIST :: u32 where "ERROR_SERVICE_DOES_NOT_EXIST = 1060"
definition ERROR_SERVICE_MARKED_FOR_DELETE :: u32 where "ERROR_SERVICE_MARKED_FOR_DELETE = 1072"
definition ERROR_SERVICE_EXISTS :: u32 where "ERROR_SERVICE_EXISTS = 1073"
definition ERROR_DUPLICATE_SERVICE_NAME :: u32 where "ERROR_DUPLICATE_SERVICE_NAME = 1078"

section \<open>Calls of the service control manager\<close>

text \<open>A call gives a handle or the code \<^verbatim>\<open>GetLastError\<close> returns after it.\<close>

definition sc_call :: "SCM \<Rightarrow> u32 option \<times> SCM" where
  "sc_call s = (sc_fails s (sc_calls s), s\<lparr>sc_calls := sc_calls s + 1\<rparr>)"

definition open_object :: "sc_object \<Rightarrow> SCM \<Rightarrow> (u32 + nat) \<times> SCM" where
  "open_object obj s =
     (Inr (sc_next s), s\<lparr>sc_handles := (sc_next s, obj) # sc_handles s, sc_next := sc_next s + 1\<rparr>)"

definition has_right :: "u32 \<Rightarrow> u32 \<Rightarrow> bool" where
  "has_right granted right \<longleftrightarrow> granted AND right = right"

definition manager_right :: "nat \<Rightarrow> u32 \<Rightarrow> SCM \<Rightarrow> bool" where
  "manager_right h right s =
     (case map_of (sc_handles s) h of Some (Manager_handle granted) \<Rightarrow> has_right granted right | _ \<Rightarrow> False)"

definition service_of :: "nat \<Rightarrow> u32 \<Rightarrow> SCM \<Rightarrow> wide option" where
  "service_of h right s =
     (case map_of (sc_handles s) h of
        Some (Service_handle n granted) \<Rightarrow> if has_right granted right then Some n else None
      | _ \<Rightarrow> None)"

definition valid_name :: "wide \<Rightarrow> bool" where
  "valid_name n \<longleftrightarrow> n \<noteq> [] \<and> length n \<le> 256 \<and> 47 \<notin> set n \<and> 92 \<notin> set n"

definition on_service :: "wide \<Rightarrow> (service_entry \<Rightarrow> service_entry) \<Rightarrow> SCM \<Rightarrow> SCM" where
  "on_service n f s = s\<lparr>services := map (\<lambda>(k, e). (k, if k = n then f e else e)) (services s)\<rparr>"

definition OpenSCManagerW :: "u32 \<Rightarrow> SCM \<Rightarrow> (u32 + nat) \<times> SCM" where
  "OpenSCManagerW access s0 =
     (case sc_call s0 of
        (Some e, s) \<Rightarrow> (Inl e, s)
      | (None, s) \<Rightarrow> open_object (Manager_handle (access OR SC_MANAGER_CONNECT)) s)"

definition CreateServiceW ::
  "(wide \<Rightarrow> wide) \<Rightarrow> nat \<Rightarrow> wide \<Rightarrow> wide \<Rightarrow> u32 \<Rightarrow> u32 \<Rightarrow> wide \<Rightarrow> SCM \<Rightarrow> (u32 + nat) \<times> SCM" where
  "CreateServiceW ci scm name display access startType binary s0 =
     (case sc_call s0 of
        (Some e, s) \<Rightarrow> (Inl e, s)
      | (None, s) \<Rightarrow>
          if \<not> manager_right scm SC_MANAGER_CREATE_SERVICE s then (Inl ERROR_ACCESS_DENIED, s)
          else if \<not> valid_name name then (Inl ERROR_INVALID_NAME, s)
          else case map_of (services s) (ci name) of
                 Some e \<Rightarrow> (Inl (if svc_deleting e then ERROR_SERVICE_MARKED_FOR_DELETE else ERROR_SERVICE_EXISTS), s)
               | None \<Rightarrow>
                   if list_ex (\<lambda>(k, e). k = ci display \<or> ci (svc_display e) = ci display) (services s)
                   then (Inl ERROR_DUPLICATE_SERVICE_NAME, s)
                   else open_object (Service_handle (ci name) access)
                          (s\<lparr>services := (ci name,
                             \<lparr>svc_display = display, svc_binary = binary, svc_start = startType,
                              svc_description = None, svc_running = False, svc_deleting = False\<rparr>) # services s\<rparr>))"

definition ChangeServiceConfig2W :: "nat \<Rightarrow> wide \<Rightarrow> SCM \<Rightarrow> bool \<times> SCM" where
  "ChangeServiceConfig2W h description s0 =
     (case sc_call s0 of
        (Some e, s) \<Rightarrow> (False, s)
      | (None, s) \<Rightarrow>
          (case service_of h SERVICE_CHANGE_CONFIG s of
             None \<Rightarrow> (False, s)
           | Some n \<Rightarrow> (True, on_service n (svc_description_update (\<lambda>_. Some description)) s)))"

definition OpenServiceW :: "(wide \<Rightarrow> wide) \<Rightarrow> nat \<Rightarrow> wide \<Rightarrow> u32 \<Rightarrow> SCM \<Rightarrow> (u32 + nat) \<times> SCM" where
  "OpenServiceW ci scm name access s0 =
     (case sc_call s0 of
        (Some e, s) \<Rightarrow> (Inl e, s)
      | (None, s) \<Rightarrow>
          if \<not> manager_right scm SC_MANAGER_CONNECT s then (Inl ERROR_ACCESS_DENIED, s)
          else if \<not> valid_name name then (Inl ERROR_INVALID_NAME, s)
          else if map_of (services s) (ci name) = None then (Inl ERROR_SERVICE_DOES_NOT_EXIST, s)
          else open_object (Service_handle (ci name) access) s)"

definition DeleteService :: "nat \<Rightarrow> SCM \<Rightarrow> (u32 + unit) \<times> SCM" where
  "DeleteService h s0 =
     (case sc_call s0 of
        (Some e, s) \<Rightarrow> (Inl e, s)
      | (None, s) \<Rightarrow>
          (case service_of h DELETE_access s of
             None \<Rightarrow> (Inl ERROR_ACCESS_DENIED, s)
           | Some n \<Rightarrow>
               (case map_of (services s) n of
                  Some e \<Rightarrow>
                    if svc_deleting e then (Inl ERROR_SERVICE_MARKED_FOR_DELETE, s)
                    else (Inr (), on_service n (svc_deleting_update (\<lambda>_. True)) s)
                | None \<Rightarrow> (Inl ERROR_SERVICE_MARKED_FOR_DELETE, s))))"

text \<open>The last handle to a service that is marked for deletion and does not run takes it along.\<close>

fun refers_to :: "wide \<Rightarrow> nat \<times> sc_object \<Rightarrow> bool" where
  "refers_to n (h, Service_handle m a) \<longleftrightarrow> m = n"
| "refers_to n (h, Manager_handle a) \<longleftrightarrow> False"

definition referred :: "wide \<Rightarrow> SCM \<Rightarrow> bool" where
  "referred n s = list_ex (refers_to n) (sc_handles s)"

definition sweep :: "SCM \<Rightarrow> SCM" where
  "sweep s = s\<lparr>services := filter (\<lambda>(n, e). \<not> (svc_deleting e \<and> \<not> svc_running e \<and> \<not> referred n s)) (services s)\<rparr>"

definition CloseServiceHandle :: "nat \<Rightarrow> SCM \<Rightarrow> SCM" where
  "CloseServiceHandle h s = sweep (s\<lparr>sc_handles := filter (\<lambda>(k, _). k \<noteq> h) (sc_handles s)\<rparr>)"

section \<open>The installer\<close>

record ServiceInstallOptions =
  opt_serviceName :: wide
  opt_displayName :: wide
  opt_description :: wide
  opt_binaryPath :: wide
  opt_autoStart :: bool

definition installer_MakeWin32Error :: "string \<Rightarrow> u32 \<Rightarrow> Error" where
  "installer_MakeWin32Error context err = \<lparr>code = Win32ApiFailure, message = str context, platformErrorValue = err\<rparr>"

text \<open>
  A \<^verbatim>\<open>ScHandleGuard\<close> closes its handle when the function returns, the one declared last first.  The
  error is built, with \<^verbatim>\<open>GetLastError\<close>, before that.
\<close>

definition InstallService :: "(wide \<Rightarrow> wide) \<Rightarrow> ServiceInstallOptions \<Rightarrow> SCM \<Rightarrow> unit result \<times> SCM" where
  "InstallService ci options s =
     (if opt_serviceName options = [] \<or> opt_binaryPath options = []
      then (Failure (mkError InvalidArgument ''serviceName and binaryPath must not be empty''), s)
      else case OpenSCManagerW SC_MANAGER_CREATE_SERVICE s of
        (Inl e, s) \<Rightarrow>
          (Failure (installer_MakeWin32Error
             ''OpenSCManagerW failed (requires Administrator privileges on real Windows)'' e), s)
      | (Inr scm, s) \<Rightarrow>
          (let startType = (if opt_autoStart options then SERVICE_AUTO_START else SERVICE_DEMAND_START);
               name = wide_c_str (opt_serviceName options);
               display = (if opt_displayName options = [] then name else wide_c_str (opt_displayName options))
           in case CreateServiceW ci scm name display SERVICE_ALL_ACCESS startType
                     (wide_c_str (opt_binaryPath options)) s of
                (Inl e, s) \<Rightarrow>
                  (Failure (installer_MakeWin32Error ''CreateServiceW failed'' e), CloseServiceHandle scm s)
              | (Inr service, s) \<Rightarrow>
                  (let s = (if opt_description options \<noteq> []
                            then snd (ChangeServiceConfig2W service (wide_c_str (opt_description options)) s)
                            else s)
                   in (Success (), CloseServiceHandle scm (CloseServiceHandle service s)))))"

definition UninstallService :: "(wide \<Rightarrow> wide) \<Rightarrow> wide \<Rightarrow> SCM \<Rightarrow> unit result \<times> SCM" where
  "UninstallService ci serviceName s =
     (if serviceName = [] then (Failure (mkError InvalidArgument ''serviceName must not be empty''), s)
      else case OpenSCManagerW SC_MANAGER_CONNECT s of
        (Inl e, s) \<Rightarrow>
          (Failure (installer_MakeWin32Error
             ''OpenSCManagerW failed (requires Administrator privileges on real Windows)'' e), s)
      | (Inr scm, s) \<Rightarrow>
          (case OpenServiceW ci scm (wide_c_str serviceName) (DELETE_access OR SERVICE_STOP) s of
             (Inl e, s) \<Rightarrow> (Failure (installer_MakeWin32Error ''OpenServiceW failed'' e), CloseServiceHandle scm s)
           | (Inr service, s) \<Rightarrow>
               (case DeleteService service s of
                  (Inl e, s) \<Rightarrow>
                    (Failure (installer_MakeWin32Error ''DeleteService failed'' e),
                     CloseServiceHandle scm (CloseServiceHandle service s))
                | (Inr _, s) \<Rightarrow> (Success (), CloseServiceHandle scm (CloseServiceHandle service s)))))"

section \<open>Lemmas\<close>

text \<open>
  The database between the calls of a program: handles have been given out in order, names are
  unique, and a service that only waits for its handles to be closed still has one.
\<close>

definition scm_ok :: "SCM \<Rightarrow> bool" where
  "scm_ok s \<longleftrightarrow>
     (\<forall>(h, obj) \<in> set (sc_handles s). h < sc_next s) \<and> distinct (map fst (services s)) \<and>
     (\<forall>(n, e) \<in> set (services s). svc_deleting e \<and> \<not> svc_running e \<longrightarrow> referred n s)"

lemma sc_call_cases:
  obtains (fails) e where "sc_call s = (Some e, s\<lparr>sc_calls := sc_calls s + 1\<rparr>)"
  | (succeeds) "sc_call s = (None, s\<lparr>sc_calls := sc_calls s + 1\<rparr>)" "sc_fails s (sc_calls s) = None"
  by (cases "sc_fails s (sc_calls s)") (simp_all add: sc_call_def)

text \<open>Closing a handle that was opened last, of the manager and of a service.\<close>

lemma close_manager:
  assumes "\<forall>(k, obj) \<in> set hs. k < h" and "sc_handles s = (h, Manager_handle a) # hs"
    and "\<forall>(n, e) \<in> set (services s). svc_deleting e \<and> \<not> svc_running e \<longrightarrow> list_ex (refers_to n) hs"
  shows "CloseServiceHandle h s = s\<lparr>sc_handles := hs\<rparr>"
proof -
  have "filter (\<lambda>(k, _). k \<noteq> h) hs = hs"
    using assms(1) by (auto simp: filter_id_conv)
  moreover have "filter (\<lambda>(n, e). \<not> (svc_deleting e \<and> \<not> svc_running e \<and> \<not> list_ex (refers_to n) hs)) (services s) = services s"
    using assms(3) by (auto simp: filter_id_conv)
  ultimately show ?thesis
    by (simp add: CloseServiceHandle_def sweep_def referred_def assms(2))
qed

lemma close_service:
  assumes "\<forall>(k, obj) \<in> set hs. k < h" and "sc_handles s = (h, Service_handle n a) # hs"
  shows "CloseServiceHandle h s = sweep (s\<lparr>sc_handles := hs\<rparr>)"
proof -
  have "filter (\<lambda>(k, _). k \<noteq> h) hs = hs"
    using assms(1) by (auto simp: filter_id_conv)
  then show ?thesis
    by (simp add: CloseServiceHandle_def assms(2))
qed

lemma sweep_idle:
  assumes "\<forall>(n, e) \<in> set (services s). svc_deleting e \<and> \<not> svc_running e \<longrightarrow> referred n s"
  shows "sweep s = s"
proof -
  have "filter (\<lambda>(n, e). \<not> (svc_deleting e \<and> \<not> svc_running e \<and> \<not> referred n s)) (services s) = services s"
    using assms by (auto simp: filter_id_conv)
  then show ?thesis by (simp add: sweep_def)
qed

lemma on_other_services: "n \<notin> fst ` set xs \<Longrightarrow> map (\<lambda>(k, e). (k, if k = n then f e else e)) xs = xs"
  by (induction xs) auto

text \<open>The entry a successful installation leaves.\<close>

definition installed_entry :: "ServiceInstallOptions \<Rightarrow> wide option \<Rightarrow> service_entry" where
  "installed_entry options description =
     \<lparr>svc_display = (if opt_displayName options = [] then wide_c_str (opt_serviceName options)
                     else wide_c_str (opt_displayName options)),
      svc_binary = wide_c_str (opt_binaryPath options),
      svc_start = (if opt_autoStart options then SERVICE_AUTO_START else SERVICE_DEMAND_START),
      svc_description = description, svc_running = False, svc_deleting = False\<rparr>"

lemma scm_ok_calls [simp]: "scm_ok (s\<lparr>sc_calls := n\<rparr>) = scm_ok s"
  by (simp add: scm_ok_def referred_def)

text \<open>What a call of the installer keeps: no handle stays open, and the database is sound again.\<close>

definition tidy :: "SCM \<Rightarrow> SCM \<Rightarrow> bool" where
  "tidy s s' \<longleftrightarrow> sc_handles s' = sc_handles s \<and> sc_fails s' = sc_fails s \<and> scm_ok s'"

lemma close_manager_only:
  assumes "scm_ok \<lparr>services = xs, sc_handles = hs, sc_next = h, sc_fails = f, sc_calls = c\<rparr>"
  shows "CloseServiceHandle h
     \<lparr>services = xs, sc_handles = (h, Manager_handle a) # hs, sc_next = m, sc_fails = f, sc_calls = n\<rparr>
     = \<lparr>services = xs, sc_handles = hs, sc_next = m, sc_fails = f, sc_calls = n\<rparr>"
  using assms close_manager [of hs h
      "\<lparr>services = xs, sc_handles = (h, Manager_handle a) # hs, sc_next = m, sc_fails = f, sc_calls = n\<rparr>" a]
  by (simp add: scm_ok_def referred_def)

text \<open>Closing a service and the manager behind it, when the services have become \<open>xs\<close>.\<close>

lemma close_both:
  assumes "\<forall>(k, obj) \<in> set hs. k < h"
  shows "CloseServiceHandle h (CloseServiceHandle (Suc h)
     \<lparr>services = xs, sc_handles = (Suc h, Service_handle k b) # (h, Manager_handle a) # hs,
      sc_next = m, sc_fails = f, sc_calls = n\<rparr>)
     = sweep \<lparr>services = xs, sc_handles = hs, sc_next = m, sc_fails = f, sc_calls = n\<rparr>"
proof -
  let ?hs = "(h, Manager_handle a) # hs"
  let ?s = "\<lambda>hs. \<lparr>services = xs, sc_handles = hs, sc_next = m, sc_fails = f, sc_calls = n\<rparr>"
  have "\<forall>(k, obj) \<in> set ?hs. k < Suc h"
    using assms by auto
  then have "CloseServiceHandle (Suc h) (?s ((Suc h, Service_handle k b) # ?hs)) = sweep (?s ?hs)"
    using close_service [of ?hs "Suc h" "?s ((Suc h, Service_handle k b) # ?hs)" k b] by simp
  also have "\<dots> = (sweep (?s hs))\<lparr>sc_handles := ?hs\<rparr>"
    by (simp add: sweep_def referred_def)
  also have "CloseServiceHandle h \<dots> = sweep (?s hs)"
    using assms by (subst close_manager [of hs _ _ a]) (auto simp: sweep_def referred_def)
  finally show ?thesis .
qed

text \<open>A call that opens the manager and a service ends in a sound database again.\<close>

lemma tidy_sweep:
  assumes "scm_ok s" and "s' = sweep \<lparr>services = xs, sc_handles = sc_handles s, sc_next = m, sc_fails = sc_fails s, sc_calls = n\<rparr>"
    and "distinct (map fst xs)" and "sc_next s \<le> m"
  shows "tidy s s'"
  using assms(1,3,4) unfolding assms(2)
  by (fastforce simp: tidy_def scm_ok_def sweep_def referred_def intro: distinct_map_filter)

lemma tidy_advanced:
  assumes "scm_ok s" and "s' = \<lparr>services = services s, sc_handles = sc_handles s, sc_next = m, sc_fails = sc_fails s, sc_calls = n\<rparr>"
    and "sc_next s \<le> m"
  shows "tidy s s'"
  using assms(1,3) unfolding assms(2) by (fastforce simp: tidy_def scm_ok_def referred_def)

lemmas sc_defs = OpenSCManagerW_def CreateServiceW_def ChangeServiceConfig2W_def OpenServiceW_def DeleteService_def
  open_object_def sc_call_def manager_right_def service_of_def on_service_def

lemma has_right_simps [simp]:
  "has_right (SC_MANAGER_CREATE_SERVICE OR SC_MANAGER_CONNECT) SC_MANAGER_CREATE_SERVICE"
  "has_right SC_MANAGER_CONNECT SC_MANAGER_CONNECT"
  "has_right SERVICE_ALL_ACCESS SERVICE_CHANGE_CONFIG" "has_right (DELETE_access OR SERVICE_STOP) DELETE_access"
  by (simp_all add: has_right_def SC_MANAGER_CREATE_SERVICE_def SC_MANAGER_CONNECT_def SERVICE_ALL_ACCESS_def
      SERVICE_CHANGE_CONFIG_def DELETE_access_def SERVICE_STOP_def)

text \<open>The description is set last, and installing goes on without it if that fails.\<close>

definition set_description :: "ServiceInstallOptions \<Rightarrow> SCM \<Rightarrow> wide option" where
  "set_description options s =
     (if opt_description options \<noteq> [] \<and> sc_fails s (sc_calls s + 2) = None
      then Some (wide_c_str (opt_description options)) else None)"

lemma create_run:
  assumes "CreateServiceW ci h name display access st bin
     \<lparr>services = xs, sc_handles = (h, Manager_handle (SC_MANAGER_CREATE_SERVICE OR SC_MANAGER_CONNECT)) # hs,
      sc_next = m, sc_fails = f, sc_calls = c\<rparr> = (x, s')"
  obtains (fails) e where "x = Inl e" "s' = \<lparr>services = xs,
        sc_handles = (h, Manager_handle (SC_MANAGER_CREATE_SERVICE OR SC_MANAGER_CONNECT)) # hs,
        sc_next = m, sc_fails = f, sc_calls = Suc c\<rparr>"
  | (creates) "x = Inr m" "map_of xs (ci name) = None"
      "s' = \<lparr>services = (ci name, \<lparr>svc_display = display, svc_binary = bin, svc_start = st,
                svc_description = None, svc_running = False, svc_deleting = False\<rparr>) # xs,
             sc_handles = (m, Service_handle (ci name) access)
               # (h, Manager_handle (SC_MANAGER_CREATE_SERVICE OR SC_MANAGER_CONNECT)) # hs,
             sc_next = Suc m, sc_fails = f, sc_calls = Suc c\<rparr>"
  using assms by (auto simp: sc_defs split: option.splits if_splits)

lemma change_run:
  assumes "map_of xs n = None"
  shows "snd (ChangeServiceConfig2W h d
      \<lparr>services = (n, e) # xs, sc_handles = (h, Service_handle n SERVICE_ALL_ACCESS) # hs,
       sc_next = m, sc_fails = f, sc_calls = c\<rparr>)
     = \<lparr>services = (n, if f c = None then e\<lparr>svc_description := Some d\<rparr> else e) # xs,
        sc_handles = (h, Service_handle n SERVICE_ALL_ACCESS) # hs, sc_next = m, sc_fails = f, sc_calls = Suc c\<rparr>"
  using assms by (simp add: sc_defs on_other_services map_of_eq_None_iff split: option.split)

lemma install_run:
  fixes options :: ServiceInstallOptions and ci :: "wide \<Rightarrow> wide"
  defines "name \<equiv> ci (wide_c_str (opt_serviceName options))"
  assumes "scm_ok s" and "InstallService ci options s = (r, s')"
  shows "(\<exists>m n. \<not> IsOk r \<and> sc_next s \<le> m \<and>
            s' = \<lparr>services = services s, sc_handles = sc_handles s, sc_next = m, sc_fails = sc_fails s, sc_calls = n\<rparr>) \<or>
         r = Success () \<and> map_of (services s) name = None \<and>
            s' = sweep \<lparr>services = (name, installed_entry options (set_description options s)) # services s,
                         sc_handles = sc_handles s, sc_next = sc_next s + 2, sc_fails = sc_fails s,
                         sc_calls = sc_calls s + (if opt_description options = [] then 2 else 3)\<rparr>"
proof -
  obtain xs hs h f c where s: "s = \<lparr>services = xs, sc_handles = hs, sc_next = h, sc_fails = f, sc_calls = c\<rparr>"
    by (cases s) simp
  have hs: "\<forall>(k, obj) \<in> set hs. k < h"
    using assms(2) by (simp add: s scm_ok_def)
  note closes = close_manager_only [OF assms(2) [unfolded s]] close_both [OF hs]
  show ?thesis
  proof (cases "opt_serviceName options = [] \<or> opt_binaryPath options = [] \<or> f c \<noteq> None")
    case True
    then show ?thesis
      using assms(3) unfolding s by (intro disjI1) (auto simp: InstallService_def OpenSCManagerW_def sc_call_def split: if_splits)
  next
    case False
    define st where "st = (if opt_autoStart options then SERVICE_AUTO_START else SERVICE_DEMAND_START)"
    define display where "display = (if opt_displayName options = [] then wide_c_str (opt_serviceName options)
      else wide_c_str (opt_displayName options))"
    obtain x s2 where x: "CreateServiceW ci h (wide_c_str (opt_serviceName options)) display SERVICE_ALL_ACCESS st
        (wide_c_str (opt_binaryPath options))
        \<lparr>services = xs, sc_handles = (h, Manager_handle (SC_MANAGER_CREATE_SERVICE OR SC_MANAGER_CONNECT)) # hs,
         sc_next = Suc h, sc_fails = f, sc_calls = Suc c\<rparr> = (x, s2)"
      by fastforce
    have run: "(r, s') = (case x of
        Inl e \<Rightarrow> (Failure (installer_MakeWin32Error ''CreateServiceW failed'' e), CloseServiceHandle h s2)
      | Inr service \<Rightarrow> (Success (), CloseServiceHandle h (CloseServiceHandle service
          (if opt_description options \<noteq> []
           then snd (ChangeServiceConfig2W service (wide_c_str (opt_description options)) s2) else s2))))"
      using False assms(3) x unfolding s st_def display_def
      by (auto simp: InstallService_def OpenSCManagerW_def sc_call_def open_object_def Let_def split: sum.splits)
    from x show ?thesis
    proof (cases rule: create_run)
      case (fails e)
      then show ?thesis
        using run closes by (intro disjI1) (auto simp: s)
    next
      case creates
      show ?thesis
        using run creates(2) unfolding creates(1,3)
        by (cases "opt_description options = []"; cases "f (Suc (Suc c))")
          (simp_all add: change_run [OF creates(2)] closes s name_def installed_entry_def set_description_def
            st_def display_def numeral_3_eq_3)
    qed
  qed
qed

lemma installed_stays:
  assumes "scm_ok s"
  shows "services (sweep \<lparr>services = (k, installed_entry options d) # services s, sc_handles = sc_handles s,
            sc_next = m, sc_fails = f, sc_calls = n\<rparr>) = (k, installed_entry options d) # services s"
proof -
  have "filter (\<lambda>(n, e). \<not> (svc_deleting e \<and> \<not> svc_running e \<and> \<not> list_ex (refers_to n) (sc_handles s))) (services s) = services s"
    using assms by (auto simp: filter_id_conv scm_ok_def referred_def)
  then show ?thesis
    by (simp add: sweep_def referred_def installed_entry_def)
qed

lemma install_spec:
  fixes options :: ServiceInstallOptions and ci :: "wide \<Rightarrow> wide"
  defines "name \<equiv> ci (wide_c_str (opt_serviceName options))"
  assumes "scm_ok s" and "InstallService ci options s = (r, s')"
  shows "tidy s s' \<and>
     (if IsOk r then name \<notin> fst ` set (services s) \<and>
        services s' = (name, installed_entry options (set_description options s)) # services s
      else services s' = services s)"
  using install_run [OF assms(2,3), folded name_def]
proof (elim disjE exE conjE)
  fix m n
  assume "\<not> IsOk r" "sc_next s \<le> m"
    "s' = \<lparr>services = services s, sc_handles = sc_handles s, sc_next = m, sc_fails = sc_fails s, sc_calls = n\<rparr>"
  then show ?thesis
    using tidy_advanced [OF assms(2)] by simp
next
  assume r: "r = Success ()" "map_of (services s) name = None"
    "s' = sweep \<lparr>services = (name, installed_entry options (set_description options s)) # services s,
                  sc_handles = sc_handles s, sc_next = sc_next s + 2, sc_fails = sc_fails s,
                  sc_calls = sc_calls s + (if opt_description options = [] then 2 else 3)\<rparr>"
  have "tidy s s'"
    using assms(2) r(2) by (intro tidy_sweep [OF assms(2) r(3)]) (auto simp: scm_ok_def map_of_eq_None_iff)
  then show ?thesis
    using r installed_stays [OF assms(2)] by (auto simp: map_of_eq_None_iff)
qed

text \<open>Removing a service marks it; the closed handles then take it out of the database, if it may go.\<close>

definition mark_deleting :: "wide \<Rightarrow> (wide \<times> service_entry) list \<Rightarrow> (wide \<times> service_entry) list" where
  "mark_deleting n = map (\<lambda>(k, e). (k, if k = n then e\<lparr>svc_deleting := True\<rparr> else e))"

lemma fst_mark_deleting [simp]: "map fst (mark_deleting n xs) = map fst xs"
  by (simp add: mark_deleting_def case_prod_beta comp_def)

lemma delete_run:
  assumes "map_of xs n \<noteq> None"
  obtains (fails) e where "DeleteService h
     \<lparr>services = xs, sc_handles = (h, Service_handle n (DELETE_access OR SERVICE_STOP)) # hs, sc_next = m, sc_fails = f, sc_calls = c\<rparr>
     = (Inl e, \<lparr>services = xs, sc_handles = (h, Service_handle n (DELETE_access OR SERVICE_STOP)) # hs, sc_next = m, sc_fails = f, sc_calls = Suc c\<rparr>)"
  | (marks) e where "map_of xs n = Some e" "\<not> svc_deleting e" "DeleteService h
     \<lparr>services = xs, sc_handles = (h, Service_handle n (DELETE_access OR SERVICE_STOP)) # hs, sc_next = m, sc_fails = f, sc_calls = c\<rparr>
     = (Inr (), \<lparr>services = mark_deleting n xs, sc_handles = (h, Service_handle n (DELETE_access OR SERVICE_STOP)) # hs, sc_next = m, sc_fails = f, sc_calls = Suc c\<rparr>)"
  using assms by (cases "f c"; cases "svc_deleting (the (map_of xs n))") (auto simp: sc_defs mark_deleting_def)

lemma uninstall_run:
  fixes name ci
  defines "n \<equiv> ci (wide_c_str name)"
  assumes "scm_ok s" and "UninstallService ci name s = (r, s')"
  shows "(\<exists>m c. \<not> IsOk r \<and> sc_next s \<le> m \<and>
            s' = \<lparr>services = services s, sc_handles = sc_handles s, sc_next = m, sc_fails = sc_fails s, sc_calls = c\<rparr>) \<or>
         r = Success () \<and> (\<exists>e. map_of (services s) n = Some e \<and> \<not> svc_deleting e) \<and>
            s' = sweep \<lparr>services = mark_deleting n (services s), sc_handles = sc_handles s, sc_next = sc_next s + 2,
                         sc_fails = sc_fails s, sc_calls = sc_calls s + 3\<rparr>"
proof -
  obtain xs hs h f c where s: "s = \<lparr>services = xs, sc_handles = hs, sc_next = h, sc_fails = f, sc_calls = c\<rparr>"
    by (cases s) simp
  have hs: "\<forall>(k, obj) \<in> set hs. k < h"
    using assms(2) by (simp add: s scm_ok_def)
  note closes = close_manager_only [OF assms(2) [unfolded s]] close_both [OF hs]
  have idle: "sweep \<lparr>services = xs, sc_handles = hs, sc_next = m, sc_fails = f, sc_calls = k\<rparr>
      = \<lparr>services = xs, sc_handles = hs, sc_next = m, sc_fails = f, sc_calls = k\<rparr>" for m k
    using assms(2) by (intro sweep_idle) (simp add: s scm_ok_def referred_def)
  show ?thesis
  proof (cases "name = [] \<or> f c \<noteq> None \<or> f (Suc c) \<noteq> None \<or> \<not> valid_name (wide_c_str name) \<or> map_of xs n = None")
    case True
    then show ?thesis
      using assms(3) closes unfolding s n_def
      by (intro disjI1) (auto simp: UninstallService_def OpenSCManagerW_def OpenServiceW_def sc_call_def open_object_def
          manager_right_def split: if_splits option.splits)
  next
    case False
    then obtain e where ok: "name \<noteq> []" "f c = None" "f (Suc c) = None" "valid_name (wide_c_str name)" "map_of xs n = Some e"
      by auto
    have run: "(r, s') = (case DeleteService (Suc h) \<lparr>services = xs,
        sc_handles = (Suc h, Service_handle n (DELETE_access OR SERVICE_STOP)) # (h, Manager_handle SC_MANAGER_CONNECT) # hs,
        sc_next = Suc (Suc h), sc_fails = f, sc_calls = Suc (Suc c)\<rparr> of
        (Inl e, s) \<Rightarrow> (Failure (installer_MakeWin32Error ''DeleteService failed'' e), CloseServiceHandle h (CloseServiceHandle (Suc h) s))
      | (Inr _, s) \<Rightarrow> (Success (), CloseServiceHandle h (CloseServiceHandle (Suc h) s)))"
      using ok assms(3) unfolding s n_def
      by (simp add: UninstallService_def OpenSCManagerW_def OpenServiceW_def sc_call_def open_object_def manager_right_def)
    have "map_of xs n \<noteq> None"
      using ok by simp
    then show ?thesis
    proof (cases rule: delete_run [of xs n "Suc h"
          "(h, Manager_handle SC_MANAGER_CONNECT) # hs" "Suc (Suc h)" f "Suc (Suc c)"])
      case (fails e)
      then show ?thesis
        using run closes idle by (intro disjI1) (auto simp: s)
    next
      case (marks e)
      then show ?thesis
        using run closes by (simp add: s numeral_3_eq_3)
    qed
  qed
qed

lemma uninstall_spec:
  fixes name ci
  defines "n \<equiv> ci (wide_c_str name)"
  assumes "scm_ok s" and "UninstallService ci name s = (r, s')"
  shows "tidy s s' \<and>
     (if IsOk r then
        (\<exists>e. map_of (services s) n = Some e \<and> \<not> svc_deleting e \<and>
          services s' = (if svc_running e \<or> referred n s then mark_deleting n (services s)
                         else filter (\<lambda>(k, _). k \<noteq> n) (services s)))
      else services s' = services s)"
  using uninstall_run [OF assms(2,3), folded n_def]
proof (elim disjE exE conjE)
  fix m c
  assume "\<not> IsOk r" "sc_next s \<le> m"
    "s' = \<lparr>services = services s, sc_handles = sc_handles s, sc_next = m, sc_fails = sc_fails s, sc_calls = c\<rparr>"
  then show ?thesis
    using tidy_advanced [OF assms(2)] by simp
next
  fix e
  assume r: "r = Success ()" "s' = sweep \<lparr>services = mark_deleting n (services s), sc_handles = sc_handles s,
      sc_next = sc_next s + 2, sc_fails = sc_fails s, sc_calls = sc_calls s + 3\<rparr>"
    "map_of (services s) n = Some e" "\<not> svc_deleting e"
  have "tidy s s'"
    using assms(2) by (intro tidy_sweep [OF assms(2) r(2)]) (simp_all add: scm_ok_def)
  moreover have "services s' = (if svc_running e \<or> referred n s then mark_deleting n (services s)
      else filter (\<lambda>(k, _). k \<noteq> n) (services s))"
  proof -
    have e: "x = e" if "(n, x) \<in> set (services s)" for x
      using that assms(2) r(3) by (simp add: scm_ok_def)
    have stays: "svc_deleting x \<Longrightarrow> \<not> svc_running x \<Longrightarrow> list_ex (refers_to k) (sc_handles s)"
      if "(k, x) \<in> set (services s)" for k x
      using that assms(2) by (auto simp: scm_ok_def referred_def)
    have "filter (\<lambda>(k, x). \<not> (svc_deleting x \<and> \<not> svc_running x \<and> \<not> list_ex (refers_to k) (sc_handles s))) (mark_deleting n xs)
        = (if svc_running e \<or> list_ex (refers_to n) (sc_handles s) then mark_deleting n xs else filter (\<lambda>(k, _). k \<noteq> n) xs)"
      if "set xs \<subseteq> set (services s)" for xs
      using that by (induction xs) (auto simp: mark_deleting_def dest: e stays)
    then show ?thesis
      using r(2) by (simp add: sweep_def referred_def)
  qed
  ultimately show ?thesis
    using r by simp
qed

section \<open>Properties\<close>

text \<open>
  \<^bold>\<open>Installing changes the database as asked or not at all, and leaks no handle.\<close>  Whichever calls
  fail: the handles that are open afterwards are those from before; an error leaves every service as it
  was; success means the name was free and its service is now there with the display name, binary and
  start type of the options, not running and not marked, and every other service is as it was.
\<close>

theorem InstallService_all_or_nothing:
  assumes "scm_ok s" and "InstallService ci options s = (r, s')"
  shows "sc_handles s' = sc_handles s \<and> scm_ok s' \<and>
     (if IsOk r then ci (wide_c_str (opt_serviceName options)) \<notin> fst ` set (services s) \<and>
        services s' = (ci (wide_c_str (opt_serviceName options)), installed_entry options (set_description options s))
                      # services s
      else services s' = services s)"
  using install_spec [OF assms] unfolding tidy_def by blast

text \<open>
  \<^bold>\<open>Removing undoes installing.\<close>  After a successful installation, a successful removal of the same
  name (in any case) leaves exactly the services there were before, if no other handle to the service is
  open; and a removal that fails leaves everything installed.
\<close>

theorem Uninstall_undoes_Install:
  assumes "scm_ok s" and "InstallService ci options s = (Success (), s1)"
    and "ci (wide_c_str name) = ci (wide_c_str (opt_serviceName options))" and "\<not> referred (ci (wide_c_str name)) s1"
    and "UninstallService ci name s1 = (r, s2)"
  shows "sc_handles s2 = sc_handles s \<and> services s2 = (if IsOk r then services s else services s1)"
proof -
  let ?n = "ci (wide_c_str name)"
  have i: "tidy s s1" "?n \<notin> fst ` set (services s)"
    "services s1 = (?n, installed_entry options (set_description options s)) # services s"
    using install_spec [OF assms(1,2)] assms(3) by simp_all
  then have "scm_ok s1"
    by (simp add: tidy_def)
  note u = uninstall_spec [OF this assms(5)]
  have "filter (\<lambda>(k, _). k \<noteq> ?n) (services s) = services s"
    using i(2) by (force simp: filter_id_conv)
  then show ?thesis
    using u i assms(4) by (auto simp: tidy_def installed_entry_def)
qed

text \<open>
  \<^bold>\<open>Removing a running service only marks it.\<close>  \<open>UninstallService\<close> never stops the service: it reports
  success while the service keeps running and stays in the database, and installing it again fails until
  it has stopped.
\<close>

theorem Uninstall_running_service:
  assumes "scm_ok s" and "UninstallService ci name s = (Success (), s1)"
    and "map_of (services s) (ci (wide_c_str name)) = Some e" and "svc_running e"
    and "ci (wide_c_str (opt_serviceName options)) = ci (wide_c_str name)"
    and "InstallService ci options s1 = (r, s2)"
  shows "map_of (services s1) (ci (wide_c_str name)) = Some (e\<lparr>svc_deleting := True\<rparr>) \<and> \<not> IsOk r \<and> services s2 = services s1"
proof -
  let ?n = "ci (wide_c_str name)"
  have u: "tidy s s1" "services s1 = mark_deleting ?n (services s)"
    using uninstall_spec [OF assms(1,2)] assms(3,4) by auto
  have "map_of (mark_deleting n xs) k = map_option (\<lambda>e. if k = n then e\<lparr>svc_deleting := True\<rparr> else e) (map_of xs k)" for n k xs
    by (induction xs) (auto simp: mark_deleting_def)
  then have m: "map_of (services s1) ?n = Some (e\<lparr>svc_deleting := True\<rparr>)"
    using u(2) assms(3) by simp
  then have "?n \<in> fst ` set (services s1)"
    by (metis map_of_eq_None_iff option.distinct(1))
  then show ?thesis
    using install_spec [of s1 ci options r s2] u(1) assms(5,6) m by (auto simp: tidy_def split: if_splits)
qed

text \<open>A database with one service, and the options of \<^verbatim>\<open>QuantumCache\<close>'s own.\<close>

definition sample_scm :: SCM where
  "sample_scm =
     \<lparr>services = [(wstr ''spooler'', \<lparr>svc_display = wstr ''Print Spooler'', svc_binary = wstr ''spoolsv.exe'',
         svc_start = SERVICE_AUTO_START, svc_description = None, svc_running = True, svc_deleting = False\<rparr>)],
      sc_handles = [], sc_next = 0, sc_fails = (\<lambda>_. None), sc_calls = 0\<rparr>"

definition sample_install :: ServiceInstallOptions where
  "sample_install = \<lparr>opt_serviceName = wstr ''quantumcache'', opt_displayName = [], opt_description = wstr ''Cache'',
     opt_binaryPath = wstr ''qc.exe'', opt_autoStart = True\<rparr>"

lemma sample_scm_ok: "scm_ok sample_scm"
  by (simp add: scm_ok_def sample_scm_def)

lemma sample_install_and_uninstall:
  "(case InstallService id sample_install sample_scm of (r1, s1) \<Rightarrow>
      (case UninstallService id (wstr ''quantumcache'') s1 of (r2, s2) \<Rightarrow>
         IsOk r1 \<and> length (services s1) = 2 \<and> IsOk r2 \<and> services s2 = services sample_scm))"
  by code_simp

end
