(* ===== verification/Volume.thy ===== *)
theory Volume
  imports Configuration
begin

text \<open>
  Volumes: the interface \<^verbatim>\<open>IVolume\<close> with its Windows and its portable implementation.  What the
  operating system and \<^verbatim>\<open>std::filesystem\<close> answer are parameters.  Both implementations meet the contract
  \<open>volume_contract\<close>; they differ in what they call free: \<^verbatim>\<open>Win32Volume\<close> reports all free bytes,
  \<^verbatim>\<open>PortableVolume\<close> those the caller may use.
\<close>

section \<open>IVolume\<close>

record VolumeInfo =
  vol_rootPath :: wide
  vol_volumeGuidPath :: wide
  vol_totalBytes :: u64
  vol_freeBytes :: u64
  vol_isFixedDrive :: bool
  vol_isRemovable :: bool

definition no_VolumeInfo :: VolumeInfo where
  "no_VolumeInfo = \<lparr>vol_rootPath = [], vol_volumeGuidPath = [], vol_totalBytes = 0, vol_freeBytes = 0,
                     vol_isFixedDrive = False, vol_isRemovable = False\<rparr>"

record IVolume =
  iv_QueryInfo :: "VolumeInfo result"
  iv_IsAvailable :: bool
  iv_RootPath :: wide

section \<open>Win32Volume\<close>

record space =
  sp_available :: u64
  sp_total :: u64
  sp_free :: u64

text \<open>The error code of a call that fails, or what it answers for a root path.\<close>

record Win32VolumeCalls =
  GetDiskFreeSpaceExW :: "wide \<Rightarrow> u32 + space"
  GetDriveTypeW :: "wide \<Rightarrow> u32"
  GetVolumeNameForVolumeMountPointW :: "wide \<Rightarrow> wide option"

definition DRIVE_UNKNOWN :: u32 where "DRIVE_UNKNOWN = 0"
definition DRIVE_NO_ROOT_DIR :: u32 where "DRIVE_NO_ROOT_DIR = 1"
definition DRIVE_REMOVABLE :: u32 where "DRIVE_REMOVABLE = 2"
definition DRIVE_FIXED :: u32 where "DRIVE_FIXED = 3"

definition Win32Volume_QueryInfo :: "Win32VolumeCalls \<Rightarrow> wide \<Rightarrow> VolumeInfo result" where
  "Win32Volume_QueryInfo os root =
     (case GetDiskFreeSpaceExW os (wide_c_str root) of
        Inl e \<Rightarrow>
          Failure \<lparr>code = Win32ApiFailure, message = str ''GetDiskFreeSpaceExW failed'', platformErrorValue = e\<rparr>
      | Inr sp \<Rightarrow>
          (let driveType = GetDriveTypeW os (wide_c_str root)
           in Success \<lparr>vol_rootPath = root,
                       vol_volumeGuidPath =
                         (case GetVolumeNameForVolumeMountPointW os (wide_c_str root) of None \<Rightarrow> [] | Some v \<Rightarrow> v),
                       vol_totalBytes = sp_total sp, vol_freeBytes = sp_free sp,
                       vol_isFixedDrive = (driveType = DRIVE_FIXED),
                       vol_isRemovable = (driveType = DRIVE_REMOVABLE)\<rparr>))"

definition Win32Volume_IsAvailable :: "Win32VolumeCalls \<Rightarrow> wide \<Rightarrow> bool" where
  "Win32Volume_IsAvailable os root \<longleftrightarrow>
     GetDriveTypeW os (wide_c_str root) \<noteq> DRIVE_NO_ROOT_DIR \<and> GetDriveTypeW os (wide_c_str root) \<noteq> DRIVE_UNKNOWN"

definition Win32Volume_ops :: "Win32VolumeCalls \<Rightarrow> wide \<Rightarrow> IVolume" where
  "Win32Volume_ops os root =
     \<lparr>iv_QueryInfo = Win32Volume_QueryInfo os root, iv_IsAvailable = Win32Volume_IsAvailable os root,
      iv_RootPath = root\<rparr>"

definition Win32_OpenVolume :: "Win32VolumeCalls \<Rightarrow> wide \<Rightarrow> IVolume result" where
  "Win32_OpenVolume os root =
     (if root = [] then Failure (mkError InvalidArgument ''rootPath must not be empty'')
      else Success (Win32Volume_ops os root))"

section \<open>PortableVolume\<close>

text \<open>
  \<^verbatim>\<open>fs::space\<close> gives the message of the error or the figures; \<^verbatim>\<open>fs::exists\<close> the answer and whether the
  error code was set.
\<close>

record FilesystemCalls =
  fs_space :: "cstring \<Rightarrow> cstring + space"
  fs_exists :: "cstring \<Rightarrow> bool \<times> bool"

definition NarrowPath :: "wide \<Rightarrow> cstring" where
  "NarrowPath wide = map (\<lambda>c. ucast c) wide"

definition PortableVolume_QueryInfo :: "FilesystemCalls \<Rightarrow> wide \<Rightarrow> VolumeInfo result" where
  "PortableVolume_QueryInfo fs root =
     (case fs_space fs (NarrowPath root) of
        Inl what \<Rightarrow>
          Failure \<lparr>code = IoError, message = str ''std::filesystem::space failed: '' @ what, platformErrorValue = 0\<rparr>
      | Inr sp \<Rightarrow>
          Success (no_VolumeInfo\<lparr>vol_rootPath := root, vol_totalBytes := sp_total sp,
                     vol_freeBytes := sp_available sp, vol_isFixedDrive := True, vol_isRemovable := False\<rparr>))"

definition PortableVolume_IsAvailable :: "FilesystemCalls \<Rightarrow> wide \<Rightarrow> bool" where
  "PortableVolume_IsAvailable fs root = (case fs_exists fs (NarrowPath root) of (exists, ec) \<Rightarrow> exists \<and> \<not> ec)"

definition PortableVolume_ops :: "FilesystemCalls \<Rightarrow> wide \<Rightarrow> IVolume" where
  "PortableVolume_ops fs root =
     \<lparr>iv_QueryInfo = PortableVolume_QueryInfo fs root, iv_IsAvailable = PortableVolume_IsAvailable fs root,
      iv_RootPath = root\<rparr>"

definition Portable_OpenVolume :: "FilesystemCalls \<Rightarrow> wide \<Rightarrow> IVolume result" where
  "Portable_OpenVolume fs root =
     (if root = [] then Failure (mkError InvalidArgument ''rootPath must not be empty'')
      else Success (PortableVolume_ops fs root))"

section \<open>The contract\<close>

text \<open>
  \<open>open_volume\<close> refuses the empty path and nothing else; the volume it gives is the one asked for; no
  volume is both fixed and removable; and where the system's figures are consistent (\<open>sane\<close>), there is
  not more free space than space.
\<close>

locale volume_contract =
  fixes open_volume :: "wide \<Rightarrow> IVolume result"
    and sane :: "wide \<Rightarrow> bool"
  assumes empty_path: "\<not> IsOk (open_volume [])"
    and opens: "root \<noteq> [] \<Longrightarrow> \<exists>v. open_volume root = Success v \<and> iv_RootPath v = root"
    and describes: "open_volume root = Success v \<Longrightarrow> iv_QueryInfo v = Success i \<Longrightarrow>
      vol_rootPath i = root \<and> \<not> (vol_isFixedDrive i \<and> vol_isRemovable i)"
    and free_bounded: "open_volume root = Success v \<Longrightarrow> iv_QueryInfo v = Success i \<Longrightarrow> sane root \<Longrightarrow>
      vol_freeBytes i \<le> vol_totalBytes i"
begin

lemma opens_iff: "IsOk (open_volume root) \<longleftrightarrow> root \<noteq> []"
  using empty_path opens by fastforce

text \<open>What is in use can be computed from an answer without wrapping around.\<close>

lemma used_bytes:
  assumes "open_volume root = Success v" and "iv_QueryInfo v = Success i" and "sane root"
  shows "unat (vol_totalBytes i - vol_freeBytes i) + unat (vol_freeBytes i) = unat (vol_totalBytes i)"
  using free_bounded [OF assms] by (simp add: unat_sub word_le_nat_alt)

end

definition sane_space :: "space \<Rightarrow> bool" where
  "sane_space sp \<longleftrightarrow> sp_free sp \<le> sp_total sp \<and> sp_available sp \<le> sp_total sp"

definition sane_answer :: "'e + space \<Rightarrow> bool" where
  "sane_answer r = (case r of Inl _ \<Rightarrow> True | Inr sp \<Rightarrow> sane_space sp)"

interpretation win32_vol: volume_contract "Win32_OpenVolume os" "\<lambda>root. sane_answer (GetDiskFreeSpaceExW os (wide_c_str root))"
  by unfold_locales
    (auto simp: Win32_OpenVolume_def Win32Volume_ops_def Win32Volume_QueryInfo_def sane_answer_def sane_space_def
      Let_def DRIVE_FIXED_def DRIVE_REMOVABLE_def split: sum.splits if_splits)

interpretation portable_vol: volume_contract "Portable_OpenVolume fs" "\<lambda>root. sane_answer (fs_space fs (NarrowPath root))"
  by unfold_locales
    (auto simp: Portable_OpenVolume_def PortableVolume_ops_def PortableVolume_QueryInfo_def sane_answer_def
      sane_space_def no_VolumeInfo_def split: sum.splits if_splits)

section \<open>Properties\<close>

text \<open>
  \<^bold>\<open>The two implementations agree up to quotas.\<close>  When the system answers both queries with the same
  figures for one root, both report the same total, and the free bytes differ by exactly what the caller
  may not use.
\<close>

theorem volumes_agree_up_to_quota:
  assumes "GetDiskFreeSpaceExW os (wide_c_str root) = Inr sp" and "fs_space fs (NarrowPath root) = Inr sp"
    and "sp_available sp \<le> sp_free sp"
    and "Win32_OpenVolume os root = Success v" and "Portable_OpenVolume fs root = Success v'"
  shows "\<exists>i i'. iv_QueryInfo v = Success i \<and> iv_QueryInfo v' = Success i' \<and>
     vol_totalBytes i = vol_totalBytes i' \<and> vol_freeBytes i' \<le> vol_freeBytes i \<and>
     vol_freeBytes i - vol_freeBytes i' = sp_free sp - sp_available sp"
  using assms
  by (auto simp: Win32_OpenVolume_def Portable_OpenVolume_def Win32Volume_ops_def PortableVolume_ops_def
      Win32Volume_QueryInfo_def PortableVolume_QueryInfo_def Let_def split: if_splits)

text \<open>
  \<^bold>\<open>What a Windows volume reports.\<close>  Whatever the system answers: a volume can be opened for every path
  but the empty one; a query that succeeds names that path; it never claims a drive to be both fixed and
  removable; a drive it calls one or the other is available; and the space in use does not wrap around
  when the figures of the system are consistent.
\<close>

theorem win32_volume_report:
  assumes "Win32_OpenVolume os root = Success v" and "iv_QueryInfo v = Success i"
  shows "root \<noteq> [] \<and> vol_rootPath i = root \<and> \<not> (vol_isFixedDrive i \<and> vol_isRemovable i) \<and>
     (vol_isFixedDrive i \<or> vol_isRemovable i \<longrightarrow> iv_IsAvailable v) \<and>
     (sane_answer (GetDiskFreeSpaceExW os (wide_c_str root)) \<longrightarrow>
        unat (vol_totalBytes i - vol_freeBytes i) + unat (vol_freeBytes i) = unat (vol_totalBytes i))"
proof -
  have "vol_isFixedDrive i \<or> vol_isRemovable i \<longrightarrow> iv_IsAvailable v"
    using assms by (auto simp: Win32_OpenVolume_def Win32Volume_ops_def Win32Volume_QueryInfo_def
        Win32Volume_IsAvailable_def Let_def DRIVE_FIXED_def DRIVE_REMOVABLE_def DRIVE_UNKNOWN_def DRIVE_NO_ROOT_DIR_def
        split: sum.splits if_splits)
  then show ?thesis
    using win32_vol.opens_iff [of os root] win32_vol.describes [OF assms] win32_vol.used_bytes [OF assms] assms(1)
    by auto
qed

end
