(* ===== verification/EngineInterface.thy ===== *)
theory EngineInterface
  imports EngineMap RecoveryManager
begin

text \<open>
  The engine as its clients see it: \<^verbatim>\<open>ICacheEngine\<close>, and the contract its comments state about the
  lifecycle.  An engine that has not completed recovery, has failed it, or has been shut down refuses
  every call with the error of its state and nothing happens; and no call ever takes an engine back to an
  earlier state.  The locale \<open>engine_interface\<close> is that contract, with what a client may conclude from it;
  \<^verbatim>\<open>CacheEngine\<close> meets it over any store and any journal.
\<close>

section \<open>ICacheEngine\<close>

text \<open>A call that may wait for ever is \<open>None\<close> when it does.\<close>

record 'e ICacheEngine =
  ice_ReplayFromJournal :: "'e \<Rightarrow> (unit result \<times> 'e) option"
  ice_MarkRecoveryComplete :: "'e \<Rightarrow> (unit result \<times> 'e) option"
  ice_Get :: "key \<Rightarrow> 'e \<Rightarrow> (value result \<times> 'e) option"
  ice_Contains :: "key \<Rightarrow> 'e \<Rightarrow> bool"
  ice_GetEntryInfo :: "key \<Rightarrow> 'e \<Rightarrow> CacheEntryInfo result"
  ice_Put :: "key \<Rightarrow> value \<Rightarrow> 'e \<Rightarrow> (unit result \<times> 'e) option"
  ice_Invalidate :: "key \<Rightarrow> 'e \<Rightarrow> (unit result \<times> 'e) option"
  ice_ForceInvalidate :: "key \<Rightarrow> 'e \<Rightarrow> (unit result \<times> 'e) option"
  ice_Flush :: "key \<Rightarrow> 'e \<Rightarrow> (unit result \<times> 'e) option"
  ice_FlushAll :: "'e \<Rightarrow> (unit result \<times> 'e) option"
  ice_GetStatistics :: "'e \<Rightarrow> CacheStatistics"
  ice_Shutdown :: "'e \<Rightarrow> (unit result \<times> 'e) option"

definition RequiredRecoveryState :: RecoveryState where
  "RequiredRecoveryState = RecoveryComplete"

definition CacheEngine_ops :: "('j, 'b) Deps \<Rightarrow> ('j, 'b) CacheEngine ICacheEngine" where
  "CacheEngine_ops d =
     \<lparr>ice_ReplayFromJournal = ReplayFromJournal d, ice_MarkRecoveryComplete = (\<lambda>e. Some (MarkRecoveryComplete e)),
      ice_Get = (\<lambda>k e. Some (CacheEngine_Get d k e)), ice_Contains = CacheEngine_Contains d,
      ice_GetEntryInfo = GetEntryInfo d, ice_Put = CacheEngine_Put d, ice_Invalidate = CacheEngine_Invalidate d,
      ice_ForceInvalidate = ForceInvalidate d, ice_Flush = (\<lambda>k e. Some (CacheEngine_Flush d k e)),
      ice_FlushAll = FlushAll d, ice_GetStatistics = GetStatistics, ice_Shutdown = Shutdown d\<rparr>"

section \<open>The lifecycle\<close>

text \<open>\<open>a \<le> b\<close>: an engine in state \<open>a\<close> may come to be in state \<open>b\<close>.\<close>

instantiation EngineLifecycle :: order
begin

definition less_eq_EngineLifecycle :: "EngineLifecycle \<Rightarrow> EngineLifecycle \<Rightarrow> bool" where
  "a \<le> b \<longleftrightarrow> a = b \<or> a = NotReady \<or> a = Ready \<and> b \<in> {Stopping, Stopped} \<or> a = Stopping \<and> b = Stopped"

definition less_EngineLifecycle :: "EngineLifecycle \<Rightarrow> EngineLifecycle \<Rightarrow> bool" where
  "less_EngineLifecycle a b \<longleftrightarrow> a \<le> b \<and> a \<noteq> b"

instance
proof
  fix x y z :: EngineLifecycle
  show "x < y \<longleftrightarrow> x \<le> y \<and> \<not> y \<le> x"
    by (cases x; cases y) (simp_all add: less_eq_EngineLifecycle_def less_EngineLifecycle_def)
  show "x \<le> y \<Longrightarrow> y \<le> z \<Longrightarrow> x \<le> z"
    by (cases x; cases y; cases z) (simp_all add: less_eq_EngineLifecycle_def)
  show "x \<le> y \<Longrightarrow> y \<le> x \<Longrightarrow> x = y"
    by (cases x; cases y) (simp_all add: less_eq_EngineLifecycle_def)
qed (simp add: less_eq_EngineLifecycle_def)

end

text \<open>The error of a state in which nothing, or nothing that writes, is accepted.\<close>

fun read_refusal :: "EngineLifecycle \<Rightarrow> ErrorCode option" where
  "read_refusal NotReady = Some RecoveryNotComplete"
| "read_refusal EngineLifecycle.RecoveryFailed = Some ErrorCode.RecoveryFailed"
| "read_refusal Stopped = Some ServiceStopping"
| "read_refusal Stopping = None"
| "read_refusal Ready = None"

fun write_refusal :: "EngineLifecycle \<Rightarrow> ErrorCode option" where
  "write_refusal Stopping = Some ServiceStopping"
| "write_refusal s = read_refusal s"

definition refuses :: "ErrorCode \<Rightarrow> ('e \<Rightarrow> ('r result \<times> 'e) option) \<Rightarrow> 'e \<Rightarrow> bool" where
  "refuses c f e \<longleftrightarrow> (\<exists>er. f e = Some (Failure er, e) \<and> code er = c)"

text \<open>The calls of a client, with what it can tell from the reply: that it was refused.\<close>

datatype client_call =
  CGet key | CContains key | CInfo key | CPut key "value" | CInvalidate key | CForceInvalidate key | CFlush key | CFlushAll

fun writes :: "client_call \<Rightarrow> bool" where
  "writes (CPut k v) = True"
| "writes (CInvalidate k) = True"
| "writes (CForceInvalidate k) = True"
| "writes _ = False"

fun reply_code :: "'r result \<Rightarrow> ErrorCode option" where
  "reply_code (Inl er) = Some (code er)"
| "reply_code (Inr x) = None"

fun client_step :: "'e ICacheEngine \<Rightarrow> client_call \<Rightarrow> 'e \<Rightarrow> (ErrorCode option \<times> 'e) option" where
  "client_step I (CGet k) e = map_option (map_prod reply_code id) (ice_Get I k e)"
| "client_step I (CContains k) e = Some (None, e)"
| "client_step I (CInfo k) e = Some (reply_code (ice_GetEntryInfo I k e), e)"
| "client_step I (CPut k v) e = map_option (map_prod reply_code id) (ice_Put I k v e)"
| "client_step I (CInvalidate k) e = map_option (map_prod reply_code id) (ice_Invalidate I k e)"
| "client_step I (CForceInvalidate k) e = map_option (map_prod reply_code id) (ice_ForceInvalidate I k e)"
| "client_step I (CFlush k) e = map_option (map_prod reply_code id) (ice_Flush I k e)"
| "client_step I CFlushAll e = map_option (map_prod reply_code id) (ice_FlushAll I e)"

fun client_run :: "'e ICacheEngine \<Rightarrow> client_call list \<Rightarrow> 'e \<Rightarrow> (ErrorCode option list \<times> 'e) option" where
  "client_run I [] e = Some ([], e)"
| "client_run I (x # xs) e =
     (case client_step I x e of
        None \<Rightarrow> None
      | Some (r, e) \<Rightarrow> map_option (map_prod ((#) r) id) (client_run I xs e))"

lemma refused_reply: "refuses c f e \<Longrightarrow> map_option (map_prod reply_code id) (f e) = Some (Some c, e)"
  by (auto simp: refuses_def)

section \<open>The contract\<close>

locale engine_interface =
  fixes I :: "'e ICacheEngine"
    and phase :: "'e \<Rightarrow> EngineLifecycle"
  assumes refuse_read: "read_refusal (phase e) = Some c \<Longrightarrow>
      refuses c (ice_Get I k) e \<and> refuses c (ice_Flush I k) e \<and> refuses c (ice_FlushAll I) e \<and>
      \<not> ice_Contains I k e \<and> (\<exists>er. ice_GetEntryInfo I k e = Failure er \<and> code er = c)"
    and refuse_write: "write_refusal (phase e) = Some c \<Longrightarrow>
      refuses c (ice_Put I k v) e \<and> refuses c (ice_Invalidate I k) e \<and> refuses c (ice_ForceInvalidate I k) e"
    and phase_step: "client_step I x e = Some (r, e') \<Longrightarrow> phase e' = phase e"
    and phase_replay: "ice_ReplayFromJournal I e = Some (s, e') \<Longrightarrow>
      phase e' = (if phase e = NotReady \<and> \<not> IsOk s then EngineLifecycle.RecoveryFailed else phase e)"
    and phase_mark: "ice_MarkRecoveryComplete I e = Some (s, e') \<Longrightarrow>
      phase e' = (if phase e = NotReady then Ready else phase e) \<and> (IsOk s \<longleftrightarrow> phase e' = Ready)"
    and phase_shutdown: "ice_Shutdown I e = Some (s, e') \<Longrightarrow>
      phase e' = (if phase e = Ready then Stopped else phase e)"
begin

lemma phase_run: "client_run I xs e = Some (rs, e') \<Longrightarrow> phase e' = phase e"
  by (induction xs arbitrary: e rs) (auto split: option.splits dest: phase_step)

text \<open>While the engine refuses, a client changes nothing and every reply is the error of the state.\<close>

lemma refused_run:
  assumes "write_refusal (phase e) = Some c"
    and "read_refusal (phase e) = Some c \<or> list_all writes xs"
  shows "client_run I xs e = Some (map (\<lambda>x. if \<exists>k. x = CContains k then None else Some c) xs, e)"
  using assms(2)
proof (induction xs)
  case (Cons x xs)
  have "client_step I x e = Some (if \<exists>k. x = CContains k then None else Some c, e)"
  proof (cases "writes x")
    case True
    then show ?thesis
      using refuse_write [OF assms(1)] by (cases x) (simp_all add: refused_reply del: map_option_eq_Some)
  next
    case False
    with Cons.prems have r: "read_refusal (phase e) = Some c" by auto
    have "\<exists>er. ice_GetEntryInfo I k e = Failure er \<and> code er = c" for k
      using refuse_read [OF r] by blast
    then have "reply_code (ice_GetEntryInfo I k e) = Some c" for k
      by (metis reply_code.simps(1))
    with False show ?thesis
      using refuse_read [OF r] by (cases x) (simp_all add: refused_reply del: map_option_eq_Some)
  qed
  then show ?case
    using Cons by auto
qed simp

text \<open>The owner's calls, and a client between them, never lead back.\<close>

lemma phase_monotone:
  assumes "ice_ReplayFromJournal I e = Some (s, e') \<or> ice_MarkRecoveryComplete I e = Some (s, e') \<or>
           ice_Shutdown I e = Some (s, e')"
  shows "phase e \<le> phase e'"
  using assms phase_replay [of e s e'] phase_mark [of e s e'] phase_shutdown [of e s e']
  by (auto simp: less_eq_EngineLifecycle_def split: if_splits)

end

section \<open>CacheEngine meets it\<close>

text \<open>The calls of a client leave the state of the lifecycle alone, whatever store and journal do.\<close>

lemma lifecycle_AppendJournalRecord: "lifecycle (snd (AppendJournalRecord d r e)) = lifecycle e"
  by (simp add: AppendJournalRecord_def split: prod.split sum.split)

lemma lifecycle_AppendJournalRecordWithNewVersion:
  "lifecycle (snd (AppendJournalRecordWithNewVersion d r e)) = lifecycle e"
  using lifecycle_AppendJournalRecord [of d "r\<lparr>entryVersion := globalVersionCounter e + 1\<rparr>"
      "e\<lparr>globalVersionCounter := globalVersionCounter e + 1\<rparr>"]
  by (simp add: AppendJournalRecordWithNewVersion_def Let_def case_prod_beta)

lemma lifecycle_flushed:
  "lifecycle (flush_failed i k ver e) = lifecycle e" "lifecycle (flush_succeeded i k ver e) = lifecycle e"
  by (simp_all add: flush_failed_def flush_succeeded_def Let_def)

lemma lifecycle_write_back: "lifecycle (snd (write_back d i k v ver e)) = lifecycle e"
proof -
  have "lifecycle e2 = lifecycle e1" if "AppendJournalRecord d r e1 = (x, e2)" for r x e1 e2
    using lifecycle_AppendJournalRecord [of d r e1] that by simp
  then show ?thesis
    by (auto simp: write_back_def lifecycle_flushed split: prod.split sum.split)
qed

lemma lifecycle_FlushKey: "lifecycle (snd (FlushKey d k ev cv e)) = lifecycle e"
  by (simp add: FlushKey_def Let_def lifecycle_write_back split: prod.split flush_start.split)

lemma lifecycle_evict_shard: "lifecycle (evict_shard i e) = lifecycle e"
  by (simp add: evict_shard_def)

lemma lifecycle_relieve: "lifecycle (relieve_attempts d i n e) = lifecycle e"
proof (induction n arbitrary: e)
  case (Suc n)
  obtain r e1 where f: "FlushKey d (key_to_flush (shards e ! i)) 0 False e = (r, e1)"
    by fastforce
  then have "lifecycle e1 = lifecycle e"
    using lifecycle_FlushKey [of d "key_to_flush (shards e ! i)" 0 False e] by simp
  then show ?case
    using Suc f by (simp add: Let_def lifecycle_evict_shard)
qed simp

lemma lifecycle_flush_keys: "lifecycle (snd (flush_keys d ks er e)) = lifecycle e"
proof (induction ks arbitrary: er e)
  case (Cons k ks)
  then show ?case
    using lifecycle_FlushKey [of d k 0 False e] by (auto split: prod.split sum.split)
qed simp

lemma lifecycle_flush_shards: "lifecycle (snd (flush_shards d is er e)) = lifecycle e"
proof (induction "is" arbitrary: er e)
  case (Cons i "is")
  then show ?case
    using lifecycle_flush_keys [of d "dirty_keys (shards e ! i)" er e] by (auto split: prod.split)
qed simp

lemma lifecycle_compact: "TryCompactJournalIfFullyClean d e = Some e' \<Longrightarrow> lifecycle e' = lifecycle e"
  by (auto simp: TryCompactJournalIfFullyClean_def DrainInFlightWrites_def split: if_splits prod.splits)

lemma lifecycle_FlushAll:
  assumes "FlushAll d e = Some (r, e')"
  shows "lifecycle e' = lifecycle e"
proof -
  obtain er e1 where f: "flush_shards d [0..<length (shards e)] None e = (er, e1)"
    by fastforce
  then have "lifecycle e1 = lifecycle e"
    using lifecycle_flush_shards [of d "[0..<length (shards e)]" None e] by simp
  then show ?thesis
    using assms f by (auto simp: FlushAll_def split: sum.splits option.splits dest: lifecycle_compact)
qed

lemma lifecycle_Put_admitted: "lifecycle (snd (Put_admitted d k v e)) = lifecycle e"
proof -
  obtain r ver e1 where a: "AppendJournalRecordWithNewVersion d (journal_record Upsert k v 0) e = ((r, ver), e1)"
    by (metis prod.exhaust)
  then have "lifecycle e1 = lifecycle e"
    using lifecycle_AppendJournalRecordWithNewVersion [of d "journal_record Upsert k v 0" e] by simp
  then show ?thesis
    using a by (simp add: Put_admitted_def Let_def RelieveCapacityPressureIfNeeded_def lifecycle_relieve lifecycle_FlushKey
        split: sum.split)
qed

lemma lifecycle_Invalidate_admitted: "lifecycle (snd (Invalidate_admitted d k force e)) = lifecycle e"
proof -
  have "lifecycle e2 = lifecycle e1" if "AppendJournalRecord d r e1 = (x, e2)" for r x e1 e2
    using lifecycle_AppendJournalRecord [of d r e1] that by simp
  then show ?thesis
    by (auto simp: Invalidate_admitted_def Let_def split: prod.split sum.split)
qed

lemma lifecycle_Get: "lifecycle (snd (CacheEngine_Get d k e)) = lifecycle e"
  by (simp add: CacheEngine_Get_def hit_def read_fill_def Let_def split: sum.split option.split prod.split)

lemma lifecycle_release: "lifecycle (ReleaseWriteAdmission e) = lifecycle e"
  by (simp add: ReleaseWriteAdmission_def)

lemma lifecycle_Put: "CacheEngine_Put d k v e = Some (r, e') \<Longrightarrow> lifecycle e' = lifecycle e"
  by (auto simp: CacheEngine_Put_def TryAdmitWrite_def lifecycle_release lifecycle_Put_admitted case_prod_beta
      split: sum.splits if_splits)

lemma lifecycle_InvalidateImpl: "InvalidateImpl d k f e = Some (r, e') \<Longrightarrow> lifecycle e' = lifecycle e"
  by (auto simp: InvalidateImpl_def TryAdmitWrite_def lifecycle_release lifecycle_Invalidate_admitted case_prod_beta
      split: sum.splits if_splits)

lemma lifecycle_fold_insert_pending: "lifecycle (fold (insert_pending d) ps e) = lifecycle e"
  by (induction ps arbitrary: e) (simp_all add: insert_pending_def split: prod.split)

lemma lifecycle_ReplayFromJournal:
  assumes "ReplayFromJournal d e = Some (s, e')"
  shows "lifecycle e' = (if lifecycle e = NotReady \<and> \<not> IsOk s then EngineLifecycle.RecoveryFailed else lifecycle e)"
  using assms by (auto simp: ReplayFromJournal_def Let_def lifecycle_fold_insert_pending
      split: if_splits option.splits sum.splits prod.splits)

lemma lifecycle_Shutdown:
  assumes "Shutdown d e = Some (s, e')"
  shows "lifecycle e' = (if lifecycle e = Ready then Stopped else lifecycle e)"
  using assms by (auto simp: Shutdown_def DrainInFlightWrites_def Let_def
      split: if_splits option.splits prod.splits)

lemma lifecycle_client_step:
  assumes "client_step (CacheEngine_ops d) x e = Some (r, e')"
  shows "lifecycle e' = lifecycle e"
proof (cases x)
  case (CGet k)
  then show ?thesis
    using assms lifecycle_Get [of d k e] by (cases "CacheEngine_Get d k e") (auto simp: CacheEngine_ops_def)
next
  case (CFlush k)
  then show ?thesis
    using assms lifecycle_FlushKey [of d k 0 False e]
    by (cases "FlushKey d k 0 False e") (auto simp: CacheEngine_ops_def CacheEngine_Flush_def split: sum.splits)
qed (use assms in \<open>auto simp: CacheEngine_ops_def CacheEngine_Invalidate_def ForceInvalidate_def
      dest: lifecycle_Put lifecycle_InvalidateImpl lifecycle_FlushAll\<close>)

interpretation eng_if: engine_interface "CacheEngine_ops (d :: ('j, 'b) Deps)" lifecycle
proof
  fix e :: "('j, 'b) CacheEngine" and c k v
  show "refuses c (ice_Get (CacheEngine_ops d) k) e \<and> refuses c (ice_Flush (CacheEngine_ops d) k) e \<and>
      refuses c (ice_FlushAll (CacheEngine_ops d)) e \<and> \<not> ice_Contains (CacheEngine_ops d) k e \<and>
      (\<exists>er. ice_GetEntryInfo (CacheEngine_ops d) k e = Failure er \<and> code er = c)"
    if "read_refusal (lifecycle e) = Some c"
    using that by (cases "lifecycle e") (auto simp: refuses_def CacheEngine_ops_def CacheEngine_Get_def CacheEngine_Flush_def
        FlushAll_def CacheEngine_Contains_def GetEntryInfo_def CheckReadyForRead_def)
  show "refuses c (ice_Put (CacheEngine_ops d) k v) e \<and> refuses c (ice_Invalidate (CacheEngine_ops d) k) e \<and>
      refuses c (ice_ForceInvalidate (CacheEngine_ops d) k) e"
    if "write_refusal (lifecycle e) = Some c"
    using that by (cases "lifecycle e") (auto simp: refuses_def CacheEngine_ops_def CacheEngine_Put_def
        CacheEngine_Invalidate_def ForceInvalidate_def InvalidateImpl_def CheckReadyForWrite_def)
next
  fix e e' :: "('j, 'b) CacheEngine" and s
  assume "ice_MarkRecoveryComplete (CacheEngine_ops d) e = Some (s, e')"
  then show "lifecycle e' = (if lifecycle e = NotReady then Ready else lifecycle e) \<and> (IsOk s \<longleftrightarrow> lifecycle e' = Ready)"
    by (auto simp: CacheEngine_ops_def MarkRecoveryComplete_def StartBackgroundFlushThreadIfConfigured_def split: if_splits)
qed (auto simp: CacheEngine_ops_def lifecycle_ReplayFromJournal lifecycle_Shutdown
    dest: lifecycle_client_step [of d for d, unfolded CacheEngine_ops_def])

section \<open>Properties\<close>

text \<open>An owner's life of the engine: recovery, clients, shutdown, in any order.\<close>

datatype owner_call = Calls_Replay | Calls_Mark | Calls_Shutdown | Clients "client_call list"

fun owner_call_step :: "'e ICacheEngine \<Rightarrow> owner_call \<Rightarrow> 'e \<Rightarrow> 'e option" where
  "owner_call_step I Calls_Replay e = map_option snd (ice_ReplayFromJournal I e)"
| "owner_call_step I Calls_Mark e = map_option snd (ice_MarkRecoveryComplete I e)"
| "owner_call_step I Calls_Shutdown e = map_option snd (ice_Shutdown I e)"
| "owner_call_step I (Clients xs) e = map_option snd (client_run I xs e)"

fun owner_calls :: "'e ICacheEngine \<Rightarrow> owner_call list \<Rightarrow> 'e \<Rightarrow> 'e option" where
  "owner_calls I [] e = Some e"
| "owner_calls I (x # xs) e = (case owner_call_step I x e of None \<Rightarrow> None | Some e \<Rightarrow> owner_calls I xs e)"

lemma owner_calls_monotone:
  "owner_calls (CacheEngine_ops d) xs e = Some e' \<Longrightarrow> lifecycle e \<le> lifecycle e'"
proof (induction xs arbitrary: e)
  case (Cons x xs)
  then obtain e1 where e1: "owner_call_step (CacheEngine_ops d) x e = Some e1" "owner_calls (CacheEngine_ops d) xs e1 = Some e'"
    by (auto split: option.splits)
  have "lifecycle e \<le> lifecycle e1"
    using e1(1) eng_if.phase_monotone [of d e _ e1] eng_if.phase_run [of d _ e _ e1] by (cases x) auto
  then show ?case
    using Cons.IH [OF e1(2)] by (rule order_trans)
qed simp



end
