(* ===== verification/Names.thy ===== *)
theory Names
  imports Service EngineInterface
begin

text \<open>
  The names of the enumerations, for logs: the \<^verbatim>\<open>ToString\<close> functions of \<^verbatim>\<open>ErrorCode.h\<close>,
  \<^verbatim>\<open>RecoveryState.h\<close>, \<^verbatim>\<open>JournalRecords.h\<close> and \<^verbatim>\<open>CacheTypes.h\<close>.  The names of the policies are also the
  words of the configuration file.  (The line after each switch is for values outside the enumeration,
  which a datatype does not have.)
\<close>

section \<open>ToString\<close>

fun ErrorCode_ToString :: "ErrorCode \<Rightarrow> string" where
  "ErrorCode_ToString Ok = ''Ok''"
| "ErrorCode_ToString ErrorCode.Unknown = ''Unknown''"
| "ErrorCode_ToString InvalidArgument = ''InvalidArgument''"
| "ErrorCode_ToString NotFound = ''NotFound''"
| "ErrorCode_ToString AlreadyExists = ''AlreadyExists''"
| "ErrorCode_ToString PermissionDenied = ''PermissionDenied''"
| "ErrorCode_ToString IoError = ''IoError''"
| "ErrorCode_ToString Timeout = ''Timeout''"
| "ErrorCode_ToString CorruptData = ''CorruptData''"
| "ErrorCode_ToString VersionMismatch = ''VersionMismatch''"
| "ErrorCode_ToString NotImplementedStage1 = ''NotImplementedStage1''"
| "ErrorCode_ToString ErrorCode.UncleanShutdownDetected = ''UncleanShutdownDetected''"
| "ErrorCode_ToString ErrorCode.RecoveryFailed = ''RecoveryFailed''"
| "ErrorCode_ToString JournalCorrupt = ''JournalCorrupt''"
| "ErrorCode_ToString PlatformUnsupported = ''PlatformUnsupported''"
| "ErrorCode_ToString Win32ApiFailure = ''Win32ApiFailure''"
| "ErrorCode_ToString CapacityExceeded = ''CapacityExceeded''"
| "ErrorCode_ToString RecoveryNotComplete = ''RecoveryNotComplete''"
| "ErrorCode_ToString CacheDisabled = ''CacheDisabled''"
| "ErrorCode_ToString ServiceStopping = ''ServiceStopping''"
| "ErrorCode_ToString UnflushedDirtyData = ''UnflushedDirtyData''"

fun RecoveryState_ToString :: "RecoveryState \<Rightarrow> string" where
  "RecoveryState_ToString RecoveryState.Unknown = ''Unknown''"
| "RecoveryState_ToString CleanShutdown = ''CleanShutdown''"
| "RecoveryState_ToString RecoveryState.UncleanShutdownDetected = ''UncleanShutdownDetected''"
| "RecoveryState_ToString RecoveryInProgress = ''RecoveryInProgress''"
| "RecoveryState_ToString RecoveryComplete = ''RecoveryComplete''"
| "RecoveryState_ToString RecoveryState.RecoveryFailed = ''RecoveryFailed''"

fun CacheRecordType_ToString :: "CacheRecordType \<Rightarrow> string" where
  "CacheRecordType_ToString Upsert = ''Upsert''"
| "CacheRecordType_ToString FlushIntent = ''FlushIntent''"
| "CacheRecordType_ToString FlushComplete = ''FlushComplete''"
| "CacheRecordType_ToString Invalidate = ''Invalidate''"

fun EntryDirtyState_ToString :: "EntryDirtyState \<Rightarrow> string" where
  "EntryDirtyState_ToString Clean = ''Clean''"
| "EntryDirtyState_ToString Dirty = ''Dirty''"
| "EntryDirtyState_ToString FlushInProgress = ''FlushInProgress''"

fun EvictionPolicyKind_ToString :: "EvictionPolicyKind \<Rightarrow> string" where
  "EvictionPolicyKind_ToString LeastRecentlyUsed = ''LeastRecentlyUsed''"

fun WritePolicyKind_ToString :: "WritePolicyKind \<Rightarrow> string" where
  "WritePolicyKind_ToString WriteThrough = ''WriteThrough''"
| "WritePolicyKind_ToString WriteBackDeferred = ''WriteBackDeferred''"

fun FlushPolicyKind_ToString :: "FlushPolicyKind \<Rightarrow> string" where
  "FlushPolicyKind_ToString Manual = ''Manual''"
| "FlushPolicyKind_ToString PeriodicBackground = ''PeriodicBackground''"

section \<open>Properties\<close>

lemma ErrorCode_name_inject: "ErrorCode_ToString a = ErrorCode_ToString b \<Longrightarrow> a = b"
  by (cases a; cases b) simp_all

lemma RecoveryState_name_inject: "RecoveryState_ToString a = RecoveryState_ToString b \<Longrightarrow> a = b"
  by (cases a; cases b) simp_all

lemma CacheRecordType_name_inject: "CacheRecordType_ToString a = CacheRecordType_ToString b \<Longrightarrow> a = b"
  by (cases a; cases b) simp_all

lemma EntryDirtyState_name_inject: "EntryDirtyState_ToString a = EntryDirtyState_ToString b \<Longrightarrow> a = b"
  by (cases a; cases b) simp_all

lemma EvictionPolicyKind_name_inject: "EvictionPolicyKind_ToString a = EvictionPolicyKind_ToString b \<Longrightarrow> a = b"
  by (cases a; cases b) simp_all

lemma WritePolicyKind_name_inject: "WritePolicyKind_ToString a = WritePolicyKind_ToString b \<Longrightarrow> a = b"
  by (cases a; cases b) simp_all

lemma FlushPolicyKind_name_inject: "FlushPolicyKind_ToString a = FlushPolicyKind_ToString b \<Longrightarrow> a = b"
  by (cases a; cases b) simp_all

lemmas name_injects = ErrorCode_name_inject
  RecoveryState_name_inject
  CacheRecordType_name_inject
  EntryDirtyState_name_inject
  EvictionPolicyKind_name_inject
  WritePolicyKind_name_inject
  FlushPolicyKind_name_inject

text \<open>\<^bold>\<open>Different values have different names\<close>, so that a log entry tells which one it was.\<close>

theorem names_distinct:
  "inj ErrorCode_ToString \<and> inj RecoveryState_ToString \<and> inj CacheRecordType_ToString \<and>
   inj EntryDirtyState_ToString \<and> inj EvictionPolicyKind_ToString \<and> inj WritePolicyKind_ToString \<and>
   inj FlushPolicyKind_ToString"
  by (intro conjI injI) (erule name_injects)+

text \<open>
  \<^bold>\<open>The engine runs with the policies the configuration names.\<close>  For a configuration that passes
  \<open>Validate\<close>, the names of the engine's policies are the words of the configuration: \<^verbatim>\<open>BuildEngineOptions\<close>,
  which takes every other word for a default, falls back for none.
\<close>

theorem policies_as_configured:
  assumes "Validate config = Success ()"
  shows "str (WritePolicyKind_ToString (writePolicy (BuildEngineOptions config))) = cfg_writePolicy config \<and>
     str (FlushPolicyKind_ToString (flushPolicy (BuildEngineOptions config))) = cfg_flushPolicy config \<and>
     str (EvictionPolicyKind_ToString (evictionPolicy (BuildEngineOptions config))) = cfg_evictionPolicy config"
  using assms by (auto simp: Validate_def BuildEngineOptions_def split: if_splits)

text \<open>
  \<^bold>\<open>The state recovery reports is the one the engine requires.\<close>  A successful \<open>InitializeAndRecover\<close>
  ends in \<^verbatim>\<open>RequiredRecoveryState\<close>, the state \<^verbatim>\<open>OnServiceStart\<close> logs before it accepts requests.
\<close>

theorem recovery_reaches_required_state:
  assumes "InitializeAndRecover M h rm w = Some (Success (), rm', w')"
  shows "CurrentState rm' = RequiredRecoveryState"
  using assms by (auto simp: InitializeAndRecover_def start_session_def CurrentState_def RequiredRecoveryState_def Let_def
      split: if_splits option.splits sum.splits prod.splits)

end
