(* ===== verification/Logging.thy ===== *)
theory Logging
  imports Common
begin

text \<open>
  The diagnostics logger (\<^verbatim>\<open>src/src/Logging\<close>): levels, the logger that fans a message out to its sinks,
  the sink in memory and the sink on a file.

  Sinks are shared objects: the logger keeps references, and the same sink may be added twice.  A
  reference is a number, and the objects are a function from references to sink states.  The locale
  \<open>log_sink\<close> is what a sink promises the logger: each message it is given is one more item of its log.
\<close>

section \<open>Levels\<close>

datatype LogLevel = Trace | Debug | Info | Warning | Error_level | Critical

fun LogLevel_value :: "LogLevel \<Rightarrow> int" where
  "LogLevel_value Trace = 0"
| "LogLevel_value Debug = 1"
| "LogLevel_value Info = 2"
| "LogLevel_value Warning = 3"
| "LogLevel_value Error_level = 4"
| "LogLevel_value Critical = 5"

lemma LogLevel_value_inject: "LogLevel_value a = LogLevel_value b \<Longrightarrow> a = b"
  by (cases a; cases b) simp_all

text \<open>The order of the levels is the order of their values.\<close>

instantiation LogLevel :: linorder
begin

definition less_eq_LogLevel :: "LogLevel \<Rightarrow> LogLevel \<Rightarrow> bool" where
  "less_eq_LogLevel a b \<longleftrightarrow> LogLevel_value a \<le> LogLevel_value b"

definition less_LogLevel :: "LogLevel \<Rightarrow> LogLevel \<Rightarrow> bool" where
  "less_LogLevel a b \<longleftrightarrow> LogLevel_value a < LogLevel_value b"

instance
  by standard (auto simp: less_eq_LogLevel_def less_LogLevel_def dest: LogLevel_value_inject)

end

fun LogLevel_ToString :: "LogLevel \<Rightarrow> string" where
  "LogLevel_ToString Trace = ''TRACE''"
| "LogLevel_ToString Debug = ''DEBUG''"
| "LogLevel_ToString Info = ''INFO''"
| "LogLevel_ToString Warning = ''WARN''"
| "LogLevel_ToString Error_level = ''ERROR''"
| "LogLevel_ToString Critical = ''CRITICAL''"

section \<open>Sinks and the logger\<close>

type_synonym log_message = "LogLevel \<times> cstring \<times> cstring"

record 's ILogSink =
  Sink_Write :: "LogLevel \<Rightarrow> cstring \<Rightarrow> cstring \<Rightarrow> 's \<Rightarrow> 's"
  Sink_Flush :: "'s \<Rightarrow> 's"

record Logger =
  minimumLevel :: LogLevel
  sinks :: "nat list"

text \<open>The default of the constructor's argument is \<open>Info\<close>.\<close>

definition new_Logger :: "LogLevel \<Rightarrow> Logger" where
  "new_Logger minimum = \<lparr>minimumLevel = minimum, sinks = []\<rparr>"

definition AddSink :: "nat option \<Rightarrow> Logger \<Rightarrow> Logger" where
  "AddSink sink l = (case sink of None \<Rightarrow> l | Some i \<Rightarrow> l\<lparr>sinks := sinks l @ [i]\<rparr>)"

definition write_to :: "'s ILogSink \<Rightarrow> LogLevel \<Rightarrow> cstring \<Rightarrow> cstring \<Rightarrow> nat \<Rightarrow> (nat \<Rightarrow> 's) \<Rightarrow> (nat \<Rightarrow> 's)" where
  "write_to S level component msg sink objs = objs(sink := Sink_Write S level component msg (objs sink))"

lemma write_to_simps [simp]:
  "write_to S l c m i objs i = Sink_Write S l c m (objs i)"
  "j \<noteq> i \<Longrightarrow> write_to S l c m j objs i = objs i"
  by (simp_all add: write_to_def)

definition Log :: "'s ILogSink \<Rightarrow> LogLevel \<Rightarrow> cstring \<Rightarrow> cstring \<Rightarrow> Logger \<Rightarrow> (nat \<Rightarrow> 's) \<Rightarrow> (nat \<Rightarrow> 's)" where
  "Log S level component msg l objs =
     (if LogLevel_value level < LogLevel_value (minimumLevel l) then objs
      else fold (write_to S level component msg) (sinks l) objs)"

definition SetMinimumLevel :: "LogLevel \<Rightarrow> Logger \<Rightarrow> Logger" where
  "SetMinimumLevel level l = l\<lparr>minimumLevel := level\<rparr>"

definition MinimumLevel :: "Logger \<Rightarrow> LogLevel" where
  "MinimumLevel l = minimumLevel l"

section \<open>The contract of a sink\<close>

locale log_sink =
  fixes S :: "'s ILogSink"
    and written :: "'s \<Rightarrow> 'x list"
    and shows_message :: "'x \<Rightarrow> log_message \<Rightarrow> bool"
    and working :: "'s \<Rightarrow> bool"
  assumes write_appends: "working s \<Longrightarrow>
      \<exists>x. written (Sink_Write S l c m s) = written s @ [x] \<and> shows_message x (l, c, m)"
    and write_working: "working s \<Longrightarrow> working (Sink_Write S l c m s)"
    and flush_written: "written (Sink_Flush S s) = written s"
begin

text \<open>One call gives a sink the message as many times as it was added to the logger.\<close>

lemma fold_write:
  assumes "working (objs i)"
  shows "\<exists>xs. written (fold (write_to S l c m) is objs i) = written (objs i) @ xs \<and>
           length xs = count_list is i \<and> list_all (\<lambda>x. shows_message x (l, c, m)) xs \<and>
           working (fold (write_to S l c m) is objs i)"
  using assms
proof (induction "is" arbitrary: objs)
  case (Cons j js)
  let ?o = "write_to S l c m j objs"
  have "working (?o i)"
    using Cons.prems write_working by (cases "j = i") simp_all
  then obtain xs where xs: "written (fold (write_to S l c m) js ?o i) = written (?o i) @ xs"
    "length xs = count_list js i" "list_all (\<lambda>x. shows_message x (l, c, m)) xs"
    "working (fold (write_to S l c m) js ?o i)"
    using Cons.IH [of ?o] by blast
  show ?case
  proof (cases "j = i")
    case True
    then obtain x where "written (?o i) = written (objs i) @ [x]" "shows_message x (l, c, m)"
      using write_appends [of "objs i" l c m] Cons.prems by auto
    then show ?thesis
      using xs True by (intro exI [of _ "x # xs"]) simp
  qed (use xs in simp)
qed simp

text \<open>A sequence of calls.\<close>

lemma log_all:
  assumes "working (objs i)" and "count_list (sinks lg) i = 1"
  shows "\<exists>xs. written (fold (\<lambda>(l, c, m). Log S l c m lg) msgs objs i) = written (objs i) @ xs \<and>
           list_all2 shows_message xs (filter (\<lambda>(l, _). minimumLevel lg \<le> l) msgs) \<and>
           working (fold (\<lambda>(l, c, m). Log S l c m lg) msgs objs i)"
  using assms(1)
proof (induction msgs arbitrary: objs)
  case (Cons msg msgs)
  obtain l c m where msg: "msg = (l, c, m)"
    by (cases msg)
  show ?case
  proof (cases "minimumLevel lg \<le> l")
    case False
    then have "Log S l c m lg objs = objs"
      by (simp add: Log_def less_eq_LogLevel_def not_le)
    then show ?thesis
      using Cons msg False by simp
  next
    case True
    then obtain xs where xs: "written (Log S l c m lg objs i) = written (objs i) @ xs" "length xs = 1"
      "list_all (\<lambda>x. shows_message x (l, c, m)) xs" "working (Log S l c m lg objs i)"
      using fold_write [of objs i l c m "sinks lg"] Cons.prems assms(2)
      by (auto simp: Log_def less_eq_LogLevel_def not_less)
    then obtain x where x: "xs = [x]"
      by (auto simp: length_Suc_conv)
    obtain ys where "written (fold (\<lambda>(l, c, m). Log S l c m lg) msgs (Log S l c m lg objs) i) = written (Log S l c m lg objs i) @ ys"
      "list_all2 shows_message ys (filter (\<lambda>(l, _). minimumLevel lg \<le> l) msgs)"
      "working (fold (\<lambda>(l, c, m). Log S l c m lg) msgs (Log S l c m lg objs) i)"
      using Cons.IH [of "Log S l c m lg objs"] xs(4) by blast
    then show ?thesis
      using xs x msg True by (intro exI [of _ "x # ys"]) simp
  qed
qed simp

end

section \<open>MemoryLogSink\<close>

record MemoryLogSink_Entry =
  entry_level :: LogLevel
  entry_component :: cstring
  entry_message :: cstring

definition MemoryLogSink_Write ::
  "LogLevel \<Rightarrow> cstring \<Rightarrow> cstring \<Rightarrow> MemoryLogSink_Entry list \<Rightarrow> MemoryLogSink_Entry list" where
  "MemoryLogSink_Write level component msg entries =
     entries @ [\<lparr>entry_level = level, entry_component = component, entry_message = msg\<rparr>]"

definition MemoryLogSink_Snapshot :: "MemoryLogSink_Entry list \<Rightarrow> MemoryLogSink_Entry list" where
  "MemoryLogSink_Snapshot entries = entries"

definition MemoryLogSink_ops :: "MemoryLogSink_Entry list ILogSink" where
  "MemoryLogSink_ops = \<lparr>Sink_Write = MemoryLogSink_Write, Sink_Flush = id\<rparr>"

interpretation mem: log_sink MemoryLogSink_ops MemoryLogSink_Snapshot
  "\<lambda>x (l, c, m). x = \<lparr>entry_level = l, entry_component = c, entry_message = m\<rparr>" "\<lambda>_. True"
  by unfold_locales (simp_all add: MemoryLogSink_ops_def MemoryLogSink_Write_def MemoryLogSink_Snapshot_def)

section \<open>FileLogSink\<close>

text \<open>
  A stream opened for appending: the lines put into it, whether it still takes output (a stream in
  the failed state drops everything), which of the writes to come fail, and the readings of
  \<^verbatim>\<open>TimestampNow\<close>.
\<close>

record FileLogSink =
  stream_lines :: "cstring list"
  stream_good :: bool
  stream_failures :: "bool list"
  timestamps :: "cstring list"

definition log_line :: "cstring \<Rightarrow> LogLevel \<Rightarrow> cstring \<Rightarrow> cstring \<Rightarrow> cstring" where
  "log_line now level component msg =
     str ''['' @ now @ str ''] '' @ str ''['' @ str (LogLevel_ToString level) @ str ''] ''
     @ str ''['' @ component @ str ''] '' @ msg @ [10]"

definition FileLogSink_Write :: "LogLevel \<Rightarrow> cstring \<Rightarrow> cstring \<Rightarrow> FileLogSink \<Rightarrow> FileLogSink" where
  "FileLogSink_Write level component msg s =
     (let now = (case timestamps s of [] \<Rightarrow> [] | t # _ \<Rightarrow> t);
          fails = (case stream_failures s of [] \<Rightarrow> False | f # _ \<Rightarrow> f);
          s = s\<lparr>timestamps := tl (timestamps s), stream_failures := tl (stream_failures s)\<rparr>
      in if \<not> stream_good s then s
         else if fails then s\<lparr>stream_good := False\<rparr>
         else s\<lparr>stream_lines := stream_lines s @ [log_line now level component msg]\<rparr>)"

definition FileLogSink_ops :: "FileLogSink ILogSink" where
  "FileLogSink_ops = \<lparr>Sink_Write = FileLogSink_Write, Sink_Flush = id\<rparr>"

definition CreateFileLogSink :: "cstring \<Rightarrow> FileLogSink option \<Rightarrow> FileLogSink result" where
  "CreateFileLogSink path stream =
     (case stream of
        None \<Rightarrow> Failure (mkError_key IoError ''failed to open log file: '' path '''')
      | Some s \<Rightarrow> Success s)"

definition stream_working :: "FileLogSink \<Rightarrow> bool" where
  "stream_working s \<longleftrightarrow> stream_good s \<and> \<not> list_ex id (stream_failures s)"

definition line_shows :: "cstring \<Rightarrow> log_message \<Rightarrow> bool" where
  "line_shows x msg = (case msg of (l, c, m) \<Rightarrow> \<exists>now. x = log_line now l c m)"

interpretation file_sink: log_sink FileLogSink_ops stream_lines line_shows stream_working
  by unfold_locales
    (auto simp: FileLogSink_ops_def FileLogSink_Write_def Let_def stream_working_def line_shows_def split: list.splits)

section \<open>Properties\<close>

text \<open>
  \<^bold>\<open>The log has the messages of sufficient level, in order.\<close>  For a sequence of calls on a logger, a file
  sink whose stream works and that was added once receives one line for each message at or above the minimum
  level, in the order of the calls, with its level, component and text, and no other line; a sink in memory
  receives the same messages.
\<close>

theorem Log_writes_in_order:
  assumes "count_list (sinks lg) i = 1" and "stream_working (objs i)"
  shows "(\<exists>xs. stream_lines (fold (\<lambda>(l, c, m). Log FileLogSink_ops l c m lg) msgs objs i) = stream_lines (objs i) @ xs \<and>
            list_all2 line_shows xs (filter (\<lambda>(l, _). minimumLevel lg \<le> l) msgs)) \<and>
         fold (\<lambda>(l, c, m). Log MemoryLogSink_ops l c m lg) msgs mobjs i =
           mobjs i @ map (\<lambda>(l, c, m). \<lparr>entry_level = l, entry_component = c, entry_message = m\<rparr>)
             (filter (\<lambda>(l, _). minimumLevel lg \<le> l) msgs)"
proof
  show "\<exists>xs. stream_lines (fold (\<lambda>(l, c, m). Log FileLogSink_ops l c m lg) msgs objs i) = stream_lines (objs i) @ xs \<and>
            list_all2 line_shows xs (filter (\<lambda>(l, _). minimumLevel lg \<le> l) msgs)"
    using file_sink.log_all [of objs i lg msgs] assms by blast
  have map: "list_all2 (\<lambda>x (l, c, m). x = \<lparr>entry_level = l, entry_component = c, entry_message = m\<rparr>) xs ys \<Longrightarrow>
      xs = map (\<lambda>(l, c, m). \<lparr>entry_level = l, entry_component = c, entry_message = m\<rparr>) ys"
    for xs :: "MemoryLogSink_Entry list" and ys :: "log_message list"
    by (induction rule: list_all2_induct) auto
  show "fold (\<lambda>(l, c, m). Log MemoryLogSink_ops l c m lg) msgs mobjs i =
           mobjs i @ map (\<lambda>(l, c, m). \<lparr>entry_level = l, entry_component = c, entry_message = m\<rparr>)
             (filter (\<lambda>(l, _). minimumLevel lg \<le> l) msgs)"
    using mem.log_all [where objs = mobjs and i = i and lg = lg and msgs = msgs] assms(1) map by (auto simp: MemoryLogSink_Snapshot_def)
qed

theorem Log_writes_in_order_witness:
  "fold (\<lambda>(l, c, m). Log MemoryLogSink_ops l c m (AddSink (Some 3) (new_Logger Info)))
     [(Debug, [1], [2]), (Warning, [1], [3])] (\<lambda>_. []) 3 = [\<lparr>entry_level = Warning, entry_component = [1], entry_message = [3]\<rparr>]"
  using Log_writes_in_order [of "AddSink (Some 3) (new_Logger Info)" 3
      "\<lambda>_. \<lparr>stream_lines = [], stream_good = True, stream_failures = [], timestamps = []\<rparr>"
      "[(Debug, [1], [2]), (Warning, [1], [3])]" "\<lambda>_. []"]
  by (simp add: AddSink_def new_Logger_def stream_working_def less_eq_LogLevel_def)

end
