(* ===== verification/Threads.thy ===== *)
theory Threads
  imports Prelude
begin

text \<open>
  Threads over a shared state.  The program of a thread is a tree of locked sections: each section
  reads and writes the shared state in one step, says what it did (an event), and goes on as that
  state told it to.  A section that waits for a condition variable cannot be run while the
  condition is false.  A pool is a list of such programs that take turns section by section, in any
  order; its history lists the events with the number of the thread, the latest first.

  The theory has the step relation of a pool, the fact that no pool runs forever, and the interface
  through which the engine's threads are verified (locale \<open>thread_calls\<close>): when every section a
  thread may run has the effect its event stands for and comes in the order a protocol allows, then
  every history of a pool is a history of the events' effects alone.
\<close>

section \<open>Programs\<close>

datatype ('s, 'ev, 'a) prog =
  Return 'a
| Section "'s \<Rightarrow> ('ev \<times> 's \<times> ('s, 'ev, 'a) prog) option"

lemma prog_induct [case_names Return Section]:
  assumes "\<And>a. P (Return a)" and "\<And>f. (\<And>s ev s' p. f s = Some (ev, s', p) \<Longrightarrow> P p) \<Longrightarrow> P (Section f)"
  shows "P p"
proof (induction p)
  case (Section f)
  show ?case
  proof (rule assms(2))
    fix s ev s' p assume "f s = Some (ev, s', p)"
    then have "Some (ev, s', p) \<in> range f" by (metis rangeI)
    then show "P p"
      by (rule Section.IH [of _ "(ev, s', p)" "(s', p)"]) simp_all
  qed
qed (rule assms(1))

primrec bind_prog ::
  "('s, 'ev, 'a) prog \<Rightarrow> ('a \<Rightarrow> ('s, 'ev, 'b) prog) \<Rightarrow> ('s, 'ev, 'b) prog" where
  "bind_prog (Return a) q = q a"
| "bind_prog (Section f) q = Section (\<lambda>s. map_option (map_prod id (map_prod id (\<lambda>p. bind_prog p q))) (f s))"

text \<open>One section that always runs, and one that waits while its result is \<open>None\<close>.\<close>

definition act :: "('s \<Rightarrow> 'ev \<times> 'a \<times> 's) \<Rightarrow> ('s, 'ev, 'a) prog" where
  "act f = Section (\<lambda>s. case f s of (ev, a, s') \<Rightarrow> Some (ev, s', Return a))"

definition await :: "('s \<Rightarrow> ('ev \<times> 'a \<times> 's) option) \<Rightarrow> ('s, 'ev, 'a) prog" where
  "await f = Section (\<lambda>s. case f s of None \<Rightarrow> None | Some (ev, a, s') \<Rightarrow> Some (ev, s', Return a))"

text \<open>A program that no other thread interrupts.\<close>

primrec run_alone :: "('s, 'ev, 'a) prog \<Rightarrow> 's \<Rightarrow> ('a \<times> 's) option" where
  "run_alone (Return a) = (\<lambda>s. Some (a, s))"
| "run_alone (Section f) =
     (\<lambda>s. case map_option (map_prod id (map_prod id run_alone)) (f s) of
            None \<Rightarrow> None | Some (_, s', r) \<Rightarrow> r s')"

lemma run_alone_Section:
  "run_alone (Section f) s = (case f s of None \<Rightarrow> None | Some (_, s', p) \<Rightarrow> run_alone p s')"
  by (simp split: option.split prod.split)

lemma run_alone_bind:
  "run_alone (bind_prog p q) s = (case run_alone p s of None \<Rightarrow> None | Some (a, s') \<Rightarrow> run_alone (q a) s')"
proof (induction p arbitrary: s rule: prog_induct)
  case (Section f)
  then show ?case
    by (cases "f s") auto
qed simp

lemma run_alone_act [simp]: "run_alone (act f) s = (case f s of (_, a, s') \<Rightarrow> Some (a, s'))"
  by (simp add: act_def split: prod.split)

lemma run_alone_await [simp]:
  "run_alone (await f) s = (case f s of None \<Rightarrow> None | Some (_, a, s') \<Rightarrow> Some (a, s'))"
  by (simp add: await_def split: option.split prod.split)

lemmas run_alone_simps = run_alone_bind run_alone_act run_alone_await run_alone.simps(1)

section \<open>Pools\<close>

type_synonym 'ev history = "(nat \<times> 'ev) list"

inductive pool_step ::
  "'s \<times> ('s, 'ev, 'a) prog list \<Rightarrow> nat \<times> 'ev \<Rightarrow> 's \<times> ('s, 'ev, 'a) prog list \<Rightarrow> bool" where
  pool_step: "i < length ps \<Longrightarrow> ps ! i = Section f \<Longrightarrow> f s = Some (ev, s', p) \<Longrightarrow>
     pool_step (s, ps) (i, ev) (s', ps[i := p])"

inductive_cases pool_stepE: "pool_step c l c'"

inductive pool_run ::
  "'s \<times> ('s, 'ev, 'a) prog list \<Rightarrow> 'ev history \<Rightarrow> 's \<times> ('s, 'ev, 'a) prog list \<Rightarrow> bool" for c where
  pool_run_Nil: "pool_run c [] c"
| pool_run_Cons: "pool_run c h c' \<Longrightarrow> pool_step c' l c'' \<Longrightarrow> pool_run c (l # h) c''"

inductive_cases pool_run_ConsE: "pool_run c (l # h) c'"

text \<open>What thread \<open>i\<close> itself has done, the latest first.\<close>

definition own :: "nat \<Rightarrow> 'ev history \<Rightarrow> 'ev list" where
  "own i h = map snd (filter (\<lambda>(j, _). j = i) h)"

lemma own_simps [simp]:
  "own i [] = []"
  "own i ((j, ev) # h) = (if j = i then ev # own i h else own i h)"
  by (simp_all add: own_def)

lemma set_own: "ev \<in> set (own i h) \<longleftrightarrow> (i, ev) \<in> set h"
  by (force simp: own_def)

lemma pool_run_threads:
  assumes "pool_run (s0, ps0) h c" "own i h \<noteq> []"
  shows "i < length ps0"
proof -
  have "length (snd c) = length ps0 \<and> (\<forall>(j, ev)\<in>set h. j < length ps0)"
    using assms(1) by induction (auto elim!: pool_stepE)
  moreover obtain ev where "(i, ev) \<in> set h"
    using assms(2) by (metis set_own list.set_intros(1) neq_Nil_conv)
  ultimately show ?thesis by auto
qed

lemma bind_assoc: "bind_prog (bind_prog p q) r = bind_prog p (\<lambda>a. bind_prog (q a) r)"
proof (induction p rule: prog_induct)
  case (Section f)
  have "map_option (map_prod id (map_prod id (\<lambda>p. bind_prog (bind_prog p q) r))) (f s) =
      map_option (map_prod id (map_prod id (\<lambda>p. bind_prog p (\<lambda>a. bind_prog (q a) r)))) (f s)" for s
    using Section by (cases "f s") auto
  then show ?case
    by (simp add: option.map_comp prod.map_comp comp_def id_def)
qed simp

text \<open>
  Building runs: the next \<open>n\<close> sections of one thread, with their events (the latest first), what is
  left of its program, and the state.
\<close>

fun sections :: "nat \<Rightarrow> ('s, 'ev, 'a) prog \<Rightarrow> 's \<Rightarrow> ('ev list \<times> ('s, 'ev, 'a) prog \<times> 's) option" where
  "sections 0 p s = Some ([], p, s)"
| "sections (Suc n) (Return a) s = None"
| "sections (Suc n) (Section f) s =
     (case f s of None \<Rightarrow> None
      | Some (ev, s', p) \<Rightarrow> map_option (map_prod (\<lambda>evs. evs @ [ev]) id) (sections n p s'))"

lemma sections_act [simp]:
  "sections (Suc n) (bind_prog (act f) q) s =
     (case f s of (ev, a, s') \<Rightarrow> map_option (map_prod (\<lambda>evs. evs @ [ev]) id) (sections n (q a) s'))"
  by (simp add: act_def split: prod.split)

lemma sections_await [simp]:
  "sections (Suc n) (bind_prog (await f) q) s =
     (case f s of None \<Rightarrow> None
      | Some (ev, a, s') \<Rightarrow> map_option (map_prod (\<lambda>evs. evs @ [ev]) id) (sections n (q a) s'))"
  by (simp add: await_def split: prod.split option.split)

lemma sections_bind:
  assumes "sections n p s = Some (evs, p', s')"
  shows "sections n (bind_prog p q) s = Some (evs, bind_prog p' q, s')"
  using assms by (induction n p s arbitrary: evs rule: sections.induct) (auto split: option.splits)

lemma pool_run_sections:
  assumes "pool_run c h (s, ps)" "i < length ps" "ps ! i = p" "sections n p s = Some (evs, p', s')"
  shows "pool_run c (map (Pair i) evs @ h) (s', ps[i := p'])"
  using assms
proof (induction n p s arbitrary: h ps evs rule: sections.induct)
  case (1 p s)
  then show ?case by (auto simp: list_update_same_conv)
next
  case (3 n f s)
  then obtain ev s1 p1 evs1 where f: "f s = Some (ev, s1, p1)" "sections n p1 s1 = Some (evs1, p', s')" "evs = evs1 @ [ev]"
    by (auto split: option.splits)
  have "pool_step (s, ps) (i, ev) (s1, ps[i := p1])"
    by (rule pool_step [OF 3(3,4)]) (use f(1) in simp)
  then have "pool_run c ((i, ev) # h) (s1, ps[i := p1])"
    by (rule pool_run_Cons [OF 3(2)])
  from 3(1) [OF f(1) _ _ this _ _ f(2)] show ?case
    using 3(3) f(3) by simp
qed simp

text \<open>A part of a thread's program that no other thread interrupts.\<close>

lemma pool_run_alone:
  assumes "pool_run c h (s, ps)" "i < length ps" "ps ! i = bind_prog p q" "run_alone p s = Some (a, s')"
  shows "\<exists>h'. pool_run c (h' @ h) (s', ps[i := q a])"
  using assms
proof (induction p arbitrary: h s ps rule: prog_induct)
  case (Return a)
  then have "ps[i := q a] = ps" by (auto intro: list_update_same_conv [THEN iffD2])
  then show ?case
    using Return by (intro exI [of _ "[]"]) auto
next
  case (Section f)
  then obtain ev s1 p1 where f: "f s = Some (ev, s1, p1)" "run_alone p1 s1 = Some (a, s')"
    by (cases "f s") auto
  have sec: "ps ! i = Section (\<lambda>s. map_option (map_prod id (map_prod id (\<lambda>p. bind_prog p q))) (f s))"
    using Section.prems(3) by simp
  have "pool_step (s, ps) (i, ev) (s1, ps[i := bind_prog p1 q])"
    by (rule pool_step [OF Section.prems(2) sec]) (simp add: f)
  then have "pool_run c ((i, ev) # h) (s1, ps[i := bind_prog p1 q])"
    by (rule pool_run_Cons [OF Section.prems(1)])
  from Section.IH [OF f(1) this _ _ f(2)] obtain h' where "pool_run c (h' @ (i, ev) # h) (s', ps[i := q a])"
    using Section.prems(2) by auto
  then have "pool_run c ((h' @ [(i, ev)]) @ h) (s', ps[i := q a])"
    by simp
  then show ?case ..
qed

lemma run_alone_sections: "sections n p s = Some (evs, p', s') \<Longrightarrow> run_alone p s = run_alone p' s'"
  by (induction n p s arbitrary: evs rule: sections.induct) (auto split: option.splits)

lemma bind_Return [simp]: "bind_prog p Return = p"
proof (induction p rule: prog_induct)
  case (Section f)
  have "map_option (map_prod id (map_prod id (\<lambda>p. bind_prog p Return))) (f s) = f s" for s
    using Section by (cases "f s") auto
  then show ?case by simp
qed simp

lemma pool_run_call:
  assumes "pool_run c h (s, ps)" "i < length ps" "run_alone (ps ! i) s = Some (r, s')"
  shows "\<exists>h'. pool_run c (h' @ h) (s', ps[i := Return r])"
  using pool_run_alone [OF assms(1,2) _ assms(3), of Return] by simp

section \<open>No pool runs forever\<close>

definition next_of :: "(('s, 'ev, 'a) prog \<times> ('s, 'ev, 'a) prog) set" where
  "next_of = {(p', Section f) | p' f. \<exists>s ev s'. f s = Some (ev, s', p')}"

lemma wf_next_of: "wf (next_of :: (('s, 'ev, 'a) prog \<times> ('s, 'ev, 'a) prog) set)"
proof (rule wfUNIVI)
  fix P :: "('s, 'ev, 'a) prog \<Rightarrow> bool" and p
  assume step: "\<forall>p. (\<forall>p'. (p', p) \<in> next_of \<longrightarrow> P p') \<longrightarrow> P p"
  show "P p"
  proof (induction p rule: prog_induct)
    case (Return a)
    show ?case
      by (rule step [rule_format]) (simp add: next_of_def)
  next
    case (Section f)
    show ?case
    proof (rule step [rule_format])
      fix p' assume "(p', Section f) \<in> next_of"
      then obtain s ev s' where "f s = Some (ev, s', p')" by (auto simp: next_of_def)
      then show "P p'" by (rule Section.IH)
    qed
  qed
qed

lemma pool_step_listrel1: "pool_step c l c' \<Longrightarrow> (snd c', snd c) \<in> listrel1 next_of"
proof (induction rule: pool_step.induct)
  case (pool_step i ps f s ev s' p)
  then have "(p, Section f) \<in> next_of" by (auto simp: next_of_def)
  then have "(take i ps @ p # drop (Suc i) ps, take i ps @ Section f # drop (Suc i) ps) \<in> listrel1 next_of"
    by (rule listrel1I) simp_all
  then show ?case
    using pool_step(1,2) by (metis snd_conv id_take_nth_drop upd_conv_take_nth_drop)
qed

lemma wf_pool_step: "wf {(c', c). \<exists>l. pool_step c l c'}"
  by (rule wf_subset [OF wf_inv_image [OF wf_listrel1_iff [THEN iffD2, OF wf_next_of], of snd]])
    (auto dest!: pool_step_listrel1 simp: inv_image_def)

lemma no_infinite_run: "\<not> (\<forall>n. \<exists>l. pool_step (c n) l (c (Suc n)))"
  using wf_pool_step unfolding wf_iff_no_infinite_down_chain by blast

text \<open>So every run goes on to one in which no thread can take another step.\<close>

lemma complete_run:
  assumes "pool_run c0 h c"
  shows "\<exists>h c. pool_run c0 h c \<and> (\<nexists>l c'. pool_step c l c')"
  using wf_pool_step assms
proof (induction c arbitrary: h rule: wf_induct_rule)
  case (less c)
  then show ?case
    by (blast intro: pool_run_Cons)
qed

section \<open>Sections that do what their events say\<close>

text \<open>
  \<open>good\<close> is an invariant of the shared state, \<open>look\<close> what matters of that state, \<open>effect\<close> what an
  event does to it, \<open>protocol\<close> which event a thread may produce after those it has produced, and
  \<open>waits\<close> when it may be waiting.  The sections may find the state in any shape the invariant
  allows: other threads may have run since the last one.
\<close>

inductive conforms ::
  "('s \<Rightarrow> bool) \<Rightarrow> ('s \<Rightarrow> 'v) \<Rightarrow> ('ev \<Rightarrow> 'v \<Rightarrow> 'v \<Rightarrow> bool) \<Rightarrow> ('ev list \<Rightarrow> 'ev \<Rightarrow> bool) \<Rightarrow> ('ev list \<Rightarrow> 'v \<Rightarrow> bool)
     \<Rightarrow> ('a \<Rightarrow> 'ev list \<Rightarrow> bool) \<Rightarrow> ('s, 'ev, 'a) prog \<Rightarrow> 'ev list \<Rightarrow> bool"
  for good look effect protocol waits Q where
  Return: "Q a L \<Longrightarrow> conforms good look effect protocol waits Q (Return a) L"
| Section: "(\<And>s ev s' p. good s \<Longrightarrow> f s = Some (ev, s', p) \<Longrightarrow>
       good s' \<and> effect ev (look s) (look s') \<and> protocol L ev) \<Longrightarrow>
     (\<And>s ev s' p. good s \<Longrightarrow> f s = Some (ev, s', p) \<Longrightarrow>
       conforms good look effect protocol waits Q p (ev # L)) \<Longrightarrow>
     (\<And>s. good s \<Longrightarrow> f s = None \<Longrightarrow> waits L (look s)) \<Longrightarrow>
     conforms good look effect protocol waits Q (Section f) L"

inductive_simps conforms_Return [simp]: "conforms good look effect protocol waits Q (Return a) L"
inductive_cases conforms_SectionE: "conforms good look effect protocol waits Q (Section f) L"

lemma conforms_bind:
  assumes "conforms good look effect protocol waits R p L"
    and "\<And>a L. R a L \<Longrightarrow> conforms good look effect protocol waits Q (q a) L"
  shows "conforms good look effect protocol waits Q (bind_prog p q) L"
  using assms(1)
proof induction
  case (Return a L)
  then show ?case by (simp add: assms(2))
next
  case (Section f L)
  show ?case
    unfolding bind_prog.simps
    by (rule conforms.Section) (use Section in \<open>auto dest!: map_option_eq_Some [THEN iffD1]\<close>)
qed

lemma conforms_act:
  fixes f :: "'s \<Rightarrow> 'ev \<times> 'a \<times> 's"
  assumes "\<And>s ev a s'. good s \<Longrightarrow> f s = (ev, a, s') \<Longrightarrow>
    good s' \<and> effect ev (look s) (look s') \<and> protocol L ev \<and> Q a (ev # L)"
  shows "conforms good look effect protocol waits Q (act f) L"
  unfolding act_def
proof (rule conforms.Section)
  fix s ev s' and p :: "('s, 'ev, 'a) prog"
  assume g: "good s" and "(case f s of (ev, a, s') \<Rightarrow> Some (ev, s', Return a)) = Some (ev, s', p)"
  then obtain a where "f s = (ev, a, s')" "p = Return a"
    by (auto split: prod.splits)
  with assms [OF g] show "good s' \<and> effect ev (look s) (look s') \<and> protocol L ev"
    and "conforms good look effect protocol waits Q p (ev # L)"
    by auto
qed (simp split: prod.splits)

lemma conforms_await:
  fixes f :: "'s \<Rightarrow> ('ev \<times> 'a \<times> 's) option"
  assumes "\<And>s ev a s'. good s \<Longrightarrow> f s = Some (ev, a, s') \<Longrightarrow>
      good s' \<and> effect ev (look s) (look s') \<and> protocol L ev \<and> Q a (ev # L)"
    and "\<And>s. good s \<Longrightarrow> f s = None \<Longrightarrow> waits L (look s)"
  shows "conforms good look effect protocol waits Q (await f) L"
  unfolding await_def
proof (rule conforms.Section)
  fix s ev s' and p :: "('s, 'ev, 'a) prog"
  assume g: "good s"
    and "(case f s of None \<Rightarrow> None | Some (ev, a, s') \<Rightarrow> Some (ev, s', Return a)) = Some (ev, s', p)"
  then obtain a where "f s = Some (ev, a, s')" "p = Return a"
    by (auto split: prod.splits option.splits)
  with assms(1) [OF g] show "good s' \<and> effect ev (look s) (look s') \<and> protocol L ev"
    and "conforms good look effect protocol waits Q p (ev # L)"
    by auto
qed (auto simp: assms(2) split: prod.splits option.splits)

text \<open>One section and what follows it.\<close>

lemma conforms_act_bind:
  assumes "\<And>s ev a s'. good s \<Longrightarrow> f s = (ev, a, s') \<Longrightarrow> good s' \<and> effect ev (look s) (look s') \<and> protocol L ev \<and>
    conforms good look effect protocol waits Q (q a) (ev # L)"
  shows "conforms good look effect protocol waits Q (bind_prog (act f) q) L"
  by (rule conforms_bind [where R = "\<lambda>a L. conforms good look effect protocol waits Q (q a) L"])
    (use assms in \<open>auto intro: conforms_act\<close>)

lemma conforms_await_bind:
  assumes "\<And>s ev a s'. good s \<Longrightarrow> f s = Some (ev, a, s') \<Longrightarrow> good s' \<and> effect ev (look s) (look s') \<and> protocol L ev \<and>
      conforms good look effect protocol waits Q (q a) (ev # L)"
    and "\<And>s. good s \<Longrightarrow> f s = None \<Longrightarrow> waits L (look s)"
  shows "conforms good look effect protocol waits Q (bind_prog (await f) q) L"
  by (rule conforms_bind [where R = "\<lambda>a L. conforms good look effect protocol waits Q (q a) L"])
    (use assms in \<open>auto intro: conforms_await\<close>)

lemma conforms_mono:
  assumes "conforms good look effect protocol waits R p L" and "\<And>a L. R a L \<Longrightarrow> Q a L"
  shows "conforms good look effect protocol waits Q p L"
  using assms(1)
proof induction
  case (Section f L)
  show ?case
    by (rule conforms.Section) (use Section in blast)+
qed (simp add: assms(2))

text \<open>Histories of effects: the specification of a pool.\<close>

inductive traced ::
  "('ev \<Rightarrow> 'v \<Rightarrow> 'v \<Rightarrow> bool) \<Rightarrow> ('ev list \<Rightarrow> 'ev \<Rightarrow> bool) \<Rightarrow> 'v \<Rightarrow> 'ev history \<Rightarrow> 'v \<Rightarrow> bool"
  for effect protocol v0 where
  traced_Nil: "traced effect protocol v0 [] v0"
| traced_Cons: "traced effect protocol v0 h v \<Longrightarrow> effect ev v v' \<Longrightarrow> protocol (own i h) ev \<Longrightarrow>
     traced effect protocol v0 ((i, ev) # h) v'"

inductive_cases traced_NilE: "traced effect protocol v0 [] v"
inductive_cases traced_ConsE: "traced effect protocol v0 (l # h) v"

lemma traced_suffix:
  assumes "traced effect protocol v0 (h' @ h) v"
  shows "\<exists>v1. traced effect protocol v0 h v1"
  using assms by (induction h' arbitrary: v) (auto elim: traced_ConsE)

locale thread_calls =
  fixes good :: "'s \<Rightarrow> bool"
    and look :: "'s \<Rightarrow> 'v"
    and effect :: "'ev \<Rightarrow> 'v \<Rightarrow> 'v \<Rightarrow> bool"
    and protocol :: "'ev list \<Rightarrow> 'ev \<Rightarrow> bool"
    and waits :: "'ev list \<Rightarrow> 'v \<Rightarrow> bool"
    and finished :: "'ev list \<Rightarrow> bool"
    and call_ok :: "'c \<Rightarrow> bool"
    and call :: "'c \<Rightarrow> ('s, 'ev, 'a) prog"
  assumes calls_conform: "call_ok c \<Longrightarrow> conforms good look effect protocol waits (\<lambda>_. finished) (call c) []"
begin

lemma pool_run_conforms:
  assumes "pool_run (s0, map call cs) h sp" and "good s0" and "\<forall>c\<in>set cs. call_ok c"
  shows "good (fst sp) \<and> traced effect protocol (look s0) h (look (fst sp)) \<and> length (snd sp) = length cs
    \<and> (\<forall>i<length cs. conforms good look effect protocol waits (\<lambda>_. finished) (snd sp ! i) (own i h))"
  using assms(1)
proof induction
  case pool_run_Nil
  then show ?case
    using assms(2,3) by (simp add: traced_Nil calls_conform)
next
  case (pool_run_Cons h c' l c'')
  from pool_run_Cons(2) obtain i ps f s ev s' p where st: "i < length ps" "ps ! i = Section f" "f s = Some (ev, s', p)"
    "c' = (s, ps)" "l = (i, ev)" "c'' = (s', ps[i := p])"
    by (auto elim: pool_stepE)
  have conf: "conforms good look effect protocol waits (\<lambda>_. finished) (Section f) (own i h)" and g: "good s"
    using pool_run_Cons.IH st(1,2,4) by auto
  have e: "good s' \<and> effect ev (look s) (look s') \<and> protocol (own i h) ev"
    "conforms good look effect protocol waits (\<lambda>_. finished) p (ev # own i h)"
    using conf g st(3) by (auto elim: conforms_SectionE)
  then show ?case
    using pool_run_Cons.IH st by (auto simp: nth_list_update intro: traced_Cons)
qed

lemma pool_step_effect:
  assumes "pool_run (s0, map call cs) h (s, ps)" and "good s0" and "\<forall>c\<in>set cs. call_ok c"
    and "pool_step (s, ps) (i, ev) (s', ps')"
  shows "effect ev (look s) (look s') \<and> protocol (own i h) ev"
proof -
  obtain f p where f: "i < length ps" "ps ! i = Section f" "f s = Some (ev, s', p)"
    using assms(4) by (auto elim: pool_stepE)
  have "good s" "conforms good look effect protocol waits (\<lambda>_. finished) (Section f) (own i h)"
    using pool_run_conforms [OF assms(1-3)] f(1,2) by auto
  then show ?thesis
    using f(3) by (auto elim: conforms_SectionE)
qed

text \<open>A pool that can go no further: every thread has returned or waits.\<close>

lemma stuck_threads:
  assumes "pool_run (s0, map call cs) h (s, ps)" and "good s0" and "\<forall>c\<in>set cs. call_ok c"
    and "\<nexists>l c. pool_step (s, ps) l c" and "i < length cs"
  shows "(\<exists>a. ps ! i = Return a) \<and> finished (own i h) \<or> waits (own i h) (look s)"
proof -
  have run: "good s" "length ps = length cs"
    "conforms good look effect protocol waits (\<lambda>_. finished) (ps ! i) (own i h)"
    using pool_run_conforms [OF assms(1-3)] assms(5) by auto
  show ?thesis
  proof (cases "ps ! i")
    case (Return a)
    then show ?thesis using run(3) by auto
  next
    case (Section f)
    have "f s = None"
    proof (rule ccontr)
      assume "f s \<noteq> None"
      then obtain ev s' p where "f s = Some (ev, s', p)" by auto
      then show False
        using pool_step [of i ps f s ev s' p] Section run(2) assms(4,5) by auto
    qed
    then show ?thesis
      using run(1,3) Section by (auto elim: conforms_SectionE)
  qed
qed

end

end
