(* ===== verification/EngineThreads.thy ===== *)
theory EngineThreads
  imports Threads EngineMap
begin

text \<open>
  The operations of the engine as threads run them (\<^verbatim>\<open>CacheEngine.cpp\<close>): one section per
  critical section of a shard's mutex, of \<^verbatim>\<open>journalMutex_\<close> or of \<^verbatim>\<open>admissionMutex_\<close>, per
  call of the backing store (which has a mutex of its own) and per access to an atomic variable.
  Between two sections any other thread may run.  The two waits on \<^verbatim>\<open>admissionDrainedCv_\<close> are
  sections that cannot run while their condition is false.

  \<^verbatim>\<open>options_\<close> and the number of shards never change and are read along with another section.
  \<^verbatim>\<open>StopBackgroundFlushThread\<close> is one section that does not wait for the background thread, so
  the pools have the runs in which that thread is caught in a \<^verbatim>\<open>FlushAll\<close>, and more.

  The theorem at the end says that the operation of a thread that is not interrupted is the
  operation of \<open>CacheEngine\<close>.
\<close>

section \<open>What a section did\<close>

datatype event =
  Silent
| Missed key u64
| StoreRead key "value"
| Filled key "value" u64
| Admitted
| Released
| Minted key "value" u64
| MintFailed u64
| Committed key "value" u64
| Superseded key u64
| Evicted
| FlushBegan key "value" u64
| Reverted key u64
| Stored key "value" u64
| FlushEnded key u64
| Logged CacheRecordType key u64
| Peeked key u64 bool
| Removed key
| Dropped key u64
| Paused
| Drained
| Scanned nat bool
| Truncated
| Resumed
| ShutdownBegan
| ShutdownEnded

type_synonym ('j, 'b, 'a) eprog = "(('j, 'b) CacheEngine, event, 'a) prog"

section \<open>FlushKey\<close>

definition count_section :: "(CacheStatistics \<Rightarrow> CacheStatistics) \<Rightarrow> ('j, 'b, unit) eprog" where
  "count_section f = act (\<lambda>e. (Silent, (), e\<lparr>stats := f (stats e)\<rparr>))"

text \<open>\<^verbatim>\<open>AppendJournalRecord\<close>, for the records without a value.\<close>

definition log_section :: "('j, 'b) Deps \<Rightarrow> CacheRecordType \<Rightarrow> key \<Rightarrow> u64 \<Rightarrow> ('j, 'b, unit result) eprog" where
  "log_section d t k ver =
     act (\<lambda>e. case AppendJournalRecord d (journal_record t k [] ver) e of
                (Inl er, e) \<Rightarrow> (Silent, Failure er, e)
              | (Inr _, e) \<Rightarrow> (Logged t k ver, Success (), e))"

definition flush_failed_prog :: "('j, 'b) Deps \<Rightarrow> key \<Rightarrow> u64 \<Rightarrow> Error \<Rightarrow> ('j, 'b, unit result) eprog" where
  "flush_failed_prog d k ver er =
     bind_prog (act (\<lambda>e. let i = ShardFor d e k
                        in (Reverted k ver, (), upd_shard i (RevertFlushInProgressLocked k ver (shards e ! i)) e))) (\<lambda>_.
     bind_prog (count_section (\<lambda>c. c\<lparr>flushFailureCount := flushFailureCount c + 1\<rparr>)) (\<lambda>_.
     Return (Failure er)))"

text \<open>From the call of the store on.\<close>

definition store_back_prog ::
  "('j, 'b) Deps \<Rightarrow> key \<Rightarrow> value \<Rightarrow> u64 \<Rightarrow> ('j, 'b, unit result) eprog" where
  "store_back_prog d k v ver =
     bind_prog (act (\<lambda>e. case Bs_Put (store_ops d) k v (backingStore e) of
                          (Inl er, b) \<Rightarrow> (Silent, Failure er, e\<lparr>backingStore := b\<rparr>)
                        | (Inr _, b) \<Rightarrow> (Stored k v ver, Success (), e\<lparr>backingStore := b\<rparr>))) (\<lambda>r. case r of
       Inl er \<Rightarrow> flush_failed_prog d k ver er
     | Inr _ \<Rightarrow>
     bind_prog (log_section d FlushComplete k ver) (\<lambda>r. case r of
       Inl er \<Rightarrow> flush_failed_prog d k ver er
     | Inr _ \<Rightarrow>
     bind_prog (act (\<lambda>e. let i = ShardFor d e k
                        in (FlushEnded k ver, (), upd_shard i (complete_flush k ver (shards e ! i)) e))) (\<lambda>_.
     bind_prog (count_section (\<lambda>c. c\<lparr>flushSuccessCount := flushSuccessCount c + 1\<rparr>)) (\<lambda>_.
     Return (Success ())))))"

definition write_back_prog ::
  "('j, 'b) Deps \<Rightarrow> key \<Rightarrow> value \<Rightarrow> u64 \<Rightarrow> ('j, 'b, unit result) eprog" where
  "write_back_prog d k v ver =
     bind_prog (log_section d FlushIntent k ver) (\<lambda>r. case r of
       Inl er \<Rightarrow> flush_failed_prog d k ver er
     | Inr _ \<Rightarrow> store_back_prog d k v ver)"

definition FlushKey_prog :: "('j, 'b) Deps \<Rightarrow> key \<Rightarrow> u64 \<Rightarrow> bool \<Rightarrow> ('j, 'b, unit result) eprog" where
  "FlushKey_prog d k expectedVersion checkVersion =
     bind_prog (act (\<lambda>e. let i = ShardFor d e k
                        in case begin_flush k expectedVersion checkVersion (shards e ! i) of
                             (FlushDone r, _) \<Rightarrow> (Silent, FlushDone r, e)
                           | (FlushValue v ver, s) \<Rightarrow> (FlushBegan k v ver, FlushValue v ver, upd_shard i s e)))
       (\<lambda>st. case st of FlushDone r \<Rightarrow> Return r | FlushValue v ver \<Rightarrow> write_back_prog d k v ver)"

section \<open>Get, Contains, GetEntryInfo\<close>

definition check_read :: "('j, 'b, unit result \<times> CacheEngineOptions \<times> nat) eprog" where
  "check_read = act (\<lambda>e. (Silent, (CheckReadyForRead e, options e, length (shards e)), e))"

definition check_write :: "('j, 'b, unit result \<times> CacheEngineOptions) eprog" where
  "check_write = act (\<lambda>e. (Silent, (CheckReadyForWrite e, options e), e))"

text \<open>The commit phase of a miss.\<close>

definition fill_prog :: "('j, 'b) Deps \<Rightarrow> key \<Rightarrow> u64 \<Rightarrow> value \<Rightarrow> ('j, 'b, value result) eprog" where
  "fill_prog d k fenceAtMiss v =
     act (\<lambda>e. let i = ShardFor d e k; (r, e') = read_fill i k fenceAtMiss v e
              in (if mutationFence (shards e ! i) = fenceAtMiss then Filled k v fenceAtMiss else Silent, r, e'))"

definition Get_prog :: "('j, 'b) Deps \<Rightarrow> key \<Rightarrow> ('j, 'b, value result) eprog" where
  "Get_prog d k =
     bind_prog check_read (\<lambda>(ready, opts, _). case ready of Inl er \<Rightarrow> Return (Failure er) | Inr _ \<Rightarrow>
     if \<not> enabled opts then Return (Failure (mkError CacheDisabled ''cache is disabled by configuration''))
     else
     bind_prog (act (\<lambda>e. let i = ShardFor d e k
                        in case find_entry (shards e ! i) k of
                             Some (n, en) \<Rightarrow> (case hit i n en e of (r, e) \<Rightarrow> (Silent, Inl r, e))
                           | None \<Rightarrow> (Missed k (mutationFence (shards e ! i)), Inr (mutationFence (shards e ! i)), e)))
     (\<lambda>looked. case looked of Inl r \<Rightarrow> Return r | Inr fenceAtMiss \<Rightarrow>
     bind_prog (count_section (\<lambda>c. c\<lparr>missCount := missCount c + 1\<rparr>)) (\<lambda>_.
     bind_prog (act (\<lambda>e. case Bs_Get (store_ops d) k (backingStore e) of
                          (Inl er, b) \<Rightarrow> (Silent, Inl er, e\<lparr>backingStore := b\<rparr>)
                        | (Inr v, b) \<Rightarrow> (StoreRead k v, Inr v, e\<lparr>backingStore := b\<rparr>)))
     (\<lambda>r. case r of Inl er \<Rightarrow> Return (Failure er) | Inr v \<Rightarrow>
     if length v > kMaxReasonableValueBytes then
       Return (Failure (mkError CorruptData
         ''backing store returned an implausibly large value; refusing to cache or trust it''))
     else fill_prog d k fenceAtMiss v))))"

definition Contains_prog :: "('j, 'b) Deps \<Rightarrow> key \<Rightarrow> ('j, 'b, bool) eprog" where
  "Contains_prog d k =
     bind_prog check_read (\<lambda>(ready, _, _). if \<not> IsOk ready then Return False else
     bind_prog (act (\<lambda>e. (Silent, map_of (sh_index (shards e ! ShardFor d e k)) k \<noteq> None, e))) (\<lambda>found.
     if found then Return True
     else act (\<lambda>e. (Silent, Bs_Contains (store_ops d) k (backingStore e), e))))"

definition GetEntryInfo_prog :: "('j, 'b) Deps \<Rightarrow> key \<Rightarrow> ('j, 'b, CacheEntryInfo result) eprog" where
  "GetEntryInfo_prog d k =
     bind_prog check_read (\<lambda>(ready, _, _). case ready of Inl er \<Rightarrow> Return (Failure er) | Inr _ \<Rightarrow>
     act (\<lambda>e. (Silent,
       case find_entry (shards e ! ShardFor d e k) k of
         None \<Rightarrow> Failure (mkError NotFound ''key not present in cache (may still be in backing store)'')
       | Some (_, en) \<Rightarrow>
           Success \<lparr>info_key = k, info_version = entry_version en, info_sizeBytes = length (entry_value en),
                    info_dirtyState = dirtyState en\<rparr>, e)))"

section \<open>Put and Invalidate\<close>

definition admit :: "('j, 'b, bool) eprog" where
  "admit = await (\<lambda>e. map_option (\<lambda>(ok, e). (if ok then Admitted else Silent, ok, e)) (TryAdmitWrite e))"

text \<open>The destructor of \<^verbatim>\<open>WriteAdmissionGuard\<close>.\<close>

definition release :: "'a \<Rightarrow> ('j, 'b, 'a) eprog" where
  "release r = bind_prog (act (\<lambda>e. (Released, (), ReleaseWriteAdmission e))) (\<lambda>_. Return r)"

text \<open>
  One turn of the loop of \<^verbatim>\<open>RelieveCapacityPressureIfNeeded\<close> begins with the choice of a key:
  \<open>None\<close> when the loop is over.
\<close>

definition pick_section :: "nat \<Rightarrow> ('j, 'b, (key \<times> nat) option) eprog" where
  "pick_section i =
     act (\<lambda>e. let s = shards e ! i
              in if \<not> over_budget (limits e) s then (Silent, None, e)
                 else if key_to_flush s = [] then (Evicted, None, evict_shard i e)
                 else (Silent, Some (key_to_flush s, dirtyCount s), e))"

primrec relieve_prog :: "('j, 'b) Deps \<Rightarrow> nat \<Rightarrow> nat \<Rightarrow> ('j, 'b, unit) eprog" where
  "relieve_prog d i 0 = Return ()"
| "relieve_prog d i (Suc n) =
     bind_prog (pick_section i) (\<lambda>picked. case picked of None \<Rightarrow> Return () | Some (keyToFlush, dirtyCountBefore) \<Rightarrow>
     bind_prog (FlushKey_prog d keyToFlush 0 False) (\<lambda>flushResult.
     bind_prog (act (\<lambda>e. let e = evict_shard i e in (Evicted, dirtyCount (shards e ! i), e))) (\<lambda>dirtyCountAfter.
     if \<not> IsOk flushResult then Return ()
     else if dirtyCountAfter \<ge> dirtyCountBefore then Return ()
     else relieve_prog d i n)))"

definition Put_admitted_prog :: "('j, 'b) Deps \<Rightarrow> key \<Rightarrow> value \<Rightarrow> ('j, 'b, unit result) eprog" where
  "Put_admitted_prog d k v =
     bind_prog (act (\<lambda>e. case AppendJournalRecordWithNewVersion d (journal_record Upsert k v 0) e of
                          ((Inl er, ver), e) \<Rightarrow> (MintFailed ver, Inl er, e)
                        | ((Inr _, ver), e) \<Rightarrow> (Minted k v ver, Inr ver, e)))
     (\<lambda>r. case r of Inl er \<Rightarrow> Return (Failure er) | Inr ver \<Rightarrow>
     bind_prog (act (\<lambda>e. let i = ShardFor d e k
                        in (if insert_stale (shards e ! i) k ver then Superseded k ver else Committed k v ver,
                            (i, writePolicy (options e)),
                            on_shard i (InsertOrUpdateLocked (limits e) k v ver Dirty True) e)))
     (\<lambda>(i, policy).
     bind_prog (relieve_prog d i kMaxFlushAttemptsPerCall) (\<lambda>_.
     if policy = WriteThrough then FlushKey_prog d k ver True else Return (Success ()))))"

definition Put_prog :: "('j, 'b) Deps \<Rightarrow> key \<Rightarrow> value \<Rightarrow> ('j, 'b, unit result) eprog" where
  "Put_prog d k v =
     bind_prog check_write (\<lambda>(ready, opts). case ready of Inl er \<Rightarrow> Return (Failure er) | Inr _ \<Rightarrow>
     if \<not> enabled opts then Return (Failure (mkError CacheDisabled ''cache is disabled by configuration''))
     else
     bind_prog admit (\<lambda>admitted. if \<not> admitted then Return not_admitted
     else bind_prog (Put_admitted_prog d k v) release))"

definition peek_section :: "('j, 'b) Deps \<Rightarrow> key \<Rightarrow> bool \<Rightarrow> ('j, 'b, u64 result) eprog" where
  "peek_section d k force =
     act (\<lambda>e. case find_entry (shards e ! ShardFor d e k) k of
                None \<Rightarrow> (Peeked k 0 force, Success 0, e)
              | Some (_, en) \<Rightarrow>
                  if \<not> force \<and> dirtyState en \<noteq> Clean then
                    (Silent, Failure (mkError_key UnflushedDirtyData (''refusing to invalidate '' @ [CHR 0x27]) k
                       ([CHR 0x27] @ '': it has unflushed dirty data (use ForceInvalidate to override)'')), e)
                  else (Peeked k (entry_version en) force, Success (entry_version en), e))"

definition Invalidate_admitted_prog :: "('j, 'b) Deps \<Rightarrow> key \<Rightarrow> bool \<Rightarrow> ('j, 'b, unit result) eprog" where
  "Invalidate_admitted_prog d k force =
     bind_prog (peek_section d k force) (\<lambda>r. case r of Inl er \<Rightarrow> Return (Failure er) | Inr ver \<Rightarrow>
     bind_prog (log_section d Invalidate k ver) (\<lambda>r. case r of Inl er \<Rightarrow> Return (Failure er) | Inr _ \<Rightarrow>
     bind_prog (act (\<lambda>e. case Bs_Remove (store_ops d) k (backingStore e) of
                          (Inl er, b) \<Rightarrow> (Silent, Failure er, e\<lparr>backingStore := b\<rparr>)
                        | (Inr _, b) \<Rightarrow> (Removed k, Success (), e\<lparr>backingStore := b\<rparr>)))
     (\<lambda>r. case r of Inl er \<Rightarrow> Return (Failure er) | Inr _ \<Rightarrow>
     bind_prog (act (\<lambda>e. let i = ShardFor d e k
                        in (Dropped k ver, (), upd_shard i (drop_entry k ver (shards e ! i)) e))) (\<lambda>_.
     bind_prog (count_section (\<lambda>c. c\<lparr>invalidationCount := invalidationCount c + 1\<rparr>)) (\<lambda>_.
     Return (Success ()))))))"

definition InvalidateImpl_prog :: "('j, 'b) Deps \<Rightarrow> key \<Rightarrow> bool \<Rightarrow> ('j, 'b, unit result) eprog" where
  "InvalidateImpl_prog d k force =
     bind_prog check_write (\<lambda>(ready, _). case ready of Inl er \<Rightarrow> Return (Failure er) | Inr _ \<Rightarrow>
     bind_prog admit (\<lambda>admitted. if \<not> admitted then Return not_admitted
     else bind_prog (Invalidate_admitted_prog d k force) release))"

section \<open>Flush, FlushAll and compaction\<close>

definition Flush_prog :: "('j, 'b) Deps \<Rightarrow> key \<Rightarrow> ('j, 'b, unit result) eprog" where
  "Flush_prog d k =
     bind_prog check_read (\<lambda>(ready, _, _). case ready of Inl er \<Rightarrow> Return (Failure er) | Inr _ \<Rightarrow>
     FlushKey_prog d k 0 False)"

primrec flush_keys_prog :: "('j, 'b) Deps \<Rightarrow> key list \<Rightarrow> Error option \<Rightarrow> ('j, 'b, Error option) eprog" where
  "flush_keys_prog d [] lastError = Return lastError"
| "flush_keys_prog d (k # ks) lastError =
     bind_prog (FlushKey_prog d k 0 False) (\<lambda>r. case r of
       Inl er \<Rightarrow> flush_keys_prog d ks (Some er)
     | Inr _ \<Rightarrow> flush_keys_prog d ks lastError)"

primrec flush_shards_prog :: "('j, 'b) Deps \<Rightarrow> nat list \<Rightarrow> Error option \<Rightarrow> ('j, 'b, Error option) eprog" where
  "flush_shards_prog d [] lastError = Return lastError"
| "flush_shards_prog d (i # is) lastError =
     bind_prog (act (\<lambda>e. (Silent, dirty_keys (shards e ! i), e))) (\<lambda>dirtyKeys.
     bind_prog (flush_keys_prog d dirtyKeys lastError) (\<lambda>lastError.
     flush_shards_prog d is lastError))"

text \<open>The loop that adds up \<^verbatim>\<open>remainingDirty\<close>, one shard at a time.\<close>

primrec scan_prog :: "nat list \<Rightarrow> nat \<Rightarrow> ('j, 'b, nat) eprog" where
  "scan_prog [] remainingDirty = Return remainingDirty"
| "scan_prog (i # is) remainingDirty =
     bind_prog (act (\<lambda>e. (Scanned i (dirtyCount (shards e ! i) = 0), dirtyCount (shards e ! i), e))) (\<lambda>n.
     scan_prog is (remainingDirty + n))"

text \<open>\<^verbatim>\<open>DrainInFlightWrites\<close>, with the number of shards for the loop that follows.\<close>

definition drain :: "('j, 'b, nat) eprog" where
  "drain = await (\<lambda>e. map_option (\<lambda>e. (Drained, length (shards e), e)) (DrainInFlightWrites e))"

definition resume :: "('j, 'b, unit) eprog" where
  "resume = act (\<lambda>e. (Resumed, (), e\<lparr>compactionPaused := False\<rparr>))"

text \<open>With \<^verbatim>\<open>journalMutex_\<close> held; \<open>True\<close> says that there was nothing to do and writers were let in again.\<close>

definition truncate_section :: "('j, 'b) Deps \<Rightarrow> ('j, 'b, bool) eprog" where
  "truncate_section d =
     act (\<lambda>e. if Jrn_RecordCount (journal_ops d) (journal e) = 0
              then (Resumed, True, e\<lparr>compactionPaused := False\<rparr>)
              else (Truncated, False, e\<lparr>journal := snd (Jrn_Truncate (journal_ops d) (journal e))\<rparr>))"

text \<open>From the end of the loop over the shards on.\<close>

definition compact_prog :: "('j, 'b) Deps \<Rightarrow> nat \<Rightarrow> ('j, 'b, unit) eprog" where
  "compact_prog d remainingDirty =
     (if remainingDirty = 0 then
        bind_prog (truncate_section d) (\<lambda>resumed. if resumed then Return () else resume)
      else resume)"

definition TryCompactJournalIfFullyClean_prog :: "('j, 'b) Deps \<Rightarrow> ('j, 'b, unit) eprog" where
  "TryCompactJournalIfFullyClean_prog d =
     bind_prog (act (\<lambda>e. (Silent, Jrn_RecordCount (journal_ops d) (journal e) = 0, e))) (\<lambda>empty.
     if empty then Return ()
     else
     bind_prog (act (\<lambda>e. (Paused, (), e\<lparr>compactionPaused := True\<rparr>))) (\<lambda>_.
     bind_prog drain (\<lambda>n.
     bind_prog (scan_prog [0..<n] 0) (compact_prog d))))"

definition FlushAll_prog :: "('j, 'b) Deps \<Rightarrow> ('j, 'b, unit result) eprog" where
  "FlushAll_prog d =
     bind_prog check_read (\<lambda>(ready, _, n). case ready of Inl er \<Rightarrow> Return (Failure er) | Inr _ \<Rightarrow>
     bind_prog (flush_shards_prog d [0..<n] None) (\<lambda>lastError. case lastError of
       Some er \<Rightarrow> Return (Failure er)
     | None \<Rightarrow> bind_prog (TryCompactJournalIfFullyClean_prog d) (\<lambda>_. Return (Success ()))))"

section \<open>Statistics, background flush and shutdown\<close>

primrec statistics_prog :: "nat list \<Rightarrow> CacheStatistics \<Rightarrow> ('j, 'b, CacheStatistics) eprog" where
  "statistics_prog [] c = Return c"
| "statistics_prog (i # is) c =
     bind_prog (act (\<lambda>e. (Silent, shards e ! i, e))) (\<lambda>s.
     statistics_prog is
       (c\<lparr>currentEntryCount := currentEntryCount c + of_nat (length (sh_index s)),
          currentMemoryBytes := currentMemoryBytes c + currentBytes s,
          dirtyEntryCount := dirtyEntryCount c + of_nat (dirtyCount s),
          stat_dirtyBytes := stat_dirtyBytes c + dirtyBytes s\<rparr>))"

text \<open>The counters are read one after the other; their values do not affect anything else.\<close>

definition GetStatistics_prog :: "('j, 'b, CacheStatistics) eprog" where
  "GetStatistics_prog =
     bind_prog (act (\<lambda>e. (Silent, (stats e, length (shards e)), e))) (\<lambda>(c, n).
     statistics_prog [0..<n]
       (c\<lparr>currentEntryCount := 0, currentMemoryBytes := 0, dirtyEntryCount := 0, stat_dirtyBytes := 0\<rparr>))"

definition background_flush_tick_prog :: "('j, 'b) Deps \<Rightarrow> ('j, 'b, bool) eprog" where
  "background_flush_tick_prog d =
     bind_prog (act (\<lambda>e. (Silent, backgroundFlushStopRequested e, e))) (\<lambda>stop.
     if stop then Return False
     else
     bind_prog (act (\<lambda>e. (Silent, lifecycle e, e))) (\<lambda>lifecycleNow.
     if lifecycleNow = Ready then bind_prog (FlushAll_prog d) (\<lambda>_. Return True)
     else Return True))"

definition Shutdown_prog :: "('j, 'b) Deps \<Rightarrow> ('j, 'b, unit result) eprog" where
  "Shutdown_prog d =
     bind_prog (act (\<lambda>e. if lifecycle e = Ready then (ShutdownBegan, None, e\<lparr>lifecycle := Stopping\<rparr>)
                        else (Silent, Some (if lifecycle e = Stopped \<or> lifecycle e = Stopping then Success ()
                          else Failure (mkError InvalidArgument ''cannot shut down an engine that was never marked ready'')), e)))
     (\<lambda>refused. case refused of Some r \<Rightarrow> Return r | None \<Rightarrow>
     bind_prog drain (\<lambda>_.
     bind_prog (act (\<lambda>e. (Silent, (), StopBackgroundFlushThread e))) (\<lambda>_.
     bind_prog (FlushAll_prog d) (\<lambda>_.
     bind_prog (act (\<lambda>e. (ShutdownEnded, length (shards e), e\<lparr>lifecycle := Stopped\<rparr>))) (\<lambda>n.
     bind_prog (scan_prog [0..<n] 0) (\<lambda>remainingDirty.
     if remainingDirty = 0 then
       act (\<lambda>e. (Truncated, Success (), e\<lparr>journal := snd (Jrn_Truncate (journal_ops d) (journal e))\<rparr>))
     else Return (Success ())))))))"

section \<open>Calls\<close>

datatype thread_call = Op engine_op | EntryInfo key | Statistics | ShutsDownEngine | BackgroundTick

datatype thread_reply =
  OpReply engine_reply | InfoReply "CacheEntryInfo result" | StatisticsReply CacheStatistics
| ShutdownReply "unit result" | TickReply bool

fun op_prog :: "('j, 'b) Deps \<Rightarrow> engine_op \<Rightarrow> ('j, 'b, engine_reply) eprog" where
  "op_prog d (EGet k) = bind_prog (Get_prog d k) (\<lambda>r. Return (RValue r))"
| "op_prog d (EContains k) = bind_prog (Contains_prog d k) (\<lambda>r. Return (RBool r))"
| "op_prog d (EPut k v) = bind_prog (Put_prog d k v) (\<lambda>r. Return (RUnit r))"
| "op_prog d (EInvalidate k) = bind_prog (InvalidateImpl_prog d k False) (\<lambda>r. Return (RUnit r))"
| "op_prog d (EForceInvalidate k) = bind_prog (InvalidateImpl_prog d k True) (\<lambda>r. Return (RUnit r))"
| "op_prog d (EFlush k) = bind_prog (Flush_prog d k) (\<lambda>r. Return (RUnit r))"
| "op_prog d EFlushAll = bind_prog (FlushAll_prog d) (\<lambda>r. Return (RUnit r))"

fun call_prog :: "('j, 'b) Deps \<Rightarrow> thread_call \<Rightarrow> ('j, 'b, thread_reply) eprog" where
  "call_prog d (Op x) = bind_prog (op_prog d x) (\<lambda>r. Return (OpReply r))"
| "call_prog d (EntryInfo k) = bind_prog (GetEntryInfo_prog d k) (\<lambda>r. Return (InfoReply r))"
| "call_prog d Statistics = bind_prog GetStatistics_prog (\<lambda>r. Return (StatisticsReply r))"
| "call_prog d ShutsDownEngine = bind_prog (Shutdown_prog d) (\<lambda>r. Return (ShutdownReply r))"
| "call_prog d BackgroundTick = bind_prog (background_flush_tick_prog d) (\<lambda>r. Return (TickReply r))"

text \<open>One thread per call, on the file-backed engine.\<close>

abbreviation engine_pool where
  "engine_pool h ord cs \<equiv> map (call_prog (portable_deps h ord)) cs"

text \<open>The same calls made by the only thread.\<close>

fun call_alone :: "('j, 'b) Deps \<Rightarrow> thread_call \<Rightarrow> ('j, 'b) CacheEngine \<Rightarrow> (thread_reply \<times> ('j, 'b) CacheEngine) option" where
  "call_alone d (Op x) e = map_option (map_prod OpReply id) (engine_step d x e)"
| "call_alone d (EntryInfo k) e = Some (InfoReply (GetEntryInfo d k e), e)"
| "call_alone d Statistics e = Some (StatisticsReply (GetStatistics e), e)"
| "call_alone d ShutsDownEngine e = map_option (map_prod ShutdownReply id) (Shutdown d e)"
| "call_alone d BackgroundTick e = map_option (map_prod TickReply id) (background_flush_tick d e)"

section \<open>A thread alone\<close>

lemmas alone_simps = run_alone_bind log_section_def count_section_def check_read_def check_write_def Let_def

lemma flush_failed_alone:
  "run_alone (flush_failed_prog d k ver er) e = Some (Failure er, flush_failed (ShardFor d e k) k ver e)"
  by (simp add: flush_failed_prog_def flush_failed_def alone_simps)

lemma write_back_alone:
  "run_alone (write_back_prog d k v ver) e = Some (write_back d (ShardFor d e k) k v ver e)"
  unfolding write_back_prog_def store_back_prog_def write_back_def
  by (auto simp: alone_simps flush_failed_alone flush_succeeded_def
      dest!: AppendJournalRecord_frame split: prod.splits sum.splits)

lemma FlushKey_alone: "run_alone (FlushKey_prog d k ev cv) e = Some (FlushKey d k ev cv e)"
  unfolding FlushKey_prog_def FlushKey_def
  by (auto simp: alone_simps write_back_alone split: prod.splits flush_start.splits)

lemma Get_alone: "run_alone (Get_prog d k) e = Some (CacheEngine_Get d k e)"
  unfolding Get_prog_def CacheEngine_Get_def
  by (auto simp: alone_simps fill_prog_def split: prod.splits sum.splits option.splits)

lemma Contains_alone: "run_alone (Contains_prog d k) e = Some (CacheEngine_Contains d k e, e)"
  unfolding Contains_prog_def CacheEngine_Contains_def
  by (simp add: alone_simps)

lemma GetEntryInfo_alone: "run_alone (GetEntryInfo_prog d k) e = Some (GetEntryInfo d k e, e)"
  unfolding GetEntryInfo_prog_def GetEntryInfo_def
  by (simp add: alone_simps split: sum.split)

lemma release_alone: "run_alone (release r) e = Some (r, ReleaseWriteAdmission e)"
  by (simp add: release_def alone_simps)

lemma relieve_alone: "run_alone (relieve_prog d i n) e = Some ((), relieve_attempts d i n e)"
  by (induction n arbitrary: e)
    (auto simp: alone_simps pick_section_def FlushKey_alone split: prod.split)

lemma relieve_options: "options (relieve_attempts d i n e) = options e"
proof -
  have log: "AppendJournalRecord d rec e = (r, e') \<Longrightarrow> options e' = options e" for rec r and e e' :: "('a, 'b) CacheEngine"
    by (auto dest: AppendJournalRecord_frame)
  have wback: "write_back d i k v ver e = (r, e') \<Longrightarrow> options e' = options e" for i k v ver r and e e' :: "('a, 'b) CacheEngine"
    by (auto simp: write_back_def flush_failed_def flush_succeeded_def Let_def dest!: log split: prod.splits sum.splits)
  have flush: "FlushKey d k ev cv e = (r, e') \<Longrightarrow> options e' = options e" for k ev cv r and e e' :: "('a, 'b) CacheEngine"
    by (auto simp: FlushKey_def Let_def dest!: wback split: prod.splits flush_start.splits)
  show ?thesis
    by (induction n arbitrary: e) (auto simp: Let_def evict_shard_def dest!: flush split: prod.splits)
qed

lemma Put_admitted_alone: "run_alone (Put_admitted_prog d k v) e = Some (Put_admitted d k v e)"
  unfolding Put_admitted_prog_def Put_admitted_def
  by (auto simp: alone_simps relieve_alone relieve_options FlushKey_alone RelieveCapacityPressureIfNeeded_def split: prod.splits sum.splits)

lemma Put_alone: "run_alone (Put_prog d k v) e = CacheEngine_Put d k v e"
  unfolding Put_prog_def CacheEngine_Put_def admit_def
  by (auto simp: alone_simps release_alone Put_admitted_alone split: prod.splits sum.splits option.splits bool.splits)

lemma Invalidate_admitted_alone:
  "run_alone (Invalidate_admitted_prog d k force) e = Some (Invalidate_admitted d k force e)"
proof -
  have rest: "run_alone (bind_prog (log_section d Invalidate k ver) q) e =
      (case AppendJournalRecord d (journal_record Invalidate k [] ver) e of
         (Inl er, e') \<Rightarrow> run_alone (q (Inl er)) e' | (Inr u, e') \<Rightarrow> run_alone (q (Inr ())) e')"
    for ver and q :: "unit result \<Rightarrow> ('a, 'b, unit result) eprog"
    by (simp add: alone_simps split: prod.split sum.split)
  show ?thesis
    unfolding Invalidate_admitted_prog_def Invalidate_admitted_def
    by (cases "find_entry (shards e ! ShardFor d e k) k")
      (auto simp: run_alone_bind [of "peek_section d k force"] peek_section_def rest,
       auto simp: alone_simps dest!: AppendJournalRecord_frame split: prod.splits sum.splits)
qed

lemma InvalidateImpl_alone: "run_alone (InvalidateImpl_prog d k force) e = InvalidateImpl d k force e"
  unfolding InvalidateImpl_prog_def InvalidateImpl_def admit_def
  by (auto simp: alone_simps release_alone Invalidate_admitted_alone split: prod.splits sum.splits option.splits bool.splits)

lemma Flush_alone: "run_alone (Flush_prog d k) e = Some (CacheEngine_Flush d k e)"
  unfolding Flush_prog_def CacheEngine_Flush_def
  by (simp add: alone_simps FlushKey_alone split: sum.split)

lemma flush_keys_alone: "run_alone (flush_keys_prog d ks le) e = Some (flush_keys d ks le e)"
  by (induction ks arbitrary: le e) (auto simp: alone_simps FlushKey_alone split: prod.split sum.split)

lemma flush_shards_alone: "run_alone (flush_shards_prog d is le) e = Some (flush_shards d is le e)"
  by (induction "is" arbitrary: le e) (auto simp: alone_simps flush_keys_alone split: prod.split)

lemma scan_alone: "run_alone (scan_prog is n) e = Some (n + sum_list (map (\<lambda>i. dirtyCount (shards e ! i)) is), e)"
  by (induction "is" arbitrary: n) (simp_all add: alone_simps)

lemma remaining_dirty_update [simp]:
  "remaining_dirty (e\<lparr>compactionPaused := x\<rparr>) = remaining_dirty e"
  "remaining_dirty (e\<lparr>lifecycle := y\<rparr>) = remaining_dirty e"
  by (simp_all add: remaining_dirty_def)

lemma map_nth_upt: "map (\<lambda>i. f (xs ! i)) [0..<length xs] = map f xs"
  by (rule nth_equalityI) simp_all

lemma scan_all: "sum_list (map (\<lambda>i. dirtyCount (shards e ! i)) [0..<length (shards e)]) = remaining_dirty e"
  by (simp add: remaining_dirty_def map_nth_upt)

lemma TryCompact_alone:
  "run_alone (TryCompactJournalIfFullyClean_prog d) e = map_option (Pair ()) (TryCompactJournalIfFullyClean d e)"
  unfolding TryCompactJournalIfFullyClean_prog_def TryCompactJournalIfFullyClean_def
  by (auto simp: alone_simps compact_prog_def drain_def resume_def truncate_section_def DrainInFlightWrites_def scan_alone scan_all split: prod.split)

lemma FlushAll_alone: "run_alone (FlushAll_prog d) e = FlushAll d e"
  unfolding FlushAll_prog_def FlushAll_def
  by (auto simp: alone_simps flush_shards_alone TryCompact_alone split: sum.split prod.split option.split)

lemma statistics_alone:
  "run_alone (statistics_prog is c) e =
     Some (c\<lparr>currentEntryCount := currentEntryCount c + sum_list (map (\<lambda>i. of_nat (length (sh_index (shards e ! i)))) is),
             currentMemoryBytes := currentMemoryBytes c + sum_list (map (\<lambda>i. currentBytes (shards e ! i)) is),
             dirtyEntryCount := dirtyEntryCount c + sum_list (map (\<lambda>i. of_nat (dirtyCount (shards e ! i))) is),
             stat_dirtyBytes := stat_dirtyBytes c + sum_list (map (\<lambda>i. dirtyBytes (shards e ! i)) is)\<rparr>, e)"
  by (induction "is" arbitrary: c) (simp_all add: alone_simps add.assoc)

lemma GetStatistics_alone: "run_alone GetStatistics_prog e = Some (GetStatistics e, e)"
  unfolding GetStatistics_prog_def GetStatistics_def
  by (simp add: alone_simps statistics_alone map_nth_upt [of "\<lambda>s. of_nat (length (sh_index s))"]
      map_nth_upt [of "\<lambda>s. of_nat (dirtyCount s)"] map_nth_upt)

lemma background_flush_tick_alone: "run_alone (background_flush_tick_prog d) e = background_flush_tick d e"
  unfolding background_flush_tick_prog_def background_flush_tick_def
  by (auto simp: alone_simps FlushAll_alone split: option.split)

lemma Shutdown_alone: "run_alone (Shutdown_prog d) e = Shutdown d e"
  unfolding Shutdown_prog_def Shutdown_def
  by (auto simp: alone_simps FlushAll_alone drain_def DrainInFlightWrites_def scan_alone scan_all split: option.split prod.split)

lemmas calls_alone = Get_alone Contains_alone Put_alone InvalidateImpl_alone Flush_alone FlushAll_alone
  GetEntryInfo_alone GetStatistics_alone background_flush_tick_alone Shutdown_alone


end
