(* ===== verification/EngineEvents.thy ===== *)
theory EngineEvents
  imports EngineThreads
begin

text \<open>
  What the sections of the engine's threads do, as a specification: of the engine's state only the
  cached entries, the fences, the map behind the store and the write-admission state are left
  (\<open>sview\<close>), each event has an effect on that (\<open>effect\<close>), and each thread produces its events in
  the order its operation has them (\<open>protocol\<close>).  The locale \<open>engine_env\<close> shows for any store and
  journal that meet their contracts that every section of every call conforms, whatever state the
  other threads left behind; the interpretation of \<open>thread_calls\<close> then turns every run of a pool
  into a history of effects.
\<close>

section \<open>The state that matters\<close>

record sview =
  v_cache :: "key \<rightharpoonup> Entry"
  v_fence :: "nat \<Rightarrow> u64"
  v_store :: "key \<rightharpoonup> value"
  v_counter :: u64
  v_lifecycle :: EngineLifecycle
  v_inflight :: nat
  v_paused :: bool

definition fence_of :: "Shard list \<Rightarrow> nat \<Rightarrow> u64" where
  "fence_of ss i = (if i < length ss then mutationFence (ss ! i) else 0)"

definition look :: "('j, 'b) Deps \<Rightarrow> ('b \<Rightarrow> key \<rightharpoonup> value) \<Rightarrow> ('j, 'b) CacheEngine \<Rightarrow> sview" where
  "look d A e =
     \<lparr>v_cache = cached d e, v_fence = fence_of (shards e),
      v_store = A (backingStore e), v_counter = globalVersionCounter e, v_lifecycle = lifecycle e,
      v_inflight = inFlightWriteCount e, v_paused = compactionPaused e\<rparr>"

definition stale_in :: "(key \<rightharpoonup> Entry) \<Rightarrow> key \<Rightarrow> u64 \<Rightarrow> bool" where
  "stale_in m k ver \<longleftrightarrow>
     (case m k of None \<Rightarrow> False
      | Some old \<Rightarrow> ver \<le> entry_version old \<and> \<not> (ver = 0 \<and> entry_version old = 0))"

definition bump :: "nat \<Rightarrow> sview \<Rightarrow> sview" where
  "bump i s = s\<lparr>v_fence := (v_fence s)(i := v_fence s i + 1)\<rparr>"

text \<open>An entry is put in, and clean ones may be evicted to make room.\<close>

definition inserted :: "(key \<Rightarrow> nat) \<Rightarrow> key \<Rightarrow> Entry \<Rightarrow> sview \<Rightarrow> sview \<Rightarrow> bool" where
  "inserted sh k en s s' \<longleftrightarrow>
     (\<exists>C. shrinks ((v_cache s)(k \<mapsto> en)) C \<and> s' = bump (sh k) (s\<lparr>v_cache := C\<rparr>))"

text \<open>The end of a flush of one version.\<close>

definition restate :: "key \<Rightarrow> u64 \<Rightarrow> EntryDirtyState \<Rightarrow> (key \<rightharpoonup> Entry) \<Rightarrow> key \<rightharpoonup> Entry" where
  "restate k ver st m =
     (case m k of None \<Rightarrow> m
      | Some en \<Rightarrow>
          if entry_version en = ver \<and> dirtyState en = FlushInProgress then m(k \<mapsto> en\<lparr>dirtyState := st\<rparr>) else m)"

definition dropped :: "key \<Rightarrow> u64 \<Rightarrow> (key \<rightharpoonup> Entry) \<Rightarrow> key \<rightharpoonup> Entry" where
  "dropped k ver m =
     (case m k of None \<Rightarrow> m | Some en \<Rightarrow> if entry_version en = ver then m(k := None) else m)"

abbreviation mk_entry :: "key \<Rightarrow> value \<Rightarrow> u64 \<Rightarrow> EntryDirtyState \<Rightarrow> Entry" where
  "mk_entry k v ver st \<equiv> \<lparr>entry_key = k, entry_value = v, entry_version = ver, dirtyState = st\<rparr>"

fun effect :: "(key \<Rightarrow> nat) \<Rightarrow> event \<Rightarrow> sview \<Rightarrow> sview \<Rightarrow> bool" where
  "effect sh Silent s s' \<longleftrightarrow> s' = s"
| "effect sh (Missed k f) s s' \<longleftrightarrow> s' = s \<and> v_cache s k = None \<and> v_fence s (sh k) = f"
| "effect sh (StoreRead k v) s s' \<longleftrightarrow> s' = s \<and> v_store s k = Some v"
| "effect sh (Filled k v f) s s' \<longleftrightarrow> v_fence s (sh k) = f \<and>
     (if stale_in (v_cache s) k 0 then s' = s else inserted sh k (mk_entry k v 0 Clean) s s')"
| "effect sh Admitted s s' \<longleftrightarrow>
     \<not> v_paused s \<and> v_lifecycle s = Ready \<and> s' = s\<lparr>v_inflight := v_inflight s + 1\<rparr>"
| "effect sh Released s s' \<longleftrightarrow> s' = s\<lparr>v_inflight := v_inflight s - 1\<rparr>"
| "effect sh (Minted k v ver) s s' \<longleftrightarrow> ver = v_counter s + 1 \<and> s' = s\<lparr>v_counter := ver\<rparr>"
| "effect sh (MintFailed ver) s s' \<longleftrightarrow> ver = v_counter s + 1 \<and> s' = s\<lparr>v_counter := ver\<rparr>"
| "effect sh (Committed k v ver) s s' \<longleftrightarrow>
     \<not> stale_in (v_cache s) k ver \<and> inserted sh k (mk_entry k v ver Dirty) s s'"
| "effect sh (Superseded k ver) s s' \<longleftrightarrow> stale_in (v_cache s) k ver \<and> s' = s"
| "effect sh Evicted s s' \<longleftrightarrow> (\<exists>C. shrinks (v_cache s) C \<and> s' = s\<lparr>v_cache := C\<rparr>)"
| "effect sh (FlushBegan k v ver) s s' \<longleftrightarrow>
     (\<exists>en. v_cache s k = Some en \<and> dirtyState en = Dirty \<and> entry_value en = v \<and> entry_version en = ver \<and>
        s' = s\<lparr>v_cache := (v_cache s)(k \<mapsto> en\<lparr>dirtyState := FlushInProgress\<rparr>)\<rparr>)"
| "effect sh (Reverted k ver) s s' \<longleftrightarrow> s' = s\<lparr>v_cache := restate k ver Dirty (v_cache s)\<rparr>"
| "effect sh (Stored k v ver) s s' \<longleftrightarrow> s' = s\<lparr>v_store := (v_store s)(k \<mapsto> v)\<rparr>"
| "effect sh (FlushEnded k ver) s s' \<longleftrightarrow> s' = s\<lparr>v_cache := restate k ver Clean (v_cache s)\<rparr>"
| "effect sh (Logged t k ver) s s' \<longleftrightarrow> s' = s"
| "effect sh (Peeked k ver force) s s' \<longleftrightarrow> s' = s \<and>
     (case v_cache s k of None \<Rightarrow> ver = 0
      | Some en \<Rightarrow> ver = entry_version en \<and> (force \<or> dirtyState en = Clean))"
| "effect sh (Removed k) s s' \<longleftrightarrow> s' = s\<lparr>v_store := (v_store s)(k := None)\<rparr>"
| "effect sh (Dropped k ver) s s' \<longleftrightarrow> s' = bump (sh k) (s\<lparr>v_cache := dropped k ver (v_cache s)\<rparr>)"
| "effect sh Paused s s' \<longleftrightarrow> s' = s\<lparr>v_paused := True\<rparr>"
| "effect sh Drained s s' \<longleftrightarrow> s' = s \<and> v_inflight s = 0"
| "effect sh (Scanned i z) s s' \<longleftrightarrow> s' = s \<and>
     (z \<longleftrightarrow> (\<forall>k en. sh k = i \<longrightarrow> v_cache s k = Some en \<longrightarrow> dirtyState en = Clean))"
| "effect sh Truncated s s' \<longleftrightarrow> s' = s"
| "effect sh Resumed s s' \<longleftrightarrow> s' = s\<lparr>v_paused := False\<rparr>"
| "effect sh ShutdownBegan s s' \<longleftrightarrow> v_lifecycle s = Ready \<and> s' = s\<lparr>v_lifecycle := Stopping\<rparr>"
| "effect sh ShutdownEnded s s' \<longleftrightarrow> s' = s\<lparr>v_lifecycle := Stopped\<rparr>"

section \<open>The order of a thread's events\<close>

text \<open>Between admission and release; between the pause and the end of a compaction.\<close>

fun in_write :: "event list \<Rightarrow> bool" where
  "in_write [] = False"
| "in_write (Admitted # L) = True"
| "in_write (Released # L) = False"
| "in_write (_ # L) = in_write L"

fun in_pause :: "event list \<Rightarrow> bool" where
  "in_pause [] = False"
| "in_pause (Paused # L) = True"
| "in_pause (Resumed # L) = False"
| "in_pause (_ # L) = in_pause L"

text \<open>
  The key a thread is changing: from the mint to the commit of a write, from the beginning to the end
  of a flush, from the first look at the entry to the end of an invalidation.
\<close>

fun working :: "key \<Rightarrow> event list \<Rightarrow> bool" where
  "working k [] = False"
| "working k (Minted k' v ver # L) = (k' = k)"
| "working k (FlushBegan k' v ver # L) = (k' = k)"
| "working k (Peeked k' ver force # L) = (k' = k)"
| "working k (Committed k' v ver # L) = False"
| "working k (Superseded k' ver # L) = False"
| "working k (FlushEnded k' ver # L) = False"
| "working k (Reverted k' ver # L) = False"
| "working k (Dropped k' ver # L) = False"
| "working k (Released # L) = False"
| "working k (_ # L) = working k L"

text \<open>This thread is the one that stopped the engine, and it has waited for the writers.\<close>

definition stop_drained :: "event list \<Rightarrow> bool" where
  "stop_drained L \<longleftrightarrow> (\<exists>A B. L = A @ Drained # ShutdownBegan # B)"

definition all_scanned :: "nat \<Rightarrow> event list" where
  "all_scanned n = rev (map (\<lambda>i. Scanned i True) [0..<n])"

fun protocol :: "nat \<Rightarrow> event list \<Rightarrow> event \<Rightarrow> bool" where
  "protocol n L (Filled k v f) \<longleftrightarrow> (\<exists>L'. L = StoreRead k v # Silent # Missed k f # L')"
| "protocol n L Admitted \<longleftrightarrow> \<not> in_write L \<and> \<not> in_pause L"
| "protocol n L Released \<longleftrightarrow> in_write L"
| "protocol n L (Minted k v ver) \<longleftrightarrow> in_write L"
| "protocol n L (Committed k v ver) \<longleftrightarrow> (\<exists>L'. L = Minted k v ver # L')"
| "protocol n L (Superseded k ver) \<longleftrightarrow> (\<exists>v L'. L = Minted k v ver # L')"
| "protocol n L (Stored k v ver) \<longleftrightarrow> (\<exists>L'. L = Logged FlushIntent k ver # FlushBegan k v ver # L')"
| "protocol n L (Reverted k ver) \<longleftrightarrow> working k L"
| "protocol n L (FlushEnded k ver) \<longleftrightarrow> (\<exists>v L'. L = Logged FlushComplete k ver # Stored k v ver # L')"
| "protocol n L (Logged t k ver) \<longleftrightarrow>
     (case t of Upsert \<Rightarrow> False
      | FlushIntent \<Rightarrow> (\<exists>v L'. L = FlushBegan k v ver # L')
      | FlushComplete \<Rightarrow> (\<exists>v L'. L = Stored k v ver # L')
      | Invalidate \<Rightarrow> (\<exists>force L'. L = Peeked k ver force # L'))"
| "protocol n L (Peeked k ver force) \<longleftrightarrow> in_write L"
| "protocol n L (Removed k) \<longleftrightarrow> (\<exists>ver force L'. L = Logged Invalidate k ver # Peeked k ver force # L')"
| "protocol n L (Dropped k ver) \<longleftrightarrow> (\<exists>force L'. L = Removed k # Logged Invalidate k ver # Peeked k ver force # L')"
| "protocol n L Paused \<longleftrightarrow> \<not> in_write L \<and> \<not> in_pause L"
| "protocol n L Drained \<longleftrightarrow> (\<exists>L'. L = Paused # L' \<or> L = ShutdownBegan # L')"
| "protocol n L Truncated \<longleftrightarrow> (\<exists>L'. L = all_scanned n @ Drained # Paused # L' \<or> L = all_scanned n @ ShutdownEnded # L')"
| "protocol n L Resumed \<longleftrightarrow> in_pause L"
| "protocol n L ShutdownBegan \<longleftrightarrow> \<not> in_write L \<and> \<not> in_pause L"
| "protocol n L ShutdownEnded \<longleftrightarrow> \<not> in_pause L \<and> stop_drained L"
| "protocol n L _ \<longleftrightarrow> True"

text \<open>A writer that was admitted never waits.\<close>

definition waits :: "event list \<Rightarrow> sview \<Rightarrow> bool" where
  "waits L s \<longleftrightarrow> \<not> in_write L \<and> (v_paused s \<and> \<not> in_pause L \<or> v_inflight s > 0)"

definition finished :: "event list \<Rightarrow> bool" where
  "finished L \<longleftrightarrow> \<not> in_write L \<and> \<not> in_pause L"

fun call_storable :: "thread_call \<Rightarrow> bool" where
  "call_storable (Op x) = engine_op_storable x"
| "call_storable _ = True"

text \<open>Sections of one operation that neither begin nor end a write or a pause.\<close>

definition extends :: "event list \<Rightarrow> event list \<Rightarrow> bool" where
  "extends L L' \<longleftrightarrow> (\<exists>A. L' = A @ L) \<and> in_write L' = in_write L \<and> in_pause L' = in_pause L"

lemma extends_refl [simp]: "extends L L"
  by (simp add: extends_def)

lemma extends_trans: "extends L L' \<Longrightarrow> extends L' L'' \<Longrightarrow> extends L L''"
  by (auto simp: extends_def)

lemma extends_Cons [simp]:
  "extends L L' \<Longrightarrow> ev \<notin> {Admitted, Released, Paused, Resumed} \<Longrightarrow> extends L (ev # L')"
  by (cases ev) (auto simp: extends_def)

section \<open>Every section conforms\<close>

lemma stale_insert: "insert_stale (shards e ! ShardFor d e k) k ver = stale_in (cached d e) k ver"
  by (simp add: insert_stale_def stale_in_def cached_def)

lemma look_update [simp]:
  "look d A (e\<lparr>stats := x1\<rparr>) = look d A e" "look d A (e\<lparr>journal := x2\<rparr>) = look d A e"
  "look d A (e\<lparr>backgroundFlushThread := x3\<rparr>) = look d A e" "look d A (e\<lparr>backgroundFlushStopRequested := x4\<rparr>) = look d A e"
  "look d A (e\<lparr>backingStore := b\<rparr>) = (look d A e)\<lparr>v_store := A b\<rparr>"
  "look d A (e\<lparr>lifecycle := lc\<rparr>) = (look d A e)\<lparr>v_lifecycle := lc\<rparr>"
  "look d A (e\<lparr>compactionPaused := p\<rparr>) = (look d A e)\<lparr>v_paused := p\<rparr>"
  "look d A (e\<lparr>inFlightWriteCount := m\<rparr>) = (look d A e)\<lparr>v_inflight := m\<rparr>"
  "look d A (e\<lparr>globalVersionCounter := ver\<rparr>) = (look d A e)\<lparr>v_counter := ver\<rparr>"
  by (simp_all add: look_def)

lemma look_simps [simp]:
  "v_cache (look d A e) = cached d e" "v_store (look d A e) = A (backingStore e)"
  "v_counter (look d A e) = globalVersionCounter e" "v_lifecycle (look d A e) = lifecycle e"
  "v_inflight (look d A e) = inFlightWriteCount e" "v_paused (look d A e) = compactionPaused e"
  by (simp_all add: look_def)

lemma shrinks_Some: "shrinks m m' \<Longrightarrow> m' k = Some en \<Longrightarrow> m k = Some en"
  unfolding shrinks_def by (metis option.distinct(1))

lemma fence_of_same: "mutationFence s = mutationFence (ss ! i) \<Longrightarrow> fence_of (ss[i := s]) = fence_of ss"
  by (rule ext) (metis fence_of_def length_list_update nth_list_update_eq nth_list_update_neq)

lemma clean_shard_iff:
  assumes "shard_inv s"
  shows "dirtyCount s = 0 \<longleftrightarrow> (\<forall>k en. shard_map s k = Some en \<longrightarrow> dirtyState en = Clean)"
proof -
  have "dirtyCount s = 0 \<longleftrightarrow> (\<forall>en\<in>set (entries s). dirtyState en = Clean)"
    using shard_invD(8) [OF assms] by (auto simp: filter_empty_conv dirty_def)
  also have "... \<longleftrightarrow> (\<forall>k en. shard_map s k = Some en \<longrightarrow> dirtyState en = Clean)"
    using shard_map_find [OF assms] find_entry_iff [OF assms] by (auto simp: mem_entries)
  finally show ?thesis .
qed

context engine_env
begin

definition good :: "nat \<Rightarrow> ('j, 'b) CacheEngine \<Rightarrow> bool" where
  "good n e \<longleftrightarrow> shards_inv d e \<and> inv (backingStore e) \<and> length (shards e) = n \<and>
     (\<forall>k en. cached d e k = Some en \<longrightarrow> entry_key en = k \<and> storable k \<and> storable (entry_value en))"

abbreviation shard_no :: "nat \<Rightarrow> key \<Rightarrow> nat" where
  "shard_no n \<equiv> \<lambda>k. hash d k mod n"

abbreviation obeys :: "nat \<Rightarrow> ('a \<Rightarrow> event list \<Rightarrow> bool) \<Rightarrow> ('j, 'b, 'a) eprog \<Rightarrow> event list \<Rightarrow> bool" where
  "obeys n \<equiv> conforms (good n) (look d abs) (effect (shard_no n)) (protocol n) waits"

lemma goodD:
  assumes "good n e"
  shows "shards_inv d e" "inv (backingStore e)" "length (shards e) = n" "ShardFor d e = shard_no n"
    "\<And>k en. cached d e k = Some en \<Longrightarrow> entry_key en = k \<and> storable k \<and> storable (entry_value en)"
  using assms by (auto simp: good_def ShardFor_def)

lemma good_update [simp]:
  "good n (e\<lparr>stats := x1\<rparr>) = good n e" "good n (e\<lparr>journal := x2\<rparr>) = good n e"
  "good n (e\<lparr>backgroundFlushThread := x3\<rparr>) = good n e" "good n (e\<lparr>backgroundFlushStopRequested := x4\<rparr>) = good n e"
  "good n (e\<lparr>lifecycle := lc\<rparr>) = good n e" "good n (e\<lparr>compactionPaused := p\<rparr>) = good n e"
  "good n (e\<lparr>inFlightWriteCount := m\<rparr>) = good n e" "good n (e\<lparr>globalVersionCounter := ver\<rparr>) = good n e"
  by (simp_all add: good_def)

lemma good_store: "good n e \<Longrightarrow> inv b \<Longrightarrow> good n (e\<lparr>backingStore := b\<rparr>)"
  by (simp add: good_def)

text \<open>A locked section that changes at most the entry of \<open>k\<close>.\<close>

lemma good_upd_one:
  assumes g: "good n e" and s: "shard_inv s" "shard_map s = (shard_map (shards e ! ShardFor d e k))(k := x)"
    and x: "\<And>en. x = Some en \<Longrightarrow> entry_key en = k \<and> storable k \<and> storable (entry_value en)"
  shows "good n (upd_shard (ShardFor d e k) s e)"
    and "look d abs (upd_shard (ShardFor d e k) s e) = (look d abs e)
      \<lparr>v_cache := (cached d e)(k := x), v_fence := (v_fence (look d abs e))(shard_no n k := mutationFence s)\<rparr>"
proof -
  note u = upd_one_correct [OF goodD(1) [OF g] s]
  show "good n (upd_shard (ShardFor d e k) s e)"
    using u goodD [OF g] x by (auto simp: good_def)
  have "ShardFor d e k < n"
    using ShardFor_less [OF goodD(1) [OF g]] goodD(3) [OF g] by simp
  then show "look d abs (upd_shard (ShardFor d e k) s e) = (look d abs e)
      \<lparr>v_cache := (cached d e)(k := x), v_fence := (v_fence (look d abs e))(shard_no n k := mutationFence s)\<rparr>"
    using u goodD(3,4) [OF g] by (auto simp: look_def upd_shard_def fence_of_def fun_eq_iff)
qed

lemma look_fence: "good n e \<Longrightarrow> v_fence (look d abs e) (shard_no n k) = mutationFence (shards e ! ShardFor d e k)"
  using ShardFor_less [OF goodD(1), of n e k] goodD(3,4) [of n e] by (simp add: look_def fence_of_def)

lemma good_upd_same_fence:
  assumes "good n e" "shard_inv s" "shard_map s = (shard_map (shards e ! ShardFor d e k))(k := x)"
    and "\<And>en. x = Some en \<Longrightarrow> entry_key en = k \<and> storable k \<and> storable (entry_value en)"
    and "mutationFence s = mutationFence (shards e ! ShardFor d e k)"
  shows "good n (upd_shard (ShardFor d e k) s e) \<and>
    look d abs (upd_shard (ShardFor d e k) s e) = (look d abs e)\<lparr>v_cache := (cached d e)(k := x)\<rparr>"
  using good_upd_one [OF assms(1-4)] look_fence [OF assms(1), of k] assms(5) by (simp add: fun_upd_idem)

lemma good_shrinks:
  assumes "good n e" "shards_inv d e'" "shrinks (cached d e) (cached d e')" "backingStore e' = backingStore e"
    "length (shards e') = length (shards e)"
  shows "good n e'"
  using assms unfolding good_def by (auto dest!: shrinks_Some [OF assms(3)])

lemma find_entry_good:
  assumes "good n e"
  shows "find_entry (shards e ! ShardFor d e k) k = Some (i, en) \<Longrightarrow>
      cached d e k = Some en \<and> (i, en) \<in> set (lru (shards e ! ShardFor d e k))"
    and "find_entry (shards e ! ShardFor d e k) k = None \<longleftrightarrow> cached d e k = None"
  using found_entry [OF shards_inv_shard [OF goodD(1) [OF assms]], of k k i en]
    not_found [OF shards_inv_shard [OF goodD(1) [OF assms]], of k k] by (simp_all add: cached_def)

text \<open>The sections that insert an entry or evict some.\<close>

lemma insert_section:
  assumes g: "good n e" and sto: "storable k" "storable v"
    and e': "e' = on_shard (ShardFor d e k) (InsertOrUpdateLocked (limits e) k v ver st True) e"
  shows "good n e' \<and> (if stale_in (cached d e) k ver then look d abs e' = look d abs e
    else inserted (shard_no n) k (mk_entry k v ver st) (look d abs e) (look d abs e'))"
proof -
  let ?i = "ShardFor d e k"
  obtain s c where ins: "InsertOrUpdateLocked (limits e) k v ver st True (shards e ! ?i, stats e) = (s, c)"
    by (cases "InsertOrUpdateLocked (limits e) k v ver st True (shards e ! ?i, stats e)") auto
  have si: "shard_inv (shards e ! ?i)"
    by (rule shards_inv_shard [OF goodD(1) [OF g]])
  have len: "?i < n" "?i = shard_no n k"
    using ShardFor_less [OF goodD(1) [OF g]] goodD(3,4) [OF g] by simp_all
  show ?thesis
  proof (cases "stale_in (cached d e) k ver")
    case True
    then have "(s, c) = (shards e ! ?i, stats e)"
      using InsertOrUpdateLocked_stale [OF _ si] ins stale_insert by metis
    then have "e' = e"
      using ins by (simp add: e' on_shard_def upd_shard_def)
    then show ?thesis
      using g True by simp
  next
    case False
    have c: "shards_inv d e' \<and> shrinks ((cached d e)(k \<mapsto> mk_entry k v ver st)) (cached d e')"
      by (rule insert_correct [OF goodD(1) [OF g] _ e']) (use False in \<open>simp add: stale_in_def\<close>)
    have "mutationFence s = mutationFence (shards e ! ?i) + 1"
      using InsertOrUpdateLocked_correct [OF si _ ins] False stale_insert by metis
    then have "look d abs e' = bump (shard_no n k) ((look d abs e)\<lparr>v_cache := cached d e'\<rparr>)"
      using ins len goodD(3) [OF g] by (auto simp: look_def bump_def e' on_shard_def upd_shard_def fence_of_def fun_eq_iff)
    moreover have "good n e'"
      using c goodD [OF g] sto
      by (auto simp: good_def e' dest!: shrinks_Some [of "(cached d e)(k \<mapsto> mk_entry k v ver st)"] split: if_splits)
    ultimately show ?thesis
      using False c by (auto simp: inserted_def)
  qed
qed

lemma evict_section:
  assumes g: "good n e" and i: "i = shard_no n k"
  shows "good n (evict_shard i e) \<and> effect sh Evicted (look d abs e) (look d abs (evict_shard i e))"
proof -
  have i': "i = ShardFor d e k"
    using i goodD(4) [OF g] by simp
  obtain s c where ev: "EvictCleanEntriesLocked (limits e) (shards e ! i, stats e) = (s, c)"
    by (cases "EvictCleanEntriesLocked (limits e) (shards e ! i, stats e)") auto
  have "mutationFence s = mutationFence (shards e ! i)"
    using EvictCleanEntriesLocked_correct [OF shards_inv_shard [OF goodD(1) [OF g]] ev [unfolded i']] by (simp add: i')
  then have "look d abs (evict_shard i e) = (look d abs e)\<lparr>v_cache := cached d (evict_shard i e)\<rparr>"
    using ev by (simp add: look_def evict_shard_def on_shard_def upd_shard_def fence_of_same)
  moreover have c: "shards_inv d (evict_shard i e)" "shrinks (cached d e) (cached d (evict_shard i e))"
    using evict_shard_correct [OF goodD(1) [OF g], of k] by (simp_all add: i')
  moreover have "good n (evict_shard i e)"
    by (rule good_shrinks [OF g c]) (simp_all add: evict_shard_def)
  ultimately show ?thesis by auto
qed

text \<open>The small programs.\<close>

lemma count_obeys: "obeys n Q (q ()) (Silent # L) \<Longrightarrow> obeys n Q (bind_prog (count_section f) q) L"
  unfolding count_section_def by (rule conforms_act_bind) auto

lemma log_obeys:
  assumes "protocol n L (Logged t k ver)" "\<And>er. obeys n Q (q (Inl er)) (Silent # L)"
    "obeys n Q (q (Inr ())) (Logged t k ver # L)"
  shows "obeys n Q (bind_prog (log_section d t k ver) q) L"
  unfolding log_section_def
  by (rule conforms_act_bind) (use assms in \<open>auto dest!: AppendJournalRecord_frame split: prod.splits sum.splits\<close>)

lemma check_read_obeys:
  "(\<And>r opts. obeys n Q (q (r, opts, n)) (Silent # L)) \<Longrightarrow> obeys n Q (bind_prog check_read q) L"
  unfolding check_read_def by (rule conforms_act_bind) (auto dest: goodD(3))

lemma check_write_obeys:
  "(\<And>r opts. obeys n Q (q (r, opts)) (Silent # L)) \<Longrightarrow> obeys n Q (bind_prog check_write q) L"
  unfolding check_write_def by (rule conforms_act_bind) auto

lemma restate_upd:
  "restate k ver st m = m(k := (case m k of None \<Rightarrow> None
     | Some en \<Rightarrow> Some (if entry_version en = ver \<and> dirtyState en = FlushInProgress then en\<lparr>dirtyState := st\<rparr> else en)))"
  by (auto simp: restate_def fun_eq_iff split: option.split)

lemma good_restate:
  assumes g: "good n e" and s: "shard_inv s" "mutationFence s = mutationFence (shards e ! ShardFor d e k)"
    "shard_map s = restate k ver st (shard_map (shards e ! ShardFor d e k))"
  shows "good n (upd_shard (ShardFor d e k) s e) \<and> look d abs (upd_shard (ShardFor d e k) s e) =
    (look d abs e)\<lparr>v_cache := restate k ver st (cached d e)\<rparr>"
proof -
  have c: "shard_map (shards e ! ShardFor d e k) k = cached d e k"
    by (simp add: cached_def)
  show ?thesis
    unfolding restate_upd [of _ _ _ "cached d e"]
    by (rule good_upd_same_fence [OF g s(1) s(3) [unfolded restate_upd c] _ s(2)])
      (use goodD(5) [OF g] in \<open>auto split: option.splits if_splits\<close>)
qed

lemma revert_restate:
  assumes "shard_inv s"
  shows "shard_inv (RevertFlushInProgressLocked k ver s)"
    "mutationFence (RevertFlushInProgressLocked k ver s) = mutationFence s"
    "shard_map (RevertFlushInProgressLocked k ver s) = restate k ver Dirty (shard_map s)"
  using RevertFlushInProgressLocked_correct [OF assms, of k ver]
  by (auto simp: restate_def split: option.splits if_splits)
    (auto simp: RevertFlushInProgressLocked_def set_node_def split: option.split prod.split)

lemma complete_restate:
  assumes "shard_inv s"
  shows "shard_inv (complete_flush k ver s)" "mutationFence (complete_flush k ver s) = mutationFence s"
    "shard_map (complete_flush k ver s) = restate k ver Clean (shard_map s)"
  using complete_flush_correct [OF assms, of k ver]
  by (auto simp: restate_def split: option.splits if_splits)
    (auto simp: complete_flush_def set_node_def split: option.split prod.split)

lemma revert_section:
  assumes g: "good n e" and e': "e' = upd_shard (ShardFor d e k) (RevertFlushInProgressLocked k ver (shards e ! ShardFor d e k)) e"
  shows "good n e' \<and> look d abs e' = (look d abs e)\<lparr>v_cache := restate k ver Dirty (cached d e)\<rparr>"
proof -
  note s = revert_restate [OF shards_inv_shard [OF goodD(1) [OF g]], of k ver k]
  show ?thesis
    unfolding e' by (rule good_restate [OF g s])
qed

lemma complete_section:
  assumes g: "good n e" and e': "e' = upd_shard (ShardFor d e k) (complete_flush k ver (shards e ! ShardFor d e k)) e"
  shows "good n e' \<and> look d abs e' = (look d abs e)\<lparr>v_cache := restate k ver Clean (cached d e)\<rparr>"
proof -
  note s = complete_restate [OF shards_inv_shard [OF goodD(1) [OF g]], of k ver k]
  show ?thesis
    unfolding e' by (rule good_restate [OF g s])
qed

lemma flush_failed_obeys:
  assumes "\<And>r. Q r (Silent # Reverted k ver # L)" and "working k L"
  shows "obeys n Q (flush_failed_prog d k ver er) L"
  unfolding flush_failed_prog_def
  by (rule conforms_act_bind)
    (use revert_section [OF _ refl] assms in \<open>auto simp: Let_def intro!: count_obeys\<close>)

lemma write_back_obeys:
  fixes ver :: u64 and L :: "event list"
  assumes sto: "storable k" "storable v"
  defines "L0 \<equiv> FlushBegan k v ver # L"
  shows "obeys n (\<lambda>_. extends L0) (write_back_prog d k v ver) L0"
proof -
  let ?L1 = "Logged FlushIntent k ver # L0" and ?L2 = "Stored k v ver # Logged FlushIntent k ver # L0"
  have busy: "working k L0" by (simp add: L0_def)
  have failed: "obeys n (\<lambda>_. extends L0) (flush_failed_prog d k ver er) L'" if "extends L0 L'" "working k L'" for er L'
    by (rule flush_failed_obeys) (use that in \<open>auto intro!: extends_Cons\<close>)
  have ended: "obeys n (\<lambda>_. extends L0)
      (bind_prog (act (\<lambda>e. let i = ShardFor d e k
         in (FlushEnded k ver, (), upd_shard i (complete_flush k ver (shards e ! i)) e))) (\<lambda>_.
       bind_prog (count_section f) (\<lambda>_. Return (Success ())))) (Logged FlushComplete k ver # ?L2)" for f
    by (rule conforms_act_bind)
      (use complete_section [OF _ refl] in \<open>auto simp: Let_def intro!: count_obeys extends_Cons\<close>)
  have put: "obeys n (\<lambda>_. extends L0)
      (bind_prog (act (\<lambda>e. case Bs_Put (store_ops d) k v (backingStore e) of
                  (Inl er, b) \<Rightarrow> (Silent, Failure er, e\<lparr>backingStore := b\<rparr>)
                | (Inr _, b) \<Rightarrow> (Stored k v ver, Success (), e\<lparr>backingStore := b\<rparr>))) q) ?L1"
    if "\<And>er. obeys n (\<lambda>_. extends L0) (q (Inl er)) (Silent # ?L1)" "obeys n (\<lambda>_. extends L0) (q (Inr ())) ?L2" for q
    by (rule conforms_act_bind)
      (use that in \<open>auto simp: L0_def dest: st.put_err [OF goodD(2)] st.put_ok [OF goodD(2) sto] good_store
         split: prod.splits sum.splits\<close>)
  have p: "protocol n L0 (Logged FlushIntent k ver)" "protocol n ?L2 (Logged FlushComplete k ver)"
    by (simp_all add: L0_def)
  have logged: "obeys n (\<lambda>_. extends L0)
      (bind_prog (log_section d FlushComplete k ver) (\<lambda>r. case r of
         Inl er \<Rightarrow> flush_failed_prog d k ver er
       | Inr _ \<Rightarrow> bind_prog (act (\<lambda>e. let i = ShardFor d e k
            in (FlushEnded k ver, (), upd_shard i (complete_flush k ver (shards e ! i)) e))) (\<lambda>_.
          bind_prog (count_section f) (\<lambda>_. Return (Success ()))))) ?L2" for f
    by (rule log_obeys [OF p(2)]) (simp_all add: ended failed extends_Cons busy)
  show ?thesis
    unfolding write_back_prog_def store_back_prog_def
    by (rule log_obeys [OF p(1)], simp_all add: failed extends_Cons busy)
      (rule put, simp_all add: logged failed extends_Cons busy)
qed

lemma FlushKey_obeys: "obeys n (\<lambda>_. extends L) (FlushKey_prog d k ev cv) L"
  unfolding FlushKey_prog_def
proof (rule conforms_act_bind)
  fix e evt st e'
  assume g: "good n e" and sec: "(let i = ShardFor d e k
      in case begin_flush k ev cv (shards e ! i) of
           (FlushDone r, _) \<Rightarrow> (Silent, FlushDone r, e)
         | (FlushValue v ver, s) \<Rightarrow> (FlushBegan k v ver, FlushValue v ver, upd_shard i s e)) = (evt, st, e')"
  let ?i = "ShardFor d e k"
  obtain b s where bf: "begin_flush k ev cv (shards e ! ?i) = (b, s)"
    by (cases "begin_flush k ev cv (shards e ! ?i)") auto
  note cor = begin_flush_correct [OF shards_inv_shard [OF goodD(1) [OF g]] bf]
  show "good n e' \<and> effect (shard_no n) evt (look d abs e) (look d abs e') \<and> protocol n L evt \<and>
      obeys n (\<lambda>_. extends L) (case st of FlushDone r \<Rightarrow> Return r | FlushValue v ver \<Rightarrow> write_back_prog d k v ver) (evt # L)"
  proof (cases b)
    case (FlushDone r)
    then show ?thesis
      using sec bf g by (auto intro: extends_Cons)
  next
    case (FlushValue v ver)
    then obtain en where en: "cached d e k = Some en" "dirtyState en = Dirty" "entry_value en = v" "entry_version en = ver"
      "shard_map s = (shard_map (shards e ! ?i))(k \<mapsto> en\<lparr>dirtyState := FlushInProgress\<rparr>)" "shard_inv s"
      "mutationFence s = mutationFence (shards e ! ?i)"
      using cor by (auto simp: cached_def)
    have ok: "entry_key en = k" "storable k" "storable v"
      using goodD(5) [OF g en(1)] en(3) by auto
    have u: "good n (upd_shard ?i s e) \<and> look d abs (upd_shard ?i s e) =
        (look d abs e)\<lparr>v_cache := (cached d e)(k := Some (en\<lparr>dirtyState := FlushInProgress\<rparr>))\<rparr>"
      by (rule good_upd_same_fence [OF g en(6,5) _ en(7)]) (use ok en(3) in auto)
    have "obeys n (\<lambda>_. extends L) (write_back_prog d k v ver) (FlushBegan k v ver # L)"
      by (rule conforms_mono [OF write_back_obeys [OF ok(2,3)]]) (auto intro: extends_trans [OF extends_Cons [OF extends_refl]])
    then show ?thesis
      using sec bf FlushValue u en(1-4) by auto
  qed
qed

lemma hit_section:
  assumes g: "good n e" and f: "find_entry (shards e ! ShardFor d e k) k = Some (m, en)"
    and h: "hit (ShardFor d e k) m en e = (r, e')"
  shows "good n e' \<and> look d abs e' = look d abs e"
proof -
  let ?i = "ShardFor d e k"
  let ?s = "splice_front m en (shards e ! ?i)"
  note c = find_entry_good(1) [OF g f]
  have "shard_inv ?s" "shard_map ?s = (shard_map (shards e ! ?i))(k := cached d e k)"
    using splice_front_correct [OF shards_inv_shard [OF goodD(1) [OF g]]] c by (auto simp: cached_def)
  then have "good n (upd_shard ?i ?s e) \<and> look d abs (upd_shard ?i ?s e) = (look d abs e)\<lparr>v_cache := (cached d e)(k := cached d e k)\<rparr>"
    by (rule good_upd_same_fence [OF g]) (use goodD(5) [OF g] in \<open>auto simp: splice_front_def\<close>)
  moreover have "e' = (upd_shard ?i ?s e)\<lparr>stats := (stats e)\<lparr>hitCount := hitCount (stats e) + 1\<rparr>\<rparr>"
    using h by (simp add: hit_def)
  ultimately show ?thesis
    by (simp add: look_def)
qed

lemma get_section:
  assumes g: "good n e" and r: "Bs_Get (store_ops d) k (backingStore e) = (r, b)"
  shows "good n (e\<lparr>backingStore := b\<rparr>)" "look d abs (e\<lparr>backingStore := b\<rparr>) = look d abs e"
    "r = Inr v \<Longrightarrow> abs (backingStore e) k = Some v"
  using st.get_keeps [OF goodD(2) [OF g] r] st.get_ok [OF goodD(2) [OF g], of k v b] g r
  by (auto simp: good_store look_def)

lemma fill_obeys:
  assumes sto: "storable k" "storable v"
  shows "obeys n (\<lambda>_. extends L) (fill_prog d k f v) (StoreRead k v # Silent # Missed k f # L)"
  unfolding fill_prog_def
proof (rule conforms_act)
  fix e ev r e'
  assume g: "good n e" and sec: "(let i = ShardFor d e k; (r, e') = read_fill i k f v e
      in (if mutationFence (shards e ! i) = f then Filled k v f else Silent, r, e')) = (ev, r, e')"
  let ?i = "ShardFor d e k"
  have rf: "read_fill ?i k f v e = (r, e')" and ev: "ev = (if mutationFence (shards e ! ?i) = f then Filled k v f else Silent)"
    using sec by (auto simp: Let_def split: prod.splits)
  show "good n e' \<and> effect (shard_no n) ev (look d abs e) (look d abs e') \<and>
      protocol n (StoreRead k v # Silent # Missed k f # L) ev \<and> extends L (ev # StoreRead k v # Silent # Missed k f # L)"
  proof (cases "mutationFence (shards e ! ?i) = f")
    case True
    then have "e' = on_shard ?i (InsertOrUpdateLocked (limits e) k v 0 Clean True) e"
      using rf by (simp add: read_fill_def)
    from insert_section [OF g sto this] True look_fence [OF g, of k] ev show ?thesis
      by simp
  next
    case False
    then have "good n e' \<and> look d abs e' = look d abs e"
      using rf g hit_section [OF g] by (auto simp: read_fill_def split: option.splits prod.splits)
    then show ?thesis
      using False ev by simp
  qed
qed

lemma Get_obeys:
  assumes "storable k"
  shows "obeys n (\<lambda>_. extends L) (Get_prog d k) L"
proof -
  have small: "storable v" if "\<not> kMaxReasonableValueBytes < length v" for v :: "value"
    using that by (simp add: kMaxReasonableValueBytes_def storable_def)
  have fill: "obeys n (\<lambda>_. extends L) (fill_prog d k f v) (StoreRead k v # Silent # Missed k f # Silent # L)"
    if "\<not> kMaxReasonableValueBytes < length v" for f v
    by (rule conforms_mono [OF fill_obeys [OF assms small [OF that]]]) (auto intro: extends_trans [of L "Silent # L"])
  have store: "obeys n (\<lambda>_. extends L)
      (bind_prog (act (\<lambda>e. case Bs_Get (store_ops d) k (backingStore e) of
                          (Inl er, b) \<Rightarrow> (Silent, Inl er, e\<lparr>backingStore := b\<rparr>)
                        | (Inr v, b) \<Rightarrow> (StoreRead k v, Inr v, e\<lparr>backingStore := b\<rparr>)))
       (\<lambda>r. case r of Inl er \<Rightarrow> Return (Failure er) | Inr v \<Rightarrow>
         if length v > kMaxReasonableValueBytes then Return (Failure er0) else fill_prog d k f v))
      (Silent # Missed k f # Silent # L)" for f er0
    by (rule conforms_act_bind)
      (auto simp: fill get_section simp del: look_update split: prod.splits sum.splits)
  show ?thesis
    unfolding Get_prog_def
    apply (rule check_read_obeys)
    apply (auto split: sum.split)
    apply (rule conforms_act_bind)
    apply (auto simp: Let_def find_entry_good(2) look_fence store dest: hit_section intro!: count_obeys split: option.splits prod.splits)
    done
qed

lemma Contains_obeys: "obeys n (\<lambda>_. extends L) (Contains_prog d k) L"
  unfolding Contains_prog_def
  by (rule check_read_obeys) (auto intro!: conforms_act_bind conforms_act)

lemma GetEntryInfo_obeys: "obeys n (\<lambda>_. extends L) (GetEntryInfo_prog d k) L"
  unfolding GetEntryInfo_prog_def
  by (rule check_read_obeys) (auto intro!: conforms_act split: sum.split)

lemma pick_obeys:
  assumes "i = shard_no n k" "Q None (Evicted # L)" "\<And>x. Q x (Silent # L)"
  shows "obeys n Q (pick_section i) L"
  unfolding pick_section_def
  by (rule conforms_act) (use assms in \<open>auto simp: Let_def dest: evict_section split: if_splits\<close>)

lemma relieve_obeys:
  assumes "i = shard_no n k"
  shows "obeys n (\<lambda>_. extends L) (relieve_prog d i m) L"
proof (induction m arbitrary: L)
  case (Suc m)
  have evict: "obeys n (\<lambda>_. extends L)
      (bind_prog (act (\<lambda>e. let e = evict_shard i e in (Evicted, dirtyCount (shards e ! i), e)))
        (\<lambda>c. if \<not> IsOk r then Return () else if c \<ge> c0 then Return () else relieve_prog d i m)) L'"
    if ext: "extends L L'" for r c0 L'
  proof -
    have "obeys n (\<lambda>_. extends L) (relieve_prog d i m) (Evicted # L')"
      by (rule conforms_mono [OF Suc]) (rule extends_trans [of L "Evicted # L'"], use ext in simp_all)
    then show ?thesis
      by (intro conforms_act_bind) (use ext in \<open>auto simp: Let_def dest: evict_section [OF _ assms] simp del: effect.simps\<close>)
  qed
  have turn: "obeys n (\<lambda>_. extends L)
      (case picked of None \<Rightarrow> Return () | Some (kf, c0) \<Rightarrow>
         bind_prog (FlushKey_prog d kf 0 False) (\<lambda>r.
         bind_prog (act (\<lambda>e. let e = evict_shard i e in (Evicted, dirtyCount (shards e ! i), e)))
           (\<lambda>c. if \<not> IsOk r then Return () else if c \<ge> c0 then Return () else relieve_prog d i m))) L'"
    if ext: "extends L L'" for picked L'
  proof (cases picked)
    case (Some x)
    obtain kf c0 where x: "x = (kf, c0)" by (cases x)
    show ?thesis
      unfolding Some x option.case prod.case
      by (rule conforms_bind [OF FlushKey_obeys], rule evict, rule extends_trans [OF ext])
  qed (simp add: ext)
  show ?case
    unfolding relieve_prog.simps
    by (rule conforms_bind [where R = "\<lambda>_. extends L", OF pick_obeys [OF assms] turn]) simp_all
qed simp

lemma release_obeys: "in_write L \<Longrightarrow> Q r (Released # L) \<Longrightarrow> obeys n Q (release r) L"
  unfolding release_def
  by (rule conforms_act_bind) (auto simp: ReleaseWriteAdmission_def)

lemma admit_obeys:
  assumes "\<not> in_write L" "\<not> in_pause L" "obeys n Q (q True) (Admitted # L)" "obeys n Q (q False) (Silent # L)"
  shows "obeys n Q (bind_prog admit q) L"
  unfolding admit_def
  by (rule conforms_await_bind) (use assms in \<open>auto simp: TryAdmitWrite_def waits_def split: if_splits\<close>)

lemma mint_section:
  assumes "AppendJournalRecordWithNewVersion d rec e = ((r, ver), e')"
  shows "ver = globalVersionCounter e + 1" "good n e' = good n e" "look d abs e' = (look d abs e)\<lparr>v_counter := ver\<rparr>"
  using assms by (auto simp: AppendJournalRecordWithNewVersion_def Let_def dest!: AppendJournalRecord_frame split: prod.splits)

lemma Put_admitted_obeys:
  assumes sto: "storable k" "storable v" and w: "in_write L"
  shows "obeys n (\<lambda>_. extends L) (Put_admitted_prog d k v) L"
proof -
  have rest: "obeys n (\<lambda>_. extends L)
      (bind_prog (relieve_prog d (shard_no n k) m) (\<lambda>_. if policy = WriteThrough then FlushKey_prog d k ver True else Return (Success ()))) L'"
    if "extends L L'" for m policy ver L'
    by (rule conforms_bind [OF relieve_obeys [OF refl]])
      (use that in \<open>auto intro!: conforms_mono [OF FlushKey_obeys] intro: extends_trans\<close>)
  have commit: "obeys n (\<lambda>_. extends L)
      (bind_prog (act (\<lambda>e. let i = ShardFor d e k
           in (if insert_stale (shards e ! i) k ver then Superseded k ver else Committed k v ver,
               (i, writePolicy (options e)), on_shard i (InsertOrUpdateLocked (limits e) k v ver Dirty True) e)))
        (\<lambda>(i, policy). bind_prog (relieve_prog d i m) (\<lambda>_.
           if policy = WriteThrough then FlushKey_prog d k ver True else Return (Success ())))) (Minted k v ver # L)" for ver m
  proof (rule conforms_act_bind)
    fix e ev ip e'
    assume g: "good n e" and sec: "(let i = ShardFor d e k
        in (if insert_stale (shards e ! i) k ver then Superseded k ver else Committed k v ver,
            (i, writePolicy (options e)), on_shard i (InsertOrUpdateLocked (limits e) k v ver Dirty True) e)) = (ev, ip, e')"
    have ev: "ev = (if stale_in (cached d e) k ver then Superseded k ver else Committed k v ver)"
      and ip: "ip = (shard_no n k, writePolicy (options e))"
      and e': "e' = on_shard (ShardFor d e k) (InsertOrUpdateLocked (limits e) k v ver Dirty True) e"
      using sec stale_insert [of e d k ver] goodD(4) [OF g] by (auto simp: Let_def)
    have "extends L (ev # Minted k v ver # L)"
      by (simp add: ev)
    from rest [OF this, of m "writePolicy (options e)" ver] insert_section [OF g sto e']
    show "good n e' \<and> effect (shard_no n) ev (look d abs e) (look d abs e') \<and> protocol n (Minted k v ver # L) ev \<and>
        obeys n (\<lambda>_. extends L) (case ip of (i, policy) \<Rightarrow> bind_prog (relieve_prog d i m) (\<lambda>_.
          if policy = WriteThrough then FlushKey_prog d k ver True else Return (Success ()))) (ev # Minted k v ver # L)"
      by (cases "stale_in (cached d e) k ver") (simp_all add: ev ip)
  qed
  show ?thesis
    unfolding Put_admitted_prog_def
    by (rule conforms_act_bind) (use w in \<open>auto simp: mint_section commit split: prod.splits sum.splits\<close>)
qed

lemma Put_obeys:
  assumes "storable k" "storable v" "\<not> in_write L" "\<not> in_pause L"
  shows "obeys n (\<lambda>_ L'. finished L') (Put_prog d k v) L"
  unfolding Put_prog_def
  by (rule check_write_obeys)
    (use assms in \<open>auto simp: finished_def extends_def intro!: admit_obeys conforms_bind [OF Put_admitted_obeys] release_obeys split: sum.split\<close>)

lemma drop_section:
  assumes g: "good n e" and e': "e' = upd_shard (ShardFor d e k) (drop_entry k ver (shards e ! ShardFor d e k)) e"
  shows "good n e' \<and> look d abs e' = bump (shard_no n k) ((look d abs e)\<lparr>v_cache := dropped k ver (cached d e)\<rparr>)"
proof -
  let ?s = "shards e ! ShardFor d e k"
  define x where "x = (case cached d e k of None \<Rightarrow> None | Some en \<Rightarrow> if entry_version en = ver then None else Some en)"
  note c = drop_entry_correct [OF shards_inv_shard [OF goodD(1) [OF g]], of k ver k]
  have m: "shard_map (drop_entry k ver ?s) = (shard_map ?s)(k := x)"
    using c by (auto simp: x_def cached_def fun_eq_iff split: option.splits)
  have "dropped k ver (cached d e) = (cached d e)(k := x)"
    by (auto simp: dropped_def x_def fun_eq_iff split: option.splits)
  moreover have "good n e' \<and> look d abs e' = (look d abs e)\<lparr>v_cache := (cached d e)(k := x),
      v_fence := (v_fence (look d abs e))(shard_no n k := mutationFence (drop_entry k ver ?s))\<rparr>"
    unfolding e' using c
    by (intro conjI good_upd_one [OF g _ m]) (use goodD(5) [OF g] in \<open>auto simp: x_def split: option.splits if_splits\<close>)
  ultimately show ?thesis
    using c look_fence [OF g, of k] by (simp add: bump_def)
qed

lemma Invalidate_admitted_obeys:
  assumes sto: "storable k" and w: "in_write L"
  shows "obeys n (\<lambda>_. extends L) (Invalidate_admitted_prog d k force) L"
proof -
  have peek: "obeys n (\<lambda>r L'. L' = (case r of Inl _ \<Rightarrow> Silent | Inr ver \<Rightarrow> Peeked k ver force) # L) (peek_section d k force) L"
    unfolding peek_section_def
    by (rule conforms_act)
      (use w find_entry_good in \<open>auto split: option.splits if_splits dest: find_entry_good(1)\<close>)
  have drop: "obeys n (\<lambda>_. extends L)
      (bind_prog (act (\<lambda>e. let i = ShardFor d e k
           in (Dropped k ver, (), upd_shard i (drop_entry k ver (shards e ! i)) e))) (\<lambda>_.
       bind_prog (count_section f) (\<lambda>_. Return (Success ()))))
      (Removed k # Logged Invalidate k ver # Peeked k ver force # L)" for ver f
    by (rule conforms_act_bind) (use drop_section [OF _ refl] in \<open>auto simp: Let_def intro!: count_obeys\<close>)
  have remove: "obeys n (\<lambda>_. extends L)
      (bind_prog (act (\<lambda>e. case Bs_Remove (store_ops d) k (backingStore e) of
                  (Inl er, b) \<Rightarrow> (Silent, Failure er, e\<lparr>backingStore := b\<rparr>)
                | (Inr _, b) \<Rightarrow> (Removed k, Success (), e\<lparr>backingStore := b\<rparr>))) q)
      (Logged Invalidate k ver # Peeked k ver force # L)"
    if "\<And>er. obeys n (\<lambda>_. extends L) (q (Inl er)) (Silent # Logged Invalidate k ver # Peeked k ver force # L)"
      "obeys n (\<lambda>_. extends L) (q (Inr ())) (Removed k # Logged Invalidate k ver # Peeked k ver force # L)" for q ver
    by (rule conforms_act_bind)
      (use that in \<open>auto dest: st.remove_err [OF goodD(2)] st.remove_ok [OF goodD(2) sto] good_store split: prod.splits sum.splits\<close>)
  show ?thesis
    unfolding Invalidate_admitted_prog_def
    by (rule conforms_bind [OF peek]) (auto intro!: log_obeys remove drop split: sum.splits)
qed

lemma InvalidateImpl_obeys:
  assumes "storable k" "\<not> in_write L" "\<not> in_pause L"
  shows "obeys n (\<lambda>_ L'. finished L') (InvalidateImpl_prog d k force) L"
  unfolding InvalidateImpl_prog_def
  by (rule check_write_obeys)
    (use assms in \<open>auto simp: finished_def extends_def intro!: admit_obeys conforms_bind [OF Invalidate_admitted_obeys] release_obeys split: sum.split\<close>)

lemma Flush_obeys: "obeys n (\<lambda>_. extends L) (Flush_prog d k) L"
  unfolding Flush_prog_def
  by (rule check_read_obeys)
    (auto intro!: conforms_mono [OF FlushKey_obeys] intro: extends_trans [of L "Silent # L"] split: sum.split)

lemma flush_keys_obeys: "obeys n (\<lambda>_. extends L) (flush_keys_prog d ks le) L"
proof (induction ks arbitrary: le L)
  case (Cons k ks)
  show ?case
    unfolding flush_keys_prog.simps
    by (rule conforms_bind [OF FlushKey_obeys]) (auto intro!: conforms_mono [OF Cons] intro: extends_trans split: sum.split)
qed simp

lemma flush_shards_obeys: "obeys n (\<lambda>_. extends L) (flush_shards_prog d is le) L"
proof (induction "is" arbitrary: le L)
  case (Cons i "is")
  have "obeys n (\<lambda>_. extends L) (bind_prog (flush_keys_prog d ks le) (\<lambda>le. flush_shards_prog d is le)) (Silent # L)" for ks
    by (rule conforms_bind [OF flush_keys_obeys])
      (auto intro!: conforms_mono [OF Cons] intro: extends_trans [of L "Silent # L"] extends_trans)
  then show ?case
    unfolding flush_shards_prog.simps by (intro conforms_act_bind) auto
qed simp

text \<open>The loop over the shards: the result is 0 only if every shard was found clean.\<close>

lemma scan_obeys:
  assumes "\<And>m L'. extends L L' \<Longrightarrow> (m = 0 \<longrightarrow> a = 0 \<and> L' = rev (map (\<lambda>i. Scanned i True) is) @ L) \<Longrightarrow> Q m L'"
    and "\<forall>i\<in>set is. i < n"
  shows "obeys n Q (scan_prog is a) L"
  using assms
proof (induction "is" arbitrary: a L)
  case (Cons i "is")
  have next_ok: "obeys n Q (scan_prog is (a + m)) (Scanned i (m = 0) # L)" for m
    by (rule Cons.IH) (use Cons.prems in \<open>auto intro!: Cons.prems(1) intro: extends_trans [of L "Scanned i b # L" for b]\<close>)
  show ?case
    unfolding scan_prog.simps
  proof (rule conforms_act_bind)
    fix e ev m e'
    assume g: "good n e" and sec: "(Scanned i (dirtyCount (shards e ! i) = 0), dirtyCount (shards e ! i), e) = (ev, m, e')"
    have ev: "ev = Scanned i (m = 0)" "m = dirtyCount (shards e ! i)" "e' = e"
      using sec by auto
    have i: "i < length (shards e)"
      using Cons.prems(2) goodD(3) [OF g] by simp
    then have inv: "shard_inv (shards e ! i)"
      using goodD(1) [OF g] by (simp add: shards_inv_def)
    have "m = 0 \<longleftrightarrow>
        (\<forall>k en. shard_no n k = i \<longrightarrow> cached d e k = Some en \<longrightarrow> dirtyState en = Clean)"
      unfolding ev(2) clean_shard_iff [OF inv] using goodD(1,4) [OF g] i
      by (auto simp: shards_inv_def cached_def)
    then show "good n e' \<and> effect (shard_no n) ev (look d abs e) (look d abs e') \<and> protocol n L ev \<and>
        obeys n Q (scan_prog is (a + m)) (ev # L)"
      unfolding ev(1,3) using g next_ok [of m] by simp
  qed
qed (simp add: assms)

lemma drain_obeys:
  assumes "\<not> in_write L" "\<exists>L'. L = Paused # L' \<or> L = ShutdownBegan # L'" "obeys n Q (q n) (Drained # L)"
  shows "obeys n Q (bind_prog drain q) L"
  unfolding drain_def
  by (rule conforms_await_bind)
    (use assms in \<open>auto simp: DrainInFlightWrites_def waits_def goodD(3) split: if_splits\<close>)

lemma resume_obeys: "in_pause L \<Longrightarrow> Q () (Resumed # L) \<Longrightarrow> obeys n Q resume L"
  unfolding resume_def by (rule conforms_act) auto

lemma all_scanned_extends: "extends L (all_scanned n @ L)"
proof -
  have "extends L (rev (map (\<lambda>i. Scanned i True) is) @ L)" for "is"
    by (induction "is" rule: rev_induct) simp_all
  then show ?thesis
    by (simp add: all_scanned_def)
qed

lemma TryCompact_obeys:
  assumes L: "\<not> in_write L" "\<not> in_pause L"
    and Q: "\<And>A. \<not> in_write (A @ L) \<Longrightarrow> \<not> in_pause (A @ L) \<Longrightarrow> Q () (A @ L)"
  shows "obeys n Q (TryCompactJournalIfFullyClean_prog d) L"
proof -
  let ?L1 = "Drained # Paused # Silent # L"
  have resumes: "obeys n Q resume L'" if "extends ?L1 L'" for L'
    by (rule resume_obeys) (use that L Q [of "Resumed # A @ [Drained, Paused, Silent]" for A] in \<open>auto simp: extends_def\<close>)
  have truncates: "obeys n Q (bind_prog (truncate_section d) (\<lambda>resumed. if resumed then Return () else resume)) (all_scanned n @ ?L1)"
    unfolding truncate_section_def
  proof (rule conforms_act_bind)
    fix e ev a e'
    assume g: "good n e" and sec: "(if Jrn_RecordCount (journal_ops d) (journal e) = 0
        then (Resumed, True, e\<lparr>compactionPaused := False\<rparr>)
        else (Truncated, False, e\<lparr>journal := snd (Jrn_Truncate (journal_ops d) (journal e))\<rparr>)) = (ev, a, e')"
    have r: "in_pause (all_scanned n @ ?L1)" "\<not> in_write (all_scanned n @ ?L1)"
      using all_scanned_extends [of ?L1 n] L by (simp_all add: extends_def)
    have "Q () (Resumed # all_scanned n @ ?L1)"
      using Q [of "Resumed # all_scanned n @ [Drained, Paused, Silent]"] r by simp
    moreover have "obeys n Q resume (Truncated # all_scanned n @ ?L1)"
      by (rule resumes) (simp add: all_scanned_extends)
    ultimately show "good n e' \<and> effect (shard_no n) ev (look d abs e) (look d abs e') \<and>
        protocol n (all_scanned n @ ?L1) ev \<and> obeys n Q (if a then Return () else resume) (ev # all_scanned n @ ?L1)"
      using sec g r by (auto split: if_splits)
  qed
  have "obeys n Q (bind_prog (scan_prog [0..<n] 0) (\<lambda>m. if m = 0
      then bind_prog (truncate_section d) (\<lambda>resumed. if resumed then Return () else resume) else resume)) ?L1"
  proof (rule conforms_bind)
    show "obeys n (\<lambda>m L'. extends ?L1 L' \<and> (m = 0 \<longrightarrow> L' = all_scanned n @ ?L1)) (scan_prog [0..<n] 0) ?L1"
      by (rule scan_obeys) (auto simp: all_scanned_def)
  qed (use truncates resumes in auto)
  then show ?thesis
    unfolding TryCompactJournalIfFullyClean_prog_def compact_prog_def
    using L Q [of "[Silent]"]
    by (intro conforms_act_bind) (auto intro!: conforms_act_bind drain_obeys split: if_splits)
qed

lemma FlushAll_obeys:
  assumes L: "\<not> in_write L" "\<not> in_pause L"
    and Q: "\<And>r A. \<not> in_write (A @ L) \<Longrightarrow> \<not> in_pause (A @ L) \<Longrightarrow> Q r (A @ L)"
  shows "obeys n Q (FlushAll_prog d) L"
proof -
  have Q': "Q r L'" if "extends (Silent # L) L'" for r L'
    using that L Q [of "A @ [Silent]" for A] by (auto simp: extends_def)
  have compact: "obeys n Q (bind_prog (TryCompactJournalIfFullyClean_prog d) (\<lambda>_. Return (Success ()))) L'"
    if ext: "extends (Silent # L) L'" for L'
  proof (rule conforms_bind [OF TryCompact_obeys])
    show "\<not> in_write L'" "\<not> in_pause L'"
      using ext L by (simp_all add: extends_def)
    obtain B where "L' = B @ Silent # L"
      using ext by (auto simp: extends_def)
    then show "Q (Success ()) (A @ L')" if "\<not> in_write (A @ L')" "\<not> in_pause (A @ L')" for A
      using Q [of "A @ B @ [Silent]"] that by simp
  qed simp
  show ?thesis
    unfolding FlushAll_prog_def
    by (rule check_read_obeys)
      (auto intro!: conforms_bind [OF flush_shards_obeys] compact Q' split: sum.split option.split)
qed

lemma statistics_obeys: "obeys n (\<lambda>_. extends L) (statistics_prog is c) L"
proof (induction "is" arbitrary: c L)
  case (Cons i "is")
  show ?case
    unfolding statistics_prog.simps
    by (rule conforms_act_bind) (auto intro!: conforms_mono [OF Cons] intro: extends_trans [of L "Silent # L"])
qed simp

lemma GetStatistics_obeys: "obeys n (\<lambda>_. extends L) GetStatistics_prog L"
  unfolding GetStatistics_prog_def
  by (rule conforms_act_bind) (auto intro!: conforms_mono [OF statistics_obeys] intro: extends_trans [of L "Silent # L"])

lemma background_flush_tick_obeys:
  assumes L: "\<not> in_write L" "\<not> in_pause L"
  shows "obeys n (\<lambda>_. finished) (background_flush_tick_prog d) L"
proof -
  have "obeys n (\<lambda>_. finished) (bind_prog (FlushAll_prog d) (\<lambda>_. Return True)) (Silent # Silent # L)"
    by (rule conforms_bind [OF FlushAll_obeys [where Q = "\<lambda>_. finished"]]) (use L in \<open>auto simp: finished_def\<close>)
  then show ?thesis
    unfolding background_flush_tick_prog_def
    by (intro conforms_act_bind) (use L in \<open>auto simp: finished_def intro!: conforms_act_bind\<close>)
qed

lemma Shutdown_obeys:
  assumes L: "\<not> in_write L" "\<not> in_pause L"
  shows "obeys n (\<lambda>_. finished) (Shutdown_prog d) L"
proof -
  let ?L1 = "Silent # Drained # ShutdownBegan # L"
  have fin: "finished L'" if "extends (ShutdownEnded # A @ ?L1) L'" "\<not> in_write (A @ ?L1)" "\<not> in_pause (A @ ?L1)" for A L'
    using that by (simp add: extends_def finished_def)
  have scan: "obeys n (\<lambda>_. finished)
      (bind_prog (scan_prog [0..<n] 0) (\<lambda>m. if m = 0
         then act (\<lambda>e. (Truncated, Success (), e\<lparr>journal := snd (Jrn_Truncate (journal_ops d) (journal e))\<rparr>))
         else Return (Success ()))) (ShutdownEnded # A @ ?L1)"
    if "\<not> in_write (A @ ?L1)" "\<not> in_pause (A @ ?L1)" for A
  proof (rule conforms_bind)
    let ?L2 = "ShutdownEnded # A @ ?L1"
    show "obeys n (\<lambda>m L'. extends ?L2 L' \<and> (m = 0 \<longrightarrow> L' = all_scanned n @ ?L2)) (scan_prog [0..<n] 0) ?L2"
      by (rule scan_obeys) (auto simp: all_scanned_def)
    fix m :: nat and L'
    assume ext: "extends ?L2 L' \<and> (m = 0 \<longrightarrow> L' = all_scanned n @ ?L2)"
    show "obeys n (\<lambda>_. finished) (if m = 0
         then act (\<lambda>e. (Truncated, Success (), e\<lparr>journal := snd (Jrn_Truncate (journal_ops d) (journal e))\<rparr>))
         else Return (Success ())) L'"
      using ext fin [OF _ that] by (auto intro!: conforms_act)
  qed
  have stop: "obeys n (\<lambda>_. finished)
      (bind_prog (act (\<lambda>e. (ShutdownEnded, length (shards e), e\<lparr>lifecycle := Stopped\<rparr>))) (\<lambda>n.
       bind_prog (scan_prog [0..<n] 0) (\<lambda>m. if m = 0
         then act (\<lambda>e. (Truncated, Success (), e\<lparr>journal := snd (Jrn_Truncate (journal_ops d) (journal e))\<rparr>))
         else Return (Success ())))) (A @ ?L1)"
    if "\<not> in_write (A @ ?L1)" "\<not> in_pause (A @ ?L1)" for A
  proof (rule conforms_act_bind)
    fix e ev a e'
    assume g: "good n e" and sec: "(ShutdownEnded, length (shards e), e\<lparr>lifecycle := Stopped\<rparr>) = (ev, a, e')"
    have "stop_drained (A @ ?L1)"
      unfolding stop_drained_def by (rule exI [of _ "A @ [Silent]"]) simp
    then show "good n e' \<and> effect (shard_no n) ev (look d abs e) (look d abs e') \<and> protocol n (A @ ?L1) ev \<and>
        obeys n (\<lambda>_. finished) (bind_prog (scan_prog [0..<a] 0) (\<lambda>m. if m = 0
         then act (\<lambda>e. (Truncated, Success (), e\<lparr>journal := snd (Jrn_Truncate (journal_ops d) (journal e))\<rparr>))
         else Return (Success ()))) (ev # A @ ?L1)"
      using sec g goodD(3) [OF g] scan [OF that] that by auto
  qed
  have flush: "obeys n (\<lambda>_. finished) (bind_prog (FlushAll_prog d) q) ?L1"
    if q: "\<And>r A. \<not> in_write (A @ ?L1) \<Longrightarrow> \<not> in_pause (A @ ?L1) \<Longrightarrow> obeys n (\<lambda>_. finished) (q r) (A @ ?L1)" for q
    by (rule conforms_bind [OF FlushAll_obeys [where Q = "\<lambda>r L'. obeys n (\<lambda>_. finished) (q r) L'"]]) (use L q in auto)
  show ?thesis
    unfolding Shutdown_prog_def
  proof (rule conforms_act_bind, goal_cases)
    case (1 e ev a e')
    have "obeys n (\<lambda>_. finished)
      (bind_prog drain (\<lambda>_. bind_prog (act (\<lambda>e. (Silent, (), StopBackgroundFlushThread e))) (\<lambda>_.
       bind_prog (FlushAll_prog d) (\<lambda>_.
       bind_prog (act (\<lambda>e. (ShutdownEnded, length (shards e), e\<lparr>lifecycle := Stopped\<rparr>))) (\<lambda>n.
       bind_prog (scan_prog [0..<n] 0) (\<lambda>m. if m = 0
         then act (\<lambda>e. (Truncated, Success (), e\<lparr>journal := snd (Jrn_Truncate (journal_ops d) (journal e))\<rparr>))
         else Return (Success ()))))))) (ShutdownBegan # L)"
    proof (rule drain_obeys)
      show "obeys n (\<lambda>_. finished)
        (bind_prog (act (\<lambda>e. (Silent, (), StopBackgroundFlushThread e))) (\<lambda>_.
         bind_prog (FlushAll_prog d) (\<lambda>_.
         bind_prog (act (\<lambda>e. (ShutdownEnded, length (shards e), e\<lparr>lifecycle := Stopped\<rparr>))) (\<lambda>n.
         bind_prog (scan_prog [0..<n] 0) (\<lambda>m. if m = 0
           then act (\<lambda>e. (Truncated, Success (), e\<lparr>journal := snd (Jrn_Truncate (journal_ops d) (journal e))\<rparr>))
           else Return (Success ())))))) (Drained # ShutdownBegan # L)"
        by (rule conforms_act_bind) (auto simp: StopBackgroundFlushThread_def flush stop)
    qed (use L in auto)
    then show ?case
      using 1 L by (auto simp: finished_def split: if_splits)
  qed
qed

lemma calls_obey:
  assumes "call_storable c"
  shows "obeys n (\<lambda>_. finished) (call_prog d c) []"
proof -
  have fin: "finished L" if "extends [] L" for L
    using that by (simp add: finished_def extends_def)
  show ?thesis
  proof (cases c)
    case (Op x)
    have fa: "obeys n (\<lambda>_. finished) (FlushAll_prog d) []"
      by (rule FlushAll_obeys) (auto simp: finished_def)
    have "obeys n (\<lambda>_. finished) (op_prog d x) []"
      using assms Op fin fa
      by (cases x) (auto intro!: conforms_bind [OF Get_obeys] conforms_bind [OF Contains_obeys] conforms_bind [OF Put_obeys]
        conforms_bind [OF InvalidateImpl_obeys] conforms_bind [OF Flush_obeys] conforms_bind [OF fa])
    then show ?thesis
      unfolding Op call_prog.simps by (rule conforms_bind) simp
  qed (use fin in \<open>auto intro!: conforms_bind [OF GetEntryInfo_obeys] conforms_bind [OF GetStatistics_obeys]
      conforms_bind [OF Shutdown_obeys] conforms_bind [OF background_flush_tick_obeys]\<close>)
qed

end

text \<open>So every run of a pool of calls is a history of effects.\<close>

sublocale engine_env \<subseteq> threads: thread_calls "good n" "look d abs" "effect (\<lambda>k. hash d k mod n)" "protocol n" waits finished
  call_storable "call_prog d" for n
  by unfold_locales (rule calls_obey)

end
