(* ===== verification/ThreadHistories.thy ===== *)
theory ThreadHistories
  imports EngineEvents
begin

text \<open>
  What holds of every history of effects, and so however the threads of an engine interleave: who
  holds write admissions and pauses, which versions exist, which entries may be dropped, what the
  mutation fence excludes, and when the journal may be truncated.  Each invariant is proved by
  induction on the history.
\<close>

section \<open>Admissions and pauses\<close>

abbreviation effects :: "(key \<Rightarrow> nat) \<Rightarrow> nat \<Rightarrow> sview \<Rightarrow> event history \<Rightarrow> sview \<Rightarrow> bool" where
  "effects sh n \<equiv> traced (effect sh) (protocol n)"

lemma effects_induct [consumes 1, case_names Nil Cons]:
  assumes "effects sh n s0 h s" "P [] s0"
    and "\<And>h s i ev s'. effects sh n s0 h s \<Longrightarrow> P h s \<Longrightarrow> effect sh ev s s' \<Longrightarrow> protocol n (own i h) ev \<Longrightarrow> P ((i, ev) # h) s'"
  shows "P h s"
  using assms(1) by (induction rule: traced.induct) (auto intro: assms(2,3))

definition writers :: "event history \<Rightarrow> nat set" where
  "writers h = {i. in_write (own i h)}"

definition pausers :: "event history \<Rightarrow> nat set" where
  "pausers h = {i. in_pause (own i h)}"

lemma writers_Nil [simp]: "writers [] = {}"
  by (simp add: writers_def)

lemma writers_Cons:
  "writers ((i, ev) # h) = (case ev of Admitted \<Rightarrow> insert i (writers h) | Released \<Rightarrow> writers h - {i} | _ \<Rightarrow> writers h)"
  by (cases ev) (auto simp: writers_def)

lemma pausers_Nil [simp]: "pausers [] = {}"
  by (simp add: pausers_def)

lemma pausers_Cons:
  "pausers ((i, ev) # h) = (case ev of Paused \<Rightarrow> insert i (pausers h) | Resumed \<Rightarrow> pausers h - {i} | _ \<Rightarrow> pausers h)"
  by (cases ev) (auto simp: pausers_def)

lemma finite_writers: "finite (writers h)"
proof (induction h)
  case (Cons x h)
  then show ?case by (cases x; cases "snd x") (auto simp: writers_Cons)
qed simp

text \<open>Effects that leave the admission state alone.\<close>

lemma effect_inflight:
  "effect sh ev s s' \<Longrightarrow> v_inflight s' = (case ev of Admitted \<Rightarrow> v_inflight s + 1 | Released \<Rightarrow> v_inflight s - 1 | _ \<Rightarrow> v_inflight s)"
  by (cases ev) (auto simp: inserted_def bump_def split: if_splits)

lemma effect_paused:
  "effect sh ev s s' \<Longrightarrow> v_paused s' = (case ev of Paused \<Rightarrow> True | Resumed \<Rightarrow> False | _ \<Rightarrow> v_paused s)"
  by (cases ev) (auto simp: inserted_def bump_def split: if_splits)

lemma effect_lifecycle:
  "effect sh ev s s' \<Longrightarrow> v_lifecycle s' = (case ev of ShutdownBegan \<Rightarrow> Stopping | ShutdownEnded \<Rightarrow> Stopped | _ \<Rightarrow> v_lifecycle s)"
  by (cases ev) (auto simp: inserted_def bump_def split: if_splits)

lemma effect_counter:
  "effect sh ev s s' \<Longrightarrow> v_counter s' = (case ev of Minted k v ver \<Rightarrow> v_counter s + 1 | MintFailed ver \<Rightarrow> v_counter s + 1 | _ \<Rightarrow> v_counter s)"
  by (cases ev) (auto simp: inserted_def bump_def split: if_splits)

lemma inflight_writers:
  "effects sh n s0 h s \<Longrightarrow> v_inflight s0 = 0 \<Longrightarrow> v_inflight s = card (writers h)"
proof (induction rule: effects_induct)
  case (Cons h s i ev s')
  have "i \<in> writers h \<longleftrightarrow> in_write (own i h)"
    by (simp add: writers_def)
  then show ?case
    using Cons effect_inflight [OF Cons.hyps(2)] finite_writers [of h]
    by (cases ev) (auto simp: writers_Cons card_insert_if card_Diff_singleton)
qed simp

lemma paused_pausers:
  "effects sh n s0 h s \<Longrightarrow> \<not> v_paused s0 \<Longrightarrow> v_paused s \<Longrightarrow> pausers h \<noteq> {}"
proof (induction rule: effects_induct)
  case (Cons h s i ev s')
  then show ?case
    using effect_paused [OF Cons.hyps(2)] by (cases ev) (auto simp: pausers_Cons)
qed simp

text \<open>A pool in which all threads have returned or wait has no thread that waits.\<close>

lemma nobody_waits:
  assumes tr: "effects sh n s0 h s" and s0: "v_inflight s0 = 0" "\<not> v_paused s0"
    and stuck: "\<And>i. i < m \<Longrightarrow> finished (own i h) \<or> waits (own i h) s" and m: "\<And>i. m \<le> i \<Longrightarrow> own i h = []"
  shows "\<not> waits (own i h) s"
proof -
  have stuck': "finished (own i h) \<or> waits (own i h) s" for i
    using stuck [of i] m [of i] by (cases "i < m") (auto simp: finished_def)
  then have "writers h = {}"
    by (auto simp: writers_def finished_def waits_def)
  then have inflight: "v_inflight s = 0"
    using inflight_writers [OF tr s0(1)] by simp
  have "pausers h = {}"
    using stuck' inflight by (auto simp: pausers_def finished_def waits_def)
  then have "\<not> v_paused s"
    using paused_pausers [OF tr s0(2)] by auto
  then show ?thesis
    using inflight by (simp add: waits_def)
qed

section \<open>Versions\<close>

text \<open>The versions handed out with the journal lock held, the latest first.\<close>

definition minted :: "event history \<Rightarrow> u64 list" where
  "minted h = concat (map (\<lambda>(_, ev). case ev of Minted k v ver \<Rightarrow> [ver] | MintFailed ver \<Rightarrow> [ver] | _ \<Rightarrow> []) h)"

definition committed :: "event history \<Rightarrow> u64 list" where
  "committed h = concat (map (\<lambda>(_, ev). case ev of Committed k v ver \<Rightarrow> [ver] | _ \<Rightarrow> []) h)"

lemma minted_simps [simp]:
  "minted [] = []"
  "minted ((i, ev) # h) = (case ev of Minted k v ver \<Rightarrow> ver # minted h | MintFailed ver \<Rightarrow> ver # minted h | _ \<Rightarrow> minted h)"
  by (simp_all add: minted_def split: event.split)

lemma committed_simps [simp]:
  "committed [] = []"
  "committed ((i, ev) # h) = (case ev of Committed k v ver \<Rightarrow> ver # committed h | _ \<Rightarrow> committed h)"
  by (simp_all add: committed_def split: event.split)

lemma set_committed: "ver \<in> set (committed h) \<longleftrightarrow> (\<exists>i k v. (i, Committed k v ver) \<in> set h)"
  by (induction h) (auto split: event.splits)

lemma Minted_minted: "(i, Minted k v ver) \<in> set h \<Longrightarrow> ver \<in> set (minted h)"
  by (induction h) (auto split: event.splits)

lemma length_minted: "length (minted h) \<le> length h"
proof (induction h)
  case (Cons x h)
  then show ?case by (cases x; cases "snd x") auto
qed simp

lemma next_version:
  fixes c :: u64
  assumes "unat c + 1 < 2 ^ 64"
  shows "unat (c + 1) = unat c + 1" and "c < c + 1"
proof -
  show u: "unat (c + 1) = unat c + 1"
    using assms by (simp add: unat_word_ariths)
  show "c < c + 1"
    using u by (simp add: word_less_nat_alt)
qed

lemma versions_increase:
  assumes "effects sh n s0 h s" and "unat (v_counter s0) + length h < 2 ^ 64"
  shows "unat (v_counter s) = unat (v_counter s0) + length (minted h) \<and> sorted_wrt (>) (minted h) \<and>
    (\<forall>ver\<in>set (minted h). v_counter s0 < ver \<and> ver \<le> v_counter s)"
  using assms
proof (induction rule: effects_induct)
  case (Cons h s i ev s')
  have IH: "unat (v_counter s) = unat (v_counter s0) + length (minted h)" "sorted_wrt (>) (minted h)"
    "\<forall>ver\<in>set (minted h). v_counter s0 < ver \<and> ver \<le> v_counter s"
    using Cons by simp_all
  have fits: "unat (v_counter s) + 1 < 2 ^ 64"
    using Cons.prems IH(1) length_minted [of h] by simp
  have new: "ver = v_counter s + 1" if "ev = MintFailed ver \<or> ev = Minted k v ver" for ver k v
    using that Cons.hyps(2) by auto
  have start: "v_counter s0 \<le> v_counter s"
    using IH(1) by (simp add: word_le_nat_alt)
  have bounds: "\<forall>ver\<in>set (minted h). v_counter s0 < ver \<and> ver < v_counter s + 1"
    using IH(3) next_version(2) [OF fits] by auto
  show ?case
    using IH effect_counter [OF Cons.hyps(2)] new next_version [OF fits] start bounds
    by (cases ev) (auto intro: order.strict_trans1 less_imp_le)
qed simp

text \<open>A version belongs to one call, and that call commits it at most once.\<close>

definition version_owners :: "event history \<Rightarrow> bool" where
  "version_owners h \<longleftrightarrow>
     (\<forall>i j k k' v v' ver. (i, Minted k v ver) \<in> set h \<longrightarrow> (j, Minted k' v' ver) \<in> set h \<longrightarrow> i = j \<and> k = k' \<and> v = v') \<and>
     (\<forall>i k v ver. (i, Committed k v ver) \<in> set h \<longrightarrow> (i, Minted k v ver) \<in> set h) \<and>
     (\<forall>i k v ver L. own i h = Minted k v ver # L \<longrightarrow> ver \<notin> set (committed h)) \<and>
     distinct (committed h)"

lemma version_ownersD:
  assumes "version_owners h"
  shows "(i, Minted k v ver) \<in> set h \<Longrightarrow> (j, Minted k' v' ver) \<in> set h \<Longrightarrow> i = j \<and> k = k' \<and> v = v'"
    "(i, Committed k v ver) \<in> set h \<Longrightarrow> (i, Minted k v ver) \<in> set h"
    "own i h = Minted k v ver # L \<Longrightarrow> ver \<notin> set (committed h)" "distinct (committed h)"
  using assms unfolding version_owners_def by blast+

lemma own_Cons_mem: "own i h = ev # L \<Longrightarrow> (i, ev) \<in> set h"
  by (metis set_own list.set_intros(1))

lemma version_owners_step:
  assumes tr: "effects sh n s0 h s" and IH: "version_owners h" and ef: "effect sh ev s s'" and pr: "protocol n (own i h) ev"
    and small: "unat (v_counter s0) + length h + 1 < 2 ^ 64"
  shows "version_owners ((i, ev) # h)"
proof -
  have "unat (v_counter s0) + length h < 2 ^ 64" using small by simp
  note inc = versions_increase [OF tr this]
  have fits: "unat (v_counter s) + 1 < 2 ^ 64"
    using inc small length_minted [of h] by simp
  have fresh: "(j, Minted k' v' (v_counter s + 1)) \<notin> set h" for j k' v'
    using Minted_minted [of j k' v' "v_counter s + 1" h] inc next_version(2) [OF fits] by fastforce
  note D = version_ownersD [OF IH]
  show ?thesis
  proof (cases ev)
    case (Minted k v ver)
    then have new: "ver = v_counter s + 1" using ef by simp
    have "ver \<notin> set (committed h)"
      using D(2) fresh unfolding set_committed new by blast
    then show ?thesis
      using Minted fresh [folded new] IH unfolding version_owners_def by auto
  next
    case (Committed k v ver)
    then obtain L where L: "own i h = Minted k v ver # L"
      using pr by auto
    then have m: "(i, Minted k v ver) \<in> set h" "ver \<notin> set (committed h)"
      using D(3) [OF L] own_Cons_mem [OF L] by auto
    have "j = i" if "own j h = Minted k' v' ver # L'" for j k' v' L'
      using own_Cons_mem [OF that] m(1) D(1) by blast
    then show ?thesis
      using Committed m IH unfolding version_owners_def by (auto split: if_splits)
  qed (use IH in \<open>auto simp: version_owners_def\<close>)
qed

lemma effects_version_owners:
  assumes "effects sh n s0 h s" and "unat (v_counter s0) + length h < 2 ^ 64"
  shows "version_owners h"
  using assms
proof (induction rule: effects_induct)
  case Nil
  show ?case by (simp add: version_owners_def)
next
  case (Cons h s i ev s')
  then show ?case
    by (intro version_owners_step [OF Cons.hyps(1) _ Cons.hyps(2,3)]) auto
qed

section \<open>The cached entries\<close>

text \<open>Where an entry comes from, and where it goes.\<close>

lemma entry_origin:
  assumes "effect sh ev s s'" and "v_cache s' k = Some en'"
  shows "v_cache s k = Some en'
    \<or> (\<exists>v ver. ev = Committed k v ver \<and> \<not> stale_in (v_cache s) k ver \<and> en' = mk_entry k v ver Dirty)
    \<or> (\<exists>v f. ev = Filled k v f \<and> \<not> stale_in (v_cache s) k 0 \<and> en' = mk_entry k v 0 Clean)
    \<or> (\<exists>en st. v_cache s k = Some en \<and> en' = en\<lparr>dirtyState := st\<rparr> \<and>
         (ev = FlushBegan k (entry_value en) (entry_version en) \<and> dirtyState en = Dirty \<and> st = FlushInProgress \<or>
          ev = Reverted k (entry_version en) \<and> dirtyState en = FlushInProgress \<and> st = Dirty \<or>
          ev = FlushEnded k (entry_version en) \<and> dirtyState en = FlushInProgress \<and> st = Clean))"
  using assms
  by (cases ev)
    (auto simp: inserted_def bump_def restate_def dropped_def split: if_splits option.splits dest!: shrinks_Some)

lemma entry_leaves:
  assumes "effect sh ev s s'" and "v_cache s k = Some en" "v_cache s' k = None"
  shows "ev = Dropped k (entry_version en) \<or> dirtyState en = Clean \<or> entry_version en = 0"
proof -
  have gone: "dirtyState en = Clean \<or> k = k' \<and> dirtyState en' = Clean"
    if "shrinks ((v_cache s)(k' \<mapsto> en')) C" "C k = None" for k' en' C
    using that assms(2) unfolding shrinks_def by (metis fun_upd_apply option.distinct(1) option.inject)
  have gone': "dirtyState en = Clean" if "shrinks (v_cache s) C" "C k = None" for C
    using that assms(2) unfolding shrinks_def by (metis option.distinct(1) option.inject)
  show ?thesis
    using assms gone gone'
    by (cases ev) (auto simp: inserted_def bump_def restate_def dropped_def stale_in_def split: if_splits option.splits, fastforce+)
qed

text \<open>The value of a version of a key: committed by some call, or cached from the start.\<close>

definition wrote :: "sview \<Rightarrow> event history \<Rightarrow> key \<Rightarrow> value \<Rightarrow> u64 \<Rightarrow> bool" where
  "wrote s0 h k v ver \<longleftrightarrow> (\<exists>i. (i, Committed k v ver) \<in> set h) \<or>
     (\<exists>en. v_cache s0 k = Some en \<and> entry_version en = ver \<and> entry_value en = v)"

text \<open>A value of that version was put into the store by some flush, or was clean from the start.\<close>

definition written_back :: "sview \<Rightarrow> event history \<Rightarrow> key \<Rightarrow> value \<Rightarrow> u64 \<Rightarrow> bool" where
  "written_back s0 h k v ver \<longleftrightarrow> (\<exists>i. (i, Stored k v ver) \<in> set h) \<or>
     (\<exists>en. v_cache s0 k = Some en \<and> entry_version en = ver \<and> entry_value en = v \<and> dirtyState en = Clean)"

lemma wrote_mono: "wrote s0 h k v ver \<Longrightarrow> wrote s0 (x # h) k v ver"
  by (auto simp: wrote_def)

lemma written_back_mono: "written_back s0 h k v ver \<Longrightarrow> written_back s0 (x # h) k v ver"
  by (auto simp: written_back_def)

definition sound_start :: "sview \<Rightarrow> bool" where
  "sound_start s \<longleftrightarrow> v_inflight s = 0 \<and> \<not> v_paused s \<and>
     (\<forall>k en. v_cache s k = Some en \<longrightarrow> entry_key en = k \<and> entry_version en \<le> v_counter s \<and>
        (entry_version en = 0 \<longrightarrow> dirtyState en = Clean))"

definition cache_ok :: "sview \<Rightarrow> event history \<Rightarrow> sview \<Rightarrow> bool" where
  "cache_ok s0 h s \<longleftrightarrow>
     (\<forall>k en. v_cache s k = Some en \<longrightarrow> entry_key en = k \<and> entry_version en \<le> v_counter s \<and>
        (entry_version en = 0 \<longrightarrow> dirtyState en = Clean) \<and>
        (entry_version en \<noteq> 0 \<longrightarrow> wrote s0 h k (entry_value en) (entry_version en)) \<and>
        (entry_version en \<noteq> 0 \<longrightarrow> dirtyState en = Clean \<longrightarrow> written_back s0 h k (entry_value en) (entry_version en))) \<and>
     (\<forall>i k v ver. (i, FlushBegan k v ver) \<in> set h \<or> (i, Stored k v ver) \<in> set h \<longrightarrow> wrote s0 h k v ver) \<and>
     (\<forall>i k ver force. (i, Peeked k ver force) \<in> set h \<longrightarrow> ver = 0 \<or> (\<exists>v. wrote s0 h k v ver)) \<and>
     (\<forall>i k ver en. (i, Peeked k ver False) \<in> set h \<longrightarrow> v_cache s k = Some en \<longrightarrow> entry_version en = ver \<longrightarrow>
        dirtyState en = Clean)"

lemma cache_okD:
  assumes "cache_ok s0 h s"
  shows "v_cache s k = Some en \<Longrightarrow> entry_key en = k" "v_cache s k = Some en \<Longrightarrow> entry_version en \<le> v_counter s"
    "v_cache s k = Some en \<Longrightarrow> entry_version en = 0 \<Longrightarrow> dirtyState en = Clean"
    "v_cache s k = Some en \<Longrightarrow> entry_version en \<noteq> 0 \<Longrightarrow> wrote s0 h k (entry_value en) (entry_version en)"
    "v_cache s k = Some en \<Longrightarrow> entry_version en \<noteq> 0 \<Longrightarrow> dirtyState en = Clean \<Longrightarrow>
       written_back s0 h k (entry_value en) (entry_version en)"
    "(i, FlushBegan k v ver) \<in> set h \<or> (i, Stored k v ver) \<in> set h \<Longrightarrow> wrote s0 h k v ver"
    "(i, Peeked k ver force) \<in> set h \<Longrightarrow> ver = 0 \<or> (\<exists>v. wrote s0 h k v ver)"
    "(i, Peeked k ver False) \<in> set h \<Longrightarrow> v_cache s k = Some en \<Longrightarrow> entry_version en = ver \<Longrightarrow> dirtyState en = Clean"
  using assms unfolding cache_ok_def by blast+

lemma cache_ok_start: "sound_start s0 \<Longrightarrow> cache_ok s0 [] s0"
  by (auto simp: cache_ok_def sound_start_def wrote_def written_back_def)

text \<open>A version that is about to be committed is new: not 0, and not written before.\<close>

lemma commit_fresh:
  assumes tr: "effects sh n s0 h s" and small: "unat (v_counter s0) + length h < 2 ^ 64" and s0: "sound_start s0"
    and pr: "own i h = Minted k v ver # L"
  shows "ver \<noteq> 0" "ver \<le> v_counter s" "\<not> wrote s0 h k' v' ver"
proof -
  have mem: "(i, Minted k v ver) \<in> set h"
    by (rule own_Cons_mem [OF pr])
  have lt: "v_counter s0 < ver" "ver \<le> v_counter s"
    using versions_increase [OF tr small] Minted_minted [OF mem] by auto
  then show "ver \<noteq> 0" "ver \<le> v_counter s" by auto
  have "ver \<notin> set (committed h)"
    using version_ownersD(3) [OF effects_version_owners [OF tr small] pr] .
  moreover have "entry_version en \<noteq> ver" if "v_cache s0 k' = Some en" for en
    using s0 that lt(1) by (fastforce simp: sound_start_def)
  ultimately show "\<not> wrote s0 h k' v' ver"
    unfolding wrote_def set_committed by blast
qed

lemma wrote_unique:
  assumes tr: "effects sh n s0 h s" and small: "unat (v_counter s0) + length h < 2 ^ 64" and s0: "sound_start s0"
    and w: "wrote s0 h k v ver" "wrote s0 h k v' ver"
  shows "v = v'"
proof -
  note vo = effects_version_owners [OF tr small]
  have new: "v_counter s0 < ver" if "(i, Committed k' w ver) \<in> set h" for i k' w
    using versions_increase [OF tr small] Minted_minted [OF version_ownersD(2) [OF vo that]] by auto
  have old: "\<not> v_counter s0 < ver" if "v_cache s0 k = Some en" "entry_version en = ver" for en
    using s0 that by (auto simp: sound_start_def not_less)
  from w show ?thesis
    unfolding wrote_def using new old version_ownersD(1,2) [OF vo] by (metis option.inject)
qed

lemma counter_mono:
  assumes tr: "effects sh n s0 h s" and ef: "effect sh ev s s'" and small: "unat (v_counter s0) + length h + 1 < 2 ^ 64"
  shows "v_counter s \<le> v_counter s'"
proof -
  have "unat (v_counter s0) + length h < 2 ^ 64" using small by simp
  then have "unat (v_counter s) + 1 < 2 ^ 64"
    using versions_increase [OF tr] small length_minted [of h] by simp
  then show ?thesis
    using effect_counter [OF ef] next_version(2) [of "v_counter s"] by (cases ev) (auto intro: less_imp_le)
qed

text \<open>The facts about entries, flushes and peeks after one more event.\<close>

lemma entries_step:
  assumes tr: "effects sh n s0 h s" and ok: "cache_ok s0 h s" and ef: "effect sh ev s s'" and pr: "protocol n (own i h) ev"
    and small: "unat (v_counter s0) + length h + 1 < 2 ^ 64" and s0: "sound_start s0"
    and en': "v_cache s' k = Some en'"
  shows "entry_key en' = k \<and> entry_version en' \<le> v_counter s' \<and>
        (entry_version en' = 0 \<longrightarrow> dirtyState en' = Clean) \<and>
        (entry_version en' \<noteq> 0 \<longrightarrow> wrote s0 ((i, ev) # h) k (entry_value en') (entry_version en')) \<and>
        (entry_version en' \<noteq> 0 \<longrightarrow> dirtyState en' = Clean \<longrightarrow> written_back s0 ((i, ev) # h) k (entry_value en') (entry_version en'))"
proof -
  have small': "unat (v_counter s0) + length h < 2 ^ 64"
    using small by simp
  have le: "entry_version en \<le> v_counter s'" if "v_cache s k = Some en" for en
    by (rule order_trans [OF cache_okD(2) [OF ok that] counter_mono [OF tr ef small]])
  show ?thesis
    using entry_origin [OF ef en']
  proof (elim disjE exE conjE)
    assume same: "v_cache s k = Some en'"
    show ?thesis
      using cache_okD(1,3-5) [OF ok same] le [OF same] by (auto intro: wrote_mono written_back_mono)
  next
    fix v ver assume c: "ev = Committed k v ver" "en' = mk_entry k v ver Dirty"
    then obtain L where L: "own i h = Minted k v ver # L"
      using pr by auto
    have "v_counter s' = v_counter s"
      using effect_counter [OF ef] c by simp
    then show ?thesis
      using commit_fresh(1,2) [OF tr small' s0 L] c by (auto simp: wrote_def)
  next
    fix v f assume "ev = Filled k v f" "en' = mk_entry k v 0 Clean"
    then show ?thesis by simp
  next
    fix en st assume en: "v_cache s k = Some en" "en' = en\<lparr>dirtyState := st\<rparr>" and "ev = FlushEnded k (entry_version en)"
      "dirtyState en = FlushInProgress" "st = Clean"
    moreover from this obtain v L where "own i h = Logged FlushComplete k (entry_version en) # Stored k v (entry_version en) # L"
      using pr by auto
    then have st: "(i, Stored k v (entry_version en)) \<in> set h"
      by (metis set_own list.set_intros)
    moreover have nz: "entry_version en \<noteq> 0"
      using cache_okD(3) [OF ok en(1)] calculation by auto
    moreover have "v = entry_value en"
      using wrote_unique [OF tr small' s0 cache_okD(6) [OF ok disjI2 [OF st]]] cache_okD(4) [OF ok en(1) nz] by blast
    ultimately show ?thesis
      using cache_okD(1,4) [OF ok en(1)] le wrote_mono by (auto simp: written_back_def)
  qed (use cache_okD(1,3,4) [OF ok] le wrote_mono in auto)
qed

lemma cache_ok_step:
  assumes tr: "effects sh n s0 h s" and ok: "cache_ok s0 h s" and ef: "effect sh ev s s'" and pr: "protocol n (own i h) ev"
    and small: "unat (v_counter s0) + length h + 1 < 2 ^ 64" and s0: "sound_start s0"
  shows "cache_ok s0 ((i, ev) # h) s'"
proof -
  have small': "unat (v_counter s0) + length h < 2 ^ 64"
    using small by simp
  have flushes: "wrote s0 ((i, ev) # h) k v ver"
    if "(j, FlushBegan k v ver) \<in> set ((i, ev) # h) \<or> (j, Stored k v ver) \<in> set ((i, ev) # h)" for j k v ver
  proof -
    have began: "wrote s0 h k v ver" if "ev = FlushBegan k v ver"
      using ef that cache_okD(3,4) [OF ok] by fastforce
    have "wrote s0 h k v ver" if st: "ev = Stored k v ver"
    proof -
      obtain L where "own i h = Logged FlushIntent k ver # FlushBegan k v ver # L"
        using pr st by auto
      then have "(i, FlushBegan k v ver) \<in> set h"
        by (metis set_own list.set_intros)
      then show ?thesis
        using cache_okD(6) [OF ok] by blast
    qed
    then show ?thesis
      using that began cache_okD(6) [OF ok] wrote_mono by (metis set_ConsD Pair_inject)
  qed
  have peeks: "ver = 0 \<or> (\<exists>v. wrote s0 ((i, ev) # h) k v ver)" if "(j, Peeked k ver force) \<in> set ((i, ev) # h)" for j k ver force
  proof -
    have "ver = 0 \<or> (\<exists>v. wrote s0 h k v ver)" if "ev = Peeked k ver force"
      using ef that cache_okD(4) [OF ok] by (auto split: option.splits)
    then show ?thesis
      using that cache_okD(7) [OF ok] wrote_mono by (metis set_ConsD Pair_inject)
  qed
  have clean: "dirtyState en' = Clean"
    if p: "(j, Peeked k ver False) \<in> set ((i, ev) # h)" and en': "v_cache s' k = Some en'" "entry_version en' = ver" for j k ver en'
  proof (cases "(j, Peeked k ver False) = (i, ev)")
    case True
    then show ?thesis
      using ef en' by (auto split: option.splits)
  next
    case False
    then have p: "(j, Peeked k ver False) \<in> set h"
      using p by auto
    note D = cache_okD(8) [OF ok p]
    show ?thesis
      using entry_origin [OF ef en'(1)]
    proof (elim disjE exE conjE)
      fix v ver' assume c: "ev = Committed k v ver'" "en' = mk_entry k v ver' Dirty"
      then obtain L where "own i h = Minted k v ver # L"
        using pr en'(2) by auto
      then show ?thesis
        using commit_fresh(1,3) [OF tr small' s0] cache_okD(7) [OF ok p] by blast
    qed (use D en'(2) in auto)
  qed
  show ?thesis
    unfolding cache_ok_def using entries_step [OF assms] flushes peeks clean by blast
qed

lemma effects_cache_ok:
  assumes "effects sh n s0 h s" and "unat (v_counter s0) + length h < 2 ^ 64" and "sound_start s0"
  shows "cache_ok s0 h s"
  using assms(1,2)
proof (induction rule: effects_induct)
  case Nil
  show ?case by (rule cache_ok_start [OF assms(3)])
next
  case (Cons h s i ev s')
  then show ?case
    by (intro cache_ok_step [OF Cons.hyps(1) _ Cons.hyps(2,3) _ assms(3)]) auto
qed

section \<open>The mutation fence\<close>

definition mutates :: "(key \<Rightarrow> nat) \<Rightarrow> nat \<Rightarrow> event \<Rightarrow> bool" where
  "mutates sh j ev \<longleftrightarrow> (case ev of Committed k v ver \<Rightarrow> sh k = j | Dropped k ver \<Rightarrow> sh k = j | _ \<Rightarrow> False)"

lemma fence_step:
  assumes "effect sh ev s s'"
  shows "v_fence s' j = v_fence s j + 1 \<or>
    v_fence s' j = v_fence s j \<and> \<not> mutates sh j ev \<and> (\<forall>k. sh k = j \<longrightarrow> v_cache s k = None \<longrightarrow> v_cache s' k = None)"
proof -
  have other: "C k = None" if "shrinks (m(k' \<mapsto> en)) C" "m k = None" "k \<noteq> k'" for m C k k' en
    using that unfolding shrinks_def by (metis fun_upd_other)
  have evict: "C k = None" if "shrinks m C" "m k = None" for m C k
    using that unfolding shrinks_def by metis
  show ?thesis
    using assms
    by (cases ev) (auto simp: inserted_def bump_def mutates_def restate_def dropped_def
      split: if_splits option.splits dest: other evict)
qed

text \<open>A fence that has not moved: nothing was committed or dropped in that shard, and absent keys stayed absent.\<close>

lemma fence_moves:
  assumes "effects sh n s0 (A @ B) s2"
  shows "\<exists>s1 m. effects sh n s0 B s1 \<and> m \<le> length A \<and> v_fence s2 j = v_fence s1 j + of_nat m \<and>
    (m = 0 \<longrightarrow> (\<forall>(i, ev)\<in>set A. \<not> mutates sh j ev) \<and> (\<forall>k. sh k = j \<longrightarrow> v_cache s1 k = None \<longrightarrow> v_cache s2 k = None))"
  using assms
proof (induction A arbitrary: s2)
  case Nil
  then show ?case by (intro exI [of _ s2] exI [of _ 0]) simp
next
  case (Cons x A)
  obtain i ev where x: "x = (i, ev)" by (cases x)
  obtain s where s: "effects sh n s0 (A @ B) s" "effect sh ev s s2"
    using Cons.prems by (auto simp: x elim: traced_ConsE)
  obtain s1 m where IH: "effects sh n s0 B s1" "m \<le> length A" "v_fence s j = v_fence s1 j + of_nat m"
    "m = 0 \<longrightarrow> (\<forall>(i, ev)\<in>set A. \<not> mutates sh j ev) \<and> (\<forall>k. sh k = j \<longrightarrow> v_cache s1 k = None \<longrightarrow> v_cache s k = None)"
    using Cons.IH [OF s(1)] by blast
  show ?case
    using fence_step [OF s(2), of j]
  proof (elim disjE conjE)
    assume "v_fence s2 j = v_fence s j + 1"
    then show ?thesis
      using IH by (intro exI [of _ s1] exI [of _ "Suc m"]) simp
  next
    assume "v_fence s2 j = v_fence s j" "\<not> mutates sh j ev" "\<forall>k. sh k = j \<longrightarrow> v_cache s k = None \<longrightarrow> v_cache s2 k = None"
    then show ?thesis
      using IH by (intro exI [of _ s1] exI [of _ m]) (auto simp: x)
  qed
qed

lemma own_split:
  assumes "own i h = L1 @ ev # L2"
  shows "\<exists>A B. h = A @ (i, ev) # B \<and> own i A = L1 \<and> own i B = L2"
  using assms
proof (induction h arbitrary: L1)
  case (Cons x h)
  obtain j ev' where x: "x = (j, ev')" by (cases x)
  show ?case
  proof (cases "j = i \<and> L1 = []")
    case True
    then show ?thesis
      using Cons.prems x by (intro exI [of _ "[]"] exI [of _ h]) auto
  next
    case False
    then obtain L1' where "own i h = L1' @ ev # L2" "L1 = (if j = i then ev' # L1' else L1')"
      using Cons.prems x by (cases L1) (auto split: if_splits)
    with Cons.IH [OF this(1)] x show ?thesis
      by (metis append_Cons own_simps(2))
  qed
qed simp

lemma fill_fenced:
  assumes tr: "effects sh n s0 h s" and ef: "effect sh (Filled k v f) s s'" and pr: "protocol n (own i h) (Filled k v f)"
    and small: "length h < 2 ^ 64"
  shows "v_cache s k = None \<and> (\<exists>A B. h = A @ (i, Missed k f) # B \<and> own i A = [StoreRead k v, Silent] \<and>
    (\<forall>(j, ev)\<in>set A. \<not> mutates sh (sh k) ev))"
proof -
  obtain L where "own i h = [StoreRead k v, Silent] @ Missed k f # L"
    using pr by auto
  then obtain A B where h: "h = A @ (i, Missed k f) # B" "own i A = [StoreRead k v, Silent]"
    using own_split [of i h "[StoreRead k v, Silent]" "Missed k f" L] by auto
  have "effects sh n s0 (A @ (i, Missed k f) # B) s"
    using tr h(1) by simp
  from fence_moves [OF this, of "sh k"] show ?thesis
  proof (elim exE conjE)
    fix s1 m
    assume s1: "effects sh n s0 ((i, Missed k f) # B) s1" "m \<le> length A" "v_fence s (sh k) = v_fence s1 (sh k) + of_nat m"
      "m = 0 \<longrightarrow> (\<forall>(i, ev)\<in>set A. \<not> mutates sh (sh k) ev) \<and> (\<forall>k'. sh k' = sh k \<longrightarrow> v_cache s1 k' = None \<longrightarrow> v_cache s k' = None)"
    have miss: "v_cache s1 k = None" "v_fence s1 (sh k) = f"
      using s1(1) by (auto elim!: traced_ConsE)
    have "(of_nat m :: u64) = 0"
      using s1(3) miss(2) ef by simp
    moreover have "m < 2 ^ 64"
      using s1(2) small h(1) by simp
    then have "unat (of_nat m :: u64) = m"
      by (simp add: unat_of_nat)
    ultimately have "m = 0"
      by simp
    then show ?thesis
      using s1(4) miss(1) h by auto
  qed
qed

section \<open>Truncating the journal\<close>

text \<open>No compaction begins while another thread is in one.\<close>

fun compactions_apart :: "event history \<Rightarrow> bool" where
  "compactions_apart [] = True"
| "compactions_apart ((i, ev) # h) = (compactions_apart h \<and> (ev = Paused \<longrightarrow> pausers h = {}))"

lemma one_pauser:
  assumes "compactions_apart h" "i \<in> pausers h" "j \<in> pausers h"
  shows "i = j"
  using assms
proof (induction h)
  case (Cons x h)
  then show ?case
    by (cases x; cases "snd x") (auto simp: pausers_Cons)
qed simp

lemma pauser_paused:
  assumes "effects sh n s0 h s" "compactions_apart h" "i \<in> pausers h"
  shows "v_paused s"
  using assms
proof (induction rule: effects_induct)
  case (Cons h s j ev s')
  have "j \<in> pausers h" if "ev = Resumed"
    using Cons.hyps(3) that by (simp add: pausers_def)
  then show ?case
    using Cons effect_paused [OF Cons.hyps(2)] one_pauser [of h i j]
    by (cases ev) (auto simp: pausers_Cons)
qed simp

lemma committer_writes:
  assumes "effects sh n s0 h s" "own i h = Minted k v ver # L"
  shows "i \<in> writers h"
  using assms
proof (induction rule: effects_induct)
  case (Cons h s j ev s')
  then show ?case
    by (cases "j = i") (auto simp: writers_def)
qed simp

text \<open>With no writer admitted, no event makes an entry dirty.\<close>

lemma quiet_step:
  assumes tr: "effects sh n s0 h s" and s0: "v_inflight s0 = 0" and quiet: "v_inflight s = 0"
    and ef: "effect sh ev s s'" and pr: "protocol n (own i h) ev"
  shows "ev \<noteq> Admitted \<Longrightarrow> v_inflight s' = 0"
    and "\<forall>k en. sh k = j \<longrightarrow> v_cache s k = Some en \<longrightarrow> dirtyState en = Clean \<Longrightarrow>
      \<forall>k en. sh k = j \<longrightarrow> v_cache s' k = Some en \<longrightarrow> dirtyState en = Clean"
proof -
  have nobody: "writers h = {}"
    using inflight_writers [OF tr s0] quiet finite_writers [of h] by simp
  show "v_inflight s' = 0" if "ev \<noteq> Admitted"
    using effect_inflight [OF ef] quiet that by (cases ev) simp_all
  have "ev \<noteq> Committed k v ver" for k v ver
    using pr committer_writes [OF tr, of i k v ver] nobody by auto
  then show "\<forall>k en. sh k = j \<longrightarrow> v_cache s' k = Some en \<longrightarrow> dirtyState en = Clean"
    if "\<forall>k en. sh k = j \<longrightarrow> v_cache s k = Some en \<longrightarrow> dirtyState en = Clean"
    using that by (auto dest!: entry_origin [OF ef])
qed

text \<open>The shards a thread has found clean in a row.\<close>

definition found_clean :: "(key \<Rightarrow> nat) \<Rightarrow> event list \<Rightarrow> sview \<Rightarrow> bool" where
  "found_clean sh S s \<longleftrightarrow> (\<forall>ev\<in>set S. \<exists>j z. ev = Scanned j z) \<longrightarrow>
     (\<forall>j. Scanned j True \<in> set S \<longrightarrow> (\<forall>k en. sh k = j \<longrightarrow> v_cache s k = Some en \<longrightarrow> dirtyState en = Clean))"

lemma found_clean_step:
  assumes "effects sh n s0 h s" "v_inflight s0 = 0" "v_inflight s = 0" "effect sh ev s s'" "protocol n (own i h) ev"
    and "found_clean sh S s"
  shows "found_clean sh S s'"
  using assms(6) quiet_step(2) [OF assms(1-5)] unfolding found_clean_def by blast

lemma found_clean_scan:
  "found_clean sh S s \<Longrightarrow> effect sh ev s s' \<Longrightarrow> found_clean sh (ev # S) s'"
  by (cases ev) (auto simp: found_clean_def)

lemma compaction_quiet:
  assumes "effects sh n s0 h s" "v_inflight s0 = 0" "compactions_apart h"
    and "own i h = S @ Drained # Paused # L" "\<forall>ev\<in>set S. \<exists>j z. ev = Scanned j z"
  shows "v_inflight s = 0 \<and> found_clean sh S s"
  using assms
proof (induction arbitrary: S rule: effects_induct)
  case (Cons h s j ev s')
  show ?case
  proof (cases "j = i")
    case True
    show ?thesis
    proof (cases S)
      case Nil
      then show ?thesis
        using Cons.prems(3) Cons.hyps(2) True by (auto simp: found_clean_def)
    next
      case (Cons x S')
      then have IH: "v_inflight s = 0 \<and> found_clean sh S' s" and x: "x = ev" "\<exists>j z. ev = Scanned j z"
        using Cons.IH [of S'] Cons.prems True by auto
      then show ?thesis
        using Cons found_clean_scan [OF conjunct2 [OF IH] Cons.hyps(2)] Cons.hyps(2) by auto
    qed
  next
    case False
    then have IH: "v_inflight s = 0 \<and> found_clean sh S s"
      using Cons.IH [of S] Cons.prems by auto
    have "in_pause (S @ Drained # Paused # L)"
      using Cons.prems(4) by (induction S) auto
    then have "i \<in> pausers h"
      using Cons.prems(3) False by (simp add: pausers_def)
    then have "v_paused s"
      using pauser_paused [OF Cons.hyps(1)] Cons.prems(2) by simp
    then have "ev \<noteq> Admitted"
      using Cons.hyps(2) by auto
    then show ?thesis
      using IH quiet_step(1) [OF Cons.hyps(1) Cons.prems(1) conjunct1 [OF IH] Cons.hyps(2,3)]
        found_clean_step [OF Cons.hyps(1) Cons.prems(1) conjunct1 [OF IH] Cons.hyps(2,3)] by blast
  qed
qed simp

text \<open>After \<^verbatim>\<open>Shutdown\<close> has drained the writers there are none, for good.\<close>

lemma stopped_for_good:
  assumes "effects sh n s0 h s" "(i, ShutdownBegan) \<in> set h"
  shows "v_lifecycle s \<noteq> Ready"
  using assms
proof (induction rule: effects_induct)
  case (Cons h s j ev s')
  then show ?case
    using effect_lifecycle [OF Cons.hyps(2)] by (cases ev) auto
qed simp

lemma stop_drained_Cons:
  "stop_drained (ev # L) \<longleftrightarrow> stop_drained L \<or> ev = Drained \<and> (\<exists>B. L = ShutdownBegan # B)"
  by (auto simp: stop_drained_def Cons_eq_append_conv)

lemma stop_drained_append: "stop_drained L \<Longrightarrow> stop_drained (A @ L)"
  by (induction A) (auto simp: stop_drained_Cons)

lemma drained_quiet:
  assumes "effects sh n s0 h s" "v_inflight s0 = 0" "stop_drained (own i h)"
  shows "v_inflight s = 0"
  using assms
proof (induction rule: effects_induct)
  case Nil
  then show ?case by (simp add: stop_drained_def)
next
  case (Cons h s j ev s')
  show ?case
  proof (cases "stop_drained (own i h)")
    case True
    then obtain A B where "own i h = A @ Drained # ShutdownBegan # B"
      by (auto simp: stop_drained_def)
    then have "(i, ShutdownBegan) \<in> set h"
      by (metis set_own in_set_conv_decomp append_Cons append.assoc append_Nil)
    then have "ev \<noteq> Admitted"
      using stopped_for_good [OF Cons.hyps(1)] Cons.hyps(2) by auto
    then show ?thesis
      using quiet_step(1) [OF Cons.hyps(1) Cons.prems(1) _ Cons.hyps(2,3)] Cons.IH Cons.prems(1) True by simp
  next
    case False
    then have "ev = Drained"
      using Cons.prems(2) by (auto simp: stop_drained_Cons split: if_splits)
    then show ?thesis
      using Cons.hyps(2) by auto
  qed
qed

lemma ended_drained:
  assumes "effects sh n s0 h s" "own i h = S @ ShutdownEnded # L"
  shows "stop_drained L"
  using assms
proof (induction arbitrary: S rule: effects_induct)
  case (Cons h s j ev s')
  show ?case
  proof (cases "j = i \<and> S = []")
    case True
    then show ?thesis
      using Cons.prems Cons.hyps(3) by auto
  next
    case False
    then obtain S' where "own i h = S' @ ShutdownEnded # L"
      using Cons.prems by (cases S) (auto split: if_splits)
    then show ?thesis
      by (rule Cons.IH)
  qed
qed simp

lemma shutdown_quiet:
  assumes "effects sh n s0 h s" "v_inflight s0 = 0"
    and "own i h = S @ ShutdownEnded # L" "\<forall>ev\<in>set S. \<exists>j z. ev = Scanned j z"
  shows "v_inflight s = 0 \<and> found_clean sh S s"
  using assms
proof (induction arbitrary: S rule: effects_induct)
  case (Cons h s j ev s')
  have "effects sh n s0 ((j, ev) # h) s'"
    using Cons.hyps by (auto intro: traced_Cons)
  then have q: "v_inflight s' = 0"
    using drained_quiet [of sh n s0 "(j, ev) # h" s' i] Cons.prems(1,2) ended_drained [of sh n s0 "(j, ev) # h" s' i S L]
      stop_drained_append [of L "S @ [ShutdownEnded]"] by simp
  show ?case
  proof (cases "j = i")
    case True
    show ?thesis
    proof (cases S)
      case Nil
      then show ?thesis
        using q by (simp add: found_clean_def)
    next
      case (Cons x S')
      then have "found_clean sh S' s" "x = ev"
        using Cons.IH [of S'] Cons.prems True by auto
      then show ?thesis
        using Cons q found_clean_scan [OF _ Cons.hyps(2)] by auto
    qed
  next
    case False
    then have IH: "v_inflight s = 0 \<and> found_clean sh S s"
      using Cons.IH [of S] Cons.prems by auto
    then show ?thesis
      using q found_clean_step [OF Cons.hyps(1) Cons.prems(1) conjunct1 [OF IH] Cons.hyps(2,3)] by blast
  qed
qed simp

lemma truncation_quiet:
  assumes tr: "effects sh n s0 h s" and s0: "v_inflight s0 = 0" and apart: "compactions_apart h"
    and pr: "protocol n (own i h) Truncated" and sh: "\<And>k. sh k < n"
  shows "writers h = {}" "v_cache s k = Some en \<Longrightarrow> dirtyState en = Clean"
proof -
  have scans: "\<forall>ev\<in>set (all_scanned n). \<exists>j z. ev = Scanned j z"
    by (auto simp: all_scanned_def)
  obtain L where "own i h = all_scanned n @ Drained # Paused # L \<or> own i h = all_scanned n @ ShutdownEnded # L"
    using pr by auto
  then have q: "v_inflight s = 0 \<and> found_clean sh (all_scanned n) s"
    using compaction_quiet [OF tr s0 apart _ scans] shutdown_quiet [OF tr s0 _ scans] by blast
  then show "writers h = {}"
    using inflight_writers [OF tr s0] finite_writers [of h] by simp
  have "Scanned (sh k) True \<in> set (all_scanned n)"
    using sh by (simp add: all_scanned_def)
  then show "v_cache s k = Some en \<Longrightarrow> dirtyState en = Clean"
    using q scans unfolding found_clean_def by blast
qed

end
