(* ===== verification/KeyHistories.thy ===== *)
theory KeyHistories
  imports ThreadHistories
begin

text \<open>
  When the cache and the store agree.  As long as the threads do not work on the same key at the same
  time (\<open>keys_apart\<close>), what the engine holds for a key is what the last committed write or completed
  invalidation of that key left there: flushes, read-fills, evictions and compactions of any thread
  do not show.
\<close>

section \<open>What a thread is in the middle of\<close>

text \<open>An invalidation that has removed the key from the store and not yet dropped the entry.\<close>

fun removing :: "key \<Rightarrow> event list \<Rightarrow> bool" where
  "removing k [] = False"
| "removing k (Removed k' # L) = (k' = k \<or> removing k L)"
| "removing k (Dropped k' ver # L) = (k' \<noteq> k \<and> removing k L)"
| "removing k (_ # L) = removing k L"

definition busy :: "key \<Rightarrow> event list \<Rightarrow> bool" where
  "busy k L \<longleftrightarrow> working k L \<or> removing k L"

text \<open>A flush after its first section, with the value and version it took and whether the store has it.\<close>

definition flushing :: "key \<Rightarrow> value \<Rightarrow> u64 \<Rightarrow> bool \<Rightarrow> event list \<Rightarrow> bool" where
  "flushing k v ver stored L \<longleftrightarrow>
     (\<exists>L'. if stored then
            L = Stored k v ver # Logged FlushIntent k ver # FlushBegan k v ver # L' \<or>
            L = Logged FlushComplete k ver # Stored k v ver # Logged FlushIntent k ver # FlushBegan k v ver # L'
          else L = FlushBegan k v ver # L' \<or> L = Logged FlushIntent k ver # FlushBegan k v ver # L')"

text \<open>An invalidation after its first section, with the version it found.\<close>

definition peeked :: "key \<Rightarrow> u64 \<Rightarrow> event list \<Rightarrow> bool" where
  "peeked k ver L \<longleftrightarrow> (\<exists>force L'. L = Peeked k ver force # L' \<or> L = Logged Invalidate k ver # Peeked k ver force # L' \<or>
     L = Removed k # Logged Invalidate k ver # Peeked k ver force # L')"

text \<open>A read that missed, with the fence it saw and the value it got.\<close>

definition reading :: "key \<Rightarrow> u64 \<Rightarrow> value option \<Rightarrow> event list \<Rightarrow> bool" where
  "reading k f got L \<longleftrightarrow> (\<exists>L'. case got of
       None \<Rightarrow> L = Missed k f # L' \<or> L = Silent # Missed k f # L'
     | Some v \<Rightarrow> L = StoreRead k v # Silent # Missed k f # L')"

definition starts :: "key \<Rightarrow> event \<Rightarrow> bool" where
  "starts k ev \<longleftrightarrow> (\<exists>v ver force. ev = Minted k v ver \<or> ev = FlushBegan k v ver \<or> ev = Peeked k ver force)"

text \<open>
  No thread begins to write, flush or invalidate a key while a thread is in the middle of that, and no
  read caches it in the middle of its invalidation.
\<close>

fun keys_apart :: "event history \<Rightarrow> bool" where
  "keys_apart [] = True"
| "keys_apart ((i, ev) # h) = (keys_apart h \<and>
     (\<forall>k. starts k ev \<longrightarrow> (\<forall>j. \<not> busy k (own j h))) \<and>
     (\<forall>k v f j ver. ev = Filled k v f \<longrightarrow> \<not> removing k (own j h) \<and> \<not> peeked k ver (own j h)))"

lemma flushing_working: "flushing k v ver b L \<Longrightarrow> working k L"
  by (auto simp: flushing_def split: if_splits)

lemma peeked_working: "peeked k ver L \<Longrightarrow> working k L"
  by (auto simp: peeked_def)

lemma own_protocol: "effects sh n s0 h s \<Longrightarrow> own i h = A @ ev # L \<Longrightarrow> protocol n L ev"
proof (induction arbitrary: A rule: effects_induct)
  case (Cons h s j ev' s')
  then show ?case
    by (cases A) (auto split: if_splits)
qed simp

text \<open>Sections that change a key are those of a thread that works on it.\<close>

lemma changer_works:
  assumes "protocol n L ev"
  shows "ev = Committed k v ver \<Longrightarrow> working k L" "ev = Stored k v ver \<Longrightarrow> flushing k v ver False L"
    "ev = Removed k \<Longrightarrow> working k L" "ev = Dropped k ver \<Longrightarrow> removing k L \<and> peeked k ver L"
    "ev = Reverted k ver \<Longrightarrow> working k L" "ev = Filled k v f \<Longrightarrow> reading k f (Some v) L"
  using assms by (auto simp: flushing_def peeked_def reading_def)

lemma ended_flushing:
  assumes "effects sh n s0 h s" "protocol n (own i h) (FlushEnded k ver)"
  shows "\<exists>v. flushing k v ver True (own i h)"
proof -
  obtain v L where L: "own i h = Logged FlushComplete k ver # Stored k v ver # L"
    using assms(2) by auto
  then have "protocol n L (Stored k v ver)"
    using own_protocol [OF assms(1), of i "[Logged FlushComplete k ver]"] by simp
  then show ?thesis
    using L by (auto simp: flushing_def)
qed

lemma busy_Cons: "protocol n L ev \<Longrightarrow> busy k (ev # L) \<Longrightarrow> starts k ev \<or> busy k L"
  by (cases ev) (auto simp: busy_def starts_def)

definition alone :: "event history \<Rightarrow> bool" where
  "alone h \<longleftrightarrow> (\<forall>i j k. busy k (own i h) \<longrightarrow> busy k (own j h) \<longrightarrow> i = j)"

lemma alone_step:
  assumes "alone h" "protocol n (own i h) ev" "keys_apart ((i, ev) # h)"
  shows "alone ((i, ev) # h)"
  unfolding alone_def
proof (intro allI impI)
  fix a b k
  assume ab: "busy k (own a ((i, ev) # h))" "busy k (own b ((i, ev) # h))"
  show "a = b"
  proof (cases "starts k ev")
    case True
    then show ?thesis using ab assms(3) by (auto split: if_splits)
  next
    case False
    then have "busy k (own a h)" "busy k (own b h)"
      using ab busy_Cons [OF assms(2)] by (auto split: if_splits)
    then show ?thesis using assms(1) by (auto simp: alone_def)
  qed
qed


section \<open>What the engine holds\<close>

definition contents :: "sview \<Rightarrow> key \<rightharpoonup> value" where
  "contents s k = (case v_cache s k of Some en \<Rightarrow> Some (entry_value en) | None \<Rightarrow> v_store s k)"

text \<open>The map after the committed writes and completed invalidations of a history.\<close>

fun net :: "event history \<Rightarrow> (key \<rightharpoonup> value) \<Rightarrow> key \<rightharpoonup> value" where
  "net [] m = m"
| "net ((_, Committed k v ver) # h) m = (net h m)(k \<mapsto> v)"
| "net ((_, Dropped k ver) # h) m = (net h m)(k := None)"
| "net (_ # h) m = net h m"

lemma effect_store:
  "effect sh ev s s' \<Longrightarrow> v_store s' k = (case ev of Stored k' v ver \<Rightarrow> if k' = k then Some v else v_store s k
     | Removed k' \<Rightarrow> if k' = k then None else v_store s k | _ \<Rightarrow> v_store s k)"
  by (cases ev) (auto simp: inserted_def bump_def split: if_splits)

lemma shrinks_dirty: "shrinks m C \<Longrightarrow> m k = Some en \<Longrightarrow> dirtyState en \<noteq> Clean \<Longrightarrow> C k = Some en"
  unfolding shrinks_def by (metis option.inject)

text \<open>An unflushed entry of a key on which this thread does not work stays, and so does what the store has.\<close>

lemma undisturbed:
  assumes ef: "effect sh ev s s'" and pr: "protocol n (own i h) ev" and tr: "effects sh n s0 h s"
    and idle: "\<not> working k (own i h)" "\<not> starts k ev"
    and en: "v_cache s k = Some en" "dirtyState en \<noteq> Clean" "entry_version en \<noteq> 0"
  shows "v_cache s' k = Some en \<and> v_store s' k = v_store s k"
proof -
  have "ev \<noteq> FlushEnded k ver" for ver
    using ended_flushing [OF tr] pr idle(1) flushing_working by blast
  then show ?thesis
    using ef pr idle en changer_works [OF pr, of k] flushing_working [of k _ _ False "own i h"]
    by (cases ev) (auto simp: inserted_def bump_def starts_def restate_def dropped_def stale_in_def shrinks_dirty
      split: if_splits option.splits, (metis shrinks_dirty fun_upd_other option.distinct(1) option.inject)+)
qed


definition being_removed :: "key \<Rightarrow> event history \<Rightarrow> bool" where
  "being_removed k h \<longleftrightarrow> (\<exists>i. removing k (own i h))"

text \<open>
  The invariant: a key is worked on by one thread; a flush in progress finds its entry as it left it;
  clean entries agree with the store; an invalidation finds no other version than the one it saw; a key being
  removed is not in the store; a read whose fence has not moved has the value of the store; and the
  contents are those of the committed writes and completed invalidations.
\<close>

definition flush_inv :: "event history \<Rightarrow> sview \<Rightarrow> bool" where
  "flush_inv h s \<longleftrightarrow> (\<forall>i k v ver b. flushing k v ver b (own i h) \<longrightarrow> \<not> removing k (own i h) \<and>
     v_cache s k = Some (mk_entry k v ver FlushInProgress) \<and> (b \<longrightarrow> v_store s k = Some v))"

definition clean_inv :: "event history \<Rightarrow> sview \<Rightarrow> bool" where
  "clean_inv h s \<longleftrightarrow> (\<forall>k en. v_cache s k = Some en \<longrightarrow> dirtyState en = Clean \<longrightarrow> \<not> being_removed k h \<longrightarrow>
     v_store s k = Some (entry_value en))"

definition peek_inv :: "event history \<Rightarrow> sview \<Rightarrow> bool" where
  "peek_inv h s \<longleftrightarrow> (\<forall>i k ver en. peeked k ver (own i h) \<longrightarrow> v_cache s k = Some en \<longrightarrow> entry_version en = ver)"

definition gone_inv :: "event history \<Rightarrow> sview \<Rightarrow> bool" where
  "gone_inv h s \<longleftrightarrow> (\<forall>k. being_removed k h \<longrightarrow> v_store s k = None)"

definition read_inv :: "(key \<Rightarrow> nat) \<Rightarrow> event history \<Rightarrow> sview \<Rightarrow> bool" where
  "read_inv sh h s \<longleftrightarrow> (\<forall>i k f got. reading k f got (own i h) \<longrightarrow> (\<exists>m\<le>length h. v_fence s (sh k) = f + of_nat m \<and>
     (m = 0 \<longrightarrow> v_cache s k = None \<and> (\<forall>v. got = Some v \<longrightarrow> being_removed k h \<or> v_store s k = Some v))))"

definition net_inv :: "sview \<Rightarrow> event history \<Rightarrow> sview \<Rightarrow> bool" where
  "net_inv s0 h s \<longleftrightarrow> (\<forall>k. \<not> being_removed k h \<longrightarrow> contents s k = net h (contents s0) k)"

definition key_inv :: "(key \<Rightarrow> nat) \<Rightarrow> sview \<Rightarrow> event history \<Rightarrow> sview \<Rightarrow> bool" where
  "key_inv sh s0 h s \<longleftrightarrow> alone h \<and> flush_inv h s \<and> clean_inv h s \<and> peek_inv h s \<and> gone_inv h s \<and>
     read_inv sh h s \<and> net_inv s0 h s"

lemma key_invD:
  assumes "key_inv sh s0 h s"
  shows "busy k (own i h) \<Longrightarrow> busy k (own j h) \<Longrightarrow> i = j"
    "flushing k v ver b (own i h) \<Longrightarrow> \<not> removing k (own i h)"
    "flushing k v ver b (own i h) \<Longrightarrow> v_cache s k = Some (mk_entry k v ver FlushInProgress)"
    "flushing k v ver True (own i h) \<Longrightarrow> v_store s k = Some v"
    "v_cache s k = Some en \<Longrightarrow> dirtyState en = Clean \<Longrightarrow> \<not> being_removed k h \<Longrightarrow> v_store s k = Some (entry_value en)"
    "peeked k ver (own i h) \<Longrightarrow> v_cache s k = Some en \<Longrightarrow> entry_version en = ver"
    "being_removed k h \<Longrightarrow> v_store s k = None"
    "reading k f got (own i h) \<Longrightarrow> \<exists>m\<le>length h. v_fence s (sh k) = f + of_nat m \<and>
        (m = 0 \<longrightarrow> v_cache s k = None \<and> (\<forall>v. got = Some v \<longrightarrow> being_removed k h \<or> v_store s k = Some v))"
    "\<not> being_removed k h \<Longrightarrow> contents s k = net h (contents s0) k"
proof -
  have inv: "alone h" "flush_inv h s" "clean_inv h s" "peek_inv h s" "gone_inv h s" "read_inv sh h s" "net_inv s0 h s"
    using assms by (simp_all add: key_inv_def)
  show "busy k (own i h) \<Longrightarrow> busy k (own j h) \<Longrightarrow> i = j"
    using inv(1) unfolding alone_def by blast
  show "flushing k v ver b (own i h) \<Longrightarrow> \<not> removing k (own i h)"
    "flushing k v ver b (own i h) \<Longrightarrow> v_cache s k = Some (mk_entry k v ver FlushInProgress)"
    "flushing k v ver True (own i h) \<Longrightarrow> v_store s k = Some v"
    using inv(2) unfolding flush_inv_def by blast+
  show "v_cache s k = Some en \<Longrightarrow> dirtyState en = Clean \<Longrightarrow> \<not> being_removed k h \<Longrightarrow> v_store s k = Some (entry_value en)"
    "peeked k ver (own i h) \<Longrightarrow> v_cache s k = Some en \<Longrightarrow> entry_version en = ver" "being_removed k h \<Longrightarrow> v_store s k = None"
    using inv(3-5) unfolding clean_inv_def peek_inv_def gone_inv_def by blast+
  show "reading k f got (own i h) \<Longrightarrow> \<exists>m\<le>length h. v_fence s (sh k) = f + of_nat m \<and>
        (m = 0 \<longrightarrow> v_cache s k = None \<and> (\<forall>v. got = Some v \<longrightarrow> being_removed k h \<or> v_store s k = Some v))"
    using inv(6) unfolding read_inv_def by blast
  show "\<not> being_removed k h \<Longrightarrow> contents s k = net h (contents s0) k"
    using inv(7) unfolding net_inv_def by blast
qed

definition key_step ::
  "(key \<Rightarrow> nat) \<Rightarrow> nat \<Rightarrow> sview \<Rightarrow> event history \<Rightarrow> sview \<Rightarrow> nat \<Rightarrow> event \<Rightarrow> sview \<Rightarrow> bool" where
  "key_step sh n s0 h s i ev s' \<longleftrightarrow> key_inv sh s0 h s \<and> effects sh n s0 h s \<and> effect sh ev s s' \<and> protocol n (own i h) ev \<and>
     keys_apart ((i, ev) # h) \<and> sound_start s0 \<and> unat (v_counter s0) + length h < 2 ^ 64"

lemma key_stepD:
  assumes "key_step sh n s0 h s i ev s'"
  shows "key_inv sh s0 h s" "effects sh n s0 h s" "effect sh ev s s'" "protocol n (own i h) ev" "length h < 2 ^ 64"
    "starts k ev \<Longrightarrow> \<not> busy k (own j h)" "ev = Filled k v f \<Longrightarrow> \<not> being_removed k h \<and> \<not> peeked k ver (own j h)"
    "v_cache s k = Some en \<Longrightarrow> entry_key en = k" "v_cache s k = Some en \<Longrightarrow> dirtyState en \<noteq> Clean \<Longrightarrow> entry_version en \<noteq> 0"
  using assms cache_okD(1,3) [OF effects_cache_ok [of sh n s0 h s], of k en] unfolding key_step_def being_removed_def by auto

text \<open>A key some other thread works on: this section leaves its unflushed entry and its value in the store.\<close>

lemma other_busy:
  assumes st: "key_step sh n s0 h s i ev s'" and "j \<noteq> i" "busy k (own j h)"
  shows "\<not> busy k (own i h)" "\<not> starts k ev"
    and "v_cache s k = Some en \<Longrightarrow> dirtyState en \<noteq> Clean \<Longrightarrow> v_cache s' k = Some en" "v_store s' k = v_store s k"
proof -
  note D = key_stepD [OF st]
  show idle: "\<not> busy k (own i h)" "\<not> starts k ev"
    using key_invD(1) [OF D(1)] assms(2,3) D(6) by blast+
  show "v_cache s k = Some en \<Longrightarrow> dirtyState en \<noteq> Clean \<Longrightarrow> v_cache s' k = Some en"
    using undisturbed [OF D(3,4,2) _ idle(2)] idle(1) D(9) by (auto simp: busy_def)
  have "ev \<noteq> Stored k v ver" "ev \<noteq> Removed k" for v ver
    using changer_works [OF D(4), of k] idle(1) flushing_working by (auto simp: busy_def)
  then show "v_store s' k = v_store s k"
    using effect_store [OF D(3), of k] by (auto split: event.splits)
qed

lemma flushing_step:
  assumes st: "key_step sh n s0 h s i ev s'" and fl: "flushing k v ver b (own j ((i, ev) # h))"
  shows "\<not> removing k (own j ((i, ev) # h)) \<and> v_cache s' k = Some (mk_entry k v ver FlushInProgress) \<and> (b \<longrightarrow> v_store s' k = Some v)"
proof (cases "j = i")
  case False
  then have f: "flushing k v ver b (own j h)" "busy k (own j h)"
    using fl flushing_working by (auto simp: busy_def)
  then show ?thesis
    using other_busy(3,4) [OF st False f(2)] key_invD(2,3,4) [OF key_stepD(1) [OF st]] False by (cases b) fastforce+
next
  case True
  note D = key_stepD [OF st]
  have own: "flushing k v ver b (ev # own i h)"
    using fl True by simp
  then consider "ev = FlushBegan k v ver" "\<not> b" | "flushing k v ver b (own i h)" "s' = s" "removing k (ev # own i h) = removing k (own i h)"
    | "flushing k v ver False (own i h)" "ev = Stored k v ver" "b"
    using D(3) by (fastforce simp: flushing_def split: if_splits)
  then show ?thesis
  proof cases
    case 1
    then show ?thesis
      using D(3,8) D(6) [of k i] True by (auto simp: starts_def busy_def)
  next
    case 2
    then show ?thesis
      using key_invD(2,3,4) [OF D(1)] True by (cases b) auto
  next
    case 3
    then show ?thesis
      using key_invD(2,3) [OF D(1)] D(3) True by auto
  qed
qed


lemma removed_now: "being_removed k ((i, Removed k) # h)"
  unfolding being_removed_def by (rule exI [of _ i]) simp

lemma removed_Cons:
  assumes st: "key_step sh n s0 h s i ev s'"
  shows "being_removed k h \<Longrightarrow> (\<And>ver. ev \<noteq> Dropped k ver) \<Longrightarrow> being_removed k ((i, ev) # h)"
    "being_removed k ((i, ev) # h) \<Longrightarrow> ev = Removed k \<or> being_removed k h"
    "ev = Dropped k ver \<Longrightarrow> being_removed k h \<and> \<not> being_removed k ((i, ev) # h)"
proof -
  have keep: "removing k (ev # L)" if "removing k L" "\<And>ver. ev \<noteq> Dropped k ver" for L
    using that by (cases ev) auto
  then show "being_removed k h \<Longrightarrow> (\<And>ver. ev \<noteq> Dropped k ver) \<Longrightarrow> being_removed k ((i, ev) # h)"
    unfolding being_removed_def by (auto split: if_splits)
  have "removing k (ev # L) \<Longrightarrow> ev = Removed k \<or> removing k L" for L
    by (cases ev) auto
  then show "being_removed k ((i, ev) # h) \<Longrightarrow> ev = Removed k \<or> being_removed k h"
    unfolding being_removed_def by (metis own_simps(2))
  assume ev: "ev = Dropped k ver"
  then have r: "removing k (own i h)"
    using changer_works(4) [OF key_stepD(4) [OF st]] by blast
  have "\<not> removing k (own j ((i, ev) # h))" for j
    using key_invD(1) [OF key_stepD(1) [OF st], of k j i] r by (cases "j = i") (auto simp: ev busy_def)
  then show "being_removed k h \<and> \<not> being_removed k ((i, ev) # h)"
    using r by (auto simp: being_removed_def simp del: own_simps)
qed

text \<open>The sections that write to the store.\<close>

lemma store_step:
  assumes st: "key_step sh n s0 h s i ev s'" and "ev \<noteq> Removed k"
  shows "v_store s' k = v_store s k \<or> (\<exists>v ver. ev = Stored k v ver \<and> flushing k v ver False (own i h) \<and> v_store s' k = Some v)"
  using effect_store [OF key_stepD(3) [OF st], of k] assms(2) changer_works(2) [OF key_stepD(4) [OF st], of k]
  by (auto split: event.splits if_splits)

lemma gone_step:
  assumes st: "key_step sh n s0 h s i ev s'" and r: "being_removed k ((i, ev) # h)"
  shows "v_store s' k = None"
proof (cases "ev = Removed k")
  case True
  then show ?thesis
    using effect_store [OF key_stepD(3) [OF st], of k] by simp
next
  case False
  then have "being_removed k h"
    using removed_Cons(2) [OF st r] by blast
  then obtain j where j: "removing k (own j h)" "v_store s k = None"
    using key_invD(7) [OF key_stepD(1) [OF st]] by (auto simp: being_removed_def)
  have "\<not> flushing k v ver False (own i h)" for v ver
    using key_invD(1,2) [OF key_stepD(1) [OF st]] j(1) flushing_working by (metis busy_def)
  then show ?thesis
    using store_step [OF st False] j(2) by metis
qed

text \<open>A read that fills the cache has what the store has.\<close>

lemma fill_agrees:
  assumes st: "key_step sh n s0 h s i (Filled k v f) s'"
  shows "v_cache s k = None \<and> v_store s k = Some v"
proof -
  note D = key_stepD [OF st]
  obtain m where m: "m \<le> length h" "v_fence s (sh k) = f + of_nat m"
    "m = 0 \<longrightarrow> v_cache s k = None \<and> (being_removed k h \<or> v_store s k = Some v)"
    using key_invD(8) [OF D(1) changer_works(6) [OF D(4) refl]] by blast
  have "(of_nat m :: u64) = 0"
    using m(2) D(3) by simp
  moreover have "unat (of_nat m :: u64) = m"
    using m(1) D(5) by (simp add: unat_of_nat)
  ultimately show ?thesis
    using m(3) D(7) by auto
qed

lemma clean_step:
  assumes st: "key_step sh n s0 h s i ev s'" and en: "v_cache s' k = Some en'" "dirtyState en' = Clean"
    and nr: "\<not> being_removed k ((i, ev) # h)"
  shows "v_store s' k = Some (entry_value en')"
proof -
  note D = key_stepD [OF st] and I = key_invD [OF key_stepD(1) [OF st]]
  have ev: "ev \<noteq> Removed k"
    using nr removed_now by blast
  have notf: "\<not> flushing k v ver False (own i h)" if "v_cache s k = Some en'" for v ver
    using I(3) that en(2) by fastforce
  show ?thesis
    using entry_origin [OF D(3) en(1)]
  proof (elim disjE exE conjE)
    assume same: "v_cache s k = Some en'"
    have "ev \<noteq> Dropped k ver" for ver
    proof
      assume d: "ev = Dropped k ver"
      then have "entry_version en' = ver"
        using changer_works(4) [OF D(4) d] I(6) [OF _ same] by blast
      then show False
        using D(3) en(1) same d by (simp add: bump_def dropped_def)
    qed
    then have "\<not> being_removed k h"
      using removed_Cons(1) [OF st] nr by blast
    then show ?thesis
      using I(5) [OF same en(2)] store_step [OF st ev] notf [OF same] by metis
  next
    fix v f assume f: "ev = Filled k v f" "en' = mk_entry k v 0 Clean"
    then show ?thesis
      using fill_agrees [of sh n s0 h s i k v f s'] st effect_store [OF D(3), of k] by auto
  next
    fix en st0 assume f: "v_cache s k = Some en" "en' = en\<lparr>dirtyState := st0\<rparr>" "ev = FlushEnded k (entry_version en)"
    then obtain v ver where fl: "flushing k v ver True (own i h)"
      using ended_flushing [OF D(2)] D(4) by blast
    then have "en = mk_entry k v ver FlushInProgress"
      using I(3) [OF fl] f(1) by simp
    then have "entry_value en' = v"
      by (simp add: f(2))
    then show ?thesis
      using I(4) [OF fl] f(3) effect_store [OF D(3), of k] by simp
  qed (use en(2) in auto)
qed


lemma peek_step:
  assumes st: "key_step sh n s0 h s i ev s'" and p: "peeked k ver (own j ((i, ev) # h))" and en: "v_cache s' k = Some en'"
  shows "entry_version en' = ver"
proof -
  note D = key_stepD [OF st] and I = key_invD [OF key_stepD(1) [OF st]]
  show ?thesis
  proof (cases "peeked k ver (own j h)")
    case True
    then have b: "busy k (own j h)"
      using peeked_working by (auto simp: busy_def)
    have "ev \<noteq> Committed k v ver'" for v ver'
    proof
      assume c: "ev = Committed k v ver'"
      then have "i = j"
        using I(1) [OF _ b, of i] changer_works(1) [OF D(4) c] by (simp add: busy_def)
      then show False
        using p c by (simp add: peeked_def)
    qed
    moreover have "ev \<noteq> Filled k v f" for v f
      using D(7) True by blast
    ultimately show ?thesis
      using entry_origin [OF D(3) en] I(6) [OF True] by auto
  next
    case False
    then have "j = i" "(\<exists>force. ev = Peeked k ver force) \<or> s' = s \<and> peeked k ver (own i h) \<or>
        (\<exists>b. s' = s\<lparr>v_store := b\<rparr>) \<and> peeked k ver (own i h)"
      using p D(3) by (auto simp: peeked_def split: if_splits)
    then show ?thesis
      using False D(3) en by (auto split: option.splits)
  qed
qed

lemma reading_step:
  assumes st: "key_step sh n s0 h s i ev s'" and r: "reading k f got (own j ((i, ev) # h))"
  shows "\<exists>m\<le>length ((i, ev) # h). v_fence s' (sh k) = f + of_nat m \<and> (m = 0 \<longrightarrow> v_cache s' k = None \<and>
     (\<forall>v. got = Some v \<longrightarrow> being_removed k ((i, ev) # h) \<or> v_store s' k = Some v))"
proof -
  note D = key_stepD [OF st] and I = key_invD [OF key_stepD(1) [OF st]]
  consider "ev = Missed k f" "got = None" | "s' = s" "reading k f None (own j h)" "got = None" | v where "ev = StoreRead k v" "reading k f None (own j h)" "got = Some v"
    | "reading k f got (own j h)"
    using r D(3) by (cases "j = i") (auto simp: reading_def split: option.splits)
  then show ?thesis
  proof cases
    case 1
    then show ?thesis
      using D(3) by (intro exI [of _ 0]) auto
  next
    case 2
    then show ?thesis
      using I(8) [OF 2(2)] by (metis le_Suc_eq length_Cons option.distinct(1))
  next
    case (3 v)
    then show ?thesis
      using I(8) [OF 3(2)] D(3) by (metis effect.simps(3) le_Suc_eq length_Cons option.inject)
  next
    case 4
    obtain m where m: "m \<le> length h" "v_fence s (sh k) = f + of_nat m"
      "m = 0 \<longrightarrow> v_cache s k = None \<and> (\<forall>v. got = Some v \<longrightarrow> being_removed k h \<or> v_store s k = Some v)"
      using I(8) [OF 4] by blast
    show ?thesis
      using fence_step [OF D(3), of "sh k"]
    proof (elim disjE conjE)
      assume "v_fence s' (sh k) = v_fence s (sh k) + 1"
      then show ?thesis
        using m(1,2) by (intro exI [of _ "Suc m"]) simp
    next
      assume same: "v_fence s' (sh k) = v_fence s (sh k)" "\<not> mutates sh (sh k) ev"
        "\<forall>k'. sh k' = sh k \<longrightarrow> v_cache s k' = None \<longrightarrow> v_cache s' k' = None"
      have "v_store s' k = v_store s k \<or> being_removed k ((i, ev) # h)" if "v_cache s k = None"
      proof (cases "ev = Removed k")
        case True
        then show ?thesis
          using removed_now by simp
      next
        case False
        then show ?thesis
          using store_step [OF st False] I(3) that by fastforce
      qed
      moreover have "being_removed k h \<longrightarrow> being_removed k ((i, ev) # h)"
        using removed_Cons(1) [OF st, of k] same(2) by (auto simp: mutates_def split: event.splits)
      ultimately show ?thesis
        using m same by (intro exI [of _ m]) auto
    qed
  qed
qed


text \<open>Sections other than a commit and the end of an invalidation leave the contents as they are.\<close>

lemma contents_kept:
  assumes st: "key_step sh n s0 h s i ev s'" and nr: "\<not> being_removed k ((i, ev) # h)"
    and ev: "\<And>v ver. ev \<noteq> Committed k v ver" "\<And>ver. ev \<noteq> Dropped k ver"
  shows "contents s' k = contents s k"
proof -
  note D = key_stepD [OF st] and I = key_invD [OF key_stepD(1) [OF st]]
  have nr0: "\<not> being_removed k h"
    using removed_Cons(1) [OF st] nr ev(2) by blast
  have "ev \<noteq> Removed k"
    using nr removed_now by blast
  then have store: "v_store s' k = v_store s k" if "\<And>v ver. v_cache s k \<noteq> Some (mk_entry k v ver FlushInProgress)"
    using store_step [OF st] I(3) that by metis
  show ?thesis
  proof (cases "v_cache s' k")
    case None
    show ?thesis
    proof (cases "v_cache s k")
      case (Some en)
      then have "dirtyState en = Clean"
        using entry_leaves [OF D(3) Some None] ev(2) D(9) [OF Some] by blast
      then show ?thesis
        using None Some store I(5) [OF Some _ nr0] by (force simp: contents_def)
    qed (use None store in \<open>simp add: contents_def\<close>)
  next
    case (Some en')
    from entry_origin [OF D(3) this] show ?thesis
    proof (elim disjE exE conjE)
      fix v f assume "ev = Filled k v f" "en' = mk_entry k v 0 Clean"
      then show ?thesis
        using fill_agrees [of sh n s0 h s i k v f s'] st Some by (simp add: contents_def)
    qed (use Some ev(1) in \<open>auto simp: contents_def\<close>)
  qed
qed

lemma net_step:
  assumes st: "key_step sh n s0 h s i ev s'" and nr: "\<not> being_removed k ((i, ev) # h)"
  shows "contents s' k = net ((i, ev) # h) (contents s0) k"
proof -
  note D = key_stepD [OF st] and I = key_invD [OF key_stepD(1) [OF st]]
  consider v ver where "ev = Committed k v ver" | ver where "ev = Dropped k ver" | "\<And>v ver. ev \<noteq> Committed k v ver" "\<And>ver. ev \<noteq> Dropped k ver"
    by blast
  then show ?thesis
  proof cases
    case (1 v ver)
    then obtain C where C: "shrinks ((v_cache s)(k \<mapsto> mk_entry k v ver Dirty)) C" "v_cache s' = C"
      using D(3) by (auto simp: inserted_def bump_def)
    then have "v_cache s' k = Some (mk_entry k v ver Dirty)"
      using shrinks_dirty [OF C(1), of k] by simp
    then show ?thesis
      using 1 by (simp add: contents_def)
  next
    case (2 ver)
    have "v_cache s' k = None"
      using D(3) I(6) changer_works(4) [OF D(4) 2] 2 by (auto simp: bump_def dropped_def split: option.splits)
    moreover have "v_store s' k = None"
      using D(3) I(7) removed_Cons(3) [OF st 2] 2 by (auto simp: bump_def)
    ultimately show ?thesis
      using 2 by (simp add: contents_def)
  next
    case 3
    have "\<not> being_removed k h"
      using removed_Cons(1) [OF st] nr 3(2) by blast
    then have "contents s' k = net h (contents s0) k"
      using contents_kept [OF st nr 3] I(9) by simp
    moreover have "net ((i, ev) # h) (contents s0) k = net h (contents s0) k"
      using 3 by (cases ev) auto
    ultimately show ?thesis by simp
  qed
qed

lemma key_inv_step:
  assumes st: "key_step sh n s0 h s i ev s'"
  shows "key_inv sh s0 ((i, ev) # h) s'"
proof -
  have "alone h" "keys_apart ((i, ev) # h)"
    using st by (simp_all add: key_step_def key_inv_def)
  then have "alone ((i, ev) # h)"
    using alone_step [OF _ key_stepD(4) [OF st]] by blast
  moreover have "flush_inv ((i, ev) # h) s'" "clean_inv ((i, ev) # h) s'" "peek_inv ((i, ev) # h) s'"
    "gone_inv ((i, ev) # h) s'" "read_inv sh ((i, ev) # h) s'" "net_inv s0 ((i, ev) # h) s'"
    unfolding flush_inv_def clean_inv_def peek_inv_def gone_inv_def read_inv_def net_inv_def
    using flushing_step [OF st] clean_step [OF st] peek_step [OF st] gone_step [OF st] reading_step [OF st] net_step [OF st]
    by blast+
  ultimately show ?thesis
    by (simp add: key_inv_def)
qed

lemma effects_contents:
  assumes "effects sh n s0 h s" and "keys_apart h" and "unat (v_counter s0) + length h < 2 ^ 64" and "sound_start s0"
    and start: "\<And>k en. v_cache s0 k = Some en \<Longrightarrow> dirtyState en = Clean \<Longrightarrow> v_store s0 k = Some (entry_value en)"
  shows "key_inv sh s0 h s"
  using assms(1-3)
proof (induction rule: effects_induct)
  case Nil
  show ?case
    using start by (auto simp: key_inv_def alone_def busy_def flush_inv_def flushing_def clean_inv_def peek_inv_def peeked_def
      gone_inv_def being_removed_def read_inv_def reading_def net_inv_def split: option.splits if_splits)
next
  case (Cons h s i ev s')
  then have "key_step sh n s0 h s i ev s'"
    using assms(4) by (simp add: key_step_def)
  then show ?case
    by (rule key_inv_step)
qed

end
