(* ===== verification/SampleEngine.thy ===== *)
theory SampleEngine
  imports EngineEvents EngineSessions
begin

text \<open>
  An engine on two shards with at most one cached key, and what the sections of a write, a flush and
  a compaction do to it, with the journal and the store known only by their contents: the concrete
  runs of the other theories are put together from these.
\<close>

definition sample_key :: key where
  "sample_key = str ''k''"

definition one_shard :: "Entry option \<Rightarrow> u64 \<Rightarrow> nat \<Rightarrow> Shard" where
  "one_shard eo f m =
     (case eo of None \<Rightarrow> empty_shard\<lparr>mutationFence := f, nextNode := m\<rparr>
      | Some en \<Rightarrow> push_front en (empty_shard\<lparr>mutationFence := f, nextNode := m\<rparr>))"

definition sample_at ::
  "Shard \<Rightarrow> CacheStatistics \<Rightarrow> PortableFile WriteAheadJournal \<Rightarrow> PortableFile FileBackingStore \<Rightarrow> u64 \<Rightarrow> nat \<Rightarrow> bool
     \<Rightarrow> (PortableFile WriteAheadJournal, PortableFile FileBackingStore) CacheEngine" where
  "sample_at s c j b ver m p =
     sample_engine\<lparr>lifecycle := Ready, shards := [empty_shard, s], stats := c, journal := j, backingStore := b,
       globalVersionCounter := ver, inFlightWriteCount := m, compactionPaused := p\<rparr>"

abbreviation sample_new ::
  "PortableFile WriteAheadJournal \<Rightarrow> PortableFile FileBackingStore
     \<Rightarrow> (PortableFile WriteAheadJournal, PortableFile FileBackingStore) CacheEngine" where
  "sample_new j b \<equiv> sample_at (one_shard None 0 0) no_statistics j b 0 0 False"

lemma sample_shards: "shards sample_engine = [empty_shard, one_shard None 0 0]"
  by code_simp

lemma sample_start: "(new_engine sample_options b j)\<lparr>lifecycle := Ready\<rparr> = sample_new j b"
  using sample_shards by (simp add: sample_at_def sample_engine_def new_engine_def Let_def)

lemma sample_at_simps [simp]:
  "shards (sample_at s c j b ver m p) = [empty_shard, s]" "stats (sample_at s c j b ver m p) = c"
  "journal (sample_at s c j b ver m p) = j" "backingStore (sample_at s c j b ver m p) = b"
  "globalVersionCounter (sample_at s c j b ver m p) = ver" "inFlightWriteCount (sample_at s c j b ver m p) = m"
  "compactionPaused (sample_at s c j b ver m p) = p" "lifecycle (sample_at s c j b ver m p) = Ready"
  "options (sample_at s c j b ver m p) = sample_options"
  "limits (sample_at s c j b ver m p) = \<lparr>perShardCapacityBytes = 500, perShardMaxEntries = 2\<rparr>"
  "(sample_at s c j b ver m p)\<lparr>stats := c'\<rparr> = sample_at s c' j b ver m p"
  "(sample_at s c j b ver m p)\<lparr>journal := j'\<rparr> = sample_at s c j' b ver m p"
  "(sample_at s c j b ver m p)\<lparr>backingStore := b'\<rparr> = sample_at s c j b' ver m p"
  "(sample_at s c j b ver m p)\<lparr>globalVersionCounter := ver'\<rparr> = sample_at s c j b ver' m p"
  "(sample_at s c j b ver m p)\<lparr>inFlightWriteCount := m'\<rparr> = sample_at s c j b ver m' p"
  "(sample_at s c j b ver m p)\<lparr>compactionPaused := p'\<rparr> = sample_at s c j b ver m p'"
  "upd_shard (Suc 0) s' (sample_at s c j b ver m p) = sample_at s' c j b ver m p"
  by (simp_all add: sample_at_def sample_engine_def new_engine_def Let_def sample_options_def upd_shard_def)

lemma sample_ShardFor [simp]: "ShardFor (portable_deps length ord) (sample_at s c j b ver m p) sample_key = Suc 0"
  by (simp add: ShardFor_def portable_deps_def sample_key_def str_def)

lemma sample_find [simp]:
  "find_entry (one_shard None f m) sample_key = None"
  "entry_key en = sample_key \<Longrightarrow> find_entry (one_shard (Some en) f m) sample_key = Some (m, en)"
  "dirtyCount (one_shard None f m) = 0"
  "dirtyCount (one_shard (Some en) f m) = (if dirtyState en = Clean then 0 else 1)"
  "mutationFence (one_shard eo f m) = f" "dirtyCount empty_shard = 0"
  by (simp_all add: one_shard_def find_entry_def empty_shard_def push_front_def split: option.split)

lemma sample_commit:
  assumes "case eo of None \<Rightarrow> True | Some en \<Rightarrow> entry_key en = sample_key \<and> length (entry_value en) = 1 \<and> entry_version en < ver"
  shows "\<exists>m' c'. on_shard (Suc 0) (InsertOrUpdateLocked \<lparr>perShardCapacityBytes = 500, perShardMaxEntries = 2\<rparr> sample_key [x] ver Dirty True)
      (sample_at (one_shard eo f m) c j b w n p) = sample_at (one_shard (Some (mk_entry sample_key [x] ver Dirty)) (f + 1) m') c' j b w n p"
proof -
  have len: "length sample_key = 1"
    by (simp add: sample_key_def str_def)
  have fits: "\<not> over_budget \<lparr>perShardCapacityBytes = 500, perShardMaxEntries = 2\<rparr> (one_shard (Some (mk_entry sample_key [x] ver Dirty)) (f + 1) m')" for m'
    by (simp add: over_budget_def one_shard_def push_front_def empty_shard_def SizeBytes_def kEntryOverheadBytes_def len)
  have "\<exists>m' c'. InsertOrUpdateLocked \<lparr>perShardCapacityBytes = 500, perShardMaxEntries = 2\<rparr> sample_key [x] ver Dirty True (one_shard eo f m, c)
      = EvictCleanEntriesLocked \<lparr>perShardCapacityBytes = 500, perShardMaxEntries = 2\<rparr> (one_shard (Some (mk_entry sample_key [x] ver Dirty)) (f + 1) m', c')"
    using assms by (cases eo)
      (auto simp: InsertOrUpdateLocked_def Let_def, auto simp: one_shard_def push_front_def unlink_def erase_node_def empty_shard_def SizeBytes_def kEntryOverheadBytes_def len)
  then show ?thesis
    using fits by (fastforce simp: on_shard_def EvictCleanEntriesLocked.simps)
qed

lemma sample_flush_states [simp]:
  "begin_flush sample_key 0 False (one_shard (Some (mk_entry sample_key v ver Dirty)) f m) =
     (FlushValue v ver, one_shard (Some (mk_entry sample_key v ver FlushInProgress)) f m)"
  "complete_flush sample_key ver (one_shard (Some (mk_entry sample_key v ver' st)) f m) =
     one_shard (Some (mk_entry sample_key v ver' (if ver' = ver \<and> st = FlushInProgress then Clean else st))) f m"
  by (simp_all add: begin_flush_def complete_flush_def)
   (auto simp: one_shard_def push_front_def set_node_def empty_shard_def SizeBytes_def)

text \<open>The journal holds \<open>R\<close>, and has counted \<open>n\<close> appends.\<close>

definition sample_log :: "CacheJournalRecord list \<Rightarrow> nat \<Rightarrow> PortableFile WriteAheadJournal \<Rightarrow> bool" where
  "sample_log R n j \<longleftrightarrow> dur.jgood R j \<and> recordCount j = n"

lemma append_counts:
  "AppendJournalRecord (portable_deps h ord) rec e = (Inr (), e') \<Longrightarrow> recordCount (journal e') = recordCount (journal e) + 1"
  by (auto simp: AppendJournalRecord_def portable_deps_def WriteAheadJournal_ops_def Append_def Let_def
      split: prod.splits sum.splits if_splits)

lemma sample_append:
  assumes "sample_log R n j" and "unat ver \<le> 10" and "length v \<le> 1"
  shows "\<exists>j'. AppendJournalRecord (portable_deps h ord) (journal_record t sample_key v ver) (sample_at s c j b w m p) =
      (Inr (), sample_at s c j' b w m p) \<and> sample_log (R @ [journal_record t sample_key v ver]) (n + 1) j'"
proof -
  have ok: "rec_ok 10 (journal_record t sample_key v ver)"
    using assms(2,3) by (simp add: key_ok_def sample_key_def str_def)
  obtain j' where j': "AppendJournalRecord (portable_deps h ord) (journal_record t sample_key v ver) (sample_at s c j b w m p) =
      (Inr (), sample_at s c j' b w m p)" "dur.jgood (R @ [journal_record t sample_key v ver]) j'"
    using dur.AppendJournalRecord_jgood [of R "sample_at s c j b w m p" 10, OF _ ok] assms(1) by (auto simp: sample_log_def)
  then show ?thesis
    using append_counts [OF j'(1)] assms(1) by (auto simp: sample_log_def)
qed

lemma sample_fits [simp]:
  "length (entry_value en) = 1 \<Longrightarrow> entry_key en = sample_key \<Longrightarrow>
    \<not> over_budget \<lparr>perShardCapacityBytes = 500, perShardMaxEntries = 2\<rparr> (one_shard (Some en) f m)"
  by (simp add: over_budget_def one_shard_def push_front_def empty_shard_def SizeBytes_def kEntryOverheadBytes_def
     sample_key_def str_def)

abbreviation sample_write :: "8 word \<Rightarrow> u64 \<Rightarrow> EntryDirtyState \<Rightarrow> Entry" where
  "sample_write x ver st \<equiv> mk_entry sample_key [x] ver st"

abbreviation holding :: "8 word \<Rightarrow> u64 \<Rightarrow> EntryDirtyState \<Rightarrow> u64 \<Rightarrow> nat \<Rightarrow> Shard" where
  "holding x ver st f m \<equiv> one_shard (Some (sample_write x ver st)) f m"

lemma sample_Put:
  assumes log: "sample_log R n j" and eo: "case eo of None \<Rightarrow> True | Some en \<Rightarrow> entry_key en = sample_key \<and> length (entry_value en) = 1 \<and> entry_version en < ver + 1"
    and ver: "unat (ver + 1) \<le> 10"
  shows "\<exists>f' m' c' j'. run_alone (call_prog sample_deps (Op (EPut sample_key [x]))) (sample_at (one_shard eo f m) c j b ver q False) =
      Some (OpReply (RUnit (Success ())), sample_at (holding x (ver + 1) Dirty f' m') c' j' b (ver + 1) q False) \<and>
      sample_log (R @ [journal_record Upsert sample_key [x] (ver + 1)]) (n + 1) j'"
proof -
  obtain j' where j': "AppendJournalRecord sample_deps (journal_record Upsert sample_key [x] (ver + 1)) (sample_at (one_shard eo f m) c j b (ver + 1) (q + 1) False)
      = (Inr (), sample_at (one_shard eo f m) c j' b (ver + 1) (q + 1) False)"
      "sample_log (R @ [journal_record Upsert sample_key [x] (ver + 1)]) (n + 1) j'"
    using sample_append [OF log ver, of "[x]" length id Upsert "one_shard eo f m" c b "ver + 1" "q + 1" False] by auto
  obtain m' c' where commit: "on_shard (Suc 0) (InsertOrUpdateLocked \<lparr>perShardCapacityBytes = 500, perShardMaxEntries = 2\<rparr> sample_key [x] (ver + 1) Dirty True)
      (sample_at (one_shard eo f m) c j' b (ver + 1) (q + 1) False) = sample_at (holding x (ver + 1) Dirty (f + 1) m') c' j' b (ver + 1) (q + 1) False"
    using sample_commit [OF eo, of x f m c j' b "ver + 1" "q + 1" False] by auto
  have jr: "journal_record Upsert sample_key [x] 0\<lparr>entryVersion := ver + 1\<rparr> = journal_record Upsert sample_key [x] (ver + 1)"
    by (simp add: journal_record_def)
  have "CacheEngine_Put sample_deps sample_key [x] (sample_at (one_shard eo f m) c j b ver q False) =
     Some (Success (), sample_at (holding x (ver + 1) Dirty (f + 1) m') c' j' b (ver + 1) q False)"
    using j'(1) commit
    by (simp add: CacheEngine_Put_def CheckReadyForWrite_def TryAdmitWrite_def Put_admitted_def
       AppendJournalRecordWithNewVersion_def jr Let_def RelieveCapacityPressureIfNeeded_def kMaxFlushAttemptsPerCall_def
       ReleaseWriteAdmission_def sample_options_def relieve_attempts.simps(2) [of _ _ 63, simplified])
  then show ?thesis
    using j'(2) by (fastforce simp: run_alone_simps Put_alone)
qed


abbreviation op_reply :: "('j, 'b, unit result) eprog \<Rightarrow> ('j, 'b, thread_reply) eprog" where
  "op_reply p \<equiv> bind_prog (bind_prog p (\<lambda>r. Return (RUnit r))) (\<lambda>r. Return (OpReply r))"

lemma sample_flush_begins:
  assumes log: "sample_log R n j" and ver: "unat ver \<le> 10"
  shows "\<exists>j'. sections 3 (call_prog sample_deps (Op (EFlush sample_key))) (sample_at (holding x ver Dirty f m) c j b w q p) =
      Some ([Logged FlushIntent sample_key ver, FlushBegan sample_key [x] ver, Silent], op_reply (store_back_prog sample_deps sample_key [x] ver),
        sample_at (holding x ver FlushInProgress f m) c j' b w q p) \<and>
      sample_log (R @ [journal_record FlushIntent sample_key [] ver]) (n + 1) j'"
proof -
  obtain j' where j': "AppendJournalRecord sample_deps (journal_record FlushIntent sample_key [] ver)
      (sample_at (holding x ver FlushInProgress f m) c j b w q p) =
      (Inr (), sample_at (holding x ver FlushInProgress f m) c j' b w q p)"
      "sample_log (R @ [journal_record FlushIntent sample_key [] ver]) (n + 1) j'"
    using sample_append [OF log ver, of "[]" length id FlushIntent] by fastforce
  then show ?thesis
    by (intro exI [of _ j'])
      (simp add: bind_assoc Flush_prog_def check_read_def CheckReadyForRead_def FlushKey_prog_def write_back_prog_def log_section_def
        Let_def numeral_3_eq_3)
qed

lemma sample_store_back:
  assumes log: "sample_log R n j" and ver: "unat ver \<le> 10" and b: "dur.bgood b"
  shows "\<exists>c' j' b'. run_alone (op_reply (store_back_prog sample_deps sample_key [x] ver)) (sample_at (holding y w st f m) c j b u q p) =
      Some (OpReply (RUnit (Success ())), sample_at (holding y w (if w = ver \<and> st = FlushInProgress then Clean else st) f m) c' j' b' u q p) \<and>
      sample_log (R @ [journal_record FlushComplete sample_key [] ver]) (n + 1) j' \<and> dur.bgood b' \<and> pf.fbs_abs b' = (pf.fbs_abs b)(sample_key \<mapsto> [x])"
proof -
  obtain b' where b': "Bs_Put (store_ops sample_deps) sample_key [x] b = (Inr (), b')" "dur.bgood b'" "pf.fbs_abs b' = (pf.fbs_abs b)(sample_key \<mapsto> [x])"
    using dur.bgood_Put [OF b, of sample_key "[x]" length id] by (auto simp: storable_def sample_key_def str_def)
  obtain j' where j': "AppendJournalRecord sample_deps (journal_record FlushComplete sample_key [] ver)
      (sample_at (holding y w st f m) c j b' u q p) =
      (Inr (), sample_at (holding y w st f m) c j' b' u q p)"
      "sample_log (R @ [journal_record FlushComplete sample_key [] ver]) (n + 1) j'"
    using sample_append [OF log ver, of "[]" length id FlushComplete] by fastforce
  show ?thesis
    using b' j' by (simp add: run_alone_simps store_back_prog_def alone_simps) blast
qed

lemma sample_Flush:
  assumes log: "sample_log R n j" and ver: "unat ver \<le> 10" and b: "dur.bgood b"
  shows "\<exists>c' j' b'. run_alone (call_prog sample_deps (Op (EFlush sample_key))) (sample_at (holding x ver Dirty f m) c j b w q p) =
      Some (OpReply (RUnit (Success ())), sample_at (holding x ver Clean f m) c' j' b' w q p) \<and>
      sample_log (R @ [journal_record FlushIntent sample_key [] ver, journal_record FlushComplete sample_key [] ver]) (n + 2) j' \<and>
      dur.bgood b' \<and> pf.fbs_abs b' = (pf.fbs_abs b)(sample_key \<mapsto> [x])"
proof -
  obtain j1 where j1: "sections 3 (call_prog sample_deps (Op (EFlush sample_key))) (sample_at (holding x ver Dirty f m) c j b w q p) =
      Some ([Logged FlushIntent sample_key ver, FlushBegan sample_key [x] ver, Silent], op_reply (store_back_prog sample_deps sample_key [x] ver),
        sample_at (holding x ver FlushInProgress f m) c j1 b w q p)"
      "sample_log (R @ [journal_record FlushIntent sample_key [] ver]) (n + 1) j1"
    using sample_flush_begins [OF log ver] by blast
  show ?thesis
    unfolding run_alone_sections [OF j1(1)]
    using sample_store_back [OF j1(2) ver b, of x x ver FlushInProgress f m c w q p] by simp
qed


abbreviation compacting :: "nat \<Rightarrow> (PortableFile WriteAheadJournal, PortableFile FileBackingStore, thread_reply) eprog" where
  "compacting r \<equiv> op_reply (bind_prog (compact_prog sample_deps r) (\<lambda>_. Return (Success ())))"

lemma sample_FlushAll_scans:
  assumes "recordCount j \<noteq> 0" and "case eo of None \<Rightarrow> True | Some en \<Rightarrow> dirtyState en = Clean"
  shows "sections 8 (call_prog sample_deps (Op EFlushAll)) (sample_at (one_shard eo f m) c j b w 0 p) =
      Some ([Scanned 1 True, Scanned 0 True, Drained, Paused, Silent, Silent, Silent, Silent], compacting 0,
        sample_at (one_shard eo f m) c j b w 0 True)"
proof -
  have two: "[0..<2] = [0, 1 :: nat]" by code_simp
  have clean: "dirty_keys empty_shard = []" "dirty_keys (one_shard eo f m) = []" "dirtyCount (one_shard eo f m) = 0"
    using assms(2) by (auto simp: dirty_keys_def empty_shard_def one_shard_def push_front_def split: option.split)
  show ?thesis
    using assms(1) two clean
    by (simp add: bind_assoc FlushAll_prog_def check_read_def CheckReadyForRead_def TryCompactJournalIfFullyClean_prog_def
        drain_def DrainInFlightWrites_def portable_deps_def WriteAheadJournal_ops_def RecordCount_def numeral_2_eq_2 eval_nat_numeral)
qed

lemma sample_compacts:
  assumes "sample_log R n j" "n \<noteq> 0"
  shows "\<exists>j'. run_alone (compacting 0) (sample_at s c j b w q p) = Some (OpReply (RUnit (Success ())), sample_at s c j' b w q False) \<and> sample_log [] 0 j'"
proof -
  obtain j' where j': "Jrn_Truncate (journal_ops sample_deps) j = (Inr (), j')" "dur.jgood [] j'"
    using dur.Truncate_jgood [of R j length id] assms(1) by (auto simp: sample_log_def)
  moreover have "recordCount j' = 0"
    using j'(1) by (auto simp: portable_deps_def WriteAheadJournal_ops_def Truncate_def split: prod.splits sum.splits)
  moreover have "Jrn_RecordCount (journal_ops sample_deps) j \<noteq> 0"
    using assms by (simp add: portable_deps_def WriteAheadJournal_ops_def RecordCount_def sample_log_def)
  ultimately show ?thesis
    by (simp add: run_alone_simps compact_prog_def truncate_section_def resume_def sample_log_def) blast
qed


lemma sample_restart:
  assumes "sample_log [] n (journal e)" "dur.bgood (backingStore e)"
  shows "\<exists>e'. start_engine length id sample_options (crash e) = Some e' \<and>
      engine_view sample_deps pf.fbs_abs e' = pf.fbs_abs (backingStore e)"
proof -
  have cr: "holds_records 0 [] (snd (crash e))" "pf.fbs_abs (backingStore e) = store_map (store_scan (fst (crash e)))"
    using good_crash(1) [of "[]" e 0] good_crash(2) [of e] assms by (auto simp: sample_log_def)
  obtain e' where "start_engine length id sample_options (fst (crash e), snd (crash e)) = Some e'"
      "engine_view sample_deps pf.fbs_abs e' = stored_view [] (fst (crash e))"
    using session [OF sample_options_valid _ cr(1), of id "[]" length "fst (crash e)"] by auto
  moreover have "stored_view [] (fst (crash e)) = pf.fbs_abs (backingStore e)"
    by (simp add: stored_view_def cr(2) fun_eq_iff)
  ultimately show ?thesis by simp
qed


abbreviation op_pool :: "engine_op list \<Rightarrow> (PortableFile WriteAheadJournal, PortableFile FileBackingStore, thread_reply) eprog list" where
  "op_pool xs \<equiv> engine_pool length id (map Op xs)"

abbreviation ok_reply :: "(PortableFile WriteAheadJournal, PortableFile FileBackingStore, thread_reply) eprog" where
  "ok_reply \<equiv> Return (OpReply (RUnit (Success ())))"

lemma sample_journal_log: "sample_log [] 0 sample_journal"
  using holds_records_jgood [of 0 "[]" "[]"] by (simp add: sample_log_def sample_journal_def holds_records_def)

lemma sample_store_good: "dur.bgood sample_store"
  using open_bytes [of "[]"] sample_opens by (auto simp: dur.bgood_def)

lemma sample_view:
  "engine_view sample_deps A (sample_at (holding x ver st f m) c j b w q p) sample_key = Some [x]"
  by (simp add: engine_view_def cached_def shard_map_def one_shard_def push_front_def)

lemma sample_cached [simp]:
  "cached sample_deps (sample_at (holding x ver st f m) c j b w q p) sample_key = Some (sample_write x ver st)"
  by (simp add: cached_def shard_map_def one_shard_def push_front_def)

text \<open>A write up to its commit.\<close>

lemma sample_commits:
  "\<exists>p f m c j. sections 4 (call_prog sample_deps (Op (EPut sample_key [x]))) (sample_new sample_journal sample_store) =
     Some ([Committed sample_key [x] 1, Minted sample_key [x] 1, Admitted, Silent], p,
       sample_at (holding x 1 Dirty f m) c j sample_store 1 1 False)"
proof -
  obtain j where j: "AppendJournalRecord sample_deps (journal_record Upsert sample_key [x] 1) (sample_at (one_shard None 0 0) no_statistics sample_journal sample_store 1 1 False)
      = (Inr (), sample_at (one_shard None 0 0) no_statistics j sample_store 1 1 False)"
    using sample_append [OF sample_journal_log, of 1 "[x]" length id Upsert "one_shard None 0 0" no_statistics sample_store 1 1 False] by auto
  obtain m c where commit: "on_shard (Suc 0) (InsertOrUpdateLocked \<lparr>perShardCapacityBytes = 500, perShardMaxEntries = 2\<rparr> sample_key [x] 1 Dirty True)
      (sample_at (one_shard None 0 0) no_statistics j sample_store 1 1 False) = sample_at (holding x 1 Dirty (0 + 1) m) c j sample_store 1 1 False"
    using sample_commit [where eo = None and ver = 1 and f = 0 and m = 0 and x = x and c = no_statistics and j = j and b = sample_store and w = 1 and n = 1 and p = False] by auto
  have jr: "journal_record Upsert sample_key [x] 0\<lparr>entryVersion := 1\<rparr> = journal_record Upsert sample_key [x] 1"
    by (simp add: journal_record_def)
  show ?thesis
    using j commit
    by (simp add: bind_assoc Put_prog_def check_write_def CheckReadyForWrite_def admit_def TryAdmitWrite_def Put_admitted_prog_def
        AppendJournalRecordWithNewVersion_def jr Let_def insert_stale_def shard_map_def one_shard_def [of None] empty_shard_def eval_nat_numeral sample_options_def) blast
qed

text \<open>A flush that finds the write of another thread.\<close>

lemma sample_interleaving:
  "\<exists>e ps e' ps'. pool_run (sample_new sample_journal sample_store, op_pool [EPut sample_key [1], EFlush sample_key])
      [(1, Silent), (0, Committed sample_key [1] 1), (0, Minted sample_key [1] 1), (0, Admitted), (0, Silent)] (e, ps) \<and>
    cached sample_deps e sample_key = Some (sample_write 1 1 Dirty) \<and>
    pool_step (e, ps) (1, FlushBegan sample_key [1] 1) (e', ps')"
proof -
  let ?s0 = "sample_new sample_journal sample_store" and ?ps = "op_pool [EPut sample_key [1], EFlush sample_key]"
  obtain p f m c j where put: "sections 4 (call_prog sample_deps (Op (EPut sample_key [1]))) ?s0 =
     Some ([Committed sample_key [1] 1, Minted sample_key [1] 1, Admitted, Silent], p,
       sample_at (holding 1 1 Dirty f m) c j sample_store 1 1 False)"
    using sample_commits by blast
  let ?s1 = "sample_at (holding 1 1 Dirty f m) c j sample_store 1 1 False"
  let ?flush = "op_reply (FlushKey_prog sample_deps sample_key 0 False)"
  have "pool_run (?s0, ?ps) [(0, Committed sample_key [1] 1), (0, Minted sample_key [1] 1), (0, Admitted), (0, Silent)]
      (?s1, ?ps[0 := p])"
    using pool_run_sections [OF pool_run_Nil [of "(?s0, ?ps)"] _ _ put, of 0] by simp
  moreover have "sections 1 (call_prog sample_deps (Op (EFlush sample_key))) ?s1 = Some ([Silent], ?flush, ?s1)"
    by (simp add: bind_assoc Flush_prog_def check_read_def CheckReadyForRead_def)
  ultimately have "pool_run (?s0, ?ps) [(1, Silent), (0, Committed sample_key [1] 1), (0, Minted sample_key [1] 1), (0, Admitted), (0, Silent)]
      (?s1, ?ps[0 := p, 1 := ?flush])"
    using pool_run_sections [where ps = "?ps[0 := p]" and i = 1 and n = 1] by fastforce
  moreover have "\<exists>p' s'. sections 1 ?flush ?s1 = Some ([FlushBegan sample_key [1] 1], p', s')"
    by (simp add: bind_assoc FlushKey_prog_def Let_def)
  then obtain e' ps' where "pool_step (?s1, ?ps[0 := p, 1 := ?flush]) (1, FlushBegan sample_key [1] 1) (e', ps')"
    using pool_run_sections [OF pool_run_Nil [of "(?s1, ?ps[0 := p, 1 := ?flush])"], of 1 ?flush 1] by (fastforce elim: pool_run_ConsE pool_run.cases)
  ultimately show ?thesis
    using sample_cached by blast
qed

text \<open>A read that fills the cache from the store.\<close>

lemma sample_fill:
  assumes b: "dur.bgood b" "pf.fbs_abs b sample_key = Some [x]"
  shows "\<exists>e ps e' ps'. pool_run (sample_new sample_journal b, op_pool [EGet sample_key])
      [(0, StoreRead sample_key [x]), (0, Silent), (0, Missed sample_key 0), (0, Silent)] (e, ps) \<and>
    pool_step (e, ps) (0, Filled sample_key [x] 0) (e', ps')"
proof -
  let ?s0 = "sample_new sample_journal b"
  obtain b' where get: "Bs_Get (store_ops sample_deps) sample_key b = (Inr [x], b')"
    using eng.st.get_healthy [of b sample_key "[x]" length id] b by (cases "Bs_Get (store_ops sample_deps) sample_key b") (auto simp: dur.bgood_def)
  have small: "length [x] \<le> kMaxReasonableValueBytes"
    by (simp add: kMaxReasonableValueBytes_def)
  have "\<exists>p s. sections (Suc (Suc (Suc (Suc (Suc 0))))) (call_prog sample_deps (Op (EGet sample_key))) ?s0 =
      Some ([Filled sample_key [x] 0, StoreRead sample_key [x], Silent, Missed sample_key 0, Silent], p, s)"
    using get small by (simp add: bind_assoc Get_prog_def check_read_def CheckReadyForRead_def count_section_def fill_prog_def
      sample_options_def Let_def split: prod.split)
  then obtain p s where "sections (Suc (Suc (Suc (Suc (Suc 0))))) (call_prog sample_deps (Op (EGet sample_key))) ?s0 =
      Some ([Filled sample_key [x] 0, StoreRead sample_key [x], Silent, Missed sample_key 0, Silent], p, s)"
    by blast
  from pool_run_sections [OF pool_run_Nil [of "(?s0, op_pool [EGet sample_key])"] _ _ this, of 0]
  show ?thesis
    by (auto elim!: pool_run_ConsE [where l = "(0, Filled sample_key [x] 0)"])
qed

end
