(* ===== verification/Concurrency.thy ===== *)
theory Concurrency
  imports KeyHistories SampleEngine
begin

text \<open>
  The threads of the file-backed engine: what holds after any interleaving of any calls.  The
  interpretation \<open>eng.threads\<close> turns a run of the threads into a history of effects, whose
  invariants (\<open>ThreadHistories\<close>) give the properties.
\<close>

section \<open>Threads of the file-backed engine\<close>

text \<open>
  A state from which the threads may start: ready, nothing in flight, and every unflushed entry has
  a version of its own.  New engines and recovered ones are in such a state.
\<close>

definition engine_ready ::
  "(key \<Rightarrow> nat) \<Rightarrow> (pending \<Rightarrow> pending) \<Rightarrow> (PortableFile WriteAheadJournal, PortableFile FileBackingStore) CacheEngine \<Rightarrow> bool" where
  "engine_ready h ord e \<longleftrightarrow> eng.running h ord 0 e \<and>
     (\<forall>k en. cached (portable_deps h ord) e k = Some en \<longrightarrow> entry_version en = 0 \<longrightarrow> dirtyState en = Clean)"

lemma new_ready:
  assumes "pf.fbs_inv b"
    and "CreateCacheEngine opts (Some b) (Some j) = Inr e0" and "MarkRecoveryComplete e0 = (r, e)" and "enabled opts"
  shows "engine_ready h ord e"
proof -
  have "e0 = new_engine opts b j"
    using assms(2) by (simp add: CreateCacheEngine_def split: if_splits)
  moreover have "shards e = shards e0"
    using assms(3) by (auto simp: MarkRecoveryComplete_def StartBackgroundFlushThreadIfConfigured_def split: if_splits)
  ultimately have "cached (portable_deps h ord) e = Map.empty"
    using eng.new_engine_core [OF assms(1), of h ord opts j] cached_cong [of e e0] by simp
  then show ?thesis
    using eng.Create_running [OF assms, of 0 h ord] by (simp add: engine_ready_def)
qed

lemma ready_look:
  assumes "engine_ready h ord e"
  shows "eng.good h ord (length (shards e)) e" "sound_start (look (portable_deps h ord) pf.fbs_abs e)" "length (shards e) > 0"
proof -
  have r: "eng.running h ord 0 e" and z: "\<And>k en. cached (portable_deps h ord) e k = Some en \<Longrightarrow> entry_version en = 0 \<Longrightarrow> dirtyState en = Clean"
    using assms by (simp_all add: engine_ready_def)
  note c = eng.coreD [OF eng.runningD(1) [OF r]]
  show "eng.good h ord (length (shards e)) e"
    using c by (auto simp: eng.good_def)
  show "sound_start (look (portable_deps h ord) pf.fbs_abs e)"
    using c(4) z eng.runningD(5,6) [OF r] by (auto simp: sound_start_def)
  show "length (shards e) > 0"
    using c(1) by (simp add: shards_inv_def)
qed

text \<open>Every run of a pool is a history of effects.\<close>

lemma ready_run:
  assumes "engine_ready h ord e0" and "\<forall>c\<in>set cs. call_storable c" and "pool_run (e0, engine_pool h ord cs) H (e, ps)"
  shows "effects (\<lambda>k. h k mod length (shards e0)) (length (shards e0)) (look (portable_deps h ord) pf.fbs_abs e0) H
      (look (portable_deps h ord) pf.fbs_abs e)"
    and "eng.good h ord (length (shards e0)) e" and "length ps = length cs"
    and "own i H \<noteq> [] \<Longrightarrow> i < length cs"
proof -
  have "hash (portable_deps h ord) = h"
    by (simp add: portable_deps_def)
  then show "effects (\<lambda>k. h k mod length (shards e0)) (length (shards e0)) (look (portable_deps h ord) pf.fbs_abs e0) H
      (look (portable_deps h ord) pf.fbs_abs e)" and "eng.good h ord (length (shards e0)) e" and "length ps = length cs"
    using eng.threads.pool_run_conforms [OF assms(3) ready_look(1) [OF assms(1)] assms(2)] by simp_all
  show "own i H \<noteq> [] \<Longrightarrow> i < length cs"
    using pool_run_threads [OF assms(3)] by simp
qed

lemma ready_step:
  assumes "engine_ready h ord e0" and "\<forall>c\<in>set cs. call_storable c" and "pool_run (e0, engine_pool h ord cs) H (e, ps)"
    and "pool_step (e, ps) (i, ev) (e', ps')"
  shows "effect (\<lambda>k. h k mod length (shards e0)) ev (look (portable_deps h ord) pf.fbs_abs e) (look (portable_deps h ord) pf.fbs_abs e')"
    and "protocol (length (shards e0)) (own i H) ev"
  using eng.threads.pool_step_effect [OF assms(3) ready_look(1) [OF assms(1)] assms(2,4)]
  by (simp_all add: portable_deps_def)

lemma recovered_ready:
  assumes "valid_options opts" and "\<And>p. mset (ord p) = mset p" and "holds_records N R jb" and "N < 2 ^ 64"
    and real: "\<forall>r\<in>set R. recordType r = Upsert \<longrightarrow> entryVersion r \<noteq> 0" and "start_engine h ord opts (sb, jb) = Some e"
  shows "engine_ready h ord e"
proof -
  let ?j = "\<lparr>waj_file = open_portable jb [], nextSequenceNumber = 0, recordCount = 0\<rparr>"
  have "N + 0 < 2 ^ 64" using assms(4) by simp
  from recovered_start [OF assms(1-3) this, of sb h] obtain b e1 e' where
    s: "OpenFileBackingStore PortableFile_ops (Inr (open_portable sb [])) = Some (Inr b)"
      "ReplayFromJournal (portable_deps h ord) (new_engine opts b ?j) = Some (Inr (), e1)"
      "MarkRecoveryComplete e1 = (Inr (), e')" "eng.running h ord 0 e'"
      "cached (portable_deps h ord) e' = (\<lambda>k. map_option (dur.pend_entry k) (pending_map R k))"
    by blast
  have "portable_open_store sb = Some b"
    using s(1) by (simp add: portable_opens)
  then have "e' = e"
    using s(2,3) valid_options_Create [OF assms(1), of b ?j] assms(6)
    by (simp add: start_engine_def start_engine_on_def portable_opens(2))
  have pend: "pe_version pe \<noteq> 0" if "pending_map R' k = Some pe" "\<forall>r\<in>set R'. recordType r = Upsert \<longrightarrow> entryVersion r \<noteq> 0" for R' k pe
    using that
  proof (induction R' arbitrary: pe rule: rev_induct)
    case (snoc r R')
    then show ?case
      by (cases "k = rec_key r")
        (auto simp: pend_apply_def Let_def split: CacheRecordType.splits option.splits if_splits)
  qed simp
  then show ?thesis
    using s(4,5) real \<open>e' = e\<close> by (auto simp: engine_ready_def)
qed

lemma sample_new_ready:
  assumes "dur.bgood b"
  shows "engine_ready length id (sample_new j b)"
proof (rule new_ready)
  show "pf.fbs_inv b" using assms by (simp add: dur.bgood_def)
  show "CreateCacheEngine sample_options (Some b) (Some j) = Inr (new_engine sample_options b j)"
    by (rule valid_options_Create [OF sample_options_valid])
  have "MarkRecoveryComplete (new_engine sample_options b j) = (Inr (), (new_engine sample_options b j)\<lparr>lifecycle := Ready\<rparr>)"
    by (simp add: MarkRecoveryComplete_def new_engine_def Let_def StartBackgroundFlushThreadIfConfigured_def sample_options_def)
  then show "MarkRecoveryComplete (new_engine sample_options b j) = (Inr (), sample_new j b)"
    by (simp only: sample_start)
  show "enabled sample_options" by (simp add: sample_options_def)
qed

lemma sample_ops_ok:
  "\<forall>c\<in>set (map Op [EPut sample_key [1], EFlush sample_key]). call_storable c" "call_storable (Op (EPut sample_key [1]))"
  by (simp_all add: storable_def sample_key_def str_def)

section \<open>Properties\<close>





text \<open>
  C4. \<^bold>\<open>Threads that keep off each other's keys share a map.\<close>  Let the threads interleave in any way in
  which no thread begins to write, flush or invalidate a key while another is in the middle of writing,
  flushing or invalidating it, and no read caches it in the middle of its invalidation.  Then the engine
  holds for every key, unless an invalidation has just removed it from the store, what the last
  committed write or completed invalidation left there, or what it held at the start; and what it has cached
  as clean is what the store has.  Reads, flushes, evictions, compactions and failed calls do not show.
\<close>

theorem interleaved_contents:
  assumes "engine_ready h ord e0" and "\<forall>c\<in>set cs. call_storable c"
    and "pool_run (e0, engine_pool h ord cs) H (e, ps)" and "unat (globalVersionCounter e0) + length H < 2 ^ 64"
    and "keys_apart H" and "\<not> being_removed k H"
  shows "engine_view (portable_deps h ord) pf.fbs_abs e k = net H (engine_view (portable_deps h ord) pf.fbs_abs e0) k \<and>
    (\<forall>en. cached (portable_deps h ord) e k = Some en \<longrightarrow> dirtyState en = Clean \<longrightarrow>
       pf.fbs_abs (backingStore e) k = Some (entry_value en))"
proof -
  let ?look = "look (portable_deps h ord) pf.fbs_abs"
  have start: "v_store (?look e0) k = Some (entry_value en)" if "v_cache (?look e0) k = Some en" "dirtyState en = Clean" for k en
    using eng.coherentD [OF eng.coreD(3) [OF eng.runningD(1)], of h ord 0 e0 k en] assms(1) that by (simp add: engine_ready_def)
  have small: "unat (v_counter (?look e0)) + length H < 2 ^ 64"
    using assms(4) by simp
  note inv = effects_contents [OF ready_run(1) [OF assms(1-3)] assms(5) small ready_look(2) [OF assms(1)] start]
  have "contents (?look e') = engine_view (portable_deps h ord) pf.fbs_abs e'" for e'
    by (simp add: contents_def engine_view_def fun_eq_iff split: option.split)
  then show ?thesis
    using key_invD(9) [OF inv assms(6)] key_invD(5) [OF inv _ _ assms(6)] by simp
qed

theorem interleaved_contents_witness:
  "\<exists>H e ps. pool_run (sample_new sample_journal sample_store, op_pool [EPut sample_key [1], EFlush sample_key]) H (e, ps) \<and>
     engine_view sample_deps pf.fbs_abs e sample_key = Some [1]"
proof -
  let ?H = "[(1, Silent), (0, Committed sample_key [1] 1), (0, Minted sample_key [1] 1), (0, Admitted), (0, Silent)] :: event history"
  obtain e ps where r: "pool_run (sample_new sample_journal sample_store, op_pool [EPut sample_key [1], EFlush sample_key]) ?H (e, ps)"
    using sample_interleaving by blast
  have apart: "keys_apart ?H" "\<not> being_removed sample_key ?H"
    by (simp_all add: starts_def busy_def being_removed_def)
  have "engine_view sample_deps pf.fbs_abs e sample_key = Some [1]"
    using interleaved_contents [OF sample_new_ready [OF sample_store_good] sample_ops_ok(1) r _ apart] by simp
  then show ?thesis
    using r by blast
qed

text \<open>
  C6. \<^bold>\<open>Unflushed data is never lost from the cache.\<close>  After any interleaving, whatever section any
  thread runs next: an unflushed entry stays cached with its value, or is replaced by a strictly newer
  version, or is dropped by a \<^verbatim>\<open>ForceInvalidate\<close> that had looked at this very version.  It becomes
  clean only at the end of a flush that has put exactly this value of this version into the store.
  Eviction, plain invalidation, slower writers and other flushes never touch it.
\<close>

theorem unflushed_data_kept:
  assumes "engine_ready h ord e0" and "\<forall>c\<in>set cs. call_storable c"
    and "pool_run (e0, engine_pool h ord cs) H (e, ps)" and "unat (globalVersionCounter e0) + length H < 2 ^ 64"
    and "pool_step (e, ps) (i, ev) (e', ps')"
    and "cached (portable_deps h ord) e k = Some en" and "dirtyState en \<noteq> Clean"
  shows "case cached (portable_deps h ord) e' k of
      None \<Rightarrow> ev = Dropped k (entry_version en) \<and> (i, Peeked k (entry_version en) True) \<in> set H
    | Some en' \<Rightarrow> entry_version en < entry_version en' \<or>
        entry_version en' = entry_version en \<and> entry_value en' = entry_value en \<and>
        (dirtyState en' = Clean \<longrightarrow> ev = FlushEnded k (entry_version en) \<and>
           (i, Stored k (entry_value en) (entry_version en)) \<in> set H)"
proof -
  let ?look = "look (portable_deps h ord) pf.fbs_abs"
  note run = ready_run [OF assms(1-3)] and s0 = ready_look(2) [OF assms(1)] and st = ready_step [OF assms(1-3,5)]
  have small: "unat (v_counter (?look e0)) + length H < 2 ^ 64"
    using assms(4) by simp
  note ok = cache_okD [OF effects_cache_ok [OF run(1) small s0]]
  have en: "v_cache (?look e) k = Some en"
    using assms(6) by simp
  have nz: "entry_version en \<noteq> 0"
    using ok(3) [OF en] assms(7) by blast
  show ?thesis
  proof (cases "cached (portable_deps h ord) e' k")
    case None
    then have d: "ev = Dropped k (entry_version en)"
      using entry_leaves [OF st(1) en] nz assms(7) by auto
    then obtain force L where "own i H = Removed k # Logged Invalidate k (entry_version en) # Peeked k (entry_version en) force # L"
      using st(2) by auto
    then have p: "(i, Peeked k (entry_version en) force) \<in> set H"
      by (metis set_own list.set_intros)
    then have "force"
      using ok(8) [OF _ en] assms(7) by (cases force) auto
    then show ?thesis
      using None d p by simp
  next
    case (Some en')
    then have "v_cache (?look e') k = Some en'"
      by simp
    from entry_origin [OF st(1) this] show ?thesis
    proof (elim disjE exE conjE)
      fix en1 st0 assume c: "v_cache (?look e) k = Some en1" "en' = en1\<lparr>dirtyState := st0\<rparr>" "ev = FlushEnded k (entry_version en1)"
      then have e1: "en1 = en" using en by simp
      obtain v L where "own i H = Logged FlushComplete k (entry_version en) # Stored k v (entry_version en) # L"
        using st(2) c(3) e1 by auto
      then have m: "(i, Stored k v (entry_version en)) \<in> set H"
        by (metis set_own list.set_intros)
      have "v = entry_value en"
        using wrote_unique [OF run(1) small s0 ok(6) [OF disjI2 [OF m]] ok(4) [OF en nz]] .
      then show ?thesis
        using Some c m e1 by simp
    qed (use Some en nz assms(7) in \<open>auto simp: stale_in_def\<close>)
  qed
qed

theorem unflushed_data_kept_witness:
  "\<exists>H e ps e' ps' en. pool_run (sample_new sample_journal sample_store, op_pool [EPut sample_key [1], EFlush sample_key]) H (e, ps) \<and>
     pool_step (e, ps) (1, FlushBegan sample_key [1] 1) (e', ps') \<and> cached sample_deps e' sample_key = Some en \<and>
     (1 < entry_version en \<or> entry_version en = 1 \<and> entry_value en = [1])"
proof -
  let ?H = "[(1, Silent), (0, Committed sample_key [1] 1), (0, Minted sample_key [1] 1), (0, Admitted), (0, Silent)]"
  obtain e ps e' ps' where r: "pool_run (sample_new sample_journal sample_store, op_pool [EPut sample_key [1], EFlush sample_key]) ?H (e, ps)"
    "cached sample_deps e sample_key = Some (sample_write 1 1 Dirty)" "pool_step (e, ps) (1, FlushBegan sample_key [1] 1) (e', ps')"
    using sample_interleaving by blast
  have "\<exists>en. cached sample_deps e' sample_key = Some en \<and> (1 < entry_version en \<or> entry_version en = 1 \<and> entry_value en = [1])"
    using unflushed_data_kept [OF sample_new_ready [OF sample_store_good] sample_ops_ok(1) r(1) _ r(3,2)]
    by (auto split: option.splits)
  then show ?thesis
    using r by blast
qed

text \<open>
  C8. \<^bold>\<open>A read never resurrects old data.\<close>  When a read caches the value it got from the store, the key
  is not cached, and since the read missed nothing has been committed to the shard and nothing
  dropped from it: no newer write of any key of the shard is overtaken, and no invalidation
  that has completed is undone.
\<close>

theorem read_fill_fenced:
  assumes "engine_ready h ord e0" and "\<forall>c\<in>set cs. call_storable c"
    and "pool_run (e0, engine_pool h ord cs) H (e, ps)" and "length H < 2 ^ 64"
    and "pool_step (e, ps) (i, Filled k v f) (e', ps')"
  shows "cached (portable_deps h ord) e k = None \<and>
    (\<exists>A B. H = A @ (i, Missed k f) # B \<and> (i, StoreRead k v) \<in> set A \<and>
      (\<forall>j k' v' ver. h k' mod length (shards e0) = h k mod length (shards e0) \<longrightarrow>
         (j, Committed k' v' ver) \<notin> set A \<and> (j, Dropped k' ver) \<notin> set A))"
proof -
  note st = ready_step [OF assms(1-3,5)]
  obtain A B where AB: "v_cache (look (portable_deps h ord) pf.fbs_abs e) k = None" "H = A @ (i, Missed k f) # B"
    "own i A = [StoreRead k v, Silent]"
    "\<forall>(j, ev)\<in>set A. \<not> mutates (\<lambda>k. h k mod length (shards e0)) (h k mod length (shards e0)) ev"
    using fill_fenced [OF ready_run(1) [OF assms(1-3)] st assms(4)] by blast
  have "(i, StoreRead k v) \<in> set A"
    using AB(3) set_own [of "StoreRead k v" i A] by simp
  then show ?thesis
    using AB(1,2,4) by (intro conjI exI [of _ A] exI [of _ B]) (auto simp: mutates_def)
qed

theorem read_fill_fenced_witness:
  "\<exists>b H e ps e' ps'. pool_run (sample_new sample_journal b, op_pool [EGet sample_key]) H (e, ps) \<and>
     pool_step (e, ps) (0, Filled sample_key [1] 0) (e', ps') \<and> cached sample_deps e sample_key = None"
proof -
  obtain b where b: "dur.bgood b" "pf.fbs_abs b = (pf.fbs_abs sample_store)(sample_key \<mapsto> [1])"
    using dur.bgood_Put [OF sample_store_good, of sample_key "[1]"] sample_ops_ok(2) by auto
  then obtain e ps e' ps' where r: "pool_run (sample_new sample_journal b, op_pool [EGet sample_key])
      [(0, StoreRead sample_key [1]), (0, Silent), (0, Missed sample_key 0), (0, Silent)] (e, ps)"
    "pool_step (e, ps) (0, Filled sample_key [1] 0) (e', ps')"
    using sample_fill [OF b(1), of 1] by auto
  have ok: "\<forall>c\<in>set (map Op [EGet sample_key]). call_storable c"
    using sample_ops_ok(2) by simp
  have "cached sample_deps e sample_key = None"
    using read_fill_fenced [OF sample_new_ready [OF b(1)] ok r(1) _ r(2)] by simp
  then show ?thesis
    using r by blast
qed



end
