(* ===== verification/Races.thy ===== *)
theory Races
  imports SampleEngine
begin

text \<open>
  Interleavings that lose an acknowledged write: two compactions that overlap, and a flush that is
  overtaken by a newer write and its flush.
\<close>

text \<open>A write and its flush, each to the end.\<close>

lemma sample_put_run:
  assumes "pool_run c0 H (sample_at (one_shard eo f m) c j b ver q False, ps)" "i < length ps"
    and "ps ! i = call_prog sample_deps (Op (EPut sample_key [x]))" and "sample_log R n j" and "unat (ver + 1) \<le> 10"
    and "case eo of None \<Rightarrow> True | Some en \<Rightarrow> entry_key en = sample_key \<and> length (entry_value en) = 1 \<and> entry_version en < ver + 1"
  shows "\<exists>H f m c j. pool_run c0 H (sample_at (holding x (ver + 1) Dirty f m) c j b (ver + 1) q False,
      ps[i := ok_reply]) \<and> sample_log (R @ [journal_record Upsert sample_key [x] (ver + 1)]) (n + 1) j"
  using sample_Put [OF assms(4,6,5), of x f m c b q] pool_run_call [OF assms(1,2)] unfolding assms(3) by metis

lemma sample_flush_run:
  assumes "pool_run c0 H (sample_at (holding x ver Dirty f m) c j b w q p, ps)" "i < length ps"
    and "ps ! i = call_prog sample_deps (Op (EFlush sample_key))" and "sample_log R n j" and "unat ver \<le> 10" and "dur.bgood b"
  shows "\<exists>H c j b'. pool_run c0 H (sample_at (holding x ver Clean f m) c j b' w q p, ps[i := ok_reply]) \<and>
      sample_log (R @ [journal_record FlushIntent sample_key [] ver, journal_record FlushComplete sample_key [] ver]) (n + 2) j \<and>
      dur.bgood b' \<and> pf.fbs_abs b' = (pf.fbs_abs b)(sample_key \<mapsto> [x])"
  using sample_Flush [OF assms(4-6), of x f m c w q p] pool_run_call [OF assms(1,2)] unfolding assms(3) by metis

lemma sample_compact_run:
  assumes "pool_run c0 H (sample_at s c j b w q p, ps)" "i < length ps" and "ps ! i = compacting 0" and "sample_log R n j" and "n \<noteq> 0"
  shows "\<exists>H j. pool_run c0 H (sample_at s c j b w q False, ps[i := ok_reply]) \<and> sample_log [] 0 j"
  using sample_compacts [OF assms(4,5), of s c b w q p] pool_run_call [OF assms(1,2)] unfolding assms(3) by metis

lemma sample_scan_run:
  assumes "pool_run c0 H (sample_at (holding x ver Clean f m) c j b w 0 p, ps)" "i < length ps"
    and "ps ! i = call_prog sample_deps (Op EFlushAll)" and "sample_log R n j" and "n \<noteq> 0"
  shows "\<exists>H. pool_run c0 H (sample_at (holding x ver Clean f m) c j b w 0 True, ps[i := compacting 0])"
  using pool_run_sections [OF assms(1-3) sample_FlushAll_scans] assms(4,5) by (auto simp: sample_log_def)

text \<open>
  C36. \<^bold>\<open>Overlapping compactions lose an acknowledged write.\<close>  Two \<^verbatim>\<open>FlushAll\<close> calls share the one
  flag \<^verbatim>\<open>compactionPaused_\<close>.  When the second finishes it lets writers in again while the first
  still holds that the cache is clean: a write that is admitted, journalled and acknowledged then
  loses its journal record to the first call's truncation.  All five calls report success and the
  engine shows the new value; after a crash the next start shows the old one.
\<close>

theorem overlapping_compactions_lose_write:
  "\<exists>H e e'. pool_run (sample_engine\<lparr>lifecycle := Ready\<rparr>,
      op_pool [EPut sample_key [1], EFlush sample_key, EFlushAll, EFlushAll, EPut sample_key [2]]) H (e, replicate 5 ok_reply) \<and>
    engine_view sample_deps pf.fbs_abs e sample_key = Some [2] \<and>
    start_engine length id sample_options (crash e) = Some e' \<and> engine_view sample_deps pf.fbs_abs e' sample_key = Some [1]"
proof -
  let ?ps = "op_pool [EPut sample_key [1], EFlush sample_key, EFlushAll, EFlushAll, EPut sample_key [2]]"
  let ?run = "pool_run (sample_engine\<lparr>lifecycle := Ready\<rparr>, ?ps)"
  have "?run [] (sample_new sample_journal sample_store, ?ps)"
    using sample_start [of sample_store sample_journal] pool_run_Nil by (simp add: sample_engine_def)
  from sample_put_run [OF this, of 0 1] obtain H f m c j R n where
    "?run H (sample_at (holding 1 1 Dirty f m) c j sample_store 1 0 False, ?ps[0 := ok_reply])"
    "sample_log R (Suc n) j"
    using sample_journal_log by fastforce
  from sample_flush_run [OF this(1) _ _ this(2) _ sample_store_good, of 1] obtain H c j b R n where
    "?run H (sample_at (holding 1 1 Clean f m) c j b 1 0 False, ?ps[0 := ok_reply, 1 := ok_reply])"
    "sample_log R (Suc n) j" and b: "dur.bgood b" "pf.fbs_abs b sample_key = Some [1]"
    by fastforce
  note flushed = this
  from sample_scan_run [OF this(1) _ _ this(2), of 2] obtain H where
    "?run H (sample_at (holding 1 1 Clean f m) c j b 1 0 True, ?ps[0 := ok_reply, 1 := ok_reply, 2 := compacting 0])"
    by fastforce
  from sample_scan_run [OF this _ _ flushed(2), of 3] obtain H where
    "?run H (sample_at (holding 1 1 Clean f m) c j b 1 0 True,
       ?ps[0 := ok_reply, 1 := ok_reply, 2 := compacting 0, 3 := compacting 0])"
    by fastforce
  from sample_compact_run [OF this _ _ flushed(2), of 3] obtain H j where
    "?run H (sample_at (holding 1 1 Clean f m) c j b 1 0 False,
       ?ps[0 := ok_reply, 1 := ok_reply, 2 := compacting 0, 3 := ok_reply])" "sample_log [] 0 j"
    by fastforce
  from sample_put_run [OF this(1) _ _ this(2), of 4 2] obtain H f m c j R n where
    "?run H (sample_at (holding 2 2 Dirty f m) c j b 2 0 False,
       ?ps[0 := ok_reply, 1 := ok_reply, 2 := compacting 0, 3 := ok_reply, 4 := ok_reply])" "sample_log R (Suc n) j"
    by fastforce
  from sample_compact_run [OF this(1) _ _ this(2), of 2] obtain H j where
    "?run H (sample_at (holding 2 2 Dirty f m) c j b 2 0 False,
       ?ps[0 := ok_reply, 1 := ok_reply, 2 := ok_reply, 3 := ok_reply, 4 := ok_reply])" "sample_log [] 0 j"
    by fastforce
  then show ?thesis
    using sample_restart [of 0 "sample_at (holding 2 2 Dirty f m) c j b 2 0 False"] b sample_view
    by (fastforce simp: numeral_eq_Suc)
qed


lemma sample_flush_begin_run:
  assumes "pool_run c0 H (sample_at (holding x ver Dirty f m) c j b w q p, ps)" "i < length ps"
    and "ps ! i = call_prog sample_deps (Op (EFlush sample_key))" and "sample_log R n j" and "unat ver \<le> 10"
  shows "\<exists>H j. pool_run c0 H (sample_at (holding x ver FlushInProgress f m) c j b w q p,
      ps[i := op_reply (store_back_prog sample_deps sample_key [x] ver)]) \<and>
    sample_log (R @ [journal_record FlushIntent sample_key [] ver]) (n + 1) j"
  using sample_flush_begins [OF assms(4,5), of x f m c b w q p] pool_run_sections [OF assms(1-3)] by metis

lemma sample_flush_end_run:
  assumes "pool_run c0 H (sample_at (holding y w st f m) c j b u q p, ps)" "i < length ps"
    and "ps ! i = op_reply (store_back_prog sample_deps sample_key [x] ver)" and "sample_log R n j" and "unat ver \<le> 10" and "dur.bgood b"
  shows "\<exists>H c j b'. pool_run c0 H
      (sample_at (holding y w (if w = ver \<and> st = FlushInProgress then Clean else st) f m) c j b' u q p,
       ps[i := ok_reply]) \<and> sample_log (R @ [journal_record FlushComplete sample_key [] ver]) (n + 1) j \<and>
      dur.bgood b' \<and> pf.fbs_abs b' = (pf.fbs_abs b)(sample_key \<mapsto> [x])"
  using sample_store_back [OF assms(4-6), of x y w st f m c u q p] pool_run_call [OF assms(1,2)] unfolding assms(3) by metis

text \<open>
  C37. \<^bold>\<open>A late flush overwrites a newer value in the store.\<close>  A flush has taken the value of version 1
  and is about to write it; version 2 is written and flushed by other threads; then the first flush
  writes version 1 over it.  The entry of version 2 is clean, so \<^verbatim>\<open>FlushAll\<close> has nothing to write, reports
  success and truncates the journal: the store, and the next start, have the old value.
\<close>

theorem late_flush_undoes_write:
  "\<exists>H e e'. pool_run (sample_engine\<lparr>lifecycle := Ready\<rparr>,
      op_pool [EPut sample_key [1], EFlush sample_key, EPut sample_key [2], EFlush sample_key, EFlushAll]) H (e, replicate 5 ok_reply) \<and>
    engine_view sample_deps pf.fbs_abs e sample_key = Some [2] \<and>
    start_engine length id sample_options (crash e) = Some e' \<and> engine_view sample_deps pf.fbs_abs e' sample_key = Some [1]"
proof -
  let ?ps = "op_pool [EPut sample_key [1], EFlush sample_key, EPut sample_key [2], EFlush sample_key, EFlushAll]"
  let ?run = "pool_run (sample_engine\<lparr>lifecycle := Ready\<rparr>, ?ps)" and ?late = "op_reply (store_back_prog sample_deps sample_key [1] 1)"
  have "?run [] (sample_new sample_journal sample_store, ?ps)"
    using sample_start [of sample_store sample_journal] pool_run_Nil by (simp add: sample_engine_def)
  from sample_put_run [OF this, of 0 1] obtain H f m c j R n where
    "?run H (sample_at (holding 1 1 Dirty f m) c j sample_store 1 0 False, ?ps[0 := ok_reply])"
    "sample_log R (Suc n) j"
    using sample_journal_log by fastforce
  from sample_flush_begin_run [OF this(1) _ _ this(2), of 1] obtain H j R n where
    "?run H (sample_at (holding 1 1 FlushInProgress f m) c j sample_store 1 0 False, ?ps[0 := ok_reply, 1 := ?late])"
    "sample_log R (Suc n) j"
    by fastforce
  from sample_put_run [OF this(1) _ _ this(2), of 2 2] obtain H f m c j R n where
    "?run H (sample_at (holding 2 2 Dirty f m) c j sample_store 2 0 False,
       ?ps[0 := ok_reply, 1 := ?late, 2 := ok_reply])" "sample_log R (Suc n) j"
    by fastforce
  from sample_flush_run [OF this(1) _ _ this(2) _ sample_store_good, of 3] obtain H c j b R n where
    "?run H (sample_at (holding 2 2 Clean f m) c j b 2 0 False,
       ?ps[0 := ok_reply, 1 := ?late, 2 := ok_reply, 3 := ok_reply])"
    "sample_log R (Suc n) j" and b: "dur.bgood b"
    by fastforce
  from sample_flush_end_run [OF this(1) _ _ this(2) _ b, of 1] obtain H c j b R n where
    "?run H (sample_at (holding 2 2 Clean f m) c j b 2 0 False,
       ?ps[0 := ok_reply, 1 := ok_reply, 2 := ok_reply, 3 := ok_reply])"
    "sample_log R (Suc n) j" and b: "dur.bgood b" "pf.fbs_abs b sample_key = Some [1]"
    by fastforce
  note flushed = this
  from sample_scan_run [OF this(1) _ _ this(2), of 4] obtain H where
    "?run H (sample_at (holding 2 2 Clean f m) c j b 2 0 True,
       ?ps[0 := ok_reply, 1 := ok_reply, 2 := ok_reply, 3 := ok_reply, 4 := compacting 0])"
    by fastforce
  from sample_compact_run [OF this _ _ flushed(2), of 4] obtain H j where
    "?run H (sample_at (holding 2 2 Clean f m) c j b 2 0 False,
       ?ps[0 := ok_reply, 1 := ok_reply, 2 := ok_reply, 3 := ok_reply, 4 := ok_reply])" "sample_log [] 0 j"
    by fastforce
  then show ?thesis
    using sample_restart [of 0 "sample_at (holding 2 2 Clean f m) c j b 2 0 False"] b sample_view
    by (fastforce simp: numeral_eq_Suc)
qed

end
