(* ===== verification/Spec2Isabelle.thy ===== *)
theory Spec2Isabelle
  imports MainWindow PipeHandles ServiceHost Win32Engine Win32ConfigStore ServiceInstaller Volume Names Logging Concurrency Races
begin

text \<open>
  \<^bold>\<open>QuantumCache.\<close>  A Windows service that caches a key/value store in memory and survives power loss.

  \<^bold>\<open>The program.\<close>  A cache engine (\<^verbatim>\<open>src/src/CoreEngine\<close>) answers reads and writes from shards of
  entries in least-recently-used order.  Before it acknowledges a write it appends a record to a
  write-ahead journal (\<^verbatim>\<open>PowerResilience\<close>); later it flushes dirty entries to a log-structured backing
  store (\<^verbatim>\<open>Storage\<close>), and truncates the journal when nothing is dirty.  At start a recovery manager reads a
  session marker and, unless the last session was closed cleanly, has the engine replay the journal.
  The service process (\<^verbatim>\<open>Service\<close>) puts these together, loads its configuration (\<^verbatim>\<open>Configuration\<close>),
  serves requests over a named pipe (\<^verbatim>\<open>Ipc\<close>), and is itself driven by the Windows service manager; a
  small client in the user interface (\<^verbatim>\<open>src/gui\<close>) asks it for its status.

  \<^bold>\<open>Theories and sources.\<close>  Each theory opens with what it holds.
  \<^item> \<open>Prelude\<close>: bytes, words, little-endian integers, list lemmas.
  \<^item> \<open>Common\<close>: \<^verbatim>\<open>ErrorCode.h\<close>, \<^verbatim>\<open>Result.h\<close>.  \<open>Crc32\<close>: \<^verbatim>\<open>Crc32.cpp\<close>, against the bitwise definition
    of the polynomial, and the detection of damaged stretches of up to 32 bits.
  \<^item> \<open>File\<close>: \<^verbatim>\<open>IFile.h\<close>, \<^verbatim>\<open>PortableFile.cpp\<close> and the locale \<open>file_contract\<close>.  \<open>Reader\<close>: reading
    a file field by field, related to reading a list of bytes.  \<open>Win32File\<close>: \<^verbatim>\<open>Win32File.cpp\<close>.
  \<^item> \<open>WriteAheadJournal\<close>: \<^verbatim>\<open>WriteAheadJournal.cpp\<close> and the locale \<open>journal_contract\<close>.
    \<open>JournalRecordCodec\<close>: \<^verbatim>\<open>JournalRecords.h\<close>, \<^verbatim>\<open>JournalRecordCodec.cpp\<close>.
  \<^item> \<open>BackingStore\<close>: \<^verbatim>\<open>FileBackingStore.cpp\<close> and the locale \<open>backing_store\<close> (a finite map).
  \<^item> \<open>SessionMarker\<close>, \<open>RecoveryManager\<close>: the files of the same names; locale \<open>session_marker\<close>.
  \<^item> \<open>Shard\<close>: the sections of \<^verbatim>\<open>CacheEngine.cpp\<close> that run under a shard mutex, with counters of 64
    bits.  \<open>CacheEngine\<close>: the rest of the file.
  \<^item> \<open>EngineMap\<close>: the engine refines a map (locale \<open>engine_env\<close>).  \<open>EngineDurability\<close>: the
    journal always determines the unflushed entries (locale \<open>engine_durable\<close>).  \<open>EngineSessions\<close>: sessions with power
    cuts between them (locale \<open>engine_restart\<close>).  \<open>Win32Engine\<close>: all three over Windows files.
    \<open>EngineInterface\<close>: \<^verbatim>\<open>ICacheEngine.h\<close> and the lifecycle it promises (locale \<open>engine_interface\<close>).
  \<^item> \<open>Threads\<close>: programs made of locked sections, and pools of threads that take turns section by section (locale
    \<open>thread_calls\<close>).  \<open>EngineThreads\<close>: the engine's operations split at their locks, waits and store calls.
    \<open>EngineEvents\<close>: what each section does to the cache, the fences, the store and the admission state.
    \<open>ThreadHistories\<close>: invariants of every history of such events.  \<open>KeyHistories\<close>: what a history in which no
    two threads write, flush or invalidate one key at a time leaves of each key.  \<open>Concurrency\<close>: what they
    say of the engine's threads.  \<open>SampleEngine\<close>, \<open>Races\<close>: concrete runs, among them two that lose a write.
  \<^item> \<open>MessageCodec\<close>: \<^verbatim>\<open>Protocol.h\<close>, \<^verbatim>\<open>MessageCodec.cpp\<close>.  \<open>NamedPipe\<close>:
    \<^verbatim>\<open>Win32NamedPipeTransport.cpp\<close>, its frames and one accept.  \<open>PipeHandles\<close>: its handles, over the life of a
    server and of a connection.  \<open>StatusClient\<close>: \<^verbatim>\<open>RecoveryStatusClient.cpp\<close>.  \<open>MainWindow\<close>: what the
    window shows of the status, \<^verbatim>\<open>MainWindow.xaml.cpp\<close>.
  \<^item> \<open>AtomicReplace\<close>: replacing a file, on POSIX.  \<open>Configuration\<close>: \<^verbatim>\<open>JsonConfigStore.cpp\<close>, \<^verbatim>\<open>AppConfig.h\<close>.
    \<open>Win32ConfigStore\<close>: the same file as it is built for Windows.
  \<^item> \<open>Service\<close>: \<^verbatim>\<open>main_service.cpp\<close>.  \<open>ServiceHost\<close>: \<^verbatim>\<open>Win32ServiceHost.cpp\<close> and \<^verbatim>\<open>wmain\<close>.
    \<open>ServiceInstaller\<close>: \<^verbatim>\<open>Win32ServiceInstaller.cpp\<close>.  \<open>Logging\<close>: \<^verbatim>\<open>ILogger.h\<close>, \<^verbatim>\<open>Logger.cpp\<close> and the sinks.
  \<^item> \<open>Volume\<close>: \<^verbatim>\<open>IVolume.h\<close>, \<^verbatim>\<open>Win32Volume.cpp\<close>, \<^verbatim>\<open>PortableVolume.cpp\<close>.  \<open>Names\<close>: the \<^verbatim>\<open>ToString\<close> functions.

  \<^bold>\<open>How the model reads.\<close>  A class is a record of its members, an interface a record of functions that
  pass the implementation's state, and an operation a function that returns its result and the new
  state; \<^verbatim>\<open>Result<T>\<close> is \<open>Error + 'a\<close>.  What the operating system does is an argument: a file carries the
  outcomes of the calls to come (any of them may fail, a write after any number of bytes), and has a
  separate durable content that only \<^verbatim>\<open>FlushDurable\<close> brings up to date, so a power cut is a restart on
  the durable bytes.  Loops that are not structurally recursive are proved to terminate, or are partial
  functions with value \<open>None\<close> for not returning, and the theorems say that they return.

  \<^bold>\<open>Interfaces.\<close>  \<open>file_contract\<close> is interpreted on \<^verbatim>\<open>PortableFile\<close> (\<open>pf\<close>) and \<^verbatim>\<open>Win32File\<close> (\<open>wf\<close>); the
  journal, marker and store are sublocales of it, so each is verified once over every file; the engine is
  verified over every store and journal that meet their contracts (\<open>eng\<close>, \<open>dur\<close>, \<open>weng\<close>, \<open>wdur\<close>),
  and its sessions over every pair of files that can be reopened (\<open>restart\<close>, \<open>wrestart\<close>);
  its operations are an instance of \<open>thread_calls\<close> (\<open>eng.threads\<close>): each section has the effect of its event in
  any state the other threads may have left;
  \<open>log_sink\<close> is interpreted on both sinks (\<open>mem\<close>, \<open>file_sink\<close>), \<open>volume_contract\<close> on both volumes
  (\<open>win32_vol\<close>, \<open>portable_vol\<close>), and \<open>engine_interface\<close> on the engine over any store and journal (\<open>eng_if\<close>).

  \<^bold>\<open>What is shown.\<close>  The engine answers like a map whatever fails underneath, on both kinds of file; what
  it acknowledged survives any sequence of sessions that end in an orderly stop or a power cut, through
  the callbacks of the service down to the bytes of the three files; the shards keep their index, counters and
  budgets consistent and evict the least recently used clean entries only; journal, store and marker read
  back what they wrote and stop at torn or damaged records; the configuration file is replaced atomically,
  on POSIX and on Windows, and loads as it was saved; the lifecycle of the engine only moves forward and
  an engine that is not ready or has stopped refuses every call; IPC messages decode as they were encoded, over a pipe that delivers them in any
  chunks, requests act on the same map, and the pipe server leaks no handle; installing the service is all
  or nothing and removing it undoes it; the service is reported running only after recovery and
  stopped only after its stop callback.  Threads that keep off each other's keys share a map.  However the threads of the engine interleave, every call returns,
  versions are in journal order, unflushed entries are kept until their own value is in the store, a read
  never caches what a write or an invalidation has overtaken, and (if compactions do not overlap) the journal is
  truncated only when every write is in the store.  Some theorems show where the code falls short of its
  comments: replaying an invalidation removes a later value, an append behind a torn record is lost,
  an orderly stop whose flush failed is still marked clean, overlapping compactions truncate the record
  of an acknowledged write, and a delayed flush overwrites a newer value in the store.

  \<^bold>\<open>Bounds.\<close>  The fuel of \<open>relieve_attempts\<close> is the code's own limit of 64 flush attempts per call.  The
  theorems on operation sequences assume fewer than \<open>2\<^sup>6\<^sup>4\<close> operations (sections, for threads), so that entry versions do not wrap,
  and keys and values within the limits the decoders enforce (64 MiB in the journal, 256 MiB in the store).

  \<^bold>\<open>Not modelled.\<close>  The security descriptor of the pipe and the layout of the window, which are fixed
  arguments to Windows.  What the logger is told by the engine and the service.  That
  \<^verbatim>\<open>StopBackgroundFlushThread\<close> joins the background thread (its pools have the runs in which it does, and
  more).  Weak memory: accesses to atomics are sequentially consistent steps.  Power cuts between the
  sections of operations that overlap: the theorems on power cuts have one thread.  The sessions of the
  service over Windows files: \<open>Service\<close> is over portable files, the sessions of the engine over both.  Benchmarks and tests.
\<close>

end
